(* ===== verification/Prelude.thy ===== *)
theory Prelude
  imports Main "HOL-Library.Word" "HOL-Library.AList" "HOL-Library.Monad_Syntax"
begin

text \<open>
  Shared vocabulary of the development: the names of the model's basic types, assertions and
  loops in the option monad (\<open>None\<close> stands for a failed assertion, an exception that leaves a
  \<open>noexcept\<close> function, or undefined behaviour), and the association lists that model the
  program's unordered maps (\<open>robin_hood::unordered_map\<close>, \<open>dice::sparse_map\<close>) together with the
  interface \<open>hash_map\<close> they satisfy.
\<close>

unbundle bit_operations_syntax

named_theorems al_simps \<open>rewrite rules for association lists used as unordered maps\<close>
named_theorems loop_rules \<open>proof rules for loops in the option monad\<close>

type_synonym key_part = "64 word"
type_synonym raw_key = "key_part list"
type_synonym 'v entry = "raw_key \<times> 'v"
type_synonym node_id = "64 word"

subsection \<open>Assertions and loops\<close>

definition check :: "bool \<Rightarrow> unit option" where
  "check b = (if b then Some () else None)"

lemma check_simps [simp]:
  "check True = Some ()" "check False = None"
  "(check b \<bind> f = Some y) = (b \<and> f () = Some y)"
  "(check b = Some u) = b"
  by (auto simp: check_def split: if_splits)

fun foldM :: "('s \<Rightarrow> 'a \<Rightarrow> 's option) \<Rightarrow> 'a list \<Rightarrow> 's \<Rightarrow> 's option" where
  "foldM f [] s = Some s"
| "foldM f (x # xs) s = (case f s x of None \<Rightarrow> None | Some s' \<Rightarrow> foldM f xs s')"

lemma foldM_append: "foldM f (xs @ ys) s = (case foldM f xs s of None \<Rightarrow> None | Some s' \<Rightarrow> foldM f ys s')"
  by (induction xs arbitrary: s) (auto split: option.splits)

lemma foldM_prefix_rule:
  assumes "P ys s"
    and "\<And>as x bs s. xs = as @ x # bs \<Longrightarrow> P (ys @ as) s \<Longrightarrow> \<exists>s'. f s x = Some s' \<and> P (ys @ as @ [x]) s'"
  shows "\<exists>s'. foldM f xs s = Some s' \<and> P (ys @ xs) s'"
  using assms
proof (induction xs arbitrary: ys s)
  case Nil
  then show ?case by simp
next
  case (Cons x xs)
  obtain s1 where s1: "f s x = Some s1" "P (ys @ [x]) s1"
    using Cons.prems(2)[of "[]" x xs s] Cons.prems(1) by auto
  have "\<exists>s'. foldM f xs s1 = Some s' \<and> P ((ys @ [x]) @ xs) s'"
  proof (rule Cons.IH)
    show "P (ys @ [x]) s1" by (rule s1(2))
    fix as y bs s
    assume "xs = as @ y # bs" "P ((ys @ [x]) @ as) s"
    then show "\<exists>s'. f s y = Some s' \<and> P ((ys @ [x]) @ as @ [y]) s'"
      using Cons.prems(2)[of "x # as" y bs s] by simp
  qed
  then show ?case using s1(1) by simp
qed

text \<open>A loop that succeeds at every element keeps an invariant that may mention the elements
  already processed.\<close>

lemma foldM_rule [loop_rules]:
  assumes "P [] s"
    and "\<And>as x bs s. xs = as @ x # bs \<Longrightarrow> P as s \<Longrightarrow> \<exists>s'. f s x = Some s' \<and> P (as @ [x]) s'"
  shows "\<exists>s'. foldM f xs s = Some s' \<and> P xs s'"
  using foldM_prefix_rule[of P "[]" s xs f] assms by simp

text \<open>Evaluating a list of computations in order.\<close>

fun option_list :: "'a option list \<Rightarrow> 'a list option" where
  "option_list [] = Some []"
| "option_list (x # xs) = do { a \<leftarrow> x; as \<leftarrow> option_list xs; Some (a # as) }"

lemma option_list_defined: "\<forall>x \<in> set xs. \<exists>y. x = Some y \<Longrightarrow> \<exists>ys. option_list xs = Some ys \<and> length ys = length xs"
  by (induction xs) auto

lemma option_list_map: "(\<And>x. x \<in> set xs \<Longrightarrow> f x = Some (g x)) \<Longrightarrow> option_list (map f xs) = Some (map g xs)"
  by (induction xs) auto

text \<open>A loop whose body calls the function being defined.\<close>

lemma foldM_mono [partial_function_mono]:
  assumes "\<And>s x. mono_option (\<lambda>f. B f s x)"
  shows "mono_option (\<lambda>f. foldM (B f) xs s)"
proof (induction xs arbitrary: s)
  case (Cons x xs)
  have "mono_option (\<lambda>f. Option.bind (B f s x) (\<lambda>s'. foldM (B f) xs s'))"
    by (rule bind_mono[OF assms Cons.IH])
  moreover have "foldM (B f) (x # xs) s = Option.bind (B f s x) (\<lambda>s'. foldM (B f) xs s')" for f
    by (cases "B f s x") simp_all
  ultimately show ?case by (simp only:)
qed (simp add: option.const_mono)

subsection \<open>Unordered maps\<close>

text \<open>The interface the program relies on: what a lookup returns after \<open>operator[] =\<close>, after
  \<open>erase\<close>, and that each operation keeps one pair per key.\<close>

locale hash_map =
  fixes find_in :: "'m \<Rightarrow> 'k \<Rightarrow> 'a option"
    and put_in :: "'k \<Rightarrow> 'a \<Rightarrow> 'm \<Rightarrow> 'm"
    and erase_in :: "'k \<Rightarrow> 'm \<Rightarrow> 'm"
    and invar :: "'m \<Rightarrow> bool"
  assumes find_put: "invar m \<Longrightarrow> find_in (put_in k a m) = (find_in m)(k \<mapsto> a)"
    and find_erase: "invar m \<Longrightarrow> find_in (erase_in k m) = (find_in m)(k := None)"
    and invar_put: "invar m \<Longrightarrow> invar (put_in k a m)"
    and invar_erase: "invar m \<Longrightarrow> invar (erase_in k m)"
begin

lemma find_put_other: "invar m \<Longrightarrow> k \<noteq> k' \<Longrightarrow> find_in (put_in k a m) k' = find_in m k'"
  by (simp add: find_put)

lemma dom_put: "invar m \<Longrightarrow> dom (find_in (put_in k a m)) = insert k (dom (find_in m))"
  by (simp add: find_put)

lemma dom_erase: "invar m \<Longrightarrow> dom (find_in (erase_in k m)) = dom (find_in m) - {k}"
  by (simp add: find_erase)

text \<open>Moving a value from one key to another, as the program re-attaches a node.\<close>

lemma find_move: "invar m \<Longrightarrow> k \<noteq> k' \<Longrightarrow>
  find_in (put_in k' a (erase_in k m)) = (find_in m)(k := None, k' \<mapsto> a)"
  by (simp add: find_put find_erase invar_erase)

lemma invar_move: "invar m \<Longrightarrow> invar (put_in k' a (erase_in k m))"
  by (simp add: invar_put invar_erase)

end

abbreviation keys_of :: "('k \<times> 'a) list \<Rightarrow> 'k list" where
  "keys_of al \<equiv> map fst al"

abbreviation al_ok :: "('k \<times> 'a) list \<Rightarrow> bool" where
  "al_ok al \<equiv> distinct (keys_of al)"

interpretation al: hash_map map_of AList.update AList.delete "al_ok :: ('k \<times> 'a) list \<Rightarrow> bool"
proof
  fix m :: "('k \<times> 'a) list" and k :: 'k and a :: 'a
  assume ok: "al_ok m"
  show "map_of (AList.update k a m) = (map_of m)(k \<mapsto> a)" by (simp add: update_conv')
  show "map_of (AList.delete k m) = (map_of m)(k := None)" by (simp add: delete_conv')
  show "al_ok (AList.update k a m)" using ok by (rule distinct_update)
  show "al_ok (AList.delete k m)" using ok by (rule distinct_delete)
qed

text \<open>\<open>emplace\<close> of the unordered maps inserts only when the key is absent.\<close>

definition al_emplace :: "'k \<Rightarrow> 'a \<Rightarrow> ('k \<times> 'a) list \<Rightarrow> ('k \<times> 'a) list" where
  "al_emplace k a al = (case map_of al k of None \<Rightarrow> AList.update k a al | Some _ \<Rightarrow> al)"

text \<open>\<open>operator[]\<close> followed by a modification of the (default constructed) value.\<close>

definition al_modify :: "'k \<Rightarrow> 'a \<Rightarrow> ('a \<Rightarrow> 'a) \<Rightarrow> ('k \<times> 'a) list \<Rightarrow> ('k \<times> 'a) list" where
  "al_modify k dflt f al = AList.update k (f (case map_of al k of None \<Rightarrow> dflt | Some a \<Rightarrow> a)) al"

lemma al_emplace_find [al_simps]:
  "map_of (al_emplace k a al) k' = (if k' = k \<and> map_of al k = None then Some a else map_of al k')"
  by (auto simp: al_emplace_def update_conv' split: option.splits)

lemma al_modify_find [al_simps]:
  "map_of (al_modify k d f al) k' =
     (if k' = k then Some (f (case map_of al k of None \<Rightarrow> d | Some a \<Rightarrow> a)) else map_of al k')"
  by (simp add: al_modify_def update_conv')

lemma al_ok_intros [simp]:
  "al_ok al \<Longrightarrow> al_ok (AList.update k a al)"
  "al_ok al \<Longrightarrow> al_ok (AList.delete k al)"
  "al_ok al \<Longrightarrow> al_ok (al_emplace k a al)"
  "al_ok al \<Longrightarrow> al_ok (al_modify k d f al)"
  by (auto simp: al_emplace_def al_modify_def al.invar_put al.invar_erase split: option.splits)

declare update_conv' [al_simps] delete_conv' [al_simps]

lemma al_mem_iff: "al_ok al \<Longrightarrow> (k, a) \<in> set al \<longleftrightarrow> map_of al k = Some a"
  by (auto intro: map_of_is_SomeI dest: map_of_SomeD)

lemma al_find_None_iff: "map_of al k = None \<longleftrightarrow> k \<notin> set (keys_of al)"
  by (simp add: map_of_eq_None_iff)

lemma al_find_all_None:
  assumes "\<And>k. map_of al k = None"
  shows "al = []"
proof (cases al)
  case (Cons x xs)
  then show ?thesis using assms[of "fst x"] by simp
qed

lemma al_find_Some_ex: "k \<in> set (keys_of al) \<Longrightarrow> \<exists>a. map_of al k = Some a"
  by (metis al_find_None_iff not_Some_eq)

subsection \<open>Sums over association lists\<close>

lemma sum_al_update:
  fixes f :: "'k \<times> 'a \<Rightarrow> int"
  shows "al_ok al \<Longrightarrow> (\<Sum>p\<leftarrow>AList.update k a al. f p)
    = (\<Sum>p\<leftarrow>al. f p) + f (k, a) - (case map_of al k of None \<Rightarrow> 0 | Some b \<Rightarrow> f (k, b))"
  by (induction al) (auto split: option.splits dest: map_of_SomeD intro: rev_image_eqI)

lemma delete_absent: "k \<notin> set (keys_of al) \<Longrightarrow> AList.delete k al = al"
  by (induction al) (auto simp: AList.delete_eq)

lemma sum_al_delete:
  fixes f :: "'k \<times> 'a \<Rightarrow> int"
  shows "al_ok al \<Longrightarrow> (\<Sum>p\<leftarrow>AList.delete k al. f p)
    = (\<Sum>p\<leftarrow>al. f p) - (case map_of al k of None \<Rightarrow> 0 | Some b \<Rightarrow> f (k, b))"
proof (induction al)
  case (Cons x al)
  obtain k' b where x: "x = (k', b)" by (cases x)
  show ?case
  proof (cases "k' = k")
    case True
    with Cons.prems x have "AList.delete k (x # al) = al"
      by (simp add: delete_absent)
    with True x show ?thesis by simp
  next
    case False
    with Cons x show ?thesis by simp
  qed
qed simp

text \<open>Splitting a sum over a map by a predicate on its keys.\<close>

lemma sum_al_split:
  fixes f :: "'k \<times> 'a \<Rightarrow> int"
  shows "(\<Sum>p\<leftarrow>al. f p) = (\<Sum>p\<leftarrow>filter P al. f p) + (\<Sum>p\<leftarrow>filter (\<lambda>p. \<not> P p) al. f p)"
  by (induction al) auto

lemma sum_al_nonneg:
  fixes f :: "'a \<Rightarrow> int"
  shows "(\<And>p. p \<in> set al \<Longrightarrow> 0 \<le> f p) \<Longrightarrow> 0 \<le> (\<Sum>p\<leftarrow>al. f p)"
  by (induction al) auto

lemma sum_al_member_le:
  fixes f :: "'a \<Rightarrow> int"
  shows "(\<And>p. p \<in> set al \<Longrightarrow> 0 \<le> f p) \<Longrightarrow> x \<in> set al \<Longrightarrow> f x \<le> (\<Sum>p\<leftarrow>al. f p)"
proof (induction al)
  case (Cons y al)
  have rest: "0 \<le> (\<Sum>p\<leftarrow>al. f p)"
    by (rule sum_al_nonneg) (simp add: Cons.prems(1))
  show ?case using Cons rest by fastforce
qed simp

end
