(* ===== verification/Keys.thy ===== *)
theory Keys
  imports Prelude
begin

text \<open>
  Keys of the hypertrie and what slices them: \<open>RawKey\<close>, \<open>RawSliceKey\<close> (internal/raw/RawKey.hpp),
  \<open>RawKeyPositions\<close> (internal/raw/RawDiagonalPositions.hpp), and the user-facing \<open>SliceKey\<close>,
  \<open>NonZeroEntry\<close> and \<open>Entry\<close> (Key.hpp). A key of depth \<open>d\<close> is a list of length \<open>d\<close>; the template
  parameter \<open>depth\<close> is an argument wherever it is not the length of an argument. The lemmas give
  each loop its closed form and show that fixing several positions at once is the same as fixing
  them one after the other on subkeys, in any order, which is what the recursive slices rely on.
\<close>

subsection \<open>Keys and subkeys\<close>

definition subkey :: "'a list \<Rightarrow> nat \<Rightarrow> 'a list" where
  "subkey key remove_pos = [key ! i. i \<leftarrow> [0..<length key], i \<noteq> remove_pos]"

lemma subkey_Nil [simp]: "subkey [] p = []"
  by (simp add: subkey_def)

lemma comprehension_upt_Suc:
  "[f i. i \<leftarrow> [0..<Suc n], P i] = (if P 0 then [f 0] else []) @ [f (Suc i). i \<leftarrow> [0..<n], P (Suc i)]"
proof -
  have "[0..<Suc n] = 0 # map Suc [0..<n]"
    by (metis map_Suc_upt upt_conv_Cons zero_less_Suc)
  then show ?thesis by (simp add: comp_def del: upt_Suc)
qed

lemma comprehension_nth: "[xs ! i. i \<leftarrow> [0..<length xs]] = xs"
  using map_nth[of xs] by (simp add: concat_map_singleton)

lemma subkey_Cons: "subkey (x # xs) p = (if p = 0 then xs else x # subkey xs (p - 1))"
proof (cases p)
  case 0
  then show ?thesis using comprehension_nth[of xs]
    by (simp add: subkey_def comprehension_upt_Suc del: upt_Suc)
next
  case (Suc q)
  then show ?thesis
    by (simp add: subkey_def comprehension_upt_Suc del: upt_Suc cong del: if_weak_cong)
qed

lemma subkey_take_drop: "p < length key \<Longrightarrow> subkey key p = take p key @ drop (Suc p) key"
proof (induction key arbitrary: p)
  case (Cons x xs)
  then show ?case by (cases p) (auto simp: subkey_Cons)
qed simp

lemma length_subkey [simp]: "p < length key \<Longrightarrow> length (subkey key p) = length key - 1"
  by (simp add: subkey_take_drop)

lemma nth_subkey: "p < length key \<Longrightarrow> i < length key - 1 \<Longrightarrow>
  subkey key p ! i = (if i < p then key ! i else key ! Suc i)"
  by (auto simp: subkey_take_drop nth_append)

lemma set_subkey: "p < length key \<Longrightarrow> set (subkey key p) \<subseteq> set key"
  by (auto simp: subkey_take_drop dest: in_set_takeD in_set_dropD)

text \<open>A key is determined by one of its parts and the rest.\<close>

definition insert_at :: "nat \<Rightarrow> 'a \<Rightarrow> 'a list \<Rightarrow> 'a list" where
  "insert_at pos x ks = take pos ks @ x # drop pos ks"

lemma insert_at_subkey [simp]:
  "p < length key \<Longrightarrow> insert_at p (key ! p) (subkey key p) = key"
  by (simp add: insert_at_def subkey_take_drop id_take_nth_drop [symmetric])

lemma subkey_insert_at [simp]: "p \<le> length ks \<Longrightarrow> subkey (insert_at p x ks) p = ks"
  by (simp add: insert_at_def subkey_take_drop)

lemma nth_insert_at [simp]: "p \<le> length ks \<Longrightarrow> insert_at p x ks ! p = x"
  by (simp add: insert_at_def nth_append)

lemma length_insert_at [simp]: "length (insert_at p x ks) = Suc (length ks)"
  by (simp add: insert_at_def)

lemma subkey_inj:
  assumes "p < length k" "length k' = length k" "k ! p = k' ! p" "subkey k p = subkey k' p"
  shows "k = k'"
  using assms insert_at_subkey[of p k] insert_at_subkey[of p k'] by metis

subsection \<open>Slice keys\<close>

text \<open>A \<open>SliceKey\<close> fixes some positions; \<open>get_fixed_depth\<close> counts them.\<close>

type_synonym 'a slice_key = "'a option list"

definition get_fixed_depth :: "'a slice_key \<Rightarrow> nat" where
  "get_fixed_depth sk = length sk - length (filter (\<lambda>item. item = None) sk)"

text \<open>A \<open>RawSliceKey\<close> is the array of its \<open>FixedValue\<close>s, a position and a key part each.\<close>

type_synonym 'a raw_slice_key = "(nat \<times> 'a) list"

fun raw_slice_key_loop :: "nat \<Rightarrow> 'a slice_key \<Rightarrow> 'a raw_slice_key" where
  "raw_slice_key_loop key_pos [] = []"
| "raw_slice_key_loop key_pos (Some k # sk) = (key_pos, k) # raw_slice_key_loop (Suc key_pos) sk"
| "raw_slice_key_loop key_pos (None # sk) = raw_slice_key_loop (Suc key_pos) sk"

definition raw_slice_key_of :: "'a slice_key \<Rightarrow> 'a raw_slice_key" where
  "raw_slice_key_of sk = raw_slice_key_loop 0 sk"

fun raw_slice_loop :: "'a raw_slice_key \<Rightarrow> nat \<Rightarrow> 'a list \<Rightarrow> 'a list option" where
  "raw_slice_loop fs key_pos [] = Some []"
| "raw_slice_loop [] key_pos (x # xs) = map_option ((#) x) (raw_slice_loop [] (Suc key_pos) xs)"
| "raw_slice_loop ((pos, kp) # fs) key_pos (x # xs) =
     (if pos = key_pos
      then (if kp \<noteq> x then None else raw_slice_loop fs (Suc key_pos) xs)
      else map_option ((#) x) (raw_slice_loop ((pos, kp) # fs) (Suc key_pos) xs))"

definition raw_slice :: "'a raw_slice_key \<Rightarrow> 'a list \<Rightarrow> 'a list option" where
  "raw_slice fs key = (if fs = [] then Some key else raw_slice_loop fs 0 key)"

definition raw_subkey_i :: "'a raw_slice_key \<Rightarrow> nat \<Rightarrow> 'a raw_slice_key" where
  "raw_subkey_i fs remove_ith =
     [(if i < remove_ith then fs ! i else (fst (fs ! i) - 1, snd (fs ! i))).
        i \<leftarrow> [0..<length fs], i \<noteq> remove_ith]"

text \<open>Slice keys whose positions increase, as the constructor and \<open>subkey_i\<close> produce them.\<close>

definition raw_slice_key_ok :: "nat \<Rightarrow> 'a raw_slice_key \<Rightarrow> bool" where
  "raw_slice_key_ok d fs \<longleftrightarrow> sorted_wrt (<) (map fst fs) \<and> (\<forall>f \<in> set fs. fst f < d)"

definition slice_matches :: "'a raw_slice_key \<Rightarrow> 'a list \<Rightarrow> bool" where
  "slice_matches fs key \<longleftrightarrow> (\<forall>(p, v) \<in> set fs. key ! p = v)"

lemma raw_slice_key_loop_props:
  "sorted_wrt (<) (map fst (raw_slice_key_loop n sk)) \<and>
   (\<forall>p v. (p, v) \<in> set (raw_slice_key_loop n sk) \<longleftrightarrow> n \<le> p \<and> p < n + length sk \<and> sk ! (p - n) = Some v)"
proof (induction n sk rule: raw_slice_key_loop.induct)
  case (2 key_pos k sk)
  have "p = key_pos \<or> Suc key_pos \<le> p" if "key_pos \<le> p" for p using that by linarith
  then show ?case using 2
    by (fastforce simp: nth_Cons' Suc_diff_Suc)
next
  case (3 key_pos sk)
  have "p = key_pos \<or> Suc key_pos \<le> p" if "key_pos \<le> p" for p using that by linarith
  then show ?case using 3
    by (fastforce simp: nth_Cons' Suc_diff_Suc)
qed simp

lemma raw_slice_key_ok_length: "raw_slice_key_ok d fs \<Longrightarrow> length fs \<le> d"
proof -
  assume ok: "raw_slice_key_ok d fs"
  then have "distinct (map fst fs)" by (simp add: raw_slice_key_ok_def strict_sorted_iff)
  moreover have "set (map fst fs) \<subseteq> {..<d}" using ok by (auto simp: raw_slice_key_ok_def)
  ultimately have "length (map fst fs) \<le> card {..<d}" by (metis card_mono distinct_card finite_lessThan)
  then show ?thesis by simp
qed

lemma raw_slice_key_of_ok: "raw_slice_key_ok (length sk) (raw_slice_key_of sk)"
  using raw_slice_key_loop_props[of 0 sk] by (auto simp: raw_slice_key_ok_def raw_slice_key_of_def)

lemma set_raw_slice_key_of:
  "(p, v) \<in> set (raw_slice_key_of sk) \<longleftrightarrow> p < length sk \<and> sk ! p = Some v"
  using raw_slice_key_loop_props[of 0 sk] by (simp add: raw_slice_key_of_def)

lemma length_raw_slice_key_loop:
  "length (raw_slice_key_loop n sk) = length sk - length (filter (\<lambda>item. item = None) sk)"
  by (induction n sk rule: raw_slice_key_loop.induct) (auto simp: Suc_diff_le)

text \<open>The loop of \<open>RawSliceKey::slice\<close>: all fixed positions agree, and what is left are the parts
  at the other positions.\<close>

lemma raw_slice_loop_closed:
  assumes "sorted_wrt (<) (map fst fs)" "\<forall>f \<in> set fs. n \<le> fst f \<and> fst f < n + length key"
  shows "raw_slice_loop fs n key =
     (if \<forall>(p, v) \<in> set fs. key ! (p - n) = v
      then Some [key ! i. i \<leftarrow> [0..<length key], n + i \<notin> fst ` set fs] else None)"
  using assms
proof (induction fs n key rule: raw_slice_loop.induct)
  case (1 fs n)
  then have "fs = []" by (cases fs) auto
  then show ?case by simp
next
  case (2 n x xs)
  then show ?case using comprehension_nth[of xs] comprehension_nth[of "x # xs"] by simp
next
  case (3 pos kp fs n x xs)
  have later: "\<forall>f \<in> set fs. pos < fst f" using 3(3) by auto
  have idx: "(x # xs) ! (p - n) = xs ! (p - Suc n)" if "n < p" for p
    using that by (simp add: nth_Cons' )
  show ?case
  proof (cases "pos = n")
    case True
    have IH: "raw_slice_loop fs (Suc n) xs =
        (if \<forall>(p, v) \<in> set fs. xs ! (p - Suc n) = v
         then Some [xs ! i. i \<leftarrow> [0..<length xs], Suc n + i \<notin> fst ` set fs] else None)" if "kp = x"
    proof (rule 3(1)[OF True])
      show "\<not> kp \<noteq> x" using that by simp
      show "sorted_wrt (<) (map fst fs)" using 3(3) by simp
      show "\<forall>f \<in> set fs. Suc n \<le> fst f \<and> fst f < Suc n + length xs"
        using 3(4) later True by auto
    qed
    have same: "(\<forall>(p, v) \<in> set fs. (x # xs) ! (p - n) = v) = (\<forall>(p, v) \<in> set fs. xs ! (p - Suc n) = v)"
      using later True idx by fastforce
    show ?thesis
    proof (cases "kp = x")
      case k: True
      have notin: "n \<notin> fst ` set fs" using later True by force
      have "[(x # xs) ! i. i \<leftarrow> [0..<length (x # xs)], n + i \<notin> fst ` set ((pos, kp) # fs)]
         = [xs ! i. i \<leftarrow> [0..<length xs], Suc n + i \<notin> fst ` set fs]"
        using True by (simp add: comprehension_upt_Suc del: upt_Suc cong del: if_weak_cong)
      then show ?thesis using True k IH same by simp
    next
      case False
      then show ?thesis using True by auto
    qed
  next
    case False
    then have less: "n < pos" using 3(4) by auto
    have IH: "raw_slice_loop ((pos, kp) # fs) (Suc n) xs =
        (if \<forall>(p, v) \<in> set ((pos, kp) # fs). xs ! (p - Suc n) = v
         then Some [xs ! i. i \<leftarrow> [0..<length xs], Suc n + i \<notin> fst ` set ((pos, kp) # fs)] else None)"
      using 3(2)[OF False 3(3)] 3(4) less later by fastforce
    have same: "(\<forall>(p, v) \<in> set ((pos, kp) # fs). (x # xs) ! (p - n) = v)
        = (\<forall>(p, v) \<in> set ((pos, kp) # fs). xs ! (p - Suc n) = v)"
      using later less idx by fastforce
    have notin: "n \<notin> fst ` set ((pos, kp) # fs)" using later less by force
    have "[(x # xs) ! i. i \<leftarrow> [0..<length (x # xs)], n + i \<notin> fst ` set ((pos, kp) # fs)]
       = x # [xs ! i. i \<leftarrow> [0..<length xs], Suc n + i \<notin> fst ` set ((pos, kp) # fs)]"
      using notin by (simp add: comprehension_upt_Suc del: upt_Suc cong del: if_weak_cong)
    then show ?thesis using False IH same by simp
  qed
qed

definition free_parts :: "nat set \<Rightarrow> 'a list \<Rightarrow> 'a list" where
  "free_parts P key = [key ! i. i \<leftarrow> [0..<length key], i \<notin> P]"

lemma length_raw_slice_key_of: "length (raw_slice_key_of sk) = get_fixed_depth sk"
  using length_raw_slice_key_loop[of 0 sk] by (simp add: raw_slice_key_of_def get_fixed_depth_def)

lemma get_fixed_depth_le: "get_fixed_depth sk \<le> length sk"
  by (simp add: get_fixed_depth_def)

lemma raw_slice_closed:
  assumes "raw_slice_key_ok (length key) fs"
  shows "raw_slice fs key =
    (if slice_matches fs key then Some (free_parts (fst ` set fs) key) else None)"
proof (cases "fs = []")
  case True
  then show ?thesis
    using comprehension_nth[of key] by (simp add: raw_slice_def slice_matches_def free_parts_def)
next
  case False
  then show ?thesis
    using raw_slice_loop_closed[of fs 0 key] assms
    by (auto simp: raw_slice_def slice_matches_def free_parts_def raw_slice_key_ok_def)
qed

text \<open>Removing a fixed position first and the others later leaves the same parts.\<close>

lemma free_parts_Cons:
  "free_parts P (x # xs) = (if 0 \<in> P then [] else [x]) @ free_parts {q. Suc q \<in> P} xs"
  by (simp add: free_parts_def comprehension_upt_Suc del: upt_Suc cong del: if_weak_cong)

definition shifted :: "nat \<Rightarrow> nat set \<Rightarrow> nat set" where
  "shifted p P = {q. (q < p \<and> q \<in> P) \<or> (p \<le> q \<and> Suc q \<in> P)}"

lemma free_parts_cong:
  "(\<And>i. i < length key \<Longrightarrow> (i \<in> P) = (i \<in> Q)) \<Longrightarrow> free_parts P key = free_parts Q key"
  unfolding free_parts_def by (rule arg_cong[where f = concat]) auto

lemma free_parts_subkey:
  "p \<in> P \<Longrightarrow> p < length key \<Longrightarrow> free_parts (shifted p P) (subkey key p) = free_parts P key"
proof (induction key arbitrary: p P)
  case (Cons x xs)
  show ?case
  proof (cases p)
    case 0
    then show ?thesis using Cons.prems by (simp add: subkey_Cons free_parts_Cons shifted_def)
  next
    case (Suc r)
    have "free_parts (shifted r {q. Suc q \<in> P}) (subkey xs r) = free_parts {q. Suc q \<in> P} xs"
      using Cons Suc by simp
    moreover have "shifted r {q. Suc q \<in> P} = {q. Suc q \<in> shifted p P}"
      using Suc by (auto simp: shifted_def)
    moreover have "(0 \<in> shifted p P) = (0 \<in> P)" using Suc by (simp add: shifted_def)
    ultimately show ?thesis using Suc by (simp add: subkey_Cons free_parts_Cons)
  qed
qed simp

lemma length_free_parts: "length (free_parts P key) = card ({..<length key} - P)"
proof (induction key arbitrary: P)
  case (Cons x xs)
  have "{..<length (x # xs)} - P = (if 0 \<in> P then {} else {0}) \<union> Suc ` ({..<length xs} - {q. Suc q \<in> P})"
    by (auto simp: image_iff less_Suc_eq_0_disj)
  then have "card ({..<length (x # xs)} - P)
      = (if 0 \<in> P then 0 else 1) + card ({..<length xs} - {q. Suc q \<in> P})"
    by (simp add: card_image)
  then show ?case by (simp add: free_parts_Cons Cons.IH)
qed (simp add: free_parts_def)

lemma raw_subkey_i_eq:
  "i < length fs \<Longrightarrow> raw_subkey_i fs i = take i fs @ map (\<lambda>(p, v). (p - 1, v)) (drop (Suc i) fs)"
proof (induction fs arbitrary: i)
  case (Cons f fs)
  have zero: "raw_subkey_i (f # fs) 0 = map (\<lambda>(p, v). (p - 1, v)) fs"
  proof -
    have "[(fst (fs ! j) - Suc 0, snd (fs ! j)). j \<leftarrow> [0..<length fs]]
       = map (\<lambda>(p, v). (p - Suc 0, v)) (map ((!) fs) [0..<length fs])"
      by (simp add: case_prod_beta comp_def del: map_nth)
    then show ?thesis
      by (simp add: raw_subkey_i_def comprehension_upt_Suc concat_map_singleton map_nth del: upt_Suc
          cong del: if_weak_cong)
  qed
  have suc: "raw_subkey_i (f # fs) (Suc j) = f # raw_subkey_i fs j" for j
    by (simp add: raw_subkey_i_def comprehension_upt_Suc del: upt_Suc cong del: if_weak_cong)
  show ?case using Cons by (cases i) (simp_all add: zero suc)
qed (simp add: raw_subkey_i_def)

lemma slice_ok_split:
  assumes "raw_slice_key_ok d fs" "i < length fs"
  shows "\<forall>f \<in> set (take i fs). fst f < fst (fs ! i)" "\<forall>f \<in> set (drop (Suc i) fs). fst (fs ! i) < fst f"
proof -
  have "fs = take i fs @ fs ! i # drop (Suc i) fs" using assms(2) by (simp add: id_take_nth_drop)
  then have "sorted_wrt (<) (map fst (take i fs @ fs ! i # drop (Suc i) fs))"
    using assms(1) by (simp add: raw_slice_key_ok_def)
  then show "\<forall>f \<in> set (take i fs). fst f < fst (fs ! i)" "\<forall>f \<in> set (drop (Suc i) fs). fst (fs ! i) < fst f"
    by (auto simp: sorted_wrt_append)
qed

lemma set_split_nth: "i < length fs \<Longrightarrow> set fs = insert (fs ! i) (set (take i fs) \<union> set (drop (Suc i) fs))"
  by (metis Un_insert_right id_take_nth_drop list.simps(15) set_append)

lemma raw_subkey_i_ok:
  assumes "raw_slice_key_ok (Suc d) fs" "i < length fs"
  shows "raw_slice_key_ok d (raw_subkey_i fs i)"
proof -
  define A where "A = take i fs"
  define B where "B = drop (Suc i) fs"
  define p where "p = fst (fs ! i)"
  have fs: "fs = A @ fs ! i # B" using assms(2) by (simp add: A_def B_def id_take_nth_drop)
  have s: "sorted_wrt (<) (map fst A @ p # map fst B)"
    using assms(1) fs by (metis raw_slice_key_ok_def list.simps(9) map_append p_def)
  then have AB: "\<forall>a \<in> set A. fst a < p" "\<forall>b \<in> set B. p < fst b" "sorted_wrt (<) (map fst A)"
    "sorted_wrt (<) (map fst B)"
    by (auto simp: sorted_wrt_append)
  have bnd: "\<forall>f \<in> set fs. fst f < Suc d" using assms(1) by (simp add: raw_slice_key_ok_def)
  have B': "map fst (map (\<lambda>(p, v). (p - 1, v)) B) = map (\<lambda>f. fst f - 1) B" by auto
  have "sorted_wrt (<) (map (\<lambda>f. fst f - 1) B)"
    using AB(2,4) by (induction B) fastforce+
  then have "sorted_wrt (<) (map fst A @ map (\<lambda>f. fst f - 1) B)"
    using AB(1-3) unfolding sorted_wrt_append by fastforce
  then have "sorted_wrt (<) (map fst (raw_subkey_i fs i))"
    unfolding raw_subkey_i_eq[OF assms(2)] map_append B' A_def[symmetric] B_def[symmetric] .
  moreover have "fst f < d" if "f \<in> set (raw_subkey_i fs i)" for f
  proof -
    have "p < Suc d" using bnd assms(2) p_def by simp
    moreover have "\<forall>b \<in> set B. fst b < Suc d" using bnd fs by (metis Un_iff list.set_intros(2) set_append)
    ultimately show ?thesis using that AB(1,2)
      by (force simp: raw_subkey_i_eq[OF assms(2)] A_def[symmetric] B_def[symmetric])
  qed
  ultimately show ?thesis by (simp add: raw_slice_key_ok_def)
qed

text \<open>Fixing one position, then slicing the subkey by what is left of the slice key, is the whole
  slice.\<close>

lemma raw_slice_subkey_i:
  assumes ok: "raw_slice_key_ok (length key) fs" and i: "i < length fs" and f: "fs ! i = (p, v)"
    and v: "key ! p = v"
  shows "raw_slice (raw_subkey_i fs i) (subkey key p) = raw_slice fs key"
proof -
  have p: "p < length key" using ok i f nth_mem[OF i] by (auto simp: raw_slice_key_ok_def)
  note parts = slice_ok_split[OF ok i, unfolded f fst_conv] set_split_nth[OF i, unfolded f]
  have sub: "set (raw_subkey_i fs i) = set (take i fs) \<union> (\<lambda>(q, w). (q - 1, w)) ` set (drop (Suc i) fs)"
    by (simp add: raw_subkey_i_eq[OF i])
  have bnd: "\<forall>f \<in> set fs. fst f < length key" using ok by (simp add: raw_slice_key_ok_def)
  have nthl: "subkey key p ! q = key ! q" if "q < p" for q
    using that p by (simp add: nth_subkey)
  have nthr: "subkey key p ! (q - 1) = key ! q" if "p < q" "q < length key" for q
    using that p by (auto simp: nth_subkey)
  have match: "slice_matches (raw_subkey_i fs i) (subkey key p) = slice_matches fs key"
  proof -
    have l: "(\<forall>(q, w) \<in> set (take i fs). subkey key p ! q = w) = (\<forall>(q, w) \<in> set (take i fs). key ! q = w)"
      using parts(1) nthl by fastforce
    have dr: "subkey key p ! (q - 1) = key ! q" if "(q, w) \<in> set (drop (Suc i) fs)" for q w
      using that parts(2) bnd nthr in_set_dropD[OF that] by fastforce
    have r: "(\<forall>(q, w) \<in> set (drop (Suc i) fs). subkey key p ! (q - 1) = w)
        = (\<forall>(q, w) \<in> set (drop (Suc i) fs). key ! q = w)"
      using dr by fastforce
    have "slice_matches (raw_subkey_i fs i) (subkey key p)
        = ((\<forall>(q, w) \<in> set (take i fs). subkey key p ! q = w)
          \<and> (\<forall>(q, w) \<in> set (drop (Suc i) fs). subkey key p ! (q - 1) = w))"
      unfolding slice_matches_def sub by (simp add: ball_Un case_prod_beta)
    also have "\<dots> = ((\<forall>(q, w) \<in> set (take i fs). key ! q = w)
          \<and> (\<forall>(q, w) \<in> set (drop (Suc i) fs). key ! q = w))"
      unfolding l r ..
    also have "\<dots> = slice_matches fs key"
      unfolding slice_matches_def parts(3) using v by (simp add: ball_Un case_prod_beta)
    finally show ?thesis .
  qed
  have "fst ` set (raw_subkey_i fs i) = shifted p (fst ` set fs)"
  proof
    show "fst ` set (raw_subkey_i fs i) \<subseteq> shifted p (fst ` set fs)"
    proof
      fix q assume "q \<in> fst ` set (raw_subkey_i fs i)"
      then consider w where "(q, w) \<in> set (take i fs)" | r w where "(r, w) \<in> set (drop (Suc i) fs)" "q = r - 1"
        unfolding sub by auto
      then show "q \<in> shifted p (fst ` set fs)"
      proof cases
        case 1
        then have "q < p" "q \<in> fst ` set fs" using parts(1) in_set_takeD[OF 1] by force+
        then show ?thesis by (simp add: shifted_def)
      next
        case 2
        then have "p < r" "r \<in> fst ` set fs" using parts(2) in_set_dropD[OF 2(1)] by force+
        then show ?thesis using 2 by (auto simp: shifted_def)
      qed
    qed
    show "shifted p (fst ` set fs) \<subseteq> fst ` set (raw_subkey_i fs i)"
    proof
      fix q assume q: "q \<in> shifted p (fst ` set fs)"
      show "q \<in> fst ` set (raw_subkey_i fs i)"
      proof (cases "q < p")
        case True
        then obtain w where "(q, w) \<in> set fs" using q by (auto simp: shifted_def)
        then have "(q, w) \<in> set (take i fs)" using True parts(2) unfolding parts(3) by force
        then show ?thesis unfolding sub by force
      next
        case False
        then obtain w where "(Suc q, w) \<in> set fs" using q by (auto simp: shifted_def)
        then have "(Suc q, w) \<in> set (drop (Suc i) fs)" using False parts(1) unfolding parts(3) by force
        then show ?thesis unfolding sub by force
      qed
    qed
  qed
  moreover have "p \<in> fst ` set fs" using parts(3) by simp
  moreover have "raw_slice_key_ok (length (subkey key p)) (raw_subkey_i fs i)"
    using raw_subkey_i_ok[of "length key - 1" fs i] ok i p
    by (metis One_nat_def Suc_pred length_subkey less_nat_zero_code neq0_conv)
  ultimately show ?thesis using ok p match
    by (simp add: raw_slice_closed free_parts_subkey)
qed

subsection \<open>Key position masks\<close>

text \<open>\<open>RawKeyPositions<depth>\<close>, an array of bytes with one bit per position; \<open>kp_at\<close> is its
  \<open>operator[]\<close>.\<close>

type_synonym raw_key_positions = "8 word list"

definition kp_bytes :: "nat \<Rightarrow> nat" where
  "kp_bytes depth = (if 0 < depth then depth div 8 + 1 else 0)"

definition kp_empty :: "nat \<Rightarrow> raw_key_positions" where
  "kp_empty depth = replicate (kp_bytes depth) 0"

text \<open>The functions without a failure are what the loops compute; the operations of the code assert that
  a position that is set is below the depth. \<open>operator[]\<close> asserts it, too, for the position it is given: all its
  callers are loops over the positions below the depth.\<close>

definition mark_pos :: "raw_key_positions \<Rightarrow> nat \<Rightarrow> raw_key_positions" where
  "mark_pos m pos =
     (let byte_id = pos div 8 in m[byte_id := m ! byte_id OR push_bit (pos mod 8) 1])"

definition kp_set_true :: "nat \<Rightarrow> raw_key_positions \<Rightarrow> nat \<Rightarrow> raw_key_positions option" where
  "kp_set_true depth m pos = do { check (pos < depth); Some (mark_pos m pos) }"

definition kp_make :: "nat \<Rightarrow> nat list \<Rightarrow> raw_key_positions option" where
  "kp_make depth positions = foldM (kp_set_true depth) positions (kp_empty depth)"

definition kp_mask :: "nat \<Rightarrow> nat list \<Rightarrow> raw_key_positions" where
  "kp_mask depth positions = foldl mark_pos (kp_empty depth) positions"

definition kp_at :: "raw_key_positions \<Rightarrow> nat \<Rightarrow> bool" where
  "kp_at m pos = (let byte_id = pos div 8 in m ! byte_id AND push_bit (pos mod 8) 1 \<noteq> 0)"

definition kp_first_pos :: "nat \<Rightarrow> raw_key_positions \<Rightarrow> nat option" where
  "kp_first_pos depth m = List.find (kp_at m) [0..<depth]"

definition kp_sub :: "nat \<Rightarrow> raw_key_positions \<Rightarrow> nat \<Rightarrow> raw_key_positions option" where
  "kp_sub depth m remove_pos = map_option snd (foldM (\<lambda>(offset, sub_poss) pos.
       if pos = remove_pos then Some (True, sub_poss)
       else if kp_at m pos then map_option (Pair offset) (kp_set_true (depth - 1) sub_poss (pos - of_bool offset))
       else Some (offset, sub_poss)) [0..<depth] (False, kp_empty (depth - 1)))"

definition sub_mask :: "nat \<Rightarrow> raw_key_positions \<Rightarrow> nat \<Rightarrow> raw_key_positions" where
  "sub_mask depth m remove_pos = snd (foldl (\<lambda>(offset, sub_poss) pos.
       if pos = remove_pos then (True, sub_poss)
       else if kp_at m pos then (offset, mark_pos sub_poss (pos - of_bool offset))
       else (offset, sub_poss)) (False, kp_empty (depth - 1)) [0..<depth])"

definition kp_count :: "nat \<Rightarrow> raw_key_positions \<Rightarrow> nat" where
  "kp_count depth m = foldl (\<lambda>count pos. count + of_bool (kp_at m pos)) 0 [0..<depth]"

fun kp_slice_loop :: "raw_key_positions \<Rightarrow> nat \<Rightarrow> 'a list \<Rightarrow> 'a \<Rightarrow> 'a list option" where
  "kp_slice_loop m pos [] v = Some []"
| "kp_slice_loop m pos (x # xs) v =
     (if kp_at m pos
      then (if x \<noteq> v then None else kp_slice_loop m (Suc pos) xs v)
      else map_option ((#) x) (kp_slice_loop m (Suc pos) xs v))"

definition kp_slice :: "nat \<Rightarrow> raw_key_positions \<Rightarrow> 'a list \<Rightarrow> 'a \<Rightarrow> 'a list option" where
  "kp_slice fixed_depth m key v = (if fixed_depth = 0 then Some key else kp_slice_loop m 0 key v)"

text \<open>The set of marked positions, and masks that have room for every position.\<close>

definition kp_set :: "nat \<Rightarrow> raw_key_positions \<Rightarrow> nat set" where
  "kp_set depth m = {p. p < depth \<and> kp_at m p}"

definition kp_ok :: "nat \<Rightarrow> raw_key_positions \<Rightarrow> bool" where
  "kp_ok depth m \<longleftrightarrow> length m = kp_bytes depth"

lemma kp_at_bit: "kp_at m p = bit (m ! (p div 8)) (p mod 8)"
  by (simp add: kp_at_def bit_iff_and_push_bit_not_eq_0)

lemma kp_at_set_true:
  assumes "p div 8 < length m"
  shows "kp_at (mark_pos m p) q = (kp_at m q \<or> q = p)"
proof -
  have "(q = p) = (q div 8 = p div 8 \<and> q mod 8 = p mod 8)" by (metis div_mult_mod_eq)
  then show ?thesis using assms
    by (auto simp: kp_at_bit mark_pos_def bit_simps nth_list_update Let_def)
qed

lemma length_kp_set_true [simp]: "length (mark_pos m p) = length m"
  by (simp add: mark_pos_def Let_def)

lemma kp_room: "p < d \<Longrightarrow> p div 8 < kp_bytes d"
  by (auto simp: kp_bytes_def le_imp_less_Suc div_le_mono)

lemma kp_ok_intros [simp]: "kp_ok d (kp_empty d)" "kp_ok d m \<Longrightarrow> kp_ok d (mark_pos m p)"
  by (simp_all add: kp_ok_def kp_empty_def)

lemma kp_at_empty: "p < d \<Longrightarrow> \<not> kp_at (kp_empty d) p"
  using kp_room[of p d] by (simp add: kp_at_bit kp_empty_def)

lemma kp_make_at:
  assumes "\<forall>p \<in> set ps. p < d"
  shows "kp_ok d (kp_mask d ps) \<and> (\<forall>p < d. kp_at (kp_mask d ps) p = (p \<in> set ps))"
  using assms
proof (induction ps rule: rev_induct)
  case Nil
  then show ?case by (simp add: kp_mask_def kp_at_empty)
next
  case (snoc q ps)
  then show ?case
    by (auto simp: kp_mask_def kp_at_set_true kp_ok_def kp_room)
qed

lemma kp_make_eq: "\<forall>p \<in> set ps. p < d \<Longrightarrow> kp_make d ps = Some (kp_mask d ps)"
proof -
  have "\<forall>p \<in> set ps. p < d \<Longrightarrow> foldM (kp_set_true d) ps m = Some (foldl mark_pos m ps)" for m
    by (induction ps arbitrary: m) (simp_all add: kp_set_true_def)
  then show "\<forall>p \<in> set ps. p < d \<Longrightarrow> kp_make d ps = Some (kp_mask d ps)" by (simp add: kp_make_def kp_mask_def)
qed

lemma kp_make_fails: "\<exists>p \<in> set ps. d \<le> p \<Longrightarrow> kp_make d ps = None"
proof -
  have "\<exists>p \<in> set ps. d \<le> p \<Longrightarrow> foldM (kp_set_true d) ps m = None" for m
    by (induction ps arbitrary: m) (auto simp: kp_set_true_def check_def split: option.splits)
  then show "\<exists>p \<in> set ps. d \<le> p \<Longrightarrow> kp_make d ps = None" by (simp add: kp_make_def)
qed

lemma kp_set_make: "\<forall>p \<in> set ps. p < d \<Longrightarrow> kp_set d (kp_mask d ps) = set ps"
  using kp_make_at[of ps d] by (auto simp: kp_set_def)

lemma kp_first_pos_Some:
  "kp_set d m \<noteq> {} \<Longrightarrow> \<exists>p. kp_first_pos d m = Some p \<and> p \<in> kp_set d m \<and> (\<forall>q \<in> kp_set d m. p \<le> q)"
proof -
  assume "kp_set d m \<noteq> {}"
  then obtain q where q: "q < d" "kp_at m q" by (auto simp: kp_set_def)
  have "List.find (kp_at m) [0..<d] \<noteq> None" using q by (auto simp: find_None_iff)
  then obtain p where p: "List.find (kp_at m) [0..<d] = Some p" by blast
  then obtain i where i: "i < d" "kp_at m i" "p = i" "\<forall>j < i. \<not> kp_at m j"
    by (auto simp: find_Some_iff)
  then have "\<forall>q \<in> kp_set d m. p \<le> q" by (auto simp: kp_set_def not_less [symmetric])
  with p i show ?thesis by (auto simp: kp_first_pos_def kp_set_def)
qed

lemma kp_count_card: "kp_count d m = card (kp_set d m)"
proof (induction d)
  case (Suc d)
  have "kp_set (Suc d) m = (if kp_at m d then insert d (kp_set d m) else kp_set d m)"
    by (auto simp: kp_set_def less_Suc_eq)
  moreover have "finite (kp_set d m)" "d \<notin> kp_set d m" by (auto simp: kp_set_def)
  ultimately show ?case using Suc by (simp add: kp_count_def)
qed (simp add: kp_count_def kp_set_def)

lemma kp_sub_loop:
  fixes m r d'
  defines "step \<equiv> (\<lambda>(offset, sub_poss) pos.
       if pos = r then (True, sub_poss)
       else if kp_at m pos then (offset, mark_pos sub_poss (pos - of_bool offset))
       else (offset, sub_poss))"
  assumes "n \<le> Suc d'" "r < Suc d'"
  shows "\<exists>s. foldl step (False, kp_empty d') [0..<n] = (r < n, s) \<and> kp_ok d' s \<and>
    (\<forall>q < d'. kp_at s q = (if q < r then q < n \<and> kp_at m q else Suc q < n \<and> kp_at m (Suc q)))"
  using assms(2)
proof (induction n)
  case 0
  then show ?case by (simp add: kp_at_empty)
next
  case (Suc n)
  then obtain s where s: "foldl step (False, kp_empty d') [0..<n] = (r < n, s)" "kp_ok d' s"
    "\<forall>q < d'. kp_at s q = (if q < r then q < n \<and> kp_at m q else Suc q < n \<and> kp_at m (Suc q))"
    by auto
  have f: "foldl step (False, kp_empty d') [0..<Suc n] = step (r < n, s) n"
    by (simp add: s(1))
  consider "n = r" | "n \<noteq> r" "\<not> kp_at m n" | "n \<noteq> r" "kp_at m n" by blast
  then show ?case
  proof cases
    case 1
    then show ?thesis using s assms(3) unfolding f by (auto simp: step_def less_Suc_eq)
  next
    case 2
    then have "step (r < n, s) n = (r < Suc n, s)" by (auto simp: step_def)
    then show ?thesis using s 2 unfolding f by (auto simp: less_Suc_eq)
  next
    case 3
    let ?p = "n - of_bool (r < n)"
    have st: "step (r < n, s) n = (r < Suc n, mark_pos s ?p)" using 3 by (auto simp: step_def)
    have p: "?p < d'" using 3 Suc.prems assms(3) by (cases "r < n") auto
    then have at: "kp_at (mark_pos s ?p) q = (kp_at s q \<or> q = ?p)" for q
      using s(2) by (simp add: kp_at_set_true kp_ok_def kp_room)
    show ?thesis unfolding f st using s 3 at by (auto simp: less_Suc_eq)
  qed
qed

text \<open>The assertion in \<open>sub_raw_key_positions\<close> holds when a position of the key is removed.\<close>

lemma kp_sub_eq:
  assumes "r < d"
  shows "kp_sub d m r = Some (sub_mask d m r)"
proof -
  obtain d' where d: "d = Suc d'" using assms by (cases d) auto
  define step where "step = (\<lambda>(offset, sub_poss) pos.
       if pos = r then (True, sub_poss)
       else if kp_at m pos then (offset, mark_pos sub_poss (pos - of_bool offset))
       else (offset, sub_poss))"
  define stepM where "stepM = (\<lambda>(offset, sub_poss) pos.
       if pos = r then Some (True, sub_poss)
       else if kp_at m pos then map_option (Pair offset) (kp_set_true d' sub_poss (pos - of_bool offset))
       else Some (offset, sub_poss))"
  have loops: "foldM stepM [0..<n] (False, kp_empty d') = Some (foldl step (False, kp_empty d') [0..<n])" if "n \<le> d" for n
    using that
  proof (induction n)
    case (Suc n)
    obtain s where "foldl step (False, kp_empty d') [0..<n] = (r < n, s)"
      using kp_sub_loop[of n d' r m] Suc.prems assms d unfolding step_def by auto
    moreover have "stepM (r < n, s) n = Some (step (r < n, s) n)"
      using Suc.prems assms d by (auto simp: stepM_def step_def kp_set_true_def check_def)
    ultimately show ?case using Suc by (simp add: foldM_append)
  qed simp
  have "kp_sub d m r = map_option snd (foldM stepM [0..<d] (False, kp_empty d'))"
    "sub_mask d m r = snd (foldl step (False, kp_empty d') [0..<d])"
    unfolding kp_sub_def sub_mask_def step_def stepM_def d by (simp_all only: diff_Suc_1)
  then show ?thesis by (simp only: loops[OF order_refl] option.map)
qed

lemma kp_set_sub:
  assumes "p < d"
  shows "kp_ok (d - 1) (sub_mask d m p)" and "kp_set (d - 1) (sub_mask d m p) = shifted p (kp_set d m)"
proof -
  obtain s where "sub_mask d m p = s" "kp_ok (d - 1) s"
    "\<forall>q < d - 1. kp_at s q = (if q < p then q < d \<and> kp_at m q else Suc q < d \<and> kp_at m (Suc q))"
    using kp_sub_loop[of d "d - 1" p m] assms by (auto simp: sub_mask_def)
  then have ok: "kp_ok (d - 1) (sub_mask d m p)"
    and at: "\<And>q. q < d - 1 \<Longrightarrow> kp_at (sub_mask d m p) q
      = (if q < p then q < d \<and> kp_at m q else Suc q < d \<and> kp_at m (Suc q))" by auto
  show "kp_ok (d - 1) (sub_mask d m p)" by (rule ok)
  have "q \<in> kp_set (d - 1) (sub_mask d m p) \<longleftrightarrow> q \<in> shifted p (kp_set d m)" for q
    using at[of q] assms by (cases "q < p") (auto simp: kp_set_def shifted_def)
  then show "kp_set (d - 1) (sub_mask d m p) = shifted p (kp_set d m)" by blast
qed

lemma kp_slice_loop_closed:
  "kp_slice_loop m n key v =
    (if \<forall>i < length key. kp_at m (n + i) \<longrightarrow> key ! i = v
     then Some (free_parts {i. kp_at m (n + i)} key) else None)"
proof (induction m n key v rule: kp_slice_loop.induct)
  case (1 m pos v)
  then show ?case by (simp add: free_parts_def)
next
  case (2 m pos x xs v)
  have "(\<forall>i < length (x # xs). kp_at m (pos + i) \<longrightarrow> (x # xs) ! i = v)
     = ((kp_at m pos \<longrightarrow> x = v) \<and> (\<forall>i < length xs. kp_at m (Suc pos + i) \<longrightarrow> xs ! i = v))"
    by (simp add: All_less_Suc2)
  then show ?case using 2 by (auto simp: free_parts_Cons)
qed

lemma kp_slice_closed:
  assumes "card (kp_set (length key) m) = fixed_depth"
  shows "kp_slice fixed_depth m key v =
    (if \<forall>p \<in> kp_set (length key) m. key ! p = v
     then Some (free_parts (kp_set (length key) m) key) else None)"
proof -
  have cong: "free_parts {i. kp_at m i} key = free_parts (kp_set (length key) m) key"
    by (rule free_parts_cong) (simp add: kp_set_def)
  show ?thesis
  proof (cases "fixed_depth = 0")
    case True
    have "finite (kp_set (length key) m)" by (simp add: kp_set_def)
    with True assms have "kp_set (length key) m = {}" by simp
    then show ?thesis using True comprehension_nth[of key] by (simp add: kp_slice_def free_parts_def)
  next
    case False
    then show ?thesis using cong by (auto simp: kp_slice_def kp_slice_loop_closed kp_set_def)
  qed
qed

lemma shifted_image: "P - {p} = (\<lambda>q. if q < p then q else Suc q) ` shifted p P"
proof -
  have "q \<in> (\<lambda>q. if q < p then q else Suc q) ` shifted p P" if "q \<in> P" "q \<noteq> p" for q
  proof (cases "q < p")
    case True then show ?thesis using that by (auto simp: shifted_def)
  next
    case False
    with that obtain r where "q = Suc r" "p \<le> r" by (cases q) auto
    then show ?thesis using that by (auto simp: shifted_def)
  qed
  then show ?thesis by (auto simp: shifted_def split: if_splits)
qed

lemma card_shifted: "finite P \<Longrightarrow> p \<in> P \<Longrightarrow> card (shifted p P) = card P - 1"
proof -
  assume P: "finite P" "p \<in> P"
  have "inj (\<lambda>q. if q < p then q else Suc q)" by (rule injI) (auto split: if_splits)
  then have "card (P - {p}) = card (shifted p P)"
    unfolding shifted_image by (rule card_image[OF inj_on_subset[OF _ subset_UNIV]])
  then show ?thesis using P by simp
qed

lemma finite_kp_set [simp]: "finite (kp_set d m)"
  by (simp add: kp_set_def)

lemma kp_slice_sub:
  assumes "p \<in> kp_set (length key) m" "key ! p = v"
    and c: "card (kp_set (length key) m) = Suc fixed_depth"
  shows "kp_slice fixed_depth (sub_mask (length key) m p) (subkey key p) v = kp_slice (Suc fixed_depth) m key v"
proof -
  let ?P = "kp_set (length key) m"
  have p: "p < length key" using assms(1) by (simp add: kp_set_def)
  note sub = kp_set_sub[OF p, of m]
  have c': "card (shifted p ?P) = fixed_depth" using card_shifted[OF _ assms(1)] c by simp
  have all: "(\<forall>q \<in> shifted p ?P. subkey key p ! q = v) = (\<forall>q \<in> ?P. key ! q = v)"
  proof -
    have "subkey key p ! q = key ! (if q < p then q else Suc q)" if "q \<in> shifted p ?P" for q
      using that p by (auto simp: nth_subkey shifted_def kp_set_def)
    then have "(\<forall>q \<in> shifted p ?P. subkey key p ! q = v) = (\<forall>q \<in> ?P - {p}. key ! q = v)"
      unfolding shifted_image by auto
    then show ?thesis using assms(2) by auto
  qed
  have l: "length (subkey key p) = length key - 1" using p by simp
  show ?thesis
    using kp_slice_closed[of "subkey key p" "sub_mask (length key) m p" fixed_depth v]
      kp_slice_closed[of key m "Suc fixed_depth" v] c c' all free_parts_subkey[OF assms(1) p] sub(2)
    by (simp add: l)
qed

subsection \<open>User-facing entries\<close>

text \<open>Values of a hypertrie have a zero (\<open>value_type{}\<close>, the value of absent keys) and a one.
  \<open>bool\<close> is one of the value types.\<close>

instantiation bool :: zero_neq_one
begin

definition zero_bool :: bool where "0 = False"
definition one_bool :: bool where "1 = True"

instance by standard (simp add: zero_bool_def one_bool_def)

end

datatype hypertrie_error = LogicError string

text \<open>\<open>Entry\<close> may hold a zero value, \<open>NonZeroEntry\<close> must not.\<close>

record 'v user_entry =
  ue_key :: raw_key
  ue_value :: 'v

definition entry_make_filled :: "nat \<Rightarrow> key_part \<Rightarrow> 'v \<Rightarrow> 'v user_entry" where
  "entry_make_filled count kp v = \<lparr>ue_key = replicate count kp, ue_value = v\<rparr>"

definition non_zero_entry :: "raw_key \<Rightarrow> 'v::zero_neq_one \<Rightarrow> hypertrie_error + 'v user_entry" where
  "non_zero_entry key v =
     (if v = 0 then Inl (LogicError ''value must not be zero equivalent.'')
      else Inr \<lparr>ue_key = key, ue_value = v\<rparr>)"

definition non_zero_entry_set_value :: "'v::zero_neq_one user_entry \<Rightarrow> 'v \<Rightarrow> hypertrie_error + 'v user_entry" where
  "non_zero_entry_set_value e v =
     (if v \<noteq> 0 then Inr (e\<lparr>ue_value := v\<rparr>)
      else Inl (LogicError ''value must not be zero equivalent.''))"

definition entry_of_non_zero :: "'v user_entry \<Rightarrow> 'v user_entry" where
  "entry_of_non_zero e = \<lparr>ue_key = ue_key e, ue_value = ue_value e\<rparr>"

end
