(* ===== verification/Identifiers.thy ===== *)
theory Identifiers
  imports Keys
begin

text \<open>
  Node identifiers (internal/raw/node/Identifier.hpp): 64-bit words that combine the hashes of a
  node's entries, with one tagging bit that tells single-entry nodes (SEN) from full nodes (FN),
  and that hold the only entry itself (an in-place node) for depth 1 of a Boolean-valued hypertrie
  with taggable key parts. The hash functions come from the dice-hash package and are fields of
  the trait record; the file's comments document that hashes are combined with xor, and that is
  the hypothesis \<open>combine_is_xor\<close>. The lemmas relate every operation to the set of entries a node
  stands for, and \<open>universe_ok\<close> states what the program assumes of its hashes: distinct
  sets of entries do not collide.
\<close>

subsection \<open>Traits and identifiers\<close>

record 'v htt =
  bool_valued :: bool
  in_place_depth1 :: bool
  tag_pos :: nat
  entry_hash :: "'v entry \<Rightarrow> node_id"
  hash_combine :: "node_id list \<Rightarrow> node_id"

definition tag_bit :: "'v htt \<Rightarrow> node_id" where
  "tag_bit T = push_bit (tag_pos T) 1"

definition id_seed :: "'v htt \<Rightarrow> node_id" where
  "id_seed T = 0 AND NOT (tag_bit T)"

definition id_empty :: "'v htt \<Rightarrow> node_id \<Rightarrow> bool" where
  "id_empty T i = (i = id_seed T)"

definition is_sen :: "'v htt \<Rightarrow> node_id \<Rightarrow> bool" where
  "is_sen T i = (\<not> id_empty T i \<and> i AND tag_bit T \<noteq> 0)"

definition is_fn :: "'v htt \<Rightarrow> node_id \<Rightarrow> bool" where
  "is_fn T i = (\<not> id_empty T i \<and> NOT i AND tag_bit T \<noteq> 0)"

definition in_place_node :: "'v htt \<Rightarrow> nat \<Rightarrow> bool" where
  "in_place_node T depth = (in_place_depth1 T \<and> depth = 1)"

definition tag_as_sen :: "'v htt \<Rightarrow> node_id \<Rightarrow> node_id" where
  "tag_as_sen T h = h OR tag_bit T"

definition tag_as_fn :: "'v htt \<Rightarrow> node_id \<Rightarrow> node_id" where
  "tag_as_fn T h = h AND NOT (tag_bit T)"

definition hash_and_combine :: "'v htt \<Rightarrow> 'v entry \<Rightarrow> node_id \<Rightarrow> node_id" where
  "hash_and_combine T e seed = hash_combine T [seed, entry_hash T e]"

text \<open>The assertion that the tagging bit of a key part is free (in-place nodes only) is a fact about the keys
  the program is used with, not about its state: \<open>entry_ok\<close> demands it of every entry.\<close>

definition encode_single_entry :: "'v htt \<Rightarrow> nat \<Rightarrow> 'v entry \<Rightarrow> node_id" where
  "encode_single_entry T depth e =
     (if in_place_node T depth then tag_as_sen T (fst e ! 0)
      else tag_as_sen T (hash_and_combine T e (id_seed T)))"

definition hash_iterable :: "'v htt \<Rightarrow> nat \<Rightarrow> 'v entry list \<Rightarrow> node_id" where
  "hash_iterable T depth entries =
     (if entries = [] then id_seed T
      else if in_place_node T depth \<and> length entries = 1 then encode_single_entry T depth (entries ! 0)
      else let hash = foldl (\<lambda>h e. hash_and_combine T e h) (id_seed T) entries in
        if \<not> in_place_node T depth \<and> length entries = 1 then tag_as_sen T hash else tag_as_fn T hash)"

text \<open>The entry that the identifier of an in-place node holds; \<open>get_entry\<close> asserts that it is one.\<close>

definition in_place_entry :: "'v::zero_neq_one htt \<Rightarrow> node_id \<Rightarrow> 'v entry" where
  "in_place_entry T i = ([tag_as_fn T i], 1)"

definition get_entry :: "'v::zero_neq_one htt \<Rightarrow> node_id \<Rightarrow> 'v entry option" where
  "get_entry T i = do { check (is_sen T i); Some (in_place_entry T i) }"

definition change_value :: "'v::zero_neq_one htt \<Rightarrow> node_id \<Rightarrow> 'v entry \<Rightarrow> 'v \<Rightarrow> node_id option" where
  "change_value T i old_entry new_value = do {
     check (new_value \<noteq> 0);
     let h = hash_and_combine T old_entry (hash_and_combine T (fst old_entry, new_value) i);
     Some (if is_sen T i then tag_as_sen T h else tag_as_fn T h)
   }"

text \<open>How \<open>combine\<close> reads a hash off one of its identifiers.\<close>

definition combined_hash :: "'v::zero_neq_one htt \<Rightarrow> nat \<Rightarrow> node_id \<Rightarrow> node_id option" where
  "combined_hash T depth i =
     (if in_place_node T depth \<and> is_sen T i then do {
        e \<leftarrow> get_entry T i;
        Some (hash_and_combine T e (id_seed T))
      } else Some i)"

definition id_combine :: "'v::zero_neq_one htt \<Rightarrow> nat \<Rightarrow> node_id \<Rightarrow> node_id \<Rightarrow> bool \<Rightarrow> node_id option" where
  "id_combine T depth this other becomes_sen =
     (if id_empty T this then Some other
      else if \<not> id_empty T other then do {
        left_hash \<leftarrow> combined_hash T depth this;
        right_hash \<leftarrow> combined_hash T depth other;
        let combined = hash_combine T [id_seed T, left_hash, right_hash];
        Some (if becomes_sen then tag_as_sen T combined else tag_as_fn T combined)
      } else Some this)"

definition add_entry :: "'v::zero_neq_one htt \<Rightarrow> nat \<Rightarrow> node_id \<Rightarrow> 'v entry \<Rightarrow> node_id option" where
  "add_entry T depth i e =
     (if id_empty T i then Some (encode_single_entry T depth e)
      else if is_sen T i then
        if in_place_node T depth then do {
          e' \<leftarrow> get_entry T i;
          Some (tag_as_fn T (hash_and_combine T e' (hash_and_combine T e (id_seed T))))
        } else Some (tag_as_fn T (hash_and_combine T e i))
      else Some (tag_as_fn T (hash_and_combine T e i)))"

definition remove_entry :: "'v htt \<Rightarrow> nat \<Rightarrow> node_id \<Rightarrow> 'v entry \<Rightarrow> bool \<Rightarrow> node_id option" where
  "remove_entry T depth i e becomes_sen = do {
     check (is_fn T i);
     check (\<not> (in_place_node T depth \<and> becomes_sen));
     let h = hash_and_combine T e i;
     Some (if becomes_sen then tag_as_sen T h else tag_as_fn T h)
   }"

definition retag_as_sen :: "'v htt \<Rightarrow> node_id \<Rightarrow> node_id" where
  "retag_as_sen T i = tag_as_sen T i"

subsection \<open>Hash of a set of entries\<close>

interpretation xor_set: comm_monoid_set "(XOR) :: node_id \<Rightarrow> node_id \<Rightarrow> node_id" 0
  by standard (simp_all add: ac_simps)

definition combine_is_xor :: "'v htt \<Rightarrow> bool" where
  "combine_is_xor T \<longleftrightarrow> (\<forall>hs. hash_combine T hs = foldr (XOR) hs 0)"

definition htt_ok :: "'v htt \<Rightarrow> bool" where
  "htt_ok T \<longleftrightarrow> tag_pos T < 64 \<and> combine_is_xor T \<and> (in_place_depth1 T \<longrightarrow> bool_valued T)"

definition xor_hash :: "'v htt \<Rightarrow> 'v entry set \<Rightarrow> node_id" where
  "xor_hash T E = xor_set.F (entry_hash T) E"

definition untagged :: "'v htt \<Rightarrow> 'v entry set \<Rightarrow> node_id" where
  "untagged T E = tag_as_fn T (xor_hash T E)"

text \<open>The identifier of the node that represents a set of entries of one depth.\<close>

definition ident :: "'v htt \<Rightarrow> nat \<Rightarrow> 'v entry set \<Rightarrow> node_id" where
  "ident T depth E =
     (if E = {} then 0
      else if card E = 1 then
        (if in_place_node T depth then tag_as_sen T (fst (the_elem E) ! 0) else tag_as_sen T (xor_hash T E))
      else untagged T E)"

lemma id_seed_0 [simp]: "id_seed T = 0"
  by (simp add: id_seed_def)

lemma id_empty_iff [simp]: "id_empty T i = (i = 0)"
  by (simp add: id_empty_def)

lemma bit_tag: "htt_ok T \<Longrightarrow> bit (tag_bit T) n = (n = tag_pos T)"
  by (auto simp: tag_bit_def htt_ok_def bit_simps)

lemma and_tag: "htt_ok T \<Longrightarrow> (x AND tag_bit T \<noteq> 0) = bit x (tag_pos T)"
  unfolding tag_bit_def by (simp add: bit_iff_and_push_bit_not_eq_0)

lemma is_sen_bit: "htt_ok T \<Longrightarrow> is_sen T i = bit i (tag_pos T)"
  by (auto simp: is_sen_def and_tag)

lemma is_fn_bit: "htt_ok T \<Longrightarrow> is_fn T i = (i \<noteq> 0 \<and> \<not> bit i (tag_pos T))"
  by (auto simp: is_fn_def and_tag bit_not_iff htt_ok_def)

lemma bit_tag_as_fn: "htt_ok T \<Longrightarrow> bit (tag_as_fn T h) n = (bit h n \<and> n \<noteq> tag_pos T)"
  by (auto simp: tag_as_fn_def bit_and_iff bit_not_iff bit_tag dest: bit_imp_le_length)

lemma bit_tag_as_sen: "htt_ok T \<Longrightarrow> bit (tag_as_sen T h) n = (bit h n \<or> n = tag_pos T)"
  by (auto simp: tag_as_sen_def bit_or_iff bit_tag)

lemma tag_idem [simp]:
  "htt_ok T \<Longrightarrow> tag_as_fn T (tag_as_sen T h) = tag_as_fn T h"
  "htt_ok T \<Longrightarrow> tag_as_fn T (tag_as_fn T h) = tag_as_fn T h"
  "htt_ok T \<Longrightarrow> tag_as_sen T (tag_as_fn T h) = tag_as_sen T h"
  "htt_ok T \<Longrightarrow> tag_as_sen T (tag_as_sen T h) = tag_as_sen T h"
  by (auto simp: bit_eq_iff bit_tag_as_fn bit_tag_as_sen)

lemma tag_as_fn_xor: "htt_ok T \<Longrightarrow> tag_as_fn T (a XOR b) = tag_as_fn T (tag_as_fn T a XOR tag_as_fn T b)"
  by (auto simp: bit_eq_iff bit_tag_as_fn bit_xor_iff)

lemma tag_as_fn_xor_sen: "htt_ok T \<Longrightarrow> tag_as_fn T (tag_as_sen T a XOR b) = tag_as_fn T (a XOR b)"
  "htt_ok T \<Longrightarrow> tag_as_fn T (a XOR tag_as_sen T b) = tag_as_fn T (a XOR b)"
  "htt_ok T \<Longrightarrow> tag_as_fn T (tag_as_fn T a XOR b) = tag_as_fn T (a XOR b)"
  "htt_ok T \<Longrightarrow> tag_as_fn T (a XOR tag_as_fn T b) = tag_as_fn T (a XOR b)"
  by (auto simp: bit_eq_iff bit_tag_as_fn bit_tag_as_sen bit_xor_iff)

lemma tag_as_fn_0 [simp]: "tag_as_fn T 0 = 0"
  by (simp add: tag_as_fn_def)

lemma hash_and_combine_xor: "htt_ok T \<Longrightarrow> hash_and_combine T e h = h XOR entry_hash T e"
  by (simp add: hash_and_combine_def htt_ok_def combine_is_xor_def)

lemma xor_hash_simps [simp]:
  "xor_hash T {} = 0" "xor_hash T {e} = entry_hash T e"
  "finite E \<Longrightarrow> e \<notin> E \<Longrightarrow> xor_hash T (insert e E) = entry_hash T e XOR xor_hash T E"
  by (simp_all add: xor_hash_def)

text \<open>Xor of two hashes is the hash of the symmetric difference, so combining identifiers adds
  disjoint sets and removes subsets.\<close>

lemma xor_hash_sym_diff:
  assumes "finite A" "finite B"
  shows "xor_hash T A XOR xor_hash T B = xor_hash T ((A - B) \<union> (B - A))"
proof -
  have split: "xor_hash T X = xor_hash T (X - Y) XOR xor_hash T (X \<inter> Y)" if "finite X" for X Y
    using that xor_set.Int_Diff[of X "entry_hash T" Y] by (simp add: xor_hash_def xor.commute)
  have "xor_hash T A XOR xor_hash T B
      = xor_hash T (A - B) XOR xor_hash T (B - A) XOR (xor_hash T (A \<inter> B) XOR xor_hash T (A \<inter> B))"
    using split[OF assms(1), of B] split[OF assms(2), of A] by (simp add: ac_simps Int_commute)
  also have "\<dots> = xor_hash T ((A - B) \<union> (B - A))"
    using assms xor_set.union_disjoint[of "A - B" "B - A" "entry_hash T"]
    by (simp add: xor_hash_def Diff_Int_distrib2 Int_Diff)
  finally show ?thesis .
qed

lemma foldl_hash:
  assumes "htt_ok T" "distinct es" "set es \<inter> A = {}" "finite A"
  shows "foldl (\<lambda>h e. hash_and_combine T e h) (xor_hash T A) es = xor_hash T (A \<union> set es)"
  using assms(2-4)
proof (induction es arbitrary: A)
  case (Cons e es)
  have "hash_and_combine T e (xor_hash T A) = xor_hash T (insert e A)"
    using Cons.prems assms(1) by (simp add: hash_and_combine_xor ac_simps)
  moreover have "foldl (\<lambda>h e. hash_and_combine T e h) (xor_hash T (insert e A)) es = xor_hash T (insert e A \<union> set es)"
    using Cons.prems by (intro Cons.IH) auto
  ultimately show ?case by simp
qed simp

lemma hash_iterable_ident:
  assumes "htt_ok T" "distinct es"
  shows "hash_iterable T d es = ident T d (set es)"
proof -
  have fold: "foldl (\<lambda>h e. hash_and_combine T e h) 0 es = xor_hash T (set es)"
    using foldl_hash[OF assms, of "{}"] by simp
  consider "es = []" | e where "es = [e]" | "es \<noteq> []" "length es \<noteq> 1"
    by (metis One_nat_def length_0_conv length_Suc_conv)
  then show ?thesis
  proof cases
    case 3
    then have "card (set es) \<noteq> 1" "set es \<noteq> {}" by (simp_all add: distinct_card[OF assms(2)])
    then show ?thesis using 3 fold by (simp add: hash_iterable_def ident_def untagged_def)
  next
    case 2
    then show ?thesis using assms(1)
      by (simp add: hash_iterable_def ident_def encode_single_entry_def hash_and_combine_xor)
  qed (simp_all add: hash_iterable_def ident_def)
qed

lemma encode_single_entry_ident:
  "htt_ok T \<Longrightarrow> encode_single_entry T d e = ident T d {e}"
  by (simp add: encode_single_entry_def ident_def hash_and_combine_xor)

subsection \<open>The universe of entries and its hashes\<close>

definition entry_ok :: "'v::zero_neq_one htt \<Rightarrow> 'v entry \<Rightarrow> bool" where
  "entry_ok T e \<longleftrightarrow> fst e \<noteq> [] \<and> (\<forall>k \<in> set (fst e). k \<noteq> 0) \<and> snd e \<noteq> 0 \<and>
     (bool_valued T \<longrightarrow> snd e = 1) \<and>
     (in_place_depth1 T \<longrightarrow> snd e = 1 \<and> (\<forall>k \<in> set (fst e). \<not> bit k (tag_pos T)))"

text \<open>The entries of a set that have a given key part at a position, with that part removed.\<close>

definition sub_entries :: "nat \<Rightarrow> key_part \<Rightarrow> 'v entry set \<Rightarrow> 'v entry set" where
  "sub_entries p k E = (\<lambda>e. (subkey (fst e) p, snd e)) ` {e \<in> E. fst e ! p = k}"

definition all_depth :: "nat \<Rightarrow> 'v entry set \<Rightarrow> bool" where
  "all_depth d E \<longleftrightarrow> (\<forall>e \<in> E. length (fst e) = d)"

text \<open>A universe is the family of the entry sets that are ever hashed: it contains the empty set, is
  closed under the sets that the children of a node stand for, and no two of its sets of one depth
  have the same hash.\<close>

definition universe_ok :: "'v::zero_neq_one htt \<Rightarrow> 'v entry set set \<Rightarrow> bool" where
  "universe_ok T U \<longleftrightarrow> htt_ok T \<and> {} \<in> U \<and> (\<forall>E \<in> U. \<forall>e \<in> E. entry_ok T e) \<and>
     (\<forall>E \<in> U. \<forall>d p k. all_depth (Suc d) E \<longrightarrow> 1 \<le> d \<longrightarrow> p < Suc d \<longrightarrow> sub_entries p k E \<in> U) \<and>
     (\<forall>d. inj_on (untagged T) {E \<in> U. all_depth d E})"

text \<open>A set of the universe, finite and of one depth, with at most one value per key, and fewer
  entries than the largest \<open>size_t\<close> (which the minimum searches use as their start value).\<close>

definition size_max :: nat where
  "size_max = 2 ^ 64 - 1"

definition entries_ok :: "'v entry set set \<Rightarrow> nat \<Rightarrow> 'v entry set \<Rightarrow> bool" where
  "entries_ok U d E \<longleftrightarrow> finite E \<and> E \<in> U \<and> all_depth d E \<and> inj_on fst E \<and> card E < size_max"

lemma entries_okD:
  assumes "entries_ok U d E"
  shows "finite E" "E \<in> U" "\<And>e. e \<in> E \<Longrightarrow> length (fst e) = d" "inj_on fst E" "card E < size_max"
  using assms by (auto simp: entries_ok_def all_depth_def)

lemma entries_ok_value_unique:
  "entries_ok U d E \<Longrightarrow> (k, v) \<in> E \<Longrightarrow> (k, w) \<in> E \<Longrightarrow> v = w"
  using inj_onD[OF entries_okD(4), of U d E "(k, v)" "(k, w)"] by simp

lemma universe_okD:
  assumes "universe_ok T U"
  shows "htt_ok T" "\<And>E e. E \<in> U \<Longrightarrow> e \<in> E \<Longrightarrow> entry_ok T e"
    "\<And>E d p k. E \<in> U \<Longrightarrow> all_depth (Suc d) E \<Longrightarrow> 1 \<le> d \<Longrightarrow> p < Suc d \<Longrightarrow> sub_entries p k E \<in> U"
    "\<And>d. inj_on (untagged T) {E \<in> U. all_depth d E}" "{} \<in> U"
  using assms by (auto simp: universe_ok_def)

lemma entries_ok_empty: "universe_ok T U \<Longrightarrow> entries_ok U d {}"
  using universe_okD(5) by (auto simp: entries_ok_def size_max_def all_depth_def)

lemma untagged_inj:
  assumes "universe_ok T U" "entries_ok U d A" "entries_ok U d B" "untagged T A = untagged T B"
  shows "A = B"
  by (rule inj_onD[OF universe_okD(4)[OF assms(1)]]) (use assms(2-4) in \<open>auto simp: entries_ok_def\<close>)

text \<open>The sets hashed when entries are inserted into, or erased from, a node.\<close>

definition ins_ok :: "'v entry set set \<Rightarrow> nat \<Rightarrow> 'v entry set \<Rightarrow> 'v entry list \<Rightarrow> bool" where
  "ins_ok U d E es \<longleftrightarrow> entries_ok U d E \<and> entries_ok U d (set es) \<and> entries_ok U d (E \<union> set es)"

definition del_ok :: "'v entry set set \<Rightarrow> nat \<Rightarrow> 'v entry set \<Rightarrow> 'v entry list \<Rightarrow> bool" where
  "del_ok U d E es \<longleftrightarrow> entries_ok U d E \<and> entries_ok U d (set es) \<and> entries_ok U d (E - set es)"

lemma ins_okD:
  assumes "ins_ok U d E es"
  shows "entries_ok U d (E \<union> set es)" "entries_ok U d E" "entries_ok U d (set es)"
  using assms by (simp_all add: ins_ok_def)

lemma del_okD:
  assumes "del_ok U d E es"
  shows "entries_ok U d E" "entries_ok U d (set es)" "entries_ok U d (E - set es)"
  using assms by (simp_all add: del_ok_def)

lemma untagged_0_iff:
  assumes "universe_ok T U" "entries_ok U d A"
  shows "untagged T A = 0 \<longleftrightarrow> A = {}"
  using untagged_inj[OF assms(1,2) entries_ok_empty[OF assms(1)]] by (auto simp: untagged_def)

lemma in_place_singleton:
  assumes "universe_ok T U" "entries_ok U 1 {e}" "in_place_depth1 T"
  shows "\<exists>k. e = ([k], 1) \<and> \<not> bit k (tag_pos T)"
proof -
  have "entry_ok T e" using universe_okD(2)[OF assms(1) entries_okD(2)[OF assms(2)]] by simp
  moreover have "length (fst e) = 1" using entries_okD(3)[OF assms(2)] by simp
  ultimately show ?thesis using assms(3)
    by (cases e) (auto simp: entry_ok_def length_Suc_conv)
qed

lemma ident_singleton:
  "ident T d {e} = (if in_place_node T d then tag_as_sen T (fst e ! 0) else tag_as_sen T (entry_hash T e))"
  by (simp add: ident_def)

lemma ident_big: "finite E \<Longrightarrow> 2 \<le> card E \<Longrightarrow> ident T d E = untagged T E"
  by (auto simp: ident_def)

lemma ident_empty [simp]: "ident T d {} = 0"
  by (simp add: ident_def)

lemma card_cases:
  assumes "finite E"
  obtains "E = {}" | e where "E = {e}" | "2 \<le> card E"
  using assms by (metis One_nat_def Suc_1 card_0_eq card_1_singletonE le_neq_implies_less less_Suc_eq_le
      less_one not_less_eq_eq not_less)

lemma ident_bit:
  assumes "universe_ok T U" "entries_ok U d E"
  shows "bit (ident T d E) (tag_pos T) \<longleftrightarrow> card E = 1"
proof (cases rule: card_cases[OF entries_okD(1)[OF assms(2)]])
  case 3
  then show ?thesis using universe_okD(1)[OF assms(1)] entries_okD(1)[OF assms(2)]
    by (auto simp: ident_big bit_tag_as_fn untagged_def)
qed (use universe_okD(1)[OF assms(1)] in \<open>auto simp: ident_singleton bit_tag_as_sen\<close>)

lemma ident_nonzero:
  assumes "universe_ok T U" "entries_ok U d E"
  shows "ident T d E = 0 \<longleftrightarrow> E = {}"
  using entries_okD(1)[OF assms(2)]
proof (cases rule: card_cases)
  case 2
  then have "bit (ident T d E) (tag_pos T)" using ident_bit[OF assms] by simp
  then show ?thesis using 2 by auto
next
  case 3
  then show ?thesis using untagged_0_iff[OF assms] entries_okD(1)[OF assms(2)] by (auto simp: ident_big)
qed simp

lemma is_sen_ident:
  "universe_ok T U \<Longrightarrow> entries_ok U d E \<Longrightarrow> is_sen T (ident T d E) \<longleftrightarrow> card E = 1"
  by (simp add: is_sen_bit[OF universe_okD(1)] ident_bit)

lemma is_fn_ident:
  assumes "universe_ok T U" "entries_ok U d E"
  shows "is_fn T (ident T d E) \<longleftrightarrow> 2 \<le> card E"
proof -
  have "is_fn T (ident T d E) \<longleftrightarrow> E \<noteq> {} \<and> card E \<noteq> 1"
    using ident_bit[OF assms] ident_nonzero[OF assms] is_fn_bit[OF universe_okD(1)[OF assms(1)]] by auto
  also have "\<dots> \<longleftrightarrow> 2 \<le> card E"
    using entries_okD(1)[OF assms(2)] by (cases rule: card_cases) auto
  finally show ?thesis .
qed

lemma ident_inj:
  assumes U: "universe_ok T U" and A: "entries_ok U d A" and B: "entries_ok U d B"
    and eq: "ident T d A = ident T d B"
  shows "A = B"
proof -
  note T = universe_okD(1)[OF U]
  have one: "card A = 1 \<longleftrightarrow> card B = 1" using ident_bit[OF U A] ident_bit[OF U B] eq by simp
  have none: "A = {} \<longleftrightarrow> B = {}" using ident_nonzero[OF U A] ident_nonzero[OF U B] eq by simp
  have single: ?thesis if ab: "A = {a}" "B = {b}" for a b
  proof (cases "in_place_node T d")
    case True
    then have d: "d = 1" "in_place_depth1 T" by (auto simp: in_place_node_def)
    obtain k where k: "a = ([k], 1)" "\<not> bit k (tag_pos T)"
      using in_place_singleton[OF U A[unfolded ab(1) d(1)] d(2)] by blast
    obtain l where l: "b = ([l], 1)" "\<not> bit l (tag_pos T)"
      using in_place_singleton[OF U B[unfolded ab(2) d(1)] d(2)] by blast
    have tags: "tag_as_sen T k = tag_as_sen T l" using eq that True k l by (simp add: ident_singleton)
    have "bit k n = bit l n" for n
      using k(2) l(2) arg_cong[OF tags, of "\<lambda>w. bit w n"] by (cases "n = tag_pos T") (simp_all add: bit_tag_as_sen[OF T])
    then have "k = l" by (rule bit_word_eqI)
    then show ?thesis using k l that by simp
  next
    case False
    then have "untagged T A = untagged T B"
      using eq that T by (auto simp: ident_singleton untagged_def dest: arg_cong[where f = "tag_as_fn T"])
    then show ?thesis by (rule untagged_inj[OF U A B])
  qed
  show ?thesis
  proof (cases rule: card_cases[OF entries_okD(1)[OF A]])
    case 1
    then show ?thesis using none by simp
  next
    case (2 a)
    then obtain b where "B = {b}" using one by (metis card_1_singletonE is_singletonI is_singleton_altdef)
    then show ?thesis using 2 single by simp
  next
    case 3
    have "card B \<noteq> 1" "B \<noteq> {}" using 3 one none by auto
    then have "2 \<le> card B" by (cases rule: card_cases[OF entries_okD(1)[OF B]]) auto
    then show ?thesis using 3 eq entries_okD(1)[OF A] entries_okD(1)[OF B] untagged_inj[OF U A B]
      by (simp add: ident_big)
  qed
qed

lemma get_entry_ident:
  assumes "universe_ok T U" "entries_ok U 1 {e}" "in_place_depth1 T"
  shows "in_place_entry T (ident T 1 {e}) = e" "get_entry T (ident T 1 {e}) = Some e"
proof -
  obtain k where k: "e = ([k], 1)" "\<not> bit k (tag_pos T)" using in_place_singleton[OF assms] by blast
  have "tag_as_fn T (tag_as_sen T k) = k"
    by (rule bit_word_eqI) (use k(2) universe_okD(1)[OF assms(1)] in \<open>auto simp: bit_tag_as_fn bit_tag_as_sen\<close>)
  then show entry: "in_place_entry T (ident T 1 {e}) = e"
    using k(1) assms(3) by (simp add: in_place_entry_def ident_singleton in_place_node_def)
  then show "get_entry T (ident T 1 {e}) = Some e" using is_sen_ident[OF assms(1,2)] by (simp add: get_entry_def)
qed

subsection \<open>What the operations on identifiers compute\<close>

text \<open>The untagged hash of a non-empty node, as \<open>combine\<close> reads it off an identifier.\<close>

lemma combine_operand:
  assumes U: "universe_ok T U" and A: "entries_ok U d A" and ne: "A \<noteq> {}"
  shows "\<exists>h. combined_hash T d (ident T d A) = Some h \<and> tag_as_fn T h = untagged T A"
proof -
  note T = universe_okD(1)[OF U]
  show ?thesis using entries_okD(1)[OF A]
  proof (cases rule: card_cases)
    case (2 e)
    show ?thesis
    proof (cases "in_place_node T d")
      case True
      then have "d = 1" "in_place_depth1 T" by (auto simp: in_place_node_def)
      then have "get_entry T (ident T d A) = Some e" using get_entry_ident(2)[OF U] A 2 by simp
      then show ?thesis using True 2 is_sen_ident[OF U A] T
        by (simp add: combined_hash_def hash_and_combine_xor untagged_def)
    next
      case False
      then show ?thesis using 2 T by (simp add: combined_hash_def ident_singleton untagged_def)
    qed
  next
    case 3
    then show ?thesis using is_sen_ident[OF U A] T entries_okD(1)[OF A] by (simp add: combined_hash_def ident_big untagged_def)
  qed (use ne in simp)
qed

lemma id_combine_sym_diff:
  assumes U: "universe_ok T U" and A: "entries_ok U d A" "A \<noteq> {}" and B: "entries_ok U d B" "B \<noteq> {}"
  shows "id_combine T d (ident T d A) (ident T d B) False = Some (untagged T ((A - B) \<union> (B - A)))"
proof -
  note T = universe_okD(1)[OF U]
  obtain a where a: "combined_hash T d (ident T d A) = Some a" "tag_as_fn T a = untagged T A" using combine_operand[OF U A] by blast
  obtain b where b: "combined_hash T d (ident T d B) = Some b" "tag_as_fn T b = untagged T B" using combine_operand[OF U B] by blast
  have "id_combine T d (ident T d A) (ident T d B) False = Some (tag_as_fn T (a XOR b))"
    using T ident_nonzero[OF U A(1)] ident_nonzero[OF U B(1)] A(2) B(2) a(1) b(1)
    by (simp add: id_combine_def htt_ok_def combine_is_xor_def)
  also have "tag_as_fn T (a XOR b) = tag_as_fn T (untagged T A XOR untagged T B)"
    using a(2) b(2) tag_as_fn_xor[OF T, of a b] by simp
  also have "\<dots> = untagged T ((A - B) \<union> (B - A))"
    using T xor_hash_sym_diff[of A B T] entries_okD(1)[OF A(1)] entries_okD(1)[OF B(1)]
    by (simp add: untagged_def tag_as_fn_xor_sen)
  finally show ?thesis .
qed

lemma combine_disjoint:
  assumes U: "universe_ok T U" and A: "entries_ok U d A" and B: "entries_ok U d B" and AB: "entries_ok U d (A \<union> B)" "A \<inter> B = {}"
  shows "id_combine T d (ident T d A) (ident T d B) False = Some (ident T d (A \<union> B))"
proof -
  consider "A = {}" | "A \<noteq> {}" "B = {}" | "A \<noteq> {}" "B \<noteq> {}" by blast
  then show ?thesis
  proof cases
    case 3
    have fin: "finite A" "finite B" using entries_okD(1)[OF A] entries_okD(1)[OF B] by simp_all
    have "card (A \<union> B) = card A + card B" using fin AB(2) by (rule card_Un_disjoint)
    moreover have "0 < card A" "0 < card B" using fin 3 by (simp_all add: card_gt_0_iff)
    ultimately have "2 \<le> card (A \<union> B)" by simp
    moreover have "(A - B) \<union> (B - A) = A \<union> B" using AB(2) by blast
    ultimately show ?thesis using id_combine_sym_diff[OF U A 3(1) B 3(2)] fin by (simp add: ident_big)
  qed (use ident_nonzero[OF U A] ident_nonzero[OF U B] in \<open>simp_all add: id_combine_def\<close>)
qed

text \<open>Adding a new entry, and removing one of at least two. The identifier of an in-place node is not the
  hash of its entry, so \<open>remove_entry\<close> must not lead to one.\<close>

lemma untagged_insert:
  assumes T: "htt_ok T" and A: "finite A" "e \<notin> A"
  shows "tag_as_fn T (tag_as_fn T (entry_hash T e) XOR untagged T A) = untagged T (insert e A)"
  using A tag_as_fn_xor[OF T, of "entry_hash T e" "xor_hash T A"] T by (simp add: untagged_def tag_as_fn_xor_sen)

lemma add_entry_ident:
  assumes U: "universe_ok T U" and A: "entries_ok U d A" and e: "e \<notin> A"
  shows "add_entry T d (ident T d A) e = Some (ident T d (insert e A))"
  using entries_okD(1)[OF A]
proof (cases rule: card_cases)
  case 1
  then show ?thesis using encode_single_entry_ident[OF universe_okD(1)[OF U], of d e] by (simp add: add_entry_def)
next
  note T = universe_okD(1)[OF U]
  note big = ident_big[of "insert e A" T d] and ins = untagged_insert[OF T entries_okD(1)[OF A] e]
  case (2 f)
  then have sen: "is_sen T (ident T d A)" "\<not> id_empty T (ident T d A)" using is_sen_ident[OF U A] ident_nonzero[OF U A] by simp_all
  have two: "ident T d (insert e A) = untagged T (insert e A)" using 2 e by (intro big) (auto simp: card_insert_if)
  show ?thesis
  proof (cases "in_place_node T d")
    case True
    then have "d = 1" "in_place_depth1 T" by (auto simp: in_place_node_def)
    then have "get_entry T (ident T d A) = Some f" using get_entry_ident(2)[OF U] A 2 by simp
    then show ?thesis using True sen two ins 2 T
      by (simp add: add_entry_def hash_and_combine_xor tag_as_fn_xor_sen untagged_def)
  next
    case False
    then show ?thesis using sen two ins 2 T
      by (simp add: add_entry_def hash_and_combine_xor tag_as_fn_xor_sen untagged_def ident_singleton xor.commute)
  qed
next
  note T = universe_okD(1)[OF U]
  case 3
  then have "\<not> is_sen T (ident T d A)" "\<not> id_empty T (ident T d A)" using is_sen_ident[OF U A] ident_nonzero[OF U A] by auto
  moreover have "2 \<le> card (insert e A)" using 3 entries_okD(1)[OF A] by (simp add: card_insert_if)
  ultimately show ?thesis using 3 untagged_insert[OF T entries_okD(1)[OF A] e] entries_okD(1)[OF A] T
    by (simp add: add_entry_def hash_and_combine_xor tag_as_fn_xor_sen ident_big xor.commute)
qed

lemma remove_entry_ident:
  assumes U: "universe_ok T U" and A: "entries_ok U d A" and B: "entries_ok U d (insert e A)" and e: "e \<notin> A" "A \<noteq> {}"
    and ip: "\<not> (in_place_node T d \<and> card A = 1)"
  shows "remove_entry T d (ident T d (insert e A)) e (card A = 1) = Some (ident T d A)"
proof -
  note T = universe_okD(1)[OF U] and fin = entries_okD(1)[OF A]
  have big: "2 \<le> card (insert e A)" using fin e by (simp add: card_insert_if Suc_le_eq card_gt_0_iff)
  have tags: "tag_as_fn T (untagged T (insert e A) XOR entry_hash T e) = untagged T A"
    using fin e T by (simp add: untagged_def tag_as_fn_xor_sen ac_simps)
  have fn: "is_fn T (ident T d (insert e A))" using is_fn_ident[OF U B] big by simp
  show ?thesis
  proof (cases "card A = 1")
    case True
    have "tag_as_sen T (tag_as_fn T (untagged T (insert e A) XOR entry_hash T e)) = tag_as_sen T (untagged T A)"
      using tags by simp
    then show ?thesis using True fn ip T big fin e
      by (simp add: remove_entry_def ident_big hash_and_combine_xor untagged_def ident_def)
  next
    case False
    then have "2 \<le> card A" using fin e by (cases rule: card_cases[OF fin]) auto
    then show ?thesis using False fn T big fin tags by (simp add: remove_entry_def ident_big hash_and_combine_xor)
  qed
qed

end
