(* ===== verification/Nodes.thy ===== *)
theory Nodes
  imports Identifiers
begin

text \<open>
  Nodes and their storage (internal/raw/node/): single-entry nodes, full nodes with one edge map
  per key position (\<open>WithEdges\<close>, \<open>FullNode\<close>), the maps from identifiers to nodes (\<open>NodeStorage\<close>,
  \<open>SpecificNodeStorage\<close>) and node containers. A full node of depth 1 maps key parts to values
  (the program uses a set when values are Boolean: every stored value is then \<open>true\<close>), a deeper one
  maps key parts to the identifiers of its children. A node pointer of the program is owned by
  exactly one entry of the storage, so the model keeps the node itself in the map; a container
  holds its identifier and whether its pointer is set. Reference counts are \<open>int\<close>, as they are
  compared with signed deltas. \<open>fn_repr\<close> says when a full node represents a set of entries.
\<close>

subsection \<open>Nodes\<close>

record 'v sen_node =
  sn_ref :: int
  sn_key :: raw_key
  sn_value :: 'v

record 'v full_node =
  fn_ref :: int
  fn_count :: nat
  fn_edges :: "(key_part \<times> node_id) list list"
  fn_values :: "(key_part \<times> 'v) list"

definition sn_entry :: "'v sen_node \<Rightarrow> 'v entry" where
  "sn_entry s = (sn_key s, sn_value s)"

definition new_sen :: "'v entry \<Rightarrow> int \<Rightarrow> 'v sen_node" where
  "new_sen e ref_count = \<lparr>sn_ref = ref_count, sn_key = fst e, sn_value = snd e\<rparr>"

definition new_fn :: "nat \<Rightarrow> int \<Rightarrow> 'v full_node" where
  "new_fn depth ref_count =
     \<lparr>fn_ref = ref_count, fn_count = 0, fn_edges = replicate depth [], fn_values = []\<rparr>"

text \<open>\<open>FullNode::size\<close>: a stored counter, or the number of edges at depth 1.\<close>

definition fn_size :: "nat \<Rightarrow> 'v full_node \<Rightarrow> nat" where
  "fn_size depth fn = (if depth = 1 then length (fn_values fn) else fn_count fn)"

definition edge_count :: "nat \<Rightarrow> 'v full_node \<Rightarrow> nat \<Rightarrow> nat" where
  "edge_count depth fn pos = (if depth = 1 then length (fn_values fn) else length (fn_edges fn ! pos))"

definition fn_child :: "'v full_node \<Rightarrow> nat \<Rightarrow> key_part \<Rightarrow> node_id" where
  "fn_child fn pos kp = (case map_of (fn_edges fn ! pos) kp of Some c \<Rightarrow> c | None \<Rightarrow> 0)"

definition fn_value :: "'v::zero_neq_one full_node \<Rightarrow> key_part \<Rightarrow> 'v" where
  "fn_value fn kp = (case map_of (fn_values fn) kp of Some v \<Rightarrow> v | None \<Rightarrow> 0)"

definition get_cards :: "nat \<Rightarrow> 'v full_node \<Rightarrow> nat list" where
  "get_cards depth fn = map (edge_count depth fn) [0..<depth]"

definition get_cards_at :: "nat \<Rightarrow> 'v full_node \<Rightarrow> nat list \<Rightarrow> nat list" where
  "get_cards_at depth fn positions = map (edge_count depth fn) positions"

text \<open>The minimum search shared by the three \<open>min_card_pos\<close> variants: the first position with the
  least cardinality.\<close>

fun min_card_loop :: "(nat \<Rightarrow> nat) \<Rightarrow> nat list \<Rightarrow> nat \<Rightarrow> nat \<Rightarrow> nat" where
  "min_card_loop card_at [] min_pos min_card = min_pos"
| "min_card_loop card_at (pos # ps) min_pos min_card =
     (let current_card = card_at pos
      in if current_card < min_card then min_card_loop card_at ps pos current_card
         else min_card_loop card_at ps min_pos min_card)"

definition min_card_pos_of :: "nat \<Rightarrow> 'v full_node \<Rightarrow> nat list \<Rightarrow> nat option" where
  "min_card_pos_of depth fn positions =
     (if positions = [] then None
      else Some (min_card_loop (edge_count depth fn) positions (positions ! 0) size_max))"

definition min_card_pos :: "nat \<Rightarrow> 'v full_node \<Rightarrow> nat" where
  "min_card_pos depth fn =
     (if depth = 1 then 0 else min_card_loop (edge_count depth fn) [0..<depth] 0 size_max)"

definition min_card_pos_mask :: "nat \<Rightarrow> 'v full_node \<Rightarrow> raw_key_positions \<Rightarrow> nat" where
  "min_card_pos_mask depth fn poss =
     min_card_loop (edge_count depth fn) (filter (kp_at poss) [0..<depth]) 0 size_max"

fun min_fixed_loop :: "(nat \<Rightarrow> nat) \<Rightarrow> 'a raw_slice_key \<Rightarrow> nat list \<Rightarrow> nat \<Rightarrow> nat \<Rightarrow> nat \<Rightarrow> nat" where
  "min_fixed_loop card_at fs [] i min_i min_card = min_i"
| "min_fixed_loop card_at fs (pos # ps) i min_i min_card =
     (if pos = fst (fs ! i) then
        let current_card = card_at pos;
            better = current_card < min_card;
            min_card' = (if better then current_card else min_card);
            min_i' = (if better then i else min_i)
        in if Suc i = length fs then min_i' else min_fixed_loop card_at fs ps (Suc i) min_i' min_card'
      else if i = length fs then min_i else min_fixed_loop card_at fs ps i min_i min_card)"

definition min_fixed_keypart_i :: "nat \<Rightarrow> 'v full_node \<Rightarrow> key_part raw_slice_key \<Rightarrow> nat" where
  "min_fixed_keypart_i depth fn fs = min_fixed_loop (edge_count depth fn) fs [0..<depth] 0 0 size_max"

text \<open>Operations of \<open>FullNode\<close> at depth 1.\<close>

definition fn1_insert_or_assign :: "'v full_node \<Rightarrow> key_part \<Rightarrow> 'v \<Rightarrow> 'v full_node" where
  "fn1_insert_or_assign fn kp v = fn\<lparr>fn_values := AList.update kp v (fn_values fn)\<rparr>"

definition fn1_erase :: "'v full_node \<Rightarrow> key_part \<Rightarrow> 'v full_node" where
  "fn1_erase fn kp = fn\<lparr>fn_values := AList.delete kp (fn_values fn)\<rparr>"

text \<open>Equality of unordered maps and \<open>FullNode::operator==\<close>.\<close>

definition map_equal :: "('k \<times> 'a) list \<Rightarrow> ('k \<times> 'a) list \<Rightarrow> bool" where
  "map_equal a b = (length a = length b \<and> list_all (\<lambda>(k, v). map_of b k = Some v) a)"

fun fn_eq_loop :: "nat \<Rightarrow> 'v full_node \<Rightarrow> 'v full_node \<Rightarrow> nat list \<Rightarrow> nat \<Rightarrow> nat \<Rightarrow> nat option" where
  "fn_eq_loop depth a b [] min_size min_pos = Some min_pos"
| "fn_eq_loop depth a b (pos # ps) min_size min_pos =
     (let size_at_pos = edge_count depth a pos
      in if size_at_pos \<noteq> edge_count depth b pos then None
         else if size_at_pos < min_size then fn_eq_loop depth a b ps size_at_pos pos
         else fn_eq_loop depth a b ps min_size min_pos)"

definition fn_equal :: "nat \<Rightarrow> 'v full_node \<Rightarrow> 'v full_node \<Rightarrow> bool" where
  "fn_equal depth a b =
     (if fn_size depth a \<noteq> fn_size depth b then False
      else if depth = 1 then map_equal (fn_values a) (fn_values b)
      else case fn_eq_loop depth a b [0..<depth] size_max 0 of
          None \<Rightarrow> False
        | Some min_pos \<Rightarrow> map_equal (fn_edges a ! min_pos) (fn_edges b ! min_pos))"

subsection \<open>Node storage and containers\<close>

record 'v node_storage =
  fns :: "nat \<Rightarrow> (node_id \<times> 'v full_node) list"
  sens :: "nat \<Rightarrow> (node_id \<times> 'v sen_node) list"

definition empty_storage :: "'v node_storage" where
  "empty_storage = \<lparr>fns = \<lambda>_. [], sens = \<lambda>_. []\<rparr>"

definition put_fns :: "nat \<Rightarrow> (node_id \<times> 'v full_node) list \<Rightarrow> 'v node_storage \<Rightarrow> 'v node_storage" where
  "put_fns depth m \<sigma> = \<sigma>\<lparr>fns := (fns \<sigma>)(depth := m)\<rparr>"

definition put_sens :: "nat \<Rightarrow> (node_id \<times> 'v sen_node) list \<Rightarrow> 'v node_storage \<Rightarrow> 'v node_storage" where
  "put_sens depth m \<sigma> = \<sigma>\<lparr>sens := (sens \<sigma>)(depth := m)\<rparr>"

definition find_fn :: "'v node_storage \<Rightarrow> nat \<Rightarrow> node_id \<Rightarrow> 'v full_node option" where
  "find_fn \<sigma> depth i = map_of (fns \<sigma> depth) i"

definition find_sen :: "'v node_storage \<Rightarrow> nat \<Rightarrow> node_id \<Rightarrow> 'v sen_node option" where
  "find_sen \<sigma> depth i = map_of (sens \<sigma> depth) i"

record node_container =
  nc_id :: node_id
  nc_ptr :: bool

definition empty_container :: node_container where
  "empty_container = \<lparr>nc_id = 0, nc_ptr = False\<rparr>"

definition lookup :: "'v htt \<Rightarrow> 'v node_storage \<Rightarrow> nat \<Rightarrow> node_id \<Rightarrow> node_container" where
  "lookup T \<sigma> depth i =
     (if id_empty T i then empty_container
      else if is_fn T i then
        (case find_fn \<sigma> depth i of Some _ \<Rightarrow> \<lparr>nc_id = i, nc_ptr = True\<rparr> | None \<Rightarrow> empty_container)
      else
        (case find_sen \<sigma> depth i of Some _ \<Rightarrow> \<lparr>nc_id = i, nc_ptr = True\<rparr> | None \<Rightarrow> empty_container))"

text \<open>\<open>update_or_create_sen\<close> adds to a reference count, reads the stored entry back into its
  argument, and creates or erases the node. \<open>None\<close> is a failed assertion (or an absent entry).\<close>

definition update_or_create_sen ::
  "'v node_storage \<Rightarrow> nat \<Rightarrow> node_id \<Rightarrow> 'v entry option \<Rightarrow> int \<Rightarrow> ('v node_storage \<times> 'v entry option) option" where
  "update_or_create_sen \<sigma> depth i sen delta =
     (if delta = 0 then Some (\<sigma>, sen)
      else case find_sen \<sigma> depth i of
        Some node \<Rightarrow>
          (if sn_ref node + delta < 0 then None
           else let node' = node\<lparr>sn_ref := sn_ref node + delta\<rparr>; nodes = sens \<sigma> depth
             in Some (put_sens depth (if sn_ref node' = 0 then AList.delete i nodes
                                      else AList.update i node' nodes) \<sigma>, Some (sn_entry node)))
      | None \<Rightarrow>
          (if delta \<le> 0 then None
           else case sen of None \<Rightarrow> None
             | Some e \<Rightarrow> Some (put_sens depth (AList.update i (new_sen e delta) (sens \<sigma> depth)) \<sigma>, sen)))"

lemma storage_simps [simp]:
  "fns (put_fns d m \<sigma>) d' = (if d' = d then m else fns \<sigma> d')"
  "sens (put_fns d m \<sigma>) = sens \<sigma>"
  "sens (put_sens d s \<sigma>) d' = (if d' = d then s else sens \<sigma> d')"
  "fns (put_sens d s \<sigma>) = fns \<sigma>"
  "fns empty_storage d = []" "sens empty_storage d = []"
  by (simp_all add: put_fns_def put_sens_def empty_storage_def)

subsection \<open>Entries grouped by a position\<close>

text \<open>\<open>entry_subset_for_pos\<close> groups entries by the key part at a position.\<close>

definition entry_subset_for_pos :: "'v entry list \<Rightarrow> nat \<Rightarrow> (key_part \<times> 'v entry list) list" where
  "entry_subset_for_pos entries pos =
     foldl (\<lambda>ret e. al_modify (fst e ! pos) [] (\<lambda>l. l @ [(subkey (fst e) pos, snd e)]) ret) [] entries"

text \<open>The list below one key part; \<open>sub_entries\<close> is the same for sets.\<close>

definition sub_list :: "nat \<Rightarrow> key_part \<Rightarrow> 'v entry list \<Rightarrow> 'v entry list" where
  "sub_list p k es = [(subkey (fst e) p, snd e). e \<leftarrow> es, fst e ! p = k]"

lemma set_sub_list [simp]: "set (sub_list p k es) = sub_entries p k (set es)"
  by (auto simp: sub_list_def sub_entries_def)

lemma sub_entries_mem:
  "(k', v) \<in> sub_entries p k E \<longleftrightarrow> (\<exists>key. (key, v) \<in> E \<and> key ! p = k \<and> subkey key p = k')"
  by (force simp: sub_entries_def)

lemma sub_entries_empty [simp]: "sub_entries p k {} = {}"
  by (simp add: sub_entries_def)

lemma sub_entries_Un: "sub_entries p k (E \<union> F) = sub_entries p k E \<union> sub_entries p k F"
  by (auto simp: sub_entries_def)

lemma sub_entries_mono: "E \<subseteq> F \<Longrightarrow> sub_entries p k E \<subseteq> sub_entries p k F"
  by (auto simp: sub_entries_def)

lemma sub_entries_inj:
  assumes "\<forall>e \<in> E. length (fst e) = d" "p < d"
  shows "inj_on (\<lambda>e. (subkey (fst e) p, snd e)) {e \<in> E. fst e ! p = k}"
proof (rule inj_onI)
  fix e f
  assume a: "e \<in> {e \<in> E. fst e ! p = k}" "f \<in> {e \<in> E. fst e ! p = k}"
    "(subkey (fst e) p, snd e) = (subkey (fst f) p, snd f)"
  then have "fst e = fst f" using assms subkey_inj[of p "fst e" "fst f"] by auto
  then show "e = f" using a(3) by (simp add: prod_eq_iff)
qed

lemma sub_entries_Diff:
  assumes "\<forall>e \<in> E. length (fst e) = d" "p < d" "F \<subseteq> E"
  shows "sub_entries p k (E - F) = sub_entries p k E - sub_entries p k F"
proof -
  have "{e \<in> E - F. fst e ! p = k} = {e \<in> E. fst e ! p = k} - {e \<in> F. fst e ! p = k}" by blast
  moreover have "{e \<in> F. fst e ! p = k} \<subseteq> {e \<in> E. fst e ! p = k}" using assms(3) by blast
  ultimately show ?thesis
    using inj_on_image_set_diff[OF sub_entries_inj[OF assms(1,2), of k],
        of "{e \<in> E. fst e ! p = k}" "{e \<in> F. fst e ! p = k}"]
    by (simp add: sub_entries_def Diff_subset)
qed

lemma card_sub_entries_le: "finite E \<Longrightarrow> card (sub_entries p k E) \<le> card E"
  unfolding sub_entries_def by (rule order.trans[OF card_image_le]) (auto intro: card_mono)

lemma entries_ok_sub:
  assumes U: "universe_ok T U" and E: "entries_ok U (Suc d) E" and d: "1 \<le> d" "p < Suc d"
  shows "entries_ok U d (sub_entries p k E)"
proof -
  have "finite (sub_entries p k E)" using E by (auto simp: sub_entries_def entries_ok_def)
  moreover have "sub_entries p k E \<in> U"
    using universe_okD(3)[OF U entries_okD(2)[OF E] _ d] E by (simp add: entries_ok_def)
  moreover have "all_depth d (sub_entries p k E)"
    using E d by (auto simp: sub_entries_def entries_ok_def all_depth_def)
  moreover have "inj_on fst (sub_entries p k E)"
  proof (rule inj_onI)
    fix e f assume "e \<in> sub_entries p k E" "f \<in> sub_entries p k E" "fst e = fst f"
    then obtain a b where ab: "a \<in> E" "b \<in> E" "fst a ! p = fst b ! p" "subkey (fst a) p = subkey (fst b) p"
      "e = (subkey (fst a) p, snd a)" "f = (subkey (fst b) p, snd b)"
      by (auto simp: sub_entries_def)
    then have "fst a = fst b" using entries_okD(3)[OF E] d subkey_inj[of p "fst a" "fst b"] by simp
    then have "a = b" using E ab by (auto simp: entries_ok_def inj_on_def)
    then show "e = f" using ab by simp
  qed
  moreover have "card (sub_entries p k E) < size_max"
    using card_sub_entries_le[of E p k] E by (simp add: entries_ok_def)
  ultimately show ?thesis by (simp add: entries_ok_def)
qed

lemma ins_ok_sub:
  assumes U: "universe_ok T U" and E: "ins_ok U (Suc d) E es" and d: "1 \<le> d" "p < Suc d"
  shows "ins_ok U d (sub_entries p k E) (sub_list p k es)"
  using entries_ok_sub[OF U _ d, of _ k] ins_okD[OF E] by (auto simp: ins_ok_def simp flip: sub_entries_Un)

lemma del_ok_sub:
  assumes U: "universe_ok T U" and E: "del_ok U (Suc d) E es" "set es \<subseteq> E" and d: "1 \<le> d" "p < Suc d"
  shows "del_ok U d (sub_entries p k E) (sub_list p k es)"
proof -
  have "sub_entries p k E - sub_entries p k (set es) = sub_entries p k (E - set es)"
    using sub_entries_Diff[OF _ d(2) E(2)] entries_okD(3)[OF del_okD(1)[OF E(1)]] by blast
  then show ?thesis using entries_ok_sub[OF U _ d, of _ k] del_okD[OF E(1)] by (simp add: del_ok_def)
qed

text \<open>A set of entries is determined by what lies below the parts at one position.\<close>

lemma sub_entries_determine:
  assumes "\<forall>e \<in> E. length (fst e) = d" "\<forall>e \<in> F. length (fst e) = d" "p < d"
    and sub: "\<forall>k. sub_entries p k E = sub_entries p k F"
  shows "E = F"
proof -
  have "E \<subseteq> F" if E: "\<forall>e \<in> E. length (fst e) = d" and F: "\<forall>e \<in> F. length (fst e) = d"
    and sub: "\<forall>k. sub_entries p k E = sub_entries p k F" for E F :: "'v entry set"
  proof
    fix e assume e: "e \<in> E"
    then have "(subkey (fst e) p, snd e) \<in> sub_entries p (fst e ! p) F"
      using sub by (auto simp: sub_entries_def)
    then obtain f where f: "f \<in> F" "fst f ! p = fst e ! p" "subkey (fst f) p = subkey (fst e) p" "snd f = snd e"
      by (auto simp: sub_entries_def)
    then have "fst f = fst e" using E F e assms(3) subkey_inj[of p "fst f" "fst e"] by simp
    then show "e \<in> F" using f by (metis prod.collapse)
  qed
  from this[OF assms(1,2) sub] this[OF assms(2,1)] sub show ?thesis by auto
qed

lemma sub_entries_nonempty: "e \<in> E \<Longrightarrow> sub_entries p (fst e ! p) E \<noteq> {}"
  unfolding sub_entries_def by blast

lemma distinct_sub_list:
  assumes "distinct es" "\<forall>e \<in> set es. length (fst e) = d" "p < d"
  shows "distinct (sub_list p k es)"
proof -
  have "sub_list p k es = map (\<lambda>e. (subkey (fst e) p, snd e)) (filter (\<lambda>e. fst e ! p = k) es)"
    by (induction es) (auto simp: sub_list_def)
  moreover have "inj_on (\<lambda>e. (subkey (fst e) p, snd e)) (set (filter (\<lambda>e. fst e ! p = k) es))"
    using sub_entries_inj[of "set es" d p k] assms(2,3) by simp
  ultimately show ?thesis using assms(1) by (simp add: distinct_map)
qed

lemma entry_subset_for_pos:
  "al_ok (entry_subset_for_pos es p) \<and>
   map_of (entry_subset_for_pos es p) k = (if sub_list p k es = [] then None else Some (sub_list p k es))"
proof (induction es rule: rev_induct)
  case Nil
  then show ?case by (simp add: entry_subset_for_pos_def sub_list_def)
next
  case (snoc e es)
  have "entry_subset_for_pos (es @ [e]) p
      = al_modify (fst e ! p) [] (\<lambda>l. l @ [(subkey (fst e) p, snd e)]) (entry_subset_for_pos es p)"
    by (simp add: entry_subset_for_pos_def)
  moreover have "sub_list p k (es @ [e]) = sub_list p k es @ (if fst e ! p = k then [(subkey (fst e) p, snd e)] else [])" for k
    by (simp add: sub_list_def)
  ultimately show ?case using snoc by (auto simp: al_simps)
qed

lemmas entry_subset_ok = entry_subset_for_pos[THEN conjunct1]
lemmas entry_subset_find = entry_subset_for_pos[THEN conjunct2]

lemma entry_subset_mem:
  "(k, g) \<in> set (entry_subset_for_pos es p) \<longleftrightarrow> g = sub_list p k es \<and> sub_entries p k (set es) \<noteq> {}"
  unfolding al_mem_iff[OF entry_subset_ok] entry_subset_find
  by (auto simp flip: set_sub_list)

lemma entry_subset_keys:
  "set (keys_of (entry_subset_for_pos es p)) = {k. sub_entries p k (set es) \<noteq> {}}"
proof -
  have "k \<in> set (keys_of (entry_subset_for_pos es p)) \<longleftrightarrow> sub_entries p k (set es) \<noteq> {}" for k
    using al_find_None_iff[of "entry_subset_for_pos es p" k] entry_subset_find[of es p k]
    by (simp flip: set_sub_list split: if_splits)
  then show ?thesis by blast
qed

end
