(* ===== verification/Representation.thy ===== *)
theory Representation
  imports Nodes
begin

text \<open>
  What the node storage means. A full node represents a set of entries when each of its edge maps
  sends a key part to the identifier of the entries below it (\<open>fn_repr\<close>). A storage is consistent
  (\<open>storage_inv\<close>) when every stored node represents a set of entries under its own identifier, and
  the reference count of every node is the number of edges that lead to it plus the number of
  handles \<open>R\<close> the users of the context hold. Nothing here models code: it is the specification the
  operations of the later theories are proved against.
\<close>

subsection \<open>Represented sets\<close>

definition edges_repr :: "'v htt \<Rightarrow> nat \<Rightarrow> nat \<Rightarrow> 'v entry set \<Rightarrow> (key_part \<times> node_id) list \<Rightarrow> bool" where
  "edges_repr T d p E es \<longleftrightarrow> al_ok es \<and>
     (\<forall>k. map_of es k = (if sub_entries p k E = {} then None else Some (ident T d (sub_entries p k E))))"

definition fn_repr :: "'v htt \<Rightarrow> nat \<Rightarrow> 'v entry set \<Rightarrow> 'v full_node \<Rightarrow> bool" where
  "fn_repr T d E fn \<longleftrightarrow>
     (if d = 1 then al_ok (fn_values fn) \<and> (\<forall>k v. map_of (fn_values fn) k = Some v \<longleftrightarrow> ([k], v) \<in> E)
      else length (fn_edges fn) = d \<and> fn_count fn = card E \<and>
        (\<forall>p < d. edges_repr T (d - 1) p E (fn_edges fn ! p)))"

definition fns_ok :: "'v::zero_neq_one htt \<Rightarrow> 'v entry set set \<Rightarrow> nat \<Rightarrow> (node_id \<times> 'v full_node) list \<Rightarrow> bool" where
  "fns_ok T U d m \<longleftrightarrow> al_ok m \<and> (\<forall>i fn. map_of m i = Some fn \<longrightarrow>
     (\<exists>E. entries_ok U d E \<and> 2 \<le> card E \<and> i = ident T d E \<and> fn_repr T d E fn \<and> 0 < fn_ref fn))"

definition sens_ok :: "'v::zero_neq_one htt \<Rightarrow> 'v entry set set \<Rightarrow> nat \<Rightarrow> (node_id \<times> 'v sen_node) list \<Rightarrow> bool" where
  "sens_ok T U d m \<longleftrightarrow> al_ok m \<and> (in_place_node T d \<longrightarrow> m = []) \<and> (\<forall>i s. map_of m i = Some s \<longrightarrow>
     entries_ok U d {sn_entry s} \<and> i = ident T d {sn_entry s} \<and> 0 < sn_ref s)"

definition content_ok :: "'v::zero_neq_one htt \<Rightarrow> 'v entry set set \<Rightarrow> nat \<Rightarrow> 'v node_storage \<Rightarrow> bool" where
  "content_ok T U D \<sigma> \<longleftrightarrow>
     (\<forall>d. 1 \<le> d \<and> d \<le> D \<longrightarrow> fns_ok T U d (fns \<sigma> d) \<and> sens_ok T U d (sens \<sigma> d)) \<and>
     (\<forall>d. D < d \<longrightarrow> fns \<sigma> d = [])"

subsection \<open>Reference counts\<close>

definition edge_refs :: "'v full_node \<Rightarrow> node_id \<Rightarrow> int" where
  "edge_refs fn i = (\<Sum>es\<leftarrow>fn_edges fn. int (count_list (map snd es) i))"

definition level_refs :: "(node_id \<times> 'v full_node) list \<Rightarrow> node_id \<Rightarrow> int" where
  "level_refs m i = (\<Sum>q\<leftarrow>m. edge_refs (snd q) i)"

definition tracked :: "'v htt \<Rightarrow> nat \<Rightarrow> node_id \<Rightarrow> bool" where
  "tracked T d i \<longleftrightarrow> is_fn T i \<or> is_sen T i \<and> \<not> in_place_node T d"

definition ref_of :: "'v htt \<Rightarrow> 'v node_storage \<Rightarrow> nat \<Rightarrow> node_id \<Rightarrow> int" where
  "ref_of T \<sigma> d i =
     (if is_fn T i then (case find_fn \<sigma> d i of Some fn \<Rightarrow> fn_ref fn | None \<Rightarrow> 0)
      else (case find_sen \<sigma> d i of Some s \<Rightarrow> sn_ref s | None \<Rightarrow> 0))"

definition refs_ok :: "'v htt \<Rightarrow> 'v node_storage \<Rightarrow> (nat \<Rightarrow> node_id \<Rightarrow> int) \<Rightarrow> nat \<Rightarrow> bool" where
  "refs_ok T \<sigma> R d \<longleftrightarrow> (\<forall>i. tracked T d i \<longrightarrow> ref_of T \<sigma> d i = level_refs (fns \<sigma> (Suc d)) i + R d i)"

definition storage_inv ::
  "'v::zero_neq_one htt \<Rightarrow> 'v entry set set \<Rightarrow> nat \<Rightarrow> (nat \<Rightarrow> node_id \<Rightarrow> int) \<Rightarrow> 'v node_storage \<Rightarrow> bool" where
  "storage_inv T U D R \<sigma> \<longleftrightarrow> universe_ok T U \<and> content_ok T U D \<sigma> \<and> (\<forall>d i. 0 \<le> R d i) \<and>
     (\<forall>d. 1 \<le> d \<and> d \<le> D \<longrightarrow> refs_ok T \<sigma> R d)"

text \<open>A node that exists as far as its level needs it to: stored, or in place, or empty.\<close>

definition present :: "'v htt \<Rightarrow> 'v node_storage \<Rightarrow> nat \<Rightarrow> node_id \<Rightarrow> bool" where
  "present T \<sigma> d i \<longleftrightarrow> (tracked T d i \<longrightarrow> 0 < ref_of T \<sigma> d i)"

definition kids_present :: "'v htt \<Rightarrow> 'v node_storage \<Rightarrow> nat \<Rightarrow> 'v full_node \<Rightarrow> bool" where
  "kids_present T \<sigma> d fn \<longleftrightarrow> (\<forall>es \<in> set (fn_edges fn). \<forall>c \<in> snd ` set es. present T \<sigma> d c)"

text \<open>A node container that stands for a set of entries.\<close>

definition container_ok :: "'v htt \<Rightarrow> nat \<Rightarrow> 'v entry set \<Rightarrow> node_container \<Rightarrow> bool" where
  "container_ok T d E c \<longleftrightarrow> nc_id c = ident T d E \<and>
     (E \<noteq> {} \<longrightarrow> nc_ptr c \<or> in_place_node T d \<and> card E = 1)"

lemma container_okD:
  assumes "container_ok T d E c"
  shows "nc_id c = ident T d E" "2 \<le> card E \<Longrightarrow> nc_ptr c" "E \<noteq> {} \<Longrightarrow> \<not> in_place_node T d \<Longrightarrow> nc_ptr c"
  using assms by (auto simp: container_ok_def)

lemma container_ok_empty: "container_ok T d {} empty_container"
  by (simp add: container_ok_def empty_container_def)

subsection \<open>Facts about edges and references\<close>

lemma is_fn_not_sen: "htt_ok T \<Longrightarrow> is_fn T i \<Longrightarrow> \<not> is_sen T i"
  by (simp add: is_fn_bit is_sen_bit)

lemma not_fn_sen: "htt_ok T \<Longrightarrow> i \<noteq> 0 \<Longrightarrow> \<not> is_fn T i \<Longrightarrow> is_sen T i"
  by (simp add: is_fn_bit is_sen_bit)

lemma is_fn_0 [simp]: "\<not> is_fn T 0" and is_sen_0 [simp]: "\<not> is_sen T 0" and tracked_0 [simp]: "\<not> tracked T d 0"
  by (simp_all add: is_fn_def is_sen_def tracked_def)

lemma edges_reprD:
  assumes "edges_repr T d p E es"
  shows "al_ok es"
    "map_of es k = (if sub_entries p k E = {} then None else Some (ident T d (sub_entries p k E)))"
  using assms by (auto simp: edges_repr_def)

lemma fn_reprD:
  assumes "fn_repr T (Suc d) E fn" "1 \<le> d"
  shows "length (fn_edges fn) = Suc d" "fn_count fn = card E"
    "\<And>p. p < Suc d \<Longrightarrow> edges_repr T d p E (fn_edges fn ! p)"
  using assms by (auto simp: fn_repr_def)

lemma fn_repr1D:
  assumes "fn_repr T 1 E fn"
  shows "al_ok (fn_values fn)" "map_of (fn_values fn) k = Some v \<longleftrightarrow> ([k], v) \<in> E"
  using assms by (auto simp: fn_repr_def)

lemma fn_repr1_None:
  assumes "fn_repr T 1 E fn"
  shows "map_of (fn_values fn) k = None \<longleftrightarrow> (\<forall>v. ([k], v) \<notin> E)"
  using fn_repr1D(2)[OF assms] by (metis not_Some_eq)

lemma count_list_pos: "x \<in> set xs \<Longrightarrow> 0 < count_list xs x"
  by (metis count_list_0_iff neq0_conv)

lemma edge_refs_nonneg [simp]: "0 \<le> edge_refs fn i"
  unfolding edge_refs_def by (rule sum_al_nonneg) simp

lemma level_refs_nonneg [simp]: "0 \<le> level_refs m i"
  unfolding level_refs_def by (rule sum_al_nonneg) simp

lemma edge_refs_pos: "es \<in> set (fn_edges fn) \<Longrightarrow> c \<in> snd ` set es \<Longrightarrow> 0 < edge_refs fn c"
proof -
  assume a: "es \<in> set (fn_edges fn)" "c \<in> snd ` set es"
  have "0 < int (count_list (map snd es) c)" using a(2) by (simp add: count_list_pos)
  also have "\<dots> \<le> edge_refs fn c"
    unfolding edge_refs_def by (rule sum_al_member_le[OF _ a(1)]) simp
  finally show ?thesis .
qed

lemma level_refs_ge: "(j, fn) \<in> set m \<Longrightarrow> edge_refs fn i \<le> level_refs m i"
  unfolding level_refs_def using sum_al_member_le[of m "\<lambda>q. edge_refs (snd q) i" "(j, fn)"] by simp

lemma level_refs_update:
  "al_ok m \<Longrightarrow> level_refs (AList.update k fn m) i
     = level_refs m i + edge_refs fn i - (case map_of m k of None \<Rightarrow> 0 | Some b \<Rightarrow> edge_refs b i)"
  unfolding level_refs_def by (simp add: sum_al_update split: option.splits)

lemma level_refs_delete:
  "al_ok m \<Longrightarrow> level_refs (AList.delete k m) i
     = level_refs m i - (case map_of m k of None \<Rightarrow> 0 | Some b \<Rightarrow> edge_refs b i)"
  unfolding level_refs_def by (simp add: sum_al_delete split: option.splits)

lemma level_refs_Nil [simp]: "level_refs [] i = 0"
  by (simp add: level_refs_def)

lemma edge_refs_ref [simp]: "edge_refs (fn\<lparr>fn_ref := r\<rparr>) i = edge_refs fn i"
  "edge_refs (fn\<lparr>fn_count := n\<rparr>) i = edge_refs fn i"
  by (simp_all add: edge_refs_def)

lemma fn_repr_ref [simp]: "fn_repr T d E (fn\<lparr>fn_ref := r\<rparr>) = fn_repr T d E fn"
  by (simp add: fn_repr_def)

lemma count_list_al_update:
  assumes "al_ok es"
  shows "int (count_list (map snd (AList.update k c es)) i)
    = int (count_list (map snd es) i) + of_bool (c = i)
      - (case map_of es k of None \<Rightarrow> 0 | Some b \<Rightarrow> of_bool (b = i))"
proof -
  have cnt: "int (count_list (map snd al) i) = (\<Sum>q\<leftarrow>al. of_bool (snd q = i))" for al
    by (induction al) auto
  show ?thesis unfolding cnt sum_al_update[OF assms] by (simp split: option.splits)
qed

lemma count_list_al_delete:
  assumes "al_ok es"
  shows "int (count_list (map snd (AList.delete k es)) i)
    = int (count_list (map snd es) i) - (case map_of es k of None \<Rightarrow> 0 | Some b \<Rightarrow> of_bool (b = i))"
proof -
  have cnt: "int (count_list (map snd al) i) = (\<Sum>q\<leftarrow>al. of_bool (snd q = i))" for al
    by (induction al) auto
  show ?thesis unfolding cnt sum_al_delete[OF assms] by (simp split: option.splits)
qed

subsection \<open>Looking nodes up in a consistent storage\<close>

lemma storage_invD:
  assumes "storage_inv T U D R \<sigma>"
  shows "universe_ok T U" "content_ok T U D \<sigma>" "\<And>d i. 0 \<le> R d i"
    "\<And>d. 1 \<le> d \<Longrightarrow> d \<le> D \<Longrightarrow> refs_ok T \<sigma> R d"
  using assms by (auto simp: storage_inv_def)

lemma content_okD:
  assumes "content_ok T U D \<sigma>" "1 \<le> d" "d \<le> D"
  shows "fns_ok T U d (fns \<sigma> d)" "sens_ok T U d (sens \<sigma> d)"
  using assms by (auto simp: content_ok_def)

lemma fns_okD:
  assumes "fns_ok T U d m"
  shows "al_ok m"
    "map_of m i = Some fn \<Longrightarrow> \<exists>E. entries_ok U d E \<and> 2 \<le> card E \<and> i = ident T d E \<and> fn_repr T d E fn \<and> 0 < fn_ref fn"
  using assms by (auto simp: fns_ok_def)

lemma sens_okD:
  assumes "sens_ok T U d m"
  shows "al_ok m" "in_place_node T d \<Longrightarrow> m = []"
    "map_of m i = Some s \<Longrightarrow> entries_ok U d {sn_entry s} \<and> i = ident T d {sn_entry s} \<and> 0 < sn_ref s"
  using assms by (auto simp: sens_ok_def)

lemma fns_ok_repr:
  assumes U: "universe_ok T U" and m: "fns_ok T U d m" and fn: "map_of m (ident T d E) = Some fn"
    and E: "entries_ok U d E"
  shows "2 \<le> card E" "fn_repr T d E fn" "0 < fn_ref fn"
proof -
  obtain F where F: "entries_ok U d F" "2 \<le> card F" "ident T d E = ident T d F" "fn_repr T d F fn" "0 < fn_ref fn"
    using fns_okD(2)[OF m fn] by blast
  then have "E = F" using ident_inj[OF U E] by simp
  then show "2 \<le> card E" "fn_repr T d E fn" "0 < fn_ref fn" using F by simp_all
qed

lemma sens_ok_repr:
  assumes U: "universe_ok T U" and m: "sens_ok T U d m" and s: "map_of m (ident T d E) = Some s"
    and E: "entries_ok U d E"
  shows "E = {sn_entry s}" "0 < sn_ref s"
  using sens_okD(3)[OF m s] ident_inj[OF U E, of "{sn_entry s}"] by auto

lemma fns_ok_is_fn:
  assumes U: "universe_ok T U" and m: "fns_ok T U d m" and fn: "map_of m i = Some fn"
  shows "is_fn T i"
  using fns_okD(2)[OF m fn] is_fn_ident[OF U] by blast

lemma sens_ok_is_sen:
  assumes U: "universe_ok T U" and m: "sens_ok T U d m" and s: "map_of m i = Some s"
  shows "is_sen T i" "\<not> in_place_node T d"
  using sens_okD(3)[OF m s] sens_okD(2)[OF m] s is_sen_ident[OF U, of d "{sn_entry s}"] by auto

text \<open>A present node of a consistent level is found under its identifier.\<close>

lemma present_fn:
  assumes "present T \<sigma> d i" "is_fn T i"
  obtains fn where "find_fn \<sigma> d i = Some fn"
  using assms by (auto simp: present_def tracked_def ref_of_def split: option.splits)

lemma present_sen:
  assumes "present T \<sigma> d i" "is_sen T i" "\<not> in_place_node T d" "htt_ok T"
  obtains s where "find_sen \<sigma> d i = Some s"
proof -
  have "\<not> is_fn T i" using is_fn_not_sen assms(2,4) by blast
  then show ?thesis using assms that by (auto simp: present_def tracked_def ref_of_def split: option.splits)
qed

lemma stored_fn_present: "universe_ok T U \<Longrightarrow> fns_ok T U d (fns \<sigma> d) \<Longrightarrow> find_fn \<sigma> d i = Some fn \<Longrightarrow> present T \<sigma> d i"
  using fns_okD(2) fns_ok_is_fn by (fastforce simp: present_def ref_of_def find_fn_def)

lemma handle_present:
  assumes "storage_inv T U D R \<sigma>" "1 \<le> d" "d \<le> D" "0 < R d i"
  shows "present T \<sigma> d i"
proof -
  have "0 < ref_of T \<sigma> d i" if "tracked T d i"
    using storage_invD(4)[OF assms(1-3)] that assms(4) by (auto simp: refs_ok_def intro: add_nonneg_pos)
  then show ?thesis by (simp add: present_def)
qed

text \<open>The children of a stored full node are present.\<close>

lemma refs_ok_kids:
  assumes refs: "refs_ok T \<sigma> R d" and R: "\<And>i. 0 \<le> R d i" and fn: "find_fn \<sigma> (Suc d) j = Some fn"
  shows "kids_present T \<sigma> d fn"
proof -
  have "0 < ref_of T \<sigma> d c" if "es \<in> set (fn_edges fn)" "c \<in> snd ` set es" "tracked T d c" for es c
  proof -
    have "0 < edge_refs fn c" using that by (auto intro: edge_refs_pos)
    also have "\<dots> \<le> level_refs (fns \<sigma> (Suc d)) c"
      using fn by (intro level_refs_ge) (auto simp: find_fn_def dest: map_of_SomeD)
    also have "\<dots> \<le> ref_of T \<sigma> d c" using refs R[of c] that(3) by (simp add: refs_ok_def)
    finally show ?thesis .
  qed
  then show ?thesis by (auto simp: kids_present_def present_def)
qed

lemma kids_presentD:
  assumes "kids_present T \<sigma> d fn" "fn_repr T (Suc d) E fn" "1 \<le> d" "p < Suc d" "sub_entries p k E \<noteq> {}"
  shows "present T \<sigma> d (ident T d (sub_entries p k E))"
proof -
  have "map_of (fn_edges fn ! p) k = Some (ident T d (sub_entries p k E))"
    using fn_reprD(3)[OF assms(2,3,4)] assms(5) by (simp add: edges_repr_def)
  then have "ident T d (sub_entries p k E) \<in> snd ` set (fn_edges fn ! p)"
    by (force dest: map_of_SomeD)
  moreover have "fn_edges fn ! p \<in> set (fn_edges fn)" using fn_reprD(1)[OF assms(2,3)] assms(4) by simp
  ultimately show ?thesis using assms(1) unfolding kids_present_def by blast
qed

end
