(* ===== verification/Update_Requests.thy ===== *)
theory Update_Requests
  imports Representation
begin

text \<open>
  Requests for changes of one level of the hypertrie
  (internal/raw/node_context/update_details/UpdateRequests.hpp). The object collects, for the nodes
  of one depth, the deltas of their reference counts and the recipes for new nodes: from scratch,
  from a copy or a reuse of an existing full node, or from a single entry. Every operation returns
  the changed object; \<open>None\<close> stands for a failed assertion or a failed \<open>at\<close>. The program's
  member for single-entry changes has two types (\<open>SENChange\<close>, or a cache of entries for in-place
  depth 1), which are two fields here.
\<close>

subsection \<open>Data\<close>

datatype entries_update_mode = INSERT | ERASE

record 'v sen_change =
  sc_delta :: int
  sc_entry :: "'v entry option"

record 'v fn_entries_data =
  fd_entries :: "'v entry list"
  fd_mode :: entries_update_mode

record 'v update_requests =
  ur_sen_changes :: "(node_id \<times> 'v sen_change) list"
  ur_sen_cache :: "(node_id \<times> 'v entry) list"
  ur_fn_updates :: "(node_id \<times> (node_id \<times> 'v fn_entries_data) list) list"
  ur_fn_creations :: "(node_id \<times> 'v entry list) list"
  ur_fn_deltas :: "(node_id \<times> int) list"
  ur_fn_deletion_candidates :: "node_id list"
  ur_fn_move_candidates :: "node_id list"
  ur_fn_new :: "node_id list"

definition empty_requests :: "'v update_requests" where
  "empty_requests = \<lparr>ur_sen_changes = [], ur_sen_cache = [], ur_fn_updates = [], ur_fn_creations = [],
     ur_fn_deltas = [], ur_fn_deletion_candidates = [], ur_fn_move_candidates = [], ur_fn_new = []\<rparr>"

definition no_change :: "'v sen_change" where
  "no_change = \<lparr>sc_delta = 0, sc_entry = None\<rparr>"

text \<open>The assertions at the head of the operations: entries without zero key parts or zero values.\<close>

definition entry_nonzero :: "'v::zero_neq_one entry \<Rightarrow> bool" where
  "entry_nonzero e = (list_all (\<lambda>k. k \<noteq> 0) (fst e) \<and> snd e \<noteq> 0)"

definition entries_nonzero :: "'v::zero_neq_one entry list \<Rightarrow> bool" where
  "entries_nonzero entries = (entries \<noteq> [] \<and> list_all entry_nonzero entries)"

subsection \<open>Reference counts and new nodes\<close>

definition apply_ref_count_delta ::
  "'v htt \<Rightarrow> nat \<Rightarrow> 'v update_requests \<Rightarrow> node_id \<Rightarrow> int \<Rightarrow> 'v update_requests" where
  "apply_ref_count_delta T depth ur i delta =
     (if delta = 0 then ur
      else if is_fn T i then
        let ur1 = ur\<lparr>ur_fn_deltas := al_modify i 0 (\<lambda>n. n + delta) (ur_fn_deltas ur)\<rparr>
        in if delta < 0 then ur1\<lparr>ur_fn_deletion_candidates := List.insert i (ur_fn_deletion_candidates ur1)\<rparr>
           else ur1\<lparr>ur_fn_new := List.insert i (ur_fn_new ur1)\<rparr>
      else if \<not> in_place_node T depth then
        ur\<lparr>ur_sen_changes := al_modify i no_change (\<lambda>c. c\<lparr>sc_delta := sc_delta c + delta\<rparr>) (ur_sen_changes ur)\<rparr>
      else ur)"

definition add_node ::
  "'v::zero_neq_one htt \<Rightarrow> nat \<Rightarrow> 'v update_requests \<Rightarrow> 'v entry list \<Rightarrow> int \<Rightarrow> (node_id \<times> 'v update_requests) option" where
  "add_node T depth ur entries n = do {
     check (entries_nonzero entries);
     let id_after = hash_iterable T depth entries;
     if length entries = 1 then
       if in_place_node T depth then Some (id_after, ur)
       else Some (id_after, ur\<lparr>ur_sen_changes :=
         al_modify id_after no_change (\<lambda>c. \<lparr>sc_delta = sc_delta c + n, sc_entry = Some (entries ! 0)\<rparr>) (ur_sen_changes ur)\<rparr>)
     else Some (id_after, apply_ref_count_delta T depth
            (ur\<lparr>ur_fn_creations := al_emplace id_after entries (ur_fn_creations ur)\<rparr>) id_after 1)
   }"

subsection \<open>Insertion into a node\<close>

text \<open>The single-entry change of a source node, retrieved or created from the stored node; its entry
  is filled in.\<close>

definition source_sen_change ::
  "'v node_storage \<Rightarrow> nat \<Rightarrow> 'v update_requests \<Rightarrow> node_id \<Rightarrow> bool \<Rightarrow> 'v sen_change option" where
  "source_sen_change \<sigma> depth ur source_id dec = do {
     c \<leftarrow> (case map_of (ur_sen_changes ur) source_id of
            Some c \<Rightarrow> Some c
          | None \<Rightarrow> (case find_sen \<sigma> depth source_id of
               None \<Rightarrow> None | Some s \<Rightarrow> Some \<lparr>sc_delta = 0, sc_entry = Some (sn_entry s)\<rparr>));
     let c1 = (if dec then c\<lparr>sc_delta := sc_delta c - 1\<rparr> else c);
     case sc_entry c1 of
       Some _ \<Rightarrow> Some c1
     | None \<Rightarrow> (case find_sen \<sigma> depth source_id of
          None \<Rightarrow> None | Some s \<Rightarrow> Some (c1\<lparr>sc_entry := Some (sn_entry s)\<rparr>))
   }"

definition add_fn_update :: "node_id \<Rightarrow> node_id \<Rightarrow> 'v fn_entries_data \<Rightarrow> 'v update_requests \<Rightarrow> 'v update_requests" where
  "add_fn_update source_id target_id data ur =
     ur\<lparr>ur_fn_updates := al_modify source_id [] (al_emplace target_id data) (ur_fn_updates ur)\<rparr>"

definition insert_into_node ::
  "'v::zero_neq_one htt \<Rightarrow> 'v node_storage \<Rightarrow> nat \<Rightarrow> 'v update_requests \<Rightarrow> node_id \<Rightarrow> 'v entry list \<Rightarrow> bool
     \<Rightarrow> (node_id \<times> 'v update_requests) option" where
  "insert_into_node T \<sigma> depth ur source_id entries dec = do {
     check (entries_nonzero entries \<and> \<not> id_empty T source_id);
     target_id \<leftarrow> id_combine T depth (hash_iterable T depth entries) source_id False;
     let ur1 = apply_ref_count_delta T depth ur target_id 1;
     if is_sen T source_id then
       if in_place_node T depth then do {
         e \<leftarrow> get_entry T source_id;
         Some (target_id, ur1\<lparr>ur_fn_creations := al_emplace target_id (entries @ [e]) (ur_fn_creations ur1)\<rparr>)
       } else do {
         c \<leftarrow> source_sen_change \<sigma> depth ur1 source_id dec;
         e \<leftarrow> sc_entry c;
         Some (target_id, ur1\<lparr>ur_sen_changes := AList.update source_id c (ur_sen_changes ur1),
           ur_fn_creations := al_emplace target_id (entries @ [e]) (ur_fn_creations ur1)\<rparr>)
       }
     else
       let ur2 = (if dec then apply_ref_count_delta T depth
                    (ur1\<lparr>ur_fn_move_candidates := List.insert target_id (ur_fn_move_candidates ur1)\<rparr>) source_id (- 1)
                  else ur1)
       in Some (target_id, add_fn_update source_id target_id \<lparr>fd_entries = entries, fd_mode = INSERT\<rparr> ur2)
   }"

subsection \<open>Removal from a node\<close>

text \<open>The position of the first largest element (\<open>std::max_element\<close>).\<close>

fun max_pos_loop :: "nat list \<Rightarrow> nat \<Rightarrow> nat \<Rightarrow> nat \<Rightarrow> nat" where
  "max_pos_loop [] i best best_i = best_i"
| "max_pos_loop (c # cs) i best best_i =
     (if best < c then max_pos_loop cs (Suc i) c i else max_pos_loop cs (Suc i) best best_i)"

definition max_element_pos :: "nat list \<Rightarrow> nat" where
  "max_element_pos cards = (case cards of [] \<Rightarrow> 0 | c # cs \<Rightarrow> max_pos_loop cs 1 c 0)"

definition combine_res :: "key_part \<Rightarrow> nat \<Rightarrow> 'v entry \<Rightarrow> 'v entry" where
  "combine_res kp pos sub_res = (insert_at pos kp (fst sub_res), snd sub_res)"

text \<open>The scan over the edges of one position. \<open>single\<close> reads the only entry of a child, \<open>descend\<close>
  looks into a child that is a full node. The inner option is the program's \<open>std::optional\<close>.\<close>

fun retrieve_scan ::
  "'v::zero_neq_one htt \<Rightarrow> nat \<Rightarrow> (node_id \<Rightarrow> 'v entry option) \<Rightarrow> (node_id \<Rightarrow> 'v entry list \<Rightarrow> 'v entry option option)
     \<Rightarrow> nat \<Rightarrow> (key_part \<times> 'v entry list) list \<Rightarrow> (key_part \<times> node_id) list \<Rightarrow> 'v entry option option" where
  "retrieve_scan T child_depth single descend pos removed_parts [] = Some None"
| "retrieve_scan T child_depth single descend pos removed_parts ((kp, child_id) # edges) =
     (case map_of removed_parts kp of
        None \<Rightarrow> map_option (\<lambda>e. Some (combine_res kp pos e)) (single child_id)
      | Some next_entries \<Rightarrow>
          if is_sen T child_id then
            (if hash_iterable T child_depth next_entries \<noteq> child_id then None
             else retrieve_scan T child_depth single descend pos removed_parts edges)
          else if \<not> is_fn T child_id then None
          else (case descend child_id next_entries of
              None \<Rightarrow> None
            | Some (Some sub_entry) \<Rightarrow> Some (Some (combine_res kp pos sub_entry))
            | Some None \<Rightarrow> retrieve_scan T child_depth single descend pos removed_parts edges))"

definition retrieve_depth1 :: "'v full_node \<Rightarrow> 'v entry list \<Rightarrow> 'v entry option" where
  "retrieve_depth1 fn entries =
     map_option (\<lambda>(kp, v). ([kp], v)) (List.find (\<lambda>(kp, v). kp \<notin> set (map (\<lambda>e. fst e ! 0) entries)) (fn_values fn))"

definition single_child_entry :: "'v::zero_neq_one htt \<Rightarrow> 'v node_storage \<Rightarrow> nat \<Rightarrow> node_id \<Rightarrow> 'v entry option" where
  "single_child_entry T \<sigma> child_depth child_id =
     (if in_place_node T child_depth then get_entry T child_id
      else map_option sn_entry (find_sen \<sigma> child_depth child_id))"

fun retrieve_remaining_impl ::
  "'v::zero_neq_one htt \<Rightarrow> 'v node_storage \<Rightarrow> nat \<Rightarrow> 'v full_node \<Rightarrow> 'v entry list \<Rightarrow> 'v entry option option" where
  "retrieve_remaining_impl T \<sigma> 0 fn entries = None"
| "retrieve_remaining_impl T \<sigma> (Suc 0) fn entries = Some (retrieve_depth1 fn entries)"
| "retrieve_remaining_impl T \<sigma> (Suc (Suc d)) fn entries =
     (let pos = max_element_pos (get_cards (Suc (Suc d)) fn)
      in retrieve_scan T (Suc d) (single_child_entry T \<sigma> (Suc d))
           (\<lambda>child_id next_entries. case find_fn \<sigma> (Suc d) child_id of
              None \<Rightarrow> None | Some child_fn \<Rightarrow> retrieve_remaining_impl T \<sigma> (Suc d) child_fn next_entries)
           pos (entry_subset_for_pos entries pos) (fn_edges fn ! pos))"

definition retrieve_remaining_single_entry ::
  "'v::zero_neq_one htt \<Rightarrow> 'v node_storage \<Rightarrow> nat \<Rightarrow> 'v full_node \<Rightarrow> 'v entry list \<Rightarrow> 'v entry option" where
  "retrieve_remaining_single_entry T \<sigma> depth fn entries =
     (case retrieve_remaining_impl T \<sigma> depth fn entries of
        Some (Some e) \<Rightarrow> (if entry_nonzero e then Some e else None)
      | _ \<Rightarrow> None)"

text \<open>The target node has a single entry.\<close>

definition remove_to_single ::
  "'v::zero_neq_one htt \<Rightarrow> 'v node_storage \<Rightarrow> nat \<Rightarrow> 'v update_requests \<Rightarrow> 'v full_node \<Rightarrow> node_id \<Rightarrow> 'v entry list
     \<Rightarrow> (node_id \<times> 'v update_requests) option" where
  "remove_to_single T \<sigma> depth ur fn target_id entries =
     (if in_place_node T depth then
        (case map_of (ur_sen_cache ur) target_id of
           Some e \<Rightarrow> Some (encode_single_entry T depth e, ur)
         | None \<Rightarrow> do {
             e \<leftarrow> retrieve_remaining_single_entry T \<sigma> depth fn entries;
             Some (encode_single_entry T depth e, ur\<lparr>ur_sen_cache := AList.update target_id e (ur_sen_cache ur)\<rparr>)
           })
      else (case map_of (ur_sen_changes ur) target_id of
           Some c \<Rightarrow> Some (target_id, ur\<lparr>ur_sen_changes :=
             AList.update target_id (c\<lparr>sc_delta := sc_delta c + 1\<rparr>) (ur_sen_changes ur)\<rparr>)
         | None \<Rightarrow> (case find_sen \<sigma> depth target_id of
              Some s \<Rightarrow> Some (target_id, ur\<lparr>ur_sen_changes :=
                AList.update target_id \<lparr>sc_delta = 1, sc_entry = Some (sn_entry s)\<rparr> (ur_sen_changes ur)\<rparr>)
            | None \<Rightarrow> do {
                e \<leftarrow> retrieve_remaining_single_entry T \<sigma> depth fn entries;
                check (encode_single_entry T depth e = target_id);
                Some (target_id, ur\<lparr>ur_sen_changes :=
                  AList.update target_id \<lparr>sc_delta = 1, sc_entry = Some e\<rparr> (ur_sen_changes ur)\<rparr>)
              })))"

definition remove_from_node ::
  "'v::zero_neq_one htt \<Rightarrow> 'v node_storage \<Rightarrow> nat \<Rightarrow> 'v update_requests \<Rightarrow> node_id \<Rightarrow> 'v entry list \<Rightarrow> bool
     \<Rightarrow> (node_id \<times> 'v update_requests) option" where
  "remove_from_node T \<sigma> depth ur source_id entries dec = do {
     check (entries_nonzero entries);
     if is_sen T source_id then do {
       check (length entries = 1);
       if in_place_node T depth then do {
         e \<leftarrow> get_entry T source_id;
         check (e = entries ! 0);
         Some (id_seed T, ur)
       } else do {
         s \<leftarrow> find_sen \<sigma> depth source_id;
         check (sn_entry s = entries ! 0);
         Some (id_seed T, ur\<lparr>ur_sen_changes :=
           al_modify source_id no_change (\<lambda>c. \<lparr>sc_delta = (if dec then sc_delta c - 1 else sc_delta c),
             sc_entry = Some (entries ! 0)\<rparr>) (ur_sen_changes ur)\<rparr>)
       }
     } else do {
       target_id \<leftarrow> id_combine T depth (hash_iterable T depth entries) source_id False;
       let ur1 = (if dec then apply_ref_count_delta T depth ur source_id (- 1) else ur);
       if id_empty T target_id then Some (target_id, ur1)
       else do {
         fn \<leftarrow> find_fn \<sigma> depth source_id;
         let target_size = (fn_size depth fn + 2 ^ 64 - length entries) mod 2 ^ 64;
         if target_size = 1 then remove_to_single T \<sigma> depth ur1 fn (retag_as_sen T target_id) entries
         else if 1 < target_size then
           let ur2 = apply_ref_count_delta T depth ur1 target_id 1
           in Some (target_id, add_fn_update source_id target_id \<lparr>fd_entries = entries, fd_mode = ERASE\<rparr>
                (ur2\<lparr>ur_fn_move_candidates := List.insert target_id (ur_fn_move_candidates ur2)\<rparr>))
         else None
       }
     }
   }"

end
