(* ===== verification/Request_Contracts.thy ===== *)
theory Request_Contracts
  imports Update_Requests
begin

text \<open>
  What the operations of the update requests promise. \<open>requests_ok\<close> is the well-formedness of the
  collected requests: every recipe names its target by the identifier of the entries it will hold,
  every node whose reference count grows exists or has a recipe, and every node whose count shrinks
  exists. \<open>ur_delta\<close> reads off the change of a reference count that has been requested so far. Each
  operation keeps \<open>requests_ok\<close> and changes \<open>ur_delta\<close> by exactly one reference to its target (and
  one less to its source when the source gives up its reference).
\<close>

declare map_of_eq_Some_iff [simp del] Some_eq_map_of_iff [simp del]

subsection \<open>Well-formed requests\<close>

definition ur_delta :: "'v htt \<Rightarrow> 'v update_requests \<Rightarrow> node_id \<Rightarrow> int" where
  "ur_delta T ur i =
     (if is_fn T i then (case map_of (ur_fn_deltas ur) i of None \<Rightarrow> 0 | Some n \<Rightarrow> n)
      else (case map_of (ur_sen_changes ur) i of None \<Rightarrow> 0 | Some c \<Rightarrow> sc_delta c))"

definition sen_change_ok ::
  "'v::zero_neq_one htt \<Rightarrow> 'v entry set set \<Rightarrow> 'v node_storage \<Rightarrow> nat \<Rightarrow> node_id \<Rightarrow> 'v sen_change \<Rightarrow> bool" where
  "sen_change_ok T U \<sigma> d i c \<longleftrightarrow> \<not> in_place_node T d \<and>
     (\<exists>e. entries_ok U d {e} \<and> i = ident T d {e} \<and>
        (sc_entry c = Some e \<or> sc_entry c = None \<and> find_sen \<sigma> d i \<noteq> None))"

definition sen_changes_ok ::
  "'v::zero_neq_one htt \<Rightarrow> 'v entry set set \<Rightarrow> 'v node_storage \<Rightarrow> nat \<Rightarrow> (node_id \<times> 'v sen_change) list \<Rightarrow> bool" where
  "sen_changes_ok T U \<sigma> d m \<longleftrightarrow> al_ok m \<and> (\<forall>i c. map_of m i = Some c \<longrightarrow> sen_change_ok T U \<sigma> d i c)"

definition sen_cache_ok :: "'v::zero_neq_one htt \<Rightarrow> 'v entry set set \<Rightarrow> nat \<Rightarrow> (node_id \<times> 'v entry) list \<Rightarrow> bool" where
  "sen_cache_ok T U d m \<longleftrightarrow> al_ok m \<and> (\<forall>i e. map_of m i = Some e \<longrightarrow>
     entries_ok U d {e} \<and> i = tag_as_sen T (untagged T {e}))"

definition creation_ok :: "'v::zero_neq_one htt \<Rightarrow> 'v entry set set \<Rightarrow> nat \<Rightarrow> node_id \<Rightarrow> 'v entry list \<Rightarrow> bool" where
  "creation_ok T U d i es \<longleftrightarrow>
     distinct es \<and> entries_ok U d (set es) \<and> 2 \<le> card (set es) \<and> i = ident T d (set es)"

definition creations_ok ::
  "'v::zero_neq_one htt \<Rightarrow> 'v entry set set \<Rightarrow> nat \<Rightarrow> (node_id \<times> 'v entry list) list \<Rightarrow> bool" where
  "creations_ok T U d m \<longleftrightarrow> al_ok m \<and> (\<forall>i es. map_of m i = Some es \<longrightarrow> creation_ok T U d i es)"

definition update_entries :: "'v fn_entries_data \<Rightarrow> 'v entry set \<Rightarrow> 'v entry set" where
  "update_entries data E =
     (case fd_mode data of INSERT \<Rightarrow> E \<union> set (fd_entries data) | ERASE \<Rightarrow> E - set (fd_entries data))"

definition fn_update_ok ::
  "'v::zero_neq_one htt \<Rightarrow> 'v entry set set \<Rightarrow> 'v node_storage \<Rightarrow> nat \<Rightarrow> node_id \<Rightarrow> node_id \<Rightarrow> 'v fn_entries_data \<Rightarrow> bool" where
  "fn_update_ok T U \<sigma> d src tgt data \<longleftrightarrow>
     (\<exists>E. entries_ok U d E \<and> src = ident T d E \<and> find_fn \<sigma> d src \<noteq> None \<and>
        distinct (fd_entries data) \<and> fd_entries data \<noteq> [] \<and>
        entries_ok U d (set (fd_entries data)) \<and>
        entries_ok U d (update_entries data E) \<and> 2 \<le> card (update_entries data E) \<and>
        tgt = ident T d (update_entries data E) \<and>
        (case fd_mode data of INSERT \<Rightarrow> set (fd_entries data) \<inter> E = {} | ERASE \<Rightarrow> set (fd_entries data) \<subseteq> E))"

definition fn_updates_ok ::
  "'v::zero_neq_one htt \<Rightarrow> 'v entry set set \<Rightarrow> 'v node_storage \<Rightarrow> nat
     \<Rightarrow> (node_id \<times> (node_id \<times> 'v fn_entries_data) list) list \<Rightarrow> bool" where
  "fn_updates_ok T U \<sigma> d m \<longleftrightarrow> al_ok m \<and> (\<forall>src ts. map_of m src = Some ts \<longrightarrow>
     al_ok ts \<and> (\<forall>tgt data. map_of ts tgt = Some data \<longrightarrow> fn_update_ok T U \<sigma> d src tgt data))"

definition deltas_ok :: "'v htt \<Rightarrow> 'v node_storage \<Rightarrow> nat \<Rightarrow> 'v update_requests \<Rightarrow> bool" where
  "deltas_ok T \<sigma> d ur \<longleftrightarrow> al_ok (ur_fn_deltas ur) \<and>
     distinct (ur_fn_deletion_candidates ur) \<and> distinct (ur_fn_new ur) \<and>
     (\<forall>i n. map_of (ur_fn_deltas ur) i = Some n \<longrightarrow> is_fn T i \<and>
        (find_fn \<sigma> d i \<noteq> None \<or> i \<in> set (ur_fn_new ur)) \<and>
        (i \<in> set (ur_fn_deletion_candidates ur) \<or> 0 < n)) \<and>
     (\<forall>i \<in> set (ur_fn_new ur). is_fn T i \<and> map_of (ur_fn_deltas ur) i \<noteq> None) \<and>
     (\<forall>i \<in> set (ur_fn_deletion_candidates ur). find_fn \<sigma> d i \<noteq> None \<and> map_of (ur_fn_deltas ur) i \<noteq> None)"

definition has_recipe :: "'v update_requests \<Rightarrow> node_id \<Rightarrow> bool" where
  "has_recipe ur i \<longleftrightarrow> map_of (ur_fn_creations ur) i \<noteq> None \<or>
     (\<exists>src ts. map_of (ur_fn_updates ur) src = Some ts \<and> map_of ts i \<noteq> None)"

text \<open>\<open>X\<close> holds new nodes whose recipe is still to be added.\<close>

definition requests_ok_upto ::
  "'v::zero_neq_one htt \<Rightarrow> 'v entry set set \<Rightarrow> 'v node_storage \<Rightarrow> nat \<Rightarrow> node_id set \<Rightarrow> 'v update_requests \<Rightarrow> bool" where
  "requests_ok_upto T U \<sigma> d X ur \<longleftrightarrow>
     sen_changes_ok T U \<sigma> d (ur_sen_changes ur) \<and> sen_cache_ok T U d (ur_sen_cache ur) \<and>
     creations_ok T U d (ur_fn_creations ur) \<and> fn_updates_ok T U \<sigma> d (ur_fn_updates ur) \<and>
     deltas_ok T \<sigma> d ur \<and>
     (\<forall>i \<in> set (ur_fn_new ur) - X. find_fn \<sigma> d i = None \<longrightarrow> has_recipe ur i)"

abbreviation requests_ok ::
  "'v::zero_neq_one htt \<Rightarrow> 'v entry set set \<Rightarrow> 'v node_storage \<Rightarrow> nat \<Rightarrow> 'v update_requests \<Rightarrow> bool" where
  "requests_ok T U \<sigma> d \<equiv> requests_ok_upto T U \<sigma> d {}"

definition level_ok :: "'v::zero_neq_one htt \<Rightarrow> 'v entry set set \<Rightarrow> 'v node_storage \<Rightarrow> nat \<Rightarrow> bool" where
  "level_ok T U \<sigma> d \<longleftrightarrow> universe_ok T U \<and> 1 \<le> d \<and> fns_ok T U d (fns \<sigma> d) \<and> sens_ok T U d (sens \<sigma> d)"

text \<open>The result of an operation that moves a reference from \<open>src\<close> (when \<open>dec\<close>) to \<open>tgt\<close>.\<close>

definition moves_reference ::
  "'v htt \<Rightarrow> nat \<Rightarrow> 'v update_requests \<Rightarrow> 'v update_requests \<Rightarrow> node_id \<Rightarrow> node_id \<Rightarrow> bool \<Rightarrow> bool" where
  "moves_reference T d ur ur' tgt src dec \<longleftrightarrow>
     (\<forall>i. tracked T d i \<longrightarrow> ur_delta T ur' i = ur_delta T ur i + of_bool (i = tgt) - of_bool (dec \<and> i = src))"

lemma level_okD:
  assumes "level_ok T U \<sigma> d"
  shows "universe_ok T U" "htt_ok T" "1 \<le> d" "fns_ok T U d (fns \<sigma> d)" "sens_ok T U d (sens \<sigma> d)"
  using assms universe_okD(1) by (auto simp: level_ok_def)

lemma requests_okD:
  assumes "requests_ok_upto T U \<sigma> d X ur"
  shows "sen_changes_ok T U \<sigma> d (ur_sen_changes ur)" "sen_cache_ok T U d (ur_sen_cache ur)"
    "creations_ok T U d (ur_fn_creations ur)" "fn_updates_ok T U \<sigma> d (ur_fn_updates ur)"
    "deltas_ok T \<sigma> d ur"
    "\<And>i. i \<in> set (ur_fn_new ur) \<Longrightarrow> i \<notin> X \<Longrightarrow> find_fn \<sigma> d i = None \<Longrightarrow> has_recipe ur i"
  using assms by (auto simp: requests_ok_upto_def)

lemma requests_ok_empty: "requests_ok T U \<sigma> d empty_requests"
  by (simp add: requests_ok_upto_def empty_requests_def sen_changes_ok_def sen_cache_ok_def creations_ok_def
      fn_updates_ok_def deltas_ok_def)

lemma ur_delta_empty: "ur_delta T empty_requests i = 0"
  by (simp add: ur_delta_def empty_requests_def)

lemma ur_delta_frame [simp]:
  "ur_delta T (ur\<lparr>ur_fn_creations := a\<rparr>) i = ur_delta T ur i"
  "ur_delta T (ur\<lparr>ur_fn_updates := b\<rparr>) i = ur_delta T ur i"
  "ur_delta T (ur\<lparr>ur_fn_move_candidates := c\<rparr>) i = ur_delta T ur i"
  "ur_delta T (ur\<lparr>ur_sen_cache := f\<rparr>) i = ur_delta T ur i"
  "ur_delta T (add_fn_update s t data ur) i = ur_delta T ur i"
  by (simp_all add: ur_delta_def add_fn_update_def)

lemma deltas_ok_frame [simp]:
  "deltas_ok T \<sigma> d (ur\<lparr>ur_sen_changes := e\<rparr>) = deltas_ok T \<sigma> d ur"
  "deltas_ok T \<sigma> d (ur\<lparr>ur_sen_cache := f\<rparr>) = deltas_ok T \<sigma> d ur"
  "deltas_ok T \<sigma> d (ur\<lparr>ur_fn_creations := a\<rparr>) = deltas_ok T \<sigma> d ur"
  "deltas_ok T \<sigma> d (ur\<lparr>ur_fn_updates := b\<rparr>) = deltas_ok T \<sigma> d ur"
  "deltas_ok T \<sigma> d (ur\<lparr>ur_fn_move_candidates := c\<rparr>) = deltas_ok T \<sigma> d ur"
  unfolding deltas_ok_def by simp_all

lemma has_recipe_frame [simp]:
  "has_recipe (ur\<lparr>ur_sen_changes := e\<rparr>) = has_recipe ur"
  "has_recipe (ur\<lparr>ur_sen_cache := f\<rparr>) = has_recipe ur"
  "has_recipe (ur\<lparr>ur_fn_move_candidates := c\<rparr>) = has_recipe ur"
  unfolding has_recipe_def by simp_all

subsection \<open>Changing a reference count\<close>

lemma requests_ok_X: "requests_ok_upto T U \<sigma> d X ur \<Longrightarrow> X \<subseteq> Y \<Longrightarrow> requests_ok_upto T U \<sigma> d Y ur"
  unfolding requests_ok_upto_def by blast

lemma deltas_ok_add:
  assumes ok: "deltas_ok T \<sigma> d ur" and fn: "is_fn T i" and n: "n \<noteq> 0"
    and stored: "n < 0 \<Longrightarrow> find_fn \<sigma> d i \<noteq> None"
  shows "deltas_ok T \<sigma> d (apply_ref_count_delta T d ur i n)"
proof -
  have "i \<in> set (ur_fn_deletion_candidates ur)" if "map_of (ur_fn_deltas ur) i = Some x" "\<not> n < 0" "\<not> 0 < x + n" for x
    using that n ok unfolding deltas_ok_def by (metis add_pos_pos linorder_neqE)
  then show ?thesis
    using ok fn n stored by (auto simp: deltas_ok_def apply_ref_count_delta_def al_simps Let_def split: option.splits)
qed

lemma apply_delta_fn:
  assumes ok: "requests_ok_upto T U \<sigma> d X ur" and fn: "is_fn T i" and n: "n \<noteq> 0"
    and stored: "n < 0 \<Longrightarrow> find_fn \<sigma> d i \<noteq> None"
  shows "requests_ok_upto T U \<sigma> d (insert i X) (apply_ref_count_delta T d ur i n)"
    "ur_delta T (apply_ref_count_delta T d ur i n) j = ur_delta T ur j + (if j = i then n else 0)"
proof -
  have "has_recipe (apply_ref_count_delta T d ur i n) = has_recipe ur"
    using fn n by (auto simp: has_recipe_def apply_ref_count_delta_def Let_def fun_eq_iff)
  then show "requests_ok_upto T U \<sigma> d (insert i X) (apply_ref_count_delta T d ur i n)"
    using ok fn n deltas_ok_add[OF requests_okD(5)[OF ok] fn n stored]
    by (auto simp: requests_ok_upto_def apply_ref_count_delta_def Let_def)
  show "ur_delta T (apply_ref_count_delta T d ur i n) j = ur_delta T ur j + (if j = i then n else 0)"
    using fn n by (auto simp: ur_delta_def apply_ref_count_delta_def Let_def al_simps split: option.splits)
qed

lemma apply_delta_stored_fn:
  assumes ok: "requests_ok_upto T U \<sigma> d X ur" and fn: "is_fn T i" and stored: "find_fn \<sigma> d i \<noteq> None" and n: "n \<noteq> 0"
  shows "requests_ok_upto T U \<sigma> d X (apply_ref_count_delta T d ur i n)"
proof -
  have "has_recipe (apply_ref_count_delta T d ur i n) = has_recipe ur"
    using fn n by (auto simp: has_recipe_def apply_ref_count_delta_def Let_def fun_eq_iff)
  then show ?thesis
    using apply_delta_fn(1)[OF ok fn n stored] requests_okD(6)[OF ok] stored fn n
    by (auto simp: requests_ok_upto_def apply_ref_count_delta_def Let_def)
qed

lemma requests_ok_sen_changes:
  assumes "requests_ok_upto T U \<sigma> d X ur" "sen_changes_ok T U \<sigma> d m"
  shows "requests_ok_upto T U \<sigma> d X (ur\<lparr>ur_sen_changes := m\<rparr>)"
  using assms by (simp add: requests_ok_upto_def)

lemma sen_changes_ok_put:
  assumes "sen_changes_ok T U \<sigma> d m" "sen_change_ok T U \<sigma> d i c"
  shows "sen_changes_ok T U \<sigma> d (AList.update i c m)"
  using assms by (auto simp: sen_changes_ok_def al_simps)

text \<open>Changing the count of a node that is present.\<close>

lemma apply_delta_present:
  assumes lvl: "level_ok T U \<sigma> d" and ok: "requests_ok_upto T U \<sigma> d X ur" and pres: "present T \<sigma> d i"
    and E: "i = ident T d E" "entries_ok U d E" "E \<noteq> {}"
  shows "requests_ok_upto T U \<sigma> d X (apply_ref_count_delta T d ur i n)"
    "tracked T d j \<Longrightarrow> ur_delta T (apply_ref_count_delta T d ur i n) j = ur_delta T ur j + (if j = i then n else 0)"
proof -
  note U = level_okD(1)[OF lvl] and T = level_okD(2)[OF lvl]
  have i: "i \<noteq> 0" using ident_nonzero[OF U E(2)] E(1,3) by simp
  consider "n = 0" | "is_fn T i" "n \<noteq> 0" | "is_sen T i" "\<not> is_fn T i" "n \<noteq> 0" "\<not> in_place_node T d"
    | "is_sen T i" "\<not> is_fn T i" "n \<noteq> 0" "in_place_node T d"
    using not_fn_sen[OF T i] by blast
  then have "requests_ok_upto T U \<sigma> d X (apply_ref_count_delta T d ur i n) \<and> (tracked T d j \<longrightarrow>
      ur_delta T (apply_ref_count_delta T d ur i n) j = ur_delta T ur j + (if j = i then n else 0))"
  proof cases
    case 1
    then show ?thesis using ok by (simp add: apply_ref_count_delta_def)
  next
    case 2
    obtain fn where "find_fn \<sigma> d i = Some fn" using present_fn[OF pres 2(1)] .
    then show ?thesis using apply_delta_stored_fn[OF ok 2(1) _ 2(2)] apply_delta_fn(2)[OF ok 2] by simp
  next
    case 3
    obtain s where s: "find_sen \<sigma> d i = Some s" using present_sen[OF pres 3(1,4) T] .
    have "sen_change_ok T U \<sigma> d i (f (case map_of (ur_sen_changes ur) i of None \<Rightarrow> no_change | Some c \<Rightarrow> c))"
      if "\<And>c. sc_entry (f c) = sc_entry c" for f
    proof (cases "map_of (ur_sen_changes ur) i")
      case None
      have "entries_ok U d {sn_entry s} \<and> i = ident T d {sn_entry s}"
        using sens_okD(3)[OF level_okD(5)[OF lvl]] s by (auto simp: find_sen_def)
      then show ?thesis using None s that 3 unfolding sen_change_ok_def no_change_def
        by (metis option.case(1) option.distinct(1) sen_change.select_convs(2))
    next
      case (Some c)
      then show ?thesis using requests_okD(1)[OF ok] that by (auto simp: sen_changes_ok_def sen_change_ok_def)
    qed
    note this[of "\<lambda>c. c\<lparr>sc_delta := sc_delta c + n\<rparr>"]
    then have "sen_changes_ok T U \<sigma> d (al_modify i no_change (\<lambda>c. c\<lparr>sc_delta := sc_delta c + n\<rparr>) (ur_sen_changes ur))"
      unfolding al_modify_def using sen_changes_ok_put[OF requests_okD(1)[OF ok]] by simp
    then show ?thesis using 3 requests_ok_sen_changes[OF ok]
      by (auto simp: apply_ref_count_delta_def ur_delta_def al_simps no_change_def split: option.splits)
  next
    case 4
    then show ?thesis using ok by (auto simp: apply_ref_count_delta_def tracked_def)
  qed
  then show "requests_ok_upto T U \<sigma> d X (apply_ref_count_delta T d ur i n)"
    "tracked T d j \<Longrightarrow> ur_delta T (apply_ref_count_delta T d ur i n) j = ur_delta T ur j + (if j = i then n else 0)"
    by blast+
qed

subsection \<open>The entry that remains\<close>

text \<open>All levels below \<open>d\<close> are consistent, and the children of their nodes are present.\<close>

definition below_ok :: "'v::zero_neq_one htt \<Rightarrow> 'v entry set set \<Rightarrow> 'v node_storage \<Rightarrow> nat \<Rightarrow> bool" where
  "below_ok T U \<sigma> d \<longleftrightarrow> (\<forall>d'. 1 \<le> d' \<and> d' < d \<longrightarrow> level_ok T U \<sigma> d' \<and>
     (\<forall>j g. Suc d' < d \<longrightarrow> find_fn \<sigma> (Suc d') j = Some g \<longrightarrow> kids_present T \<sigma> d' g))"

lemma below_okD:
  assumes "below_ok T U \<sigma> d"
  shows "1 \<le> d' \<Longrightarrow> d' < d \<Longrightarrow> level_ok T U \<sigma> d'"
    "1 \<le> d' \<Longrightarrow> Suc d' < d \<Longrightarrow> find_fn \<sigma> (Suc d') j = Some g \<Longrightarrow> kids_present T \<sigma> d' g"
    "d' \<le> d \<Longrightarrow> below_ok T U \<sigma> d'"
  using assms by (auto simp: below_ok_def)

lemma entry_nonzero_ok:
  assumes "universe_ok T U" "entries_ok U d E" "e \<in> E"
  shows "entry_nonzero e"
  using universe_okD(2)[OF assms(1) entries_okD(2)[OF assms(2)] assms(3)]
  by (simp add: entry_ok_def entry_nonzero_def list_all_iff)

lemma entries_nonzero_ok:
  assumes "universe_ok T U" "entries_ok U d (set es)" "es \<noteq> []"
  shows "entries_nonzero es"
  using entry_nonzero_ok[OF assms(1,2)] assms(3) by (auto simp: entries_nonzero_def list_all_iff)

lemma max_pos_loop_less: "best_i < i \<Longrightarrow> max_pos_loop cs i best best_i < i + length cs"
proof (induction cs arbitrary: i best best_i)
  case (Cons c cs)
  show ?case using Cons.IH[of i "Suc i" c] Cons.IH[of best_i "Suc i" best] Cons.prems by simp
qed simp

lemma max_element_pos_less: "cards \<noteq> [] \<Longrightarrow> max_element_pos cards < length cards"
  using max_pos_loop_less[of 0 1] by (cases cards) (auto simp: max_element_pos_def)

lemma the_rest:
  assumes "card (E - R) \<le> 1" "finite E" "e \<in> E - R"
  shows "E - R = {e}" "the_elem (E - R) = e"
proof -
  show "E - R = {e}"
    using assms by (metis One_nat_def card_le_Suc0_iff_eq finite_Diff is_singletonI' is_singleton_the_elem singletonD
        empty_iff)
  then show "the_elem (E - R) = e" by simp
qed

lemma retrieve_scan_rest:
  assumes U: "universe_ok T U" and E: "entries_ok U (Suc d) E" and d: "1 \<le> d" "p < Suc d"
    and R: "distinct R" "set R \<subseteq> E" "card (E - set R) \<le> 1"
    and edge: "\<And>k c. (k, c) \<in> set es \<Longrightarrow> sub_entries p k E \<noteq> {} \<and> c = ident T d (sub_entries p k E)"
    and single: "\<And>k c e. (k, c) \<in> set es \<Longrightarrow> sub_entries p k E = {e} \<Longrightarrow> single c = Some e"
    and descend: "\<And>k c. (k, c) \<in> set es \<Longrightarrow> is_fn T c \<Longrightarrow> descend c (sub_list p k R)
      = Some (if sub_entries p k E = sub_entries p k (set R) then None
              else Some (the_elem (sub_entries p k E - sub_entries p k (set R))))"
  shows "retrieve_scan T d single descend p (entry_subset_for_pos R p) es
    = Some (if \<exists>e \<in> E - set R. fst e ! p \<in> set (keys_of es) then Some (the_elem (E - set R)) else None)"
  using edge single descend
proof (induction es)
  case Nil
  then show ?case by simp
next
  case (Cons kc es)
  obtain k c where kc: "kc = (k, c)" by (cases kc)
  note ed = Cons.prems(1)[of k c, unfolded kc]
  have IH: "retrieve_scan T d single descend p (entry_subset_for_pos R p) es
    = Some (if \<exists>e \<in> E - set R. fst e ! p \<in> set (keys_of es) then Some (the_elem (E - set R)) else None)"
    by (rule Cons.IH) (use Cons.prems in \<open>metis list.set_intros(2)\<close>)+
  have len: "\<forall>e \<in> E. length (fst e) = Suc d" using entries_okD(3)[OF E] by blast
  have diff: "sub_entries p k (E - set R) = sub_entries p k E - sub_entries p k (set R)"
    by (rule sub_entries_Diff[OF len d(2) R(2)])
  have sub: "sub_entries p k (set R) \<subseteq> sub_entries p k E" by (rule sub_entries_mono[OF R(2)])
  have Ek: "entries_ok U d (sub_entries p k E)" by (rule entries_ok_sub[OF U E d])
  have none: "\<not> (\<exists>e \<in> E - set R. fst e ! p = k)" if "sub_entries p k E = sub_entries p k (set R)"
    using sub_entries_nonempty[of _ "E - set R" p] diff that by blast
  have found: "\<exists>e \<in> E - set R. fst e ! p = k \<and> the_elem (E - set R) = e \<and>
      sub_entries p k E - sub_entries p k (set R) = {(subkey (fst e) p, snd e)} \<and>
      combine_res k p (subkey (fst e) p, snd e) = e" if "sub_entries p k E \<noteq> sub_entries p k (set R)"
  proof -
    have "sub_entries p k (E - set R) \<noteq> {}" using diff sub that by auto
    then obtain e where e: "e \<in> E - set R" "fst e ! p = k" by (auto simp: sub_entries_def)
    note rest = the_rest[OF R(3) entries_okD(1)[OF E] e(1)]
    have "{f \<in> {e}. fst f ! p = k} = {e}" using e(2) by auto
    then have "sub_entries p k {e} = {(subkey (fst e) p, snd e)}" by (simp add: sub_entries_def)
    moreover have "combine_res k p (subkey (fst e) p, snd e) = e"
      using e len d by (auto simp: combine_res_def insert_at_subkey)
    ultimately show ?thesis using e rest diff by auto
  qed
  show ?case
  proof (cases "sub_entries p k (set R) = {}")
    case True
    then have "map_of (entry_subset_for_pos R p) k = None"
      unfolding entry_subset_find by (simp flip: set_sub_list)
    moreover have "sub_entries p k E \<noteq> sub_entries p k (set R)" using ed True by simp
    then obtain e where e: "e \<in> E - set R" "fst e ! p = k" "the_elem (E - set R) = e"
        "sub_entries p k E - sub_entries p k (set R) = {(subkey (fst e) p, snd e)}"
        "combine_res k p (subkey (fst e) p, snd e) = e"
      using found by blast
    moreover have "single c = Some (subkey (fst e) p, snd e)" using Cons.prems(2)[of k c] kc e(4) True by simp
    ultimately show ?thesis using kc by auto
  next
    case False
    then have m: "map_of (entry_subset_for_pos R p) k = Some (sub_list p k R)"
      unfolding entry_subset_find by (auto simp flip: set_sub_list)
    have dist: "distinct (sub_list p k R)" using distinct_sub_list[OF R(1) _ d(2)] len R(2) by blast
    show ?thesis
    proof (cases "is_sen T c")
      case True
      then have "card (sub_entries p k E) = 1" using is_sen_ident[OF U Ek] ed by simp
      then have "sub_entries p k E = sub_entries p k (set R)"
        using sub False by (auto simp: card_1_singleton_iff)
      then show ?thesis using IH none m kc True ed hash_iterable_ident[OF universe_okD(1)[OF U] dist, of d]
        by auto
    next
      case nsen: False
      then have fn: "is_fn T c" using not_fn_sen[OF universe_okD(1)[OF U]] ident_nonzero[OF U Ek] ed by auto
      show ?thesis
      proof (cases "sub_entries p k E = sub_entries p k (set R)")
        case True
        then show ?thesis using IH none[OF True] m kc nsen fn Cons.prems(3)[of k c] by auto
      next
        case neq: False
        then show ?thesis using found[OF neq] m kc nsen fn Cons.prems(3)[of k c] by auto
      qed
    qed
  qed
qed

lemma single_child_entry_ident:
  assumes lvl: "level_ok T U \<sigma> d" and e: "entries_ok U d {e}" and pres: "present T \<sigma> d (ident T d {e})"
  shows "single_child_entry T \<sigma> d (ident T d {e}) = Some e"
proof -
  note U = level_okD(1)[OF lvl]
  have sen: "is_sen T (ident T d {e})" using is_sen_ident[OF U e] by simp
  show ?thesis
  proof (cases "in_place_node T d")
    case True
    then have "d = 1" "in_place_depth1 T" by (auto simp: in_place_node_def)
    then show ?thesis using get_entry_ident[OF U] e sen True by (simp add: single_child_entry_def)
  next
    case False
    obtain s where s: "find_sen \<sigma> d (ident T d {e}) = Some s"
      using present_sen[OF pres sen False level_okD(2)[OF lvl]] .
    then show ?thesis using sens_ok_repr(1)[OF U level_okD(5)[OF lvl] _ e] False
      by (simp add: single_child_entry_def find_sen_def)
  qed
qed

lemma retrieve_depth1_rest:
  assumes E: "entries_ok U 1 E" and fn: "fn_repr T 1 E fn"
    and R: "set R \<subseteq> E" "card (E - set R) \<le> 1"
  shows "retrieve_depth1 fn R = (if E = set R then None else Some (the_elem (E - set R)))"
proof -
  note inE = fn_repr1D(2)[OF fn] and len = entries_okD(3)[OF E]
  have one: "fst e = [fst e ! 0]" if "e \<in> E" for e using len[OF that] by (cases "fst e") auto
  let ?P = "\<lambda>(kp, v). kp \<notin> set (map (\<lambda>e. fst e ! 0) R)"
  have rest: "([k], v) \<in> E - set R" if "(k, v) \<in> set (fn_values fn)" "?P (k, v)" for k v
  proof -
    have "([k], v) \<in> E" using that(1) inE al_mem_iff[OF fn_repr1D(1)[OF fn]] by simp
    moreover have "([k], v) \<notin> set R" using that(2) by force
    ultimately show ?thesis by simp
  qed
  show ?thesis
  proof (cases "E = set R")
    case True
    then have "List.find ?P (fn_values fn) = None" using rest unfolding find_None_iff by auto
    then show ?thesis using True by (simp add: retrieve_depth1_def)
  next
    case False
    then obtain e where e: "e \<in> E - set R" using R(1) by blast
    then have "([fst e ! 0], snd e) \<in> E" using one[of e] by (metis DiffD1 prod.collapse)
    then have "(fst e ! 0, snd e) \<in> set (fn_values fn)"
      using inE[of "fst e ! 0" "snd e"] al_mem_iff[OF fn_repr1D(1)[OF fn]] by simp
    moreover have "?P (fst e ! 0, snd e)"
    proof -
      have "e = f" if "f \<in> set R" "fst e ! 0 = fst f ! 0" for f
        using inj_onD[OF entries_okD(4)[OF E], of e f] that e R(1) one[of e] one[of f] by (metis DiffD1 subsetD)
      then show ?thesis using e by auto
    qed
    ultimately have "List.find ?P (fn_values fn) \<noteq> None" unfolding find_None_iff by blast
    then obtain k v where kv: "List.find ?P (fn_values fn) = Some (k, v)" by auto
    then have "(k, v) \<in> set (fn_values fn)" "?P (k, v)" unfolding find_Some_iff by (metis nth_mem)+
    then have "the_elem (E - set R) = ([k], v)"
      using the_rest(2)[OF R(2) entries_okD(1)[OF E]] rest by blast
    then show ?thesis using kv False by (simp add: retrieve_depth1_def)
  qed
qed

lemma retrieve_impl_rest:
  "1 \<le> d \<Longrightarrow> below_ok T U \<sigma> d \<Longrightarrow> entries_ok U d E \<Longrightarrow> fn_repr T d E fn \<Longrightarrow>
    (d \<noteq> 1 \<Longrightarrow> kids_present T \<sigma> (d - 1) fn) \<Longrightarrow> distinct R \<Longrightarrow> set R \<subseteq> E \<Longrightarrow> card (E - set R) \<le> 1 \<Longrightarrow>
    retrieve_remaining_impl T \<sigma> d fn R = Some (if E = set R then None else Some (the_elem (E - set R)))"
proof (induction T \<sigma> d fn R arbitrary: E rule: retrieve_remaining_impl.induct)
  case (2 T \<sigma> fn R)
  then show ?case using retrieve_depth1_rest[of U E T fn R] by simp
next
  case (3 T \<sigma> d fn R)
  let ?d = "Suc d" and ?p = "max_element_pos (get_cards (Suc (Suc d)) fn)"
  have d: "1 \<le> ?d" by simp
  have p: "?p < Suc ?d" using max_element_pos_less[of "get_cards (Suc (Suc d)) fn"] by (simp add: get_cards_def)
  have lvl: "level_ok T U \<sigma> ?d" using below_okD(1)[OF 3(3), of ?d] by simp
  note U = level_okD(1)[OF lvl]
  note repr = edges_reprD[OF fn_reprD(3)[OF 3(5) d p]]
  have edge: "sub_entries ?p k E \<noteq> {} \<and> c = ident T ?d (sub_entries ?p k E)" if "(k, c) \<in> set (fn_edges fn ! ?p)" for k c
    using that repr(2)[of k] al_mem_iff[OF repr(1)] by (metis option.distinct(1) option.inject)
  have pres: "present T \<sigma> ?d c" if "(k, c) \<in> set (fn_edges fn ! ?p)" for k c
    using kids_presentD[OF 3(6)[simplified] 3(5) d p] edge[OF that] by simp
  note sub_ok = entries_ok_sub[OF U 3(4) d p]
  have len: "\<forall>e \<in> E. length (fst e) = Suc ?d" using entries_okD(3)[OF 3(4)] by blast
  have "retrieve_scan T ?d (single_child_entry T \<sigma> ?d)
           (\<lambda>child_id next_entries. case find_fn \<sigma> ?d child_id of
              None \<Rightarrow> None | Some child_fn \<Rightarrow> retrieve_remaining_impl T \<sigma> ?d child_fn next_entries)
           ?p (entry_subset_for_pos R ?p) (fn_edges fn ! ?p)
    = Some (if \<exists>e \<in> E - set R. fst e ! ?p \<in> set (keys_of (fn_edges fn ! ?p)) then Some (the_elem (E - set R)) else None)"
  proof (rule retrieve_scan_rest[OF U 3(4) d p 3(7-9) edge])
    fix k c e
    assume kc: "(k, c) \<in> set (fn_edges fn ! ?p)" "sub_entries ?p k E = {e}"
    then show "single_child_entry T \<sigma> ?d c = Some e"
      using single_child_entry_ident[OF lvl, of e] sub_ok[of k] edge[OF kc(1)] pres[OF kc(1)] by simp
  next
    fix k c
    assume kc: "(k, c) \<in> set (fn_edges fn ! ?p)" "is_fn T c"
    obtain g where g: "find_fn \<sigma> ?d c = Some g" using present_fn[OF pres[OF kc(1)] kc(2)] .
    have repr': "fn_repr T ?d (sub_entries ?p k E) g"
      using fns_ok_repr(2)[OF U level_okD(4)[OF lvl] _ sub_ok[of k]] g edge[OF kc(1)] by (simp add: find_fn_def)
    have diff: "sub_entries ?p k E - sub_entries ?p k (set R) = sub_entries ?p k (E - set R)"
      using sub_entries_Diff[OF len p 3(8)] by simp
    have card1: "card (sub_entries ?p k (E - set R)) \<le> 1"
      using card_sub_entries_le[of "E - set R" ?p k] entries_okD(1)[OF 3(4)] 3(9) by simp
    have "retrieve_remaining_impl T \<sigma> ?d g (sub_list ?p k R)
        = Some (if sub_entries ?p k E = set (sub_list ?p k R) then None
                else Some (the_elem (sub_entries ?p k E - set (sub_list ?p k R))))"
    proof (rule 3(1)[OF refl g d below_okD(3)[OF 3(3)] sub_ok repr'])
      show "kids_present T \<sigma> (?d - 1) g" if "?d \<noteq> 1"
        using below_okD(2)[OF 3(3), of d c g] that g by (cases d) simp_all
      show "distinct (sub_list ?p k R)" using distinct_sub_list[OF 3(7) _ p] len 3(8) by blast
      show "set (sub_list ?p k R) \<subseteq> sub_entries ?p k E" using sub_entries_mono[OF 3(8)] by simp
      show "card (sub_entries ?p k E - set (sub_list ?p k R)) \<le> 1"
        using card1 diff by simp
    qed simp
    then show "(case find_fn \<sigma> ?d c of None \<Rightarrow> None
        | Some child_fn \<Rightarrow> retrieve_remaining_impl T \<sigma> ?d child_fn (sub_list ?p k R))
      = Some (if sub_entries ?p k E = sub_entries ?p k (set R) then None
              else Some (the_elem (sub_entries ?p k E - sub_entries ?p k (set R))))"
      using g by simp
  qed
  moreover have "(\<exists>e \<in> E - set R. fst e ! ?p \<in> set (keys_of (fn_edges fn ! ?p))) \<longleftrightarrow> E \<noteq> set R"
  proof -
    have "fst e ! ?p \<in> set (keys_of (fn_edges fn ! ?p))" if "e \<in> E" for e
      using repr(2)[of "fst e ! ?p"] sub_entries_nonempty[OF that, of ?p] al_find_None_iff[of "fn_edges fn ! ?p"]
      by (metis option.distinct(1))
    then show ?thesis using 3(8) by blast
  qed
  ultimately show ?case by (simp add: Let_def)
qed simp

lemma retrieve_remaining_single_entry_rest:
  assumes below: "below_ok T U \<sigma> (Suc d)" and d: "1 \<le> d" and E: "entries_ok U d E"
    and fn: "find_fn \<sigma> d (ident T d E) = Some fn" and R: "distinct R" "set R \<subseteq> E" "E - set R = {e}"
  shows "retrieve_remaining_single_entry T \<sigma> d fn R = Some e"
proof -
  have lvl: "level_ok T U \<sigma> d" using below_okD(1)[OF below, of d] d by simp
  note U = level_okD(1)[OF lvl]
  have "fn_repr T d E fn"
    using fns_ok_repr(2)[OF U level_okD(4)[OF lvl] _ E] fn by (simp add: find_fn_def)
  then have "retrieve_remaining_impl T \<sigma> d fn R = Some (if E = set R then None else Some (the_elem (E - set R)))"
    using retrieve_impl_rest[OF d below_okD(3)[OF below] E] R below_okD(2)[OF below, of "d - 1" "ident T d E" fn] fn d
    by auto
  then show ?thesis using R(3) entry_nonzero_ok[OF U E, of e] by (auto simp: retrieve_remaining_single_entry_def)
qed

subsection \<open>Contracts of the operations\<close>

lemma card_set_one: "distinct es \<Longrightarrow> card (set es) = 1 \<longleftrightarrow> length es = 1"
  by (simp add: distinct_card)

lemma singleton_list: "length es = 1 \<Longrightarrow> es = [es ! 0]"
  by (cases es) auto

lemma requests_ok_creation:
  assumes ok: "requests_ok_upto T U \<sigma> d (insert i X) ur" and es: "creation_ok T U d i es"
  shows "requests_ok_upto T U \<sigma> d X (ur\<lparr>ur_fn_creations := al_emplace i es (ur_fn_creations ur)\<rparr>)"
proof -
  have "creations_ok T U d (al_emplace i es (ur_fn_creations ur))"
    using requests_okD(3)[OF ok] es by (auto simp: creations_ok_def al_simps)
  moreover have "has_recipe (ur\<lparr>ur_fn_creations := al_emplace i es (ur_fn_creations ur)\<rparr>) j" if "has_recipe ur j \<or> j = i" for j
    using that by (auto simp: has_recipe_def al_simps)
  ultimately show ?thesis using ok by (auto simp: requests_ok_upto_def)
qed

lemma requests_ok_update:
  assumes ok: "requests_ok_upto T U \<sigma> d (insert tgt X) ur" and upd: "fn_update_ok T U \<sigma> d src tgt data"
  shows "requests_ok_upto T U \<sigma> d X (add_fn_update src tgt data ur)"
proof -
  let ?m = "al_modify src [] (al_emplace tgt data) (ur_fn_updates ur)"
  have old: "al_ok ts \<and> (\<forall>t da. map_of ts t = Some da \<longrightarrow> fn_update_ok T U \<sigma> d s t da)"
    if "map_of (ur_fn_updates ur) s = Some ts" for s ts
    using requests_okD(4)[OF ok] that unfolding fn_updates_ok_def by blast
  have "fn_updates_ok T U \<sigma> d ?m"
    using requests_okD(4)[OF ok] upd old unfolding fn_updates_ok_def
    by (auto simp: al_simps split: option.splits if_splits)
  moreover have "has_recipe (ur\<lparr>ur_fn_updates := ?m\<rparr>) j" if j: "has_recipe ur j \<or> j = tgt" for j
  proof (cases "map_of (ur_fn_creations ur) j = None")
    case True
    then consider "j = tgt" | s ts where "map_of (ur_fn_updates ur) s = Some ts" "map_of ts j \<noteq> None"
      using j by (auto simp: has_recipe_def)
    then show ?thesis
    proof cases
      case 1
      then show ?thesis by (auto simp: has_recipe_def al_simps intro!: exI[of _ src])
    next
      case (2 s ts)
      then show ?thesis by (auto simp: has_recipe_def al_simps intro!: exI[of _ s])
    qed
  qed (simp add: has_recipe_def)
  ultimately show ?thesis using ok by (auto simp: requests_ok_upto_def add_fn_update_def)
qed

lemma requests_ok_move_candidate [simp]:
  "requests_ok_upto T U \<sigma> d X (ur\<lparr>ur_fn_move_candidates := c\<rparr>) = requests_ok_upto T U \<sigma> d X ur"
  by (simp add: requests_ok_upto_def)

lemma apply_delta_frame:
  "ur_sen_changes (apply_ref_count_delta T d ur i n) = ur_sen_changes ur" if "is_fn T i"
  "ur_fn_creations (apply_ref_count_delta T d ur i n) = ur_fn_creations ur"
  "ur_sen_cache (apply_ref_count_delta T d ur i n) = ur_sen_cache ur"
  using that by (auto simp: apply_ref_count_delta_def Let_def)

lemma sen_change_ok_self:
  "\<not> in_place_node T d \<Longrightarrow> entries_ok U d {e} \<Longrightarrow> i = ident T d {e} \<Longrightarrow>
    sen_change_ok T U \<sigma> d i \<lparr>sc_delta = n, sc_entry = Some e\<rparr>"
  by (cases e) (auto simp: sen_change_ok_def)

text \<open>Every way of changing a single-entry change.\<close>

lemma put_sen_change:
  assumes ok: "requests_ok_upto T U \<sigma> d X ur" and c: "sen_change_ok T U \<sigma> d i c" and i: "\<not> is_fn T i"
  shows "requests_ok_upto T U \<sigma> d X (ur\<lparr>ur_sen_changes := AList.update i c (ur_sen_changes ur)\<rparr>)"
    "ur_delta T (ur\<lparr>ur_sen_changes := AList.update i c (ur_sen_changes ur)\<rparr>) j
       = (if j = i then sc_delta c else ur_delta T ur j)"
  using requests_ok_sen_changes[OF ok sen_changes_ok_put[OF requests_okD(1)[OF ok] c]] i
  by (auto simp: ur_delta_def al_simps)

lemma ur_delta_sen:
  "\<not> is_fn T i \<Longrightarrow> ur_delta T ur i = sc_delta (case map_of (ur_sen_changes ur) i of None \<Rightarrow> no_change | Some c \<Rightarrow> c)"
  by (simp add: ur_delta_def no_change_def split: option.splits)

lemma add_node_spec:
  assumes lvl: "level_ok T U \<sigma> d" and ok: "requests_ok T U \<sigma> d ur"
    and es: "distinct es" "es \<noteq> []" "entries_ok U d (set es)"
  shows "\<exists>ur'. add_node T d ur es 1 = Some (ident T d (set es), ur') \<and> requests_ok T U \<sigma> d ur' \<and>
    moves_reference T d ur ur' (ident T d (set es)) 0 False"
proof -
  note U = level_okD(1)[OF lvl] and T = level_okD(2)[OF lvl]
  note id = hash_iterable_ident[OF T es(1), of d]
  have nz: "entries_nonzero es" by (rule entries_nonzero_ok[OF U es(3,2)])
  show ?thesis
  proof (cases "length es = 1")
    case True
    then have e: "set es = {es ! 0}" using singleton_list[OF True] by (metis list.set(1) list.simps(15))
    have nfn: "\<not> is_fn T (ident T d (set es))" using is_fn_ident[OF U es(3)] e by simp
    show ?thesis
    proof (cases "in_place_node T d")
      case ip: True
      then show ?thesis using True nz id ok nfn
        by (auto simp: add_node_def moves_reference_def tracked_def)
    next
      case False
      let ?c = "\<lparr>sc_delta = sc_delta (case map_of (ur_sen_changes ur) (ident T d (set es)) of
        None \<Rightarrow> no_change | Some c \<Rightarrow> c) + 1, sc_entry = Some (es ! 0)\<rparr>"
      have "sen_change_ok T U \<sigma> d (ident T d (set es)) ?c"
        using sen_change_ok_self[OF False] es(3) e by simp
      note put = put_sen_change[OF ok this nfn]
      let ?ur' = "ur\<lparr>ur_sen_changes := AList.update (ident T d (set es)) ?c (ur_sen_changes ur)\<rparr>"
      have "add_node T d ur es 1 = Some (ident T d (set es), ?ur')"
        using True nz id False by (simp add: add_node_def Let_def al_modify_def)
      moreover have "moves_reference T d ur ?ur' (ident T d (set es)) 0 False"
        using ur_delta_sen[OF nfn, of ur] by (simp add: moves_reference_def put(2))
      ultimately show ?thesis using put(1) by blast
    qed
  next
    case False
    have card: "2 \<le> card (set es)" using False es(1,2) by (cases es) (auto simp: distinct_card Suc_le_eq)
    have fn: "is_fn T (ident T d (set es))" using is_fn_ident[OF U es(3)] card by simp
    have c: "creation_ok T U d (ident T d (set es)) es" using es card by (simp add: creation_ok_def)
    let ?ur1 = "ur\<lparr>ur_fn_creations := al_emplace (ident T d (set es)) es (ur_fn_creations ur)\<rparr>"
    let ?i = "ident T d (set es)"
    have swap: "apply_ref_count_delta T d ?ur1 ?i 1
      = (apply_ref_count_delta T d ur ?i 1)\<lparr>ur_fn_creations := al_emplace ?i es (ur_fn_creations (apply_ref_count_delta T d ur ?i 1))\<rparr>"
      using fn by (simp add: apply_ref_count_delta_def Let_def)
    have "requests_ok T U \<sigma> d (apply_ref_count_delta T d ?ur1 ?i 1)"
      unfolding swap by (rule requests_ok_creation[OF _ c]) (use apply_delta_fn(1)[OF ok fn, of 1] in simp)
    moreover have "moves_reference T d ur (apply_ref_count_delta T d ?ur1 ?i 1) ?i 0 False"
      unfolding swap moves_reference_def using apply_delta_fn(2)[OF ok fn, of 1] by simp
    ultimately show ?thesis using False nz id by (simp add: add_node_def Let_def)
  qed
qed

lemma source_sen_change_spec:
  assumes lvl: "level_ok T U \<sigma> d" and ok: "requests_ok_upto T U \<sigma> d X ur"
    and e: "entries_ok U d {e}" and pres: "present T \<sigma> d (ident T d {e})" and ip: "\<not> in_place_node T d"
  shows "\<exists>c. source_sen_change \<sigma> d ur (ident T d {e}) dec = Some c \<and> sc_entry c = Some e \<and>
    sc_delta c = ur_delta T ur (ident T d {e}) - of_bool dec"
proof -
  note U = level_okD(1)[OF lvl]
  let ?i = "ident T d {e}"
  have sen: "is_sen T ?i" "\<not> is_fn T ?i" using is_sen_ident[OF U e] is_fn_ident[OF U e] by simp_all
  obtain s where s: "find_sen \<sigma> d ?i = Some s" using present_sen[OF pres sen(1) ip level_okD(2)[OF lvl]] .
  have se: "sn_entry s = e" using sens_ok_repr(1)[OF U level_okD(5)[OF lvl] _ e] s by (simp add: find_sen_def)
  show ?thesis
  proof (cases "map_of (ur_sen_changes ur) ?i")
    case None
    then show ?thesis using s se sen by (simp add: source_sen_change_def ur_delta_def)
  next
    case (Some c)
    then obtain f where f: "entries_ok U d {f}" "?i = ident T d {f}" "sc_entry c = Some f \<or> sc_entry c = None"
      using requests_okD(1)[OF ok] unfolding sen_changes_ok_def sen_change_ok_def by blast
    then have "f = e" using ident_inj[OF U e f(1)] by simp
    then show ?thesis using Some s se sen f(3)
      by (cases "sc_entry c") (auto simp: source_sen_change_def ur_delta_def)
  qed
qed

lemma combine_union:
  assumes U: "universe_ok T U" and E: "entries_ok U d E" "E \<noteq> {}"
    and es: "distinct es" "es \<noteq> []" "set es \<inter> E = {}" and ins: "ins_ok U d E es"
  shows "2 \<le> card (E \<union> set es)" "is_fn T (ident T d (E \<union> set es))"
    "id_combine T d (hash_iterable T d es) (ident T d E) False = Some (ident T d (E \<union> set es))"
proof -
  note Ees = ins_okD(1)[OF ins]
  have fin: "finite E" using entries_okD(1)[OF E(1)] .
  have "card (E \<union> set es) = card E + card (set es)"
    using fin es(3) by (intro card_Un_disjoint) auto
  moreover have "0 < card E" "0 < card (set es)" using fin E(2) es(2) by (simp_all add: card_gt_0_iff)
  ultimately show c: "2 \<le> card (E \<union> set es)" by simp
  then show "is_fn T (ident T d (E \<union> set es))" using is_fn_ident[OF U Ees] by simp
  have "(set es - E) \<union> (E - set es) = E \<union> set es" using es(3) by blast
  moreover have "entries_ok U d (set es)" by (rule ins_okD(3)[OF ins])
  ultimately show "id_combine T d (hash_iterable T d es) (ident T d E) False = Some (ident T d (E \<union> set es))"
    using id_combine_sym_diff[OF U _ _ E, of "set es"] es(1,2) ident_big[OF entries_okD(1)[OF Ees] c]
    by (simp add: hash_iterable_ident[OF universe_okD(1)[OF U]])
qed

lemma insert_into_node_spec:
  assumes lvl: "level_ok T U \<sigma> d" and ok: "requests_ok T U \<sigma> d ur"
    and ne: "E \<noteq> {}" and pres: "present T \<sigma> d (ident T d E)"
    and es: "distinct es" "es \<noteq> []" "set es \<inter> E = {}" and ins: "ins_ok U d E es"
  shows "\<exists>ur'. insert_into_node T \<sigma> d ur (ident T d E) es dec = Some (ident T d (E \<union> set es), ur') \<and>
    requests_ok T U \<sigma> d ur' \<and> moves_reference T d ur ur' (ident T d (E \<union> set es)) (ident T d E) dec"
proof -
  note U = level_okD(1)[OF lvl] and T = level_okD(2)[OF lvl]
  let ?src = "ident T d E" and ?tgt = "ident T d (E \<union> set es)"
  let ?ur1 = "apply_ref_count_delta T d ur ?tgt 1"
  note Ees = ins_okD(1)[OF ins]
  have E: "entries_ok U d E" "E \<noteq> {}" using ins_okD(2)[OF ins] ne by simp_all
  note comb = combine_union[OF U E es ins]
  have nz: "entries_nonzero es \<and> \<not> id_empty T ?src"
    using entries_nonzero_ok[OF U ins_okD(3)[OF ins] es(2)] ident_nonzero[OF U E(1)] E(2)
    by simp
  have ok1: "requests_ok_upto T U \<sigma> d {?tgt} ?ur1" using apply_delta_fn(1)[OF ok comb(2), of 1] by simp
  have d1: "ur_delta T ?ur1 i = ur_delta T ur i + of_bool (i = ?tgt)" for i
    using apply_delta_fn(2)[OF ok comb(2), of 1] by simp
  show ?thesis
  proof (cases "is_sen T ?src")
    case sen: True
    then obtain e where e: "E = {e}" using is_sen_ident[OF U E(1)] by (metis card_1_singletonE)
    have new: "creation_ok T U d ?tgt (es @ [e])"
      using es Ees comb(1) e by (auto simp: creation_ok_def insert_commute)
    show ?thesis
    proof (cases "in_place_node T d")
      case True
      then have "d = 1" "in_place_depth1 T" by (auto simp: in_place_node_def)
      then have get: "get_entry T ?src = Some e" using get_entry_ident[OF U] E(1) e by simp
      let ?ur' = "?ur1\<lparr>ur_fn_creations := al_emplace ?tgt (es @ [e]) (ur_fn_creations ?ur1)\<rparr>"
      have "insert_into_node T \<sigma> d ur ?src es dec = Some (?tgt, ?ur')"
        using nz sen True get comb(3) by (simp add: insert_into_node_def Let_def)
      moreover have "requests_ok T U \<sigma> d ?ur'" by (rule requests_ok_creation[OF ok1 new])
      moreover have "moves_reference T d ur ?ur' ?tgt ?src dec"
      proof -
        have "\<not> tracked T d ?src" using is_fn_not_sen[OF T] sen True by (auto simp: tracked_def)
        then show ?thesis using d1 unfolding moves_reference_def by auto
      qed
      ultimately show ?thesis by blast
    next
      case False
      obtain c where c: "source_sen_change \<sigma> d ?ur1 ?src dec = Some c" "sc_entry c = Some e"
          "sc_delta c = ur_delta T ?ur1 ?src - of_bool dec"
        using source_sen_change_spec[OF lvl ok1 _ _ False, of e dec] E(1) pres e by auto
      let ?ur2 = "?ur1\<lparr>ur_sen_changes := AList.update ?src c (ur_sen_changes ?ur1)\<rparr>"
      have cok: "sen_change_ok T U \<sigma> d ?src c"
        using sen_change_ok_self[OF False, of U e ?src \<sigma> "sc_delta c"] c(2) E(1) e by (cases c) auto
      have nfn: "\<not> is_fn T ?src" using is_fn_not_sen[OF T] sen by blast
      note put = put_sen_change[OF ok1 cok nfn]
      let ?ur' = "?ur2\<lparr>ur_fn_creations := al_emplace ?tgt (es @ [e]) (ur_fn_creations ?ur2)\<rparr>"
      have "insert_into_node T \<sigma> d ur ?src es dec = Some (?tgt, ?ur')"
        using nz sen False comb(3) c(1,2) by (simp add: insert_into_node_def Let_def)
      moreover have "requests_ok T U \<sigma> d ?ur'" by (rule requests_ok_creation[OF put(1) new])
      moreover have "moves_reference T d ur ?ur' ?tgt ?src dec"
        unfolding moves_reference_def ur_delta_frame put(2) using c(3) d1 by auto
      ultimately show ?thesis by blast
    qed
  next
    case False
    then have fn: "is_fn T ?src"
      using not_fn_sen[OF T] ident_nonzero[OF U E(1)] E(2) by blast
    obtain g where g: "find_fn \<sigma> d ?src = Some g" using present_fn[OF pres fn] .
    let ?ur2 = "if dec then apply_ref_count_delta T d
                    (?ur1\<lparr>ur_fn_move_candidates := List.insert ?tgt (ur_fn_move_candidates ?ur1)\<rparr>) ?src (- 1)
                  else ?ur1"
    let ?data = "\<lparr>fd_entries = es, fd_mode = INSERT\<rparr>"
    let ?ur' = "add_fn_update ?src ?tgt ?data ?ur2"
    have "insert_into_node T \<sigma> d ur ?src es dec = Some (?tgt, ?ur')"
      using nz False comb(3) by (simp add: insert_into_node_def Let_def)
    moreover have ok2: "requests_ok_upto T U \<sigma> d {?tgt} ?ur2"
      using ok1 apply_delta_stored_fn[OF _ fn, of U \<sigma> d "{?tgt}"
          "?ur1\<lparr>ur_fn_move_candidates := List.insert ?tgt (ur_fn_move_candidates ?ur1)\<rparr>" "- 1"] g by simp
    have "fn_update_ok T U \<sigma> d ?src ?tgt ?data"
      unfolding fn_update_ok_def using g es E Ees ins_okD(3)[OF ins] comb(1)
      by (intro exI[of _ E]) (simp add: update_entries_def)
    then have "requests_ok T U \<sigma> d ?ur'" using requests_ok_update[OF ok2] by simp
    moreover have "moves_reference T d ur ?ur' ?tgt ?src dec"
      unfolding moves_reference_def ur_delta_frame using d1 ok1
        apply_delta_fn(2)[OF _ fn, of U \<sigma> d "{?tgt}" "?ur1\<lparr>ur_fn_move_candidates := List.insert ?tgt (ur_fn_move_candidates ?ur1)\<rparr>" "- 1"] g
      by auto
    ultimately show ?thesis by blast
  qed
qed

lemma fn_size_repr:
  assumes E: "entries_ok U d E" and fn: "fn_repr T d E fn"
  shows "fn_size d fn = card E"
proof (cases "d = 1")
  case True
  then have fn1: "fn_repr T 1 E fn" and len: "\<forall>e \<in> E. length (fst e) = 1" using fn entries_okD(3)[OF E] by auto
  note vals = fn_repr1D[OF fn1]
  have "(\<lambda>(k, v). ([k], v)) ` set (fn_values fn) = E"
  proof
    show "(\<lambda>(k, v). ([k], v)) ` set (fn_values fn) \<subseteq> E"
      using vals(2) al_mem_iff[OF vals(1)] by auto
    show "E \<subseteq> (\<lambda>(k, v). ([k], v)) ` set (fn_values fn)"
    proof
      fix e assume e: "e \<in> E"
      then obtain k v where kv: "e = ([k], v)" using len by (cases e) (auto simp: length_Suc_conv)
      then have "(k, v) \<in> set (fn_values fn)" using vals(2) al_mem_iff[OF vals(1)] e by simp
      then show "e \<in> (\<lambda>(k, v). ([k], v)) ` set (fn_values fn)" using kv by force
    qed
  qed
  moreover have "inj_on (\<lambda>(k, v). ([k], v)) (set (fn_values fn))" by (auto simp: inj_on_def)
  ultimately have "card E = card (set (fn_values fn))" by (metis card_image)
  also have "\<dots> = length (fn_values fn)" using vals(1) by (simp add: distinct_card distinct_map)
  finally show ?thesis using True by (simp add: fn_size_def)
qed (use fn in \<open>simp add: fn_repr_def fn_size_def\<close>)

lemma combine_diff:
  assumes U: "universe_ok T U" and E: "entries_ok U d E" and esok: "entries_ok U d (set es)"
    and es: "distinct es" "es \<noteq> []" "set es \<subseteq> E"
  shows "id_combine T d (hash_iterable T d es) (ident T d E) False = Some (untagged T (E - set es))"
proof -
  have "(set es - E) \<union> (E - set es) = E - set es" using es(3) by blast
  moreover have "E \<noteq> {}" using es(2,3) by (cases es) auto
  ultimately show ?thesis
    using id_combine_sym_diff[OF U _ _ E, of "set es"] es(1,2) esok
    by (simp add: hash_iterable_ident[OF universe_okD(1)[OF U]])
qed

lemma retagged_single:
  assumes U: "universe_ok T U" and ip: "\<not> in_place_node T d"
  shows "retag_as_sen T (untagged T {e}) = ident T d {e}"
  using ip universe_okD(1)[OF U] by (simp add: retag_as_sen_def untagged_def ident_singleton)

text \<open>The branches for a target with one entry.\<close>

lemma remove_to_single_spec:
  assumes below: "below_ok T U \<sigma> (Suc d)" and d: "1 \<le> d" and ok: "requests_ok_upto T U \<sigma> d X ur"
    and E: "entries_ok U d E" and fn: "find_fn \<sigma> d (ident T d E) = Some fn"
    and es: "distinct es" "set es \<subseteq> E" "E - set es = {e}" and e: "entries_ok U d {e}"
  shows "\<exists>ur'. remove_to_single T \<sigma> d ur fn (retag_as_sen T (untagged T {e})) es = Some (ident T d {e}, ur') \<and>
    requests_ok_upto T U \<sigma> d X ur' \<and> moves_reference T d ur ur' (ident T d {e}) 0 False"
proof -
  have lvl: "level_ok T U \<sigma> d" using below_okD(1)[OF below, of d] d by simp
  note U = level_okD(1)[OF lvl] and T = level_okD(2)[OF lvl]
  have nfn: "\<not> is_fn T (ident T d {e})" using is_fn_ident[OF U e] by simp
  note rest = retrieve_remaining_single_entry_rest[OF below d E fn es]
  let ?r = "retag_as_sen T (untagged T {e})"
  show ?thesis
  proof (cases "in_place_node T d")
    case True
    then have nt: "\<not> tracked T d (ident T d {e})" using nfn by (simp add: tracked_def)
    show ?thesis
    proof (cases "map_of (ur_sen_cache ur) ?r")
      case None
      have "sen_cache_ok T U d (AList.update ?r e (ur_sen_cache ur))"
        using requests_okD(2)[OF ok] e unfolding sen_cache_ok_def retag_as_sen_def
        by (auto simp: al_simps)
      then have "requests_ok_upto T U \<sigma> d X (ur\<lparr>ur_sen_cache := AList.update ?r e (ur_sen_cache ur)\<rparr>)"
        using ok by (simp add: requests_ok_upto_def)
      then show ?thesis
        using True None rest nt encode_single_entry_ident[OF T] by (auto simp: remove_to_single_def moves_reference_def)
    next
      case (Some f)
      then have f: "entries_ok U d {f}" "tag_as_sen T (untagged T {e}) = tag_as_sen T (untagged T {f})"
        using requests_okD(2)[OF ok] unfolding sen_cache_ok_def retag_as_sen_def by blast+
      have "untagged T {e} = untagged T {f}"
        using arg_cong[OF f(2), of "tag_as_fn T"] T by (simp add: untagged_def)
      then have "f = e" using untagged_inj[OF U e f(1)] by simp
      then show ?thesis using True Some ok nt encode_single_entry_ident[OF T]
        by (auto simp: remove_to_single_def moves_reference_def)
    qed
  next
    case False
    note r = retagged_single[OF U False, of e]
    let ?i = "ident T d {e}"
    have put: ?thesis if c: "remove_to_single T \<sigma> d ur fn ?i es = Some (?i, ur\<lparr>ur_sen_changes := AList.update ?i c (ur_sen_changes ur)\<rparr>)"
      "sen_change_ok T U \<sigma> d ?i c" "sc_delta c = ur_delta T ur ?i + 1" for c
      using put_sen_change[OF ok c(2) nfn] c(1,3) r by (simp add: moves_reference_def)
    show ?thesis
    proof (cases "map_of (ur_sen_changes ur) ?i")
      case (Some c)
      have "sen_change_ok T U \<sigma> d ?i (c\<lparr>sc_delta := sc_delta c + 1\<rparr>)"
        using requests_okD(1)[OF ok] Some by (auto simp: sen_changes_ok_def sen_change_ok_def)
      then show ?thesis using Some False nfn
        by (intro put) (auto simp: remove_to_single_def ur_delta_def)
    next
      case None
      show ?thesis
      proof (cases "find_sen \<sigma> d ?i")
        case (Some s)
        then have "sn_entry s = e"
          using sens_ok_repr(1)[OF U level_okD(5)[OF lvl] _ e] by (simp add: find_sen_def)
        then show ?thesis using Some None False nfn sen_change_ok_self[OF False e refl]
          by (intro put[of "\<lparr>sc_delta = 1, sc_entry = Some e\<rparr>"]) (simp_all add: remove_to_single_def ur_delta_def)
      next
        case none: None
        then show ?thesis using None False nfn sen_change_ok_self[OF False e refl] rest encode_single_entry_ident[OF T]
          by (intro put[of "\<lparr>sc_delta = 1, sc_entry = Some e\<rparr>"]) (simp_all add: remove_to_single_def ur_delta_def)
      qed
    qed
  qed
qed

lemma remove_from_node_spec:
  assumes below: "below_ok T U \<sigma> (Suc d)" and d: "1 \<le> d" and ok: "requests_ok T U \<sigma> d ur"
    and del: "del_ok U d E es" and pres: "present T \<sigma> d (ident T d E)"
    and es: "distinct es" "es \<noteq> []" "set es \<subseteq> E"
  shows "\<exists>ur'. remove_from_node T \<sigma> d ur (ident T d E) es dec = Some (ident T d (E - set es), ur') \<and>
    requests_ok T U \<sigma> d ur' \<and> moves_reference T d ur ur' (ident T d (E - set es)) (ident T d E) dec"
proof -
  have lvl: "level_ok T U \<sigma> d" using below_okD(1)[OF below, of d] d by simp
  note U = level_okD(1)[OF lvl] and T = level_okD(2)[OF lvl]
  let ?src = "ident T d E" and ?tgt = "ident T d (E - set es)"
  have ne: "E \<noteq> {}" using es(2,3) by (cases es) auto
  note E = del_okD(1)[OF del] and rest = del_okD(3)[OF del]
  have nz: "entries_nonzero es" using entries_nonzero_ok[OF U del_okD(2)[OF del] es(2)] .
  show ?thesis
  proof (cases "is_sen T ?src")
    case sen: True
    then obtain e where e: "E = {e}" using is_sen_ident[OF U E] by (metis card_1_singletonE)
    have "set es = {e}" using es(2,3) e by (cases es) auto
    then have es1: "es = [e]" using es(1) by (metis distinct_card card.empty card_insert_disjoint empty_iff finite.emptyI
        length_0_conv length_Suc_conv list.set_intros(1) singletonD)
    have nfn: "\<not> is_fn T ?src" using is_fn_not_sen[OF T] sen by blast
    show ?thesis
    proof (cases "in_place_node T d")
      case True
      then have "d = 1" "in_place_depth1 T" by (auto simp: in_place_node_def)
      then have "get_entry T ?src = Some e" using get_entry_ident[OF U] E e by simp
      then show ?thesis using nz sen es1 True ok e nfn
        by (auto simp: remove_from_node_def moves_reference_def tracked_def)
    next
      case False
      obtain s where s: "find_sen \<sigma> d ?src = Some s" using present_sen[OF pres sen False T] .
      then have se: "sn_entry s = e"
        using sens_ok_repr(1)[OF U level_okD(5)[OF lvl] _ E] e by (simp add: find_sen_def)
      let ?c = "\<lparr>sc_delta = ur_delta T ur ?src - of_bool dec, sc_entry = Some e\<rparr>"
      have "remove_from_node T \<sigma> d ur ?src es dec = Some (0, ur\<lparr>ur_sen_changes := AList.update ?src ?c (ur_sen_changes ur)\<rparr>)"
        using nz sen es1 False s se ur_delta_sen[OF nfn, of ur] by (simp add: remove_from_node_def al_modify_def)
      moreover have "sen_change_ok T U \<sigma> d ?src ?c"
        using sen_change_ok_self[OF False, of U e ?src] E e by simp
      note put_sen_change[OF ok this nfn]
      ultimately show ?thesis using es1 e by (auto simp: moves_reference_def)
    qed
  next
    case False
    then have fn: "is_fn T ?src" using not_fn_sen[OF T] ident_nonzero[OF U E] ne by blast
    obtain g where g: "find_fn \<sigma> d ?src = Some g" using present_fn[OF pres fn] .
    have "fn_repr T d E g" using fns_ok_repr(2)[OF U level_okD(4)[OF lvl] _ E] g by (simp add: find_fn_def)
    then have size: "fn_size d g = card E" using fn_size_repr[OF E] by blast
    have le: "card (set es) \<le> card E" using card_mono[OF entries_okD(1)[OF E] es(3)] .
    have cardr: "card (E - set es) = card E - length es"
      using card_Diff_subset[OF _ es(3)] es(1) by (simp add: distinct_card)
    have tsize: "(fn_size d g + 2 ^ 64 - length es) mod 2 ^ 64 = card (E - set es)"
    proof -
      have "card E < 2 ^ 64" using entries_okD(5)[OF E] by (simp add: size_max_def)
      moreover have "fn_size d g + 2 ^ 64 - length es = (card E - length es) + 2 ^ 64"
        using le size es(1) by (simp add: distinct_card)
      ultimately show ?thesis using cardr by simp
    qed
    let ?ur1 = "if dec then apply_ref_count_delta T d ur ?src (- 1) else ur"
    have ok1: "requests_ok T U \<sigma> d ?ur1" using ok apply_delta_stored_fn[OF ok fn, of "- 1"] g by simp
    have d1: "ur_delta T ?ur1 i = ur_delta T ur i - of_bool (dec \<and> i = ?src)" for i
      using apply_delta_fn(2)[OF ok fn, of "- 1"] g by simp
    note comb = combine_diff[OF U E del_okD(2)[OF del] es]
    note unf = remove_from_node_def[of T \<sigma> d ur ?src es dec]
    consider "E - set es = {}" | e where "E - set es = {e}" | "2 \<le> card (E - set es)"
      using card_cases[OF entries_okD(1)[OF rest]] by blast
    then show ?thesis
    proof cases
      case 1
      have "untagged T (E - set es) = 0" using untagged_0_iff[OF U rest] 1 by blast
      then have "remove_from_node T \<sigma> d ur ?src es dec = Some (0, ?ur1)"
        unfolding unf comb using nz False by (simp add: Let_def)
      moreover have "?tgt = 0" unfolding 1 by simp
      ultimately show ?thesis using ok1 d1 by (auto simp: moves_reference_def)
    next
      case (2 e)
      have "untagged T (E - set es) \<noteq> 0" using untagged_0_iff[OF U rest] 2 by simp
      then have "remove_from_node T \<sigma> d ur ?src es dec
          = remove_to_single T \<sigma> d ?ur1 g (retag_as_sen T (untagged T {e})) es"
        unfolding unf comb using nz False g tsize 2 by (simp add: Let_def)
      moreover obtain ur' where "remove_to_single T \<sigma> d ?ur1 g (retag_as_sen T (untagged T {e})) es = Some (ident T d {e}, ur')"
        "requests_ok T U \<sigma> d ur'" "moves_reference T d ?ur1 ur' (ident T d {e}) 0 False"
        using remove_to_single_spec[OF below d ok1 E g es(1,3) 2 rest[unfolded 2]] by blast
      ultimately show ?thesis using 2 d1 by (auto simp: moves_reference_def)
    next
      case 3
      have fnt: "is_fn T ?tgt" using is_fn_ident[OF U rest] 3 by simp
      have big: "ident T d (E - set es) = untagged T (E - set es)" using ident_big[OF entries_okD(1)[OF rest] 3] .
      have "untagged T (E - set es) \<noteq> 0" using untagged_0_iff[OF U rest] 3 by (metis card.empty not_numeral_le_zero)
      let ?ur2 = "apply_ref_count_delta T d ?ur1 ?tgt 1"
      let ?ur3 = "?ur2\<lparr>ur_fn_move_candidates := List.insert ?tgt (ur_fn_move_candidates ?ur2)\<rparr>"
      let ?data = "\<lparr>fd_entries = es, fd_mode = ERASE\<rparr>"
      have "remove_from_node T \<sigma> d ur ?src es dec = Some (?tgt, add_fn_update ?src ?tgt ?data ?ur3)"
        unfolding unf comb using nz False g tsize 3 \<open>untagged T (E - set es) \<noteq> 0\<close> big by (simp add: Let_def)
      moreover have ok3: "requests_ok_upto T U \<sigma> d {?tgt} ?ur3"
        using apply_delta_fn(1)[OF ok1 fnt, of 1] by simp
      have "fn_update_ok T U \<sigma> d ?src ?tgt ?data"
        unfolding fn_update_ok_def using g es E rest del_okD(2)[OF del] 3 by (intro exI[of _ E]) (simp add: update_entries_def)
      then have "requests_ok T U \<sigma> d (add_fn_update ?src ?tgt ?data ?ur3)"
        using requests_ok_update[OF ok3] by simp
      moreover have "moves_reference T d ur (add_fn_update ?src ?tgt ?data ?ur3) ?tgt ?src dec"
        unfolding moves_reference_def ur_delta_frame using d1 apply_delta_fn(2)[OF ok1 fnt, of 1] by simp
      ultimately show ?thesis by blast
    qed
  qed
qed

end
