(* ===== verification/Update_Plan.thy ===== *)
theory Update_Plan
  imports Request_Contracts
begin

text \<open>
  Planning the changes of one level (internal/raw/node_context/update_details/UpdatePlan.hpp): which
  full nodes are created from scratch, which from a copy of a stored node, which by reusing a
  node that loses its last reference, which are deleted, and the changes of reference counts that
  are left. \<open>plan_ok\<close> states the plan's promises; \<open>make_plan_spec\<close> shows that a plan exists for
  every well-formed collection of requests and keeps them.
\<close>

subsection \<open>Plans\<close>

record 'v fn_creation =
  fc_entries :: "'v entry list"
  fc_id :: node_id

record 'v fn_entries_update =
  eu_source :: node_id
  eu_target :: node_id
  eu_entries :: "'v entry list"
  eu_mode :: entries_update_mode

record 'v update_plan =
  up_fn_create :: "'v fn_creation list"
  up_fn_update_copy :: "'v fn_entries_update list"
  up_fn_update_move :: "'v fn_entries_update list"
  up_fn_delete :: "node_id list"
  up_fn_deltas :: "(node_id \<times> int) list"
  up_sen_changes :: "(node_id \<times> 'v sen_change) list"

text \<open>The deletion candidates: those whose count reaches zero are deleted, and settled deltas are
  dropped.\<close>

fun plan_deletions ::
  "'v node_storage \<Rightarrow> nat \<Rightarrow> node_id list \<Rightarrow> node_id list \<Rightarrow> (node_id \<times> int) list
     \<Rightarrow> (node_id list \<times> (node_id \<times> int) list) option" where
  "plan_deletions \<sigma> depth [] dels deltas = Some (dels, deltas)"
| "plan_deletions \<sigma> depth (source_fn # cands) dels deltas =
     (case find_fn \<sigma> depth source_fn of
        None \<Rightarrow> None
      | Some fn \<Rightarrow>
          (case map_of deltas source_fn of
             None \<Rightarrow> plan_deletions \<sigma> depth cands dels deltas
           | Some n \<Rightarrow>
               if fn_ref fn + n < 0 then None
               else if n = 0 then plan_deletions \<sigma> depth cands dels (AList.delete source_fn deltas)
               else if fn_ref fn + n = 0 then
                 plan_deletions \<sigma> depth cands (List.insert source_fn dels) (AList.delete source_fn deltas)
               else plan_deletions \<sigma> depth cands dels deltas))"

text \<open>The updates of one source: a target that is still to be created becomes a move of the source,
  if the source is being deleted and not yet moved, or a copy.\<close>

fun plan_targets ::
  "node_id \<Rightarrow> (node_id \<times> 'v fn_entries_data) list \<Rightarrow> bool \<Rightarrow> node_id list
     \<Rightarrow> node_id list \<Rightarrow> 'v fn_entries_update list \<Rightarrow> 'v fn_entries_update list
     \<Rightarrow> node_id list \<times> node_id list \<times> 'v fn_entries_update list \<times> 'v fn_entries_update list" where
  "plan_targets source_id [] move_one_source tbc dels copies moves = (tbc, dels, copies, moves)"
| "plan_targets source_id ((target_id, req) # targets) move_one_source tbc dels copies moves =
     (if target_id \<notin> set tbc then plan_targets source_id targets move_one_source tbc dels copies moves
      else
        let u = \<lparr>eu_source = source_id, eu_target = target_id, eu_entries = fd_entries req, eu_mode = fd_mode req\<rparr>;
            tbc' = remove1 target_id tbc
        in if move_one_source then
             plan_targets source_id targets False tbc' (remove1 source_id dels) copies (moves @ [u])
           else plan_targets source_id targets move_one_source tbc' dels (copies @ [u]) moves)"

fun plan_updates ::
  "(node_id \<times> (node_id \<times> 'v fn_entries_data) list) list \<Rightarrow> node_id list
     \<Rightarrow> node_id list \<Rightarrow> 'v fn_entries_update list \<Rightarrow> 'v fn_entries_update list
     \<Rightarrow> node_id list \<times> node_id list \<times> 'v fn_entries_update list \<times> 'v fn_entries_update list" where
  "plan_updates [] tbc dels copies moves = (tbc, dels, copies, moves)"
| "plan_updates ((source_id, targets) # updates) tbc dels copies moves =
     (let (tbc', dels', copies', moves') =
        plan_targets source_id targets (source_id \<in> set dels) tbc dels copies moves
      in plan_updates updates tbc' dels' copies' moves')"

fun plan_creations :: "(node_id \<times> 'v entry list) list \<Rightarrow> node_id list \<Rightarrow> 'v fn_creation list option" where
  "plan_creations creations [] = Some []"
| "plan_creations creations (i # tbc) =
     (case map_of creations i of
        None \<Rightarrow> None
      | Some entries \<Rightarrow> map_option ((#) \<lparr>fc_entries = entries, fc_id = i\<rparr>) (plan_creations creations tbc))"

definition make_plan :: "'v htt \<Rightarrow> 'v node_storage \<Rightarrow> nat \<Rightarrow> 'v update_requests \<Rightarrow> 'v update_plan option" where
  "make_plan T \<sigma> depth ur = do {
     let to_be_created = filter (\<lambda>i. find_fn \<sigma> depth i = None) (ur_fn_new ur);
     (dels, deltas) \<leftarrow> plan_deletions \<sigma> depth (ur_fn_deletion_candidates ur) [] (ur_fn_deltas ur);
     let (tbc, dels', copies, moves) = plan_updates (ur_fn_updates ur) to_be_created dels [] [];
     creations \<leftarrow> plan_creations (ur_fn_creations ur) tbc;
     Some \<lparr>up_fn_create = creations, up_fn_update_copy = copies, up_fn_update_move = moves,
           up_fn_delete = dels', up_fn_deltas = deltas,
           up_sen_changes = (if in_place_node T depth then []
                             else filter (\<lambda>(i, c). sc_delta c \<noteq> 0) (ur_sen_changes ur))\<rparr>
   }"

subsection \<open>What a plan promises\<close>

definition plan_targets_of :: "'v update_plan \<Rightarrow> node_id list" where
  "plan_targets_of p = map fc_id (up_fn_create p) @ map eu_target (up_fn_update_copy p) @ map eu_target (up_fn_update_move p)"

definition dying :: "'v htt \<Rightarrow> 'v node_storage \<Rightarrow> nat \<Rightarrow> 'v update_requests \<Rightarrow> node_id set" where
  "dying T \<sigma> d ur = {i \<in> set (ur_fn_deletion_candidates ur). ref_of T \<sigma> d i + ur_delta T ur i = 0}"

definition planned_update_ok ::
  "'v::zero_neq_one htt \<Rightarrow> 'v entry set set \<Rightarrow> 'v node_storage \<Rightarrow> nat \<Rightarrow> 'v fn_entries_update \<Rightarrow> bool" where
  "planned_update_ok T U \<sigma> d u \<longleftrightarrow>
     fn_update_ok T U \<sigma> d (eu_source u) (eu_target u) \<lparr>fd_entries = eu_entries u, fd_mode = eu_mode u\<rparr>"

definition plan_ok ::
  "'v::zero_neq_one htt \<Rightarrow> 'v entry set set \<Rightarrow> 'v node_storage \<Rightarrow> nat \<Rightarrow> 'v update_requests \<Rightarrow> 'v update_plan \<Rightarrow> bool" where
  "plan_ok T U \<sigma> d ur p \<longleftrightarrow>
     distinct (plan_targets_of p) \<and>
     set (plan_targets_of p) = {i \<in> set (ur_fn_new ur). find_fn \<sigma> d i = None} \<and>
     (\<forall>c \<in> set (up_fn_create p). creation_ok T U d (fc_id c) (fc_entries c)) \<and>
     (\<forall>u \<in> set (up_fn_update_copy p) \<union> set (up_fn_update_move p). planned_update_ok T U \<sigma> d u) \<and>
     distinct (map eu_source (up_fn_update_move p)) \<and>
     distinct (up_fn_delete p) \<and>
     set (map eu_source (up_fn_update_move p)) \<inter> set (up_fn_delete p) = {} \<and>
     set (map eu_source (up_fn_update_move p)) \<union> set (up_fn_delete p) = dying T \<sigma> d ur \<and>
     al_ok (up_fn_deltas p) \<and>
     (\<forall>i. map_of (up_fn_deltas p) i =
        (if i \<in> set (ur_fn_deletion_candidates ur) \<and> (ur_delta T ur i = 0 \<or> i \<in> dying T \<sigma> d ur) then None
         else map_of (ur_fn_deltas ur) i)) \<and>
     up_sen_changes p = filter (\<lambda>(i, c). sc_delta c \<noteq> 0) (ur_sen_changes ur)"

subsection \<open>The phases of planning\<close>

lemma plan_deletions_spec:
  assumes "distinct cands" "al_ok deltas" "distinct dels" "set dels \<inter> set cands = {}"
    and "\<And>i. i \<in> set cands \<Longrightarrow> \<exists>fn n. find_fn \<sigma> d i = Some fn \<and> 0 < fn_ref fn \<and> map_of deltas i = Some n \<and> 0 \<le> fn_ref fn + n"
  defines "zero i n \<equiv> (\<exists>fn. find_fn \<sigma> d i = Some fn \<and> fn_ref fn + n = 0)"
  shows "\<exists>dels' deltas'. plan_deletions \<sigma> d cands dels deltas = Some (dels', deltas') \<and>
    distinct dels' \<and> al_ok deltas' \<and>
    set dels' = set dels \<union> {i \<in> set cands. \<exists>n. map_of deltas i = Some n \<and> zero i n} \<and>
    (\<forall>i. map_of deltas' i = (if i \<in> set cands \<and> (\<exists>n. map_of deltas i = Some n \<and> (n = 0 \<or> zero i n)) then None
       else map_of deltas i))"
  using assms(1-5)
proof (induction cands arbitrary: dels deltas)
  case Nil
  then show ?case by simp
next
  case (Cons c cands)
  obtain fn n where c: "find_fn \<sigma> d c = Some fn" "0 < fn_ref fn" "map_of deltas c = Some n" "0 \<le> fn_ref fn + n"
    using Cons.prems(5)[of c] by auto
  have zc: "zero c n \<longleftrightarrow> fn_ref fn + n = 0" using c by (simp add: zero_def)
  define drop where "drop = (n = 0 \<or> fn_ref fn + n = 0)"
  define dels1 where "dels1 = (if n \<noteq> 0 \<and> fn_ref fn + n = 0 then List.insert c dels else dels)"
  define deltas1 where "deltas1 = (if drop then AList.delete c deltas else deltas)"
  have step: "plan_deletions \<sigma> d (c # cands) dels deltas = plan_deletions \<sigma> d cands dels1 deltas1"
    using c by (auto simp: dels1_def deltas1_def drop_def)
  have other: "map_of deltas1 i = map_of deltas i" if "i \<noteq> c" for i
    using that by (simp add: deltas1_def al_simps)
  have "\<exists>dels' deltas'. plan_deletions \<sigma> d cands dels1 deltas1 = Some (dels', deltas') \<and>
    distinct dels' \<and> al_ok deltas' \<and>
    set dels' = set dels1 \<union> {i \<in> set cands. \<exists>n. map_of deltas1 i = Some n \<and> zero i n} \<and>
    (\<forall>i. map_of deltas' i = (if i \<in> set cands \<and> (\<exists>n. map_of deltas1 i = Some n \<and> (n = 0 \<or> zero i n)) then None
       else map_of deltas1 i))"
  proof (rule Cons.IH)
    show "distinct cands" "al_ok deltas1" "distinct dels1" "set dels1 \<inter> set cands = {}"
      using Cons.prems(1-4) by (auto simp: deltas1_def dels1_def)
    show "\<exists>fn n. find_fn \<sigma> d i = Some fn \<and> 0 < fn_ref fn \<and> map_of deltas1 i = Some n \<and> 0 \<le> fn_ref fn + n"
      if "i \<in> set cands" for i
      using Cons.prems(5)[of i] Cons.prems(1) other[of i] that by fastforce
  qed
  then obtain dels' deltas' where r: "plan_deletions \<sigma> d cands dels1 deltas1 = Some (dels', deltas')"
    "distinct dels'" "al_ok deltas'"
    "set dels' = set dels1 \<union> {i \<in> set cands. \<exists>n. map_of deltas1 i = Some n \<and> zero i n}"
    "\<forall>i. map_of deltas' i = (if i \<in> set cands \<and> (\<exists>n. map_of deltas1 i = Some n \<and> (n = 0 \<or> zero i n)) then None
       else map_of deltas1 i)" by blast
  have notin: "c \<notin> set cands" using Cons.prems(1) by simp
  have nz: "n \<noteq> 0" if "fn_ref fn + n = 0" using that c(2) by simp
  have dels1: "set dels1 = set dels \<union> (if zero c n then {c} else {})"
    using zc nz by (auto simp: dels1_def)
  have "set dels' = set dels \<union> {i \<in> set (c # cands). \<exists>n. map_of deltas i = Some n \<and> zero i n}"
  proof -
    have "{i \<in> set cands. \<exists>n. map_of deltas1 i = Some n \<and> zero i n}
        = {i \<in> set cands. \<exists>n. map_of deltas i = Some n \<and> zero i n}"
      by (rule Collect_cong) (use notin other in metis)
    then show ?thesis unfolding r(4) dels1 using c(3) by auto
  qed
  moreover have "map_of deltas' i = (if i \<in> set (c # cands) \<and> (\<exists>n. map_of deltas i = Some n \<and> (n = 0 \<or> zero i n))
      then None else map_of deltas i)" for i
  proof (cases "i = c")
    case True
    then have "map_of deltas' c = map_of deltas1 c" using r(5) notin by simp
    also have "\<dots> = (if n = 0 \<or> zero c n then None else map_of deltas c)"
      using zc by (simp add: deltas1_def drop_def al_simps)
    finally show ?thesis using True c(3) by simp
  next
    case False
    then show ?thesis using r(5)[rule_format, of i] other[OF False] by auto
  qed
  ultimately show ?case using step r(1-3) by simp
qed

text \<open>The invariant of planning the updates: what is left to be created, what is planned, and the
  dying nodes, each still to be deleted or reused once.\<close>

definition planning ::
  "'v::zero_neq_one htt \<Rightarrow> 'v entry set set \<Rightarrow> 'v node_storage \<Rightarrow> nat \<Rightarrow> node_id set \<Rightarrow> node_id set
     \<Rightarrow> node_id list \<times> node_id list \<times> 'v fn_entries_update list \<times> 'v fn_entries_update list \<Rightarrow> bool" where
  "planning T U \<sigma> d N Z st \<longleftrightarrow> (case st of (tbc, dels, copies, moves) \<Rightarrow>
     distinct (tbc @ map eu_target copies @ map eu_target moves) \<and>
     set (tbc @ map eu_target copies @ map eu_target moves) = N \<and>
     (\<forall>u \<in> set copies \<union> set moves. planned_update_ok T U \<sigma> d u) \<and>
     distinct (map eu_source moves) \<and> distinct dels \<and>
     set (map eu_source moves) \<inter> set dels = {} \<and> set (map eu_source moves) \<union> set dels = Z)"

lemma planning_step:
  assumes pl: "planning T U \<sigma> d N Z (tbc, dels, copies, moves)" and tgt: "tgt \<in> set tbc"
    and upd: "fn_update_ok T U \<sigma> d src tgt data"
  defines "u \<equiv> \<lparr>eu_source = src, eu_target = tgt, eu_entries = fd_entries data, eu_mode = fd_mode data\<rparr>"
  shows "planning T U \<sigma> d N Z (remove1 tgt tbc, dels, copies @ [u], moves)"
    "src \<in> set dels \<Longrightarrow> planning T U \<sigma> d N Z (remove1 tgt tbc, remove1 src dels, copies, moves @ [u])"
proof -
  have uok: "planned_update_ok T U \<sigma> d u" using upd by (cases data) (simp add: planned_update_ok_def u_def)
  have d: "distinct tbc" "distinct dels" using pl by (auto simp: planning_def)
  note r = set_remove1_eq[OF d(1), of tgt] set_remove1_eq[OF d(2), of src] distinct_remove1[OF d(1)] distinct_remove1[OF d(2)]
  show "planning T U \<sigma> d N Z (remove1 tgt tbc, dels, copies @ [u], moves)"
    using pl tgt uok r by (auto simp: planning_def u_def)
  show "planning T U \<sigma> d N Z (remove1 tgt tbc, remove1 src dels, copies, moves @ [u])" if "src \<in> set dels"
    using pl tgt uok r that by (auto simp: planning_def u_def)
qed

lemma plan_targets_spec:
  assumes "planning T U \<sigma> d N Z (tbc, dels, copies, moves)" "m \<Longrightarrow> src \<in> set dels"
    and "\<And>tgt data. (tgt, data) \<in> set ts \<Longrightarrow> fn_update_ok T U \<sigma> d src tgt data"
  shows "planning T U \<sigma> d N Z (plan_targets src ts m tbc dels copies moves) \<and>
    set (fst (plan_targets src ts m tbc dels copies moves)) = set tbc - set (keys_of ts)"
  using assms
proof (induction src ts m tbc dels copies moves rule: plan_targets.induct)
  case (1 src m tbc dels copies moves)
  then show ?case by simp
next
  case (2 src tgt req ts m tbc dels copies moves)
  have later: "\<And>tgt data. (tgt, data) \<in> set ts \<Longrightarrow> fn_update_ok T U \<sigma> d src tgt data" using 2(6) by simp
  show ?case
  proof (cases "tgt \<in> set tbc")
    case False
    then show ?thesis using 2(1)[OF _ 2(4,5) later] by auto
  next
    case True
    have d: "distinct tbc" using 2(4) by (simp add: planning_def)
    have upd: "fn_update_ok T U \<sigma> d src tgt req" using 2(6) by simp
    note step = planning_step[OF 2(4) True upd]
    have r: "set (remove1 tgt tbc) - set (keys_of ts) = set tbc - set (keys_of ((tgt, req) # ts))"
      using set_remove1_eq[OF d, of tgt] by auto
    show ?thesis
    proof (cases m)
      case m: True
      have "planning T U \<sigma> d N Z (plan_targets src ts False (remove1 tgt tbc) (remove1 src dels) copies
          (moves @ [\<lparr>eu_source = src, eu_target = tgt, eu_entries = fd_entries req, eu_mode = fd_mode req\<rparr>])) \<and>
        set (fst (plan_targets src ts False (remove1 tgt tbc) (remove1 src dels) copies
          (moves @ [\<lparr>eu_source = src, eu_target = tgt, eu_entries = fd_entries req, eu_mode = fd_mode req\<rparr>])))
          = set (remove1 tgt tbc) - set (keys_of ts)"
        using 2(2)[OF _ refl refl m step(2) _ later] True 2(5) m by simp
      then show ?thesis unfolding r using True m by (simp add: Let_def)
    next
      case m: False
      have "planning T U \<sigma> d N Z (plan_targets src ts m (remove1 tgt tbc) dels
          (copies @ [\<lparr>eu_source = src, eu_target = tgt, eu_entries = fd_entries req, eu_mode = fd_mode req\<rparr>]) moves) \<and>
        set (fst (plan_targets src ts m (remove1 tgt tbc) dels
          (copies @ [\<lparr>eu_source = src, eu_target = tgt, eu_entries = fd_entries req, eu_mode = fd_mode req\<rparr>]) moves))
          = set (remove1 tgt tbc) - set (keys_of ts)"
        using 2(3)[OF _ refl refl m step(1) _ later] True 2(5) m by simp
      then show ?thesis unfolding r using True m by (simp add: Let_def)
    qed
  qed
qed

lemma plan_updates_spec:
  assumes "planning T U \<sigma> d N Z (tbc, dels, copies, moves)"
    and "\<And>src ts tgt data. (src, ts) \<in> set upds \<Longrightarrow> (tgt, data) \<in> set ts \<Longrightarrow> fn_update_ok T U \<sigma> d src tgt data"
  shows "planning T U \<sigma> d N Z (plan_updates upds tbc dels copies moves) \<and>
    set (fst (plan_updates upds tbc dels copies moves)) = set tbc - (\<Union>(src, ts) \<in> set upds. set (keys_of ts))"
  using assms
proof (induction upds arbitrary: tbc dels copies moves)
  case Nil
  then show ?case by simp
next
  case (Cons x upds)
  obtain src ts where x: "x = (src, ts)" by (cases x)
  obtain tbc' dels' copies' moves' where st: "plan_targets src ts (src \<in> set dels) tbc dels copies moves = (tbc', dels', copies', moves')"
    by (metis prod_cases4)
  have "planning T U \<sigma> d N Z (tbc', dels', copies', moves')" "set tbc' = set tbc - set (keys_of ts)"
    using plan_targets_spec[OF Cons.prems(1), of "src \<in> set dels" src ts] Cons.prems(2)[of src ts] x st by auto
  moreover have "\<And>src ts tgt data. (src, ts) \<in> set upds \<Longrightarrow> (tgt, data) \<in> set ts \<Longrightarrow> fn_update_ok T U \<sigma> d src tgt data"
    using Cons.prems(2) by (meson list.set_intros(2))
  ultimately have "planning T U \<sigma> d N Z (plan_updates upds tbc' dels' copies' moves') \<and>
    set (fst (plan_updates upds tbc' dels' copies' moves'))
      = set tbc - set (keys_of ts) - (\<Union>(src, ts) \<in> set upds. set (keys_of ts))"
    using Cons.IH[of tbc' dels' copies' moves'] by metis
  moreover have "plan_updates (x # upds) tbc dels copies moves = plan_updates upds tbc' dels' copies' moves'"
    using x st by simp
  moreover have "set tbc - set (keys_of ts) - (\<Union>(src, ts) \<in> set upds. set (keys_of ts))
      = set tbc - (\<Union>(src, ts) \<in> set (x # upds). set (keys_of ts))"
    unfolding x by auto
  ultimately show ?case by metis
qed

lemma plan_creations_spec:
  assumes "\<And>i. i \<in> set tbc \<Longrightarrow> \<exists>es. map_of creations i = Some es \<and> creation_ok T U d i es"
  shows "\<exists>cs. plan_creations creations tbc = Some cs \<and> map fc_id cs = tbc \<and>
    (\<forall>c \<in> set cs. creation_ok T U d (fc_id c) (fc_entries c))"
  using assms
proof (induction tbc)
  case (Cons i tbc)
  then obtain es where "map_of creations i = Some es" "creation_ok T U d i es" by auto
  moreover obtain cs where "plan_creations creations tbc = Some cs" "map fc_id cs = tbc"
    "\<forall>c \<in> set cs. creation_ok T U d (fc_id c) (fc_entries c)" using Cons by auto
  ultimately show ?case by auto
qed simp

lemma requests_ok_dying:
  assumes lvl: "level_ok T U \<sigma> d" and ok: "requests_ok T U \<sigma> d ur" and c: "i \<in> set (ur_fn_deletion_candidates ur)"
  shows "\<exists>fn n. find_fn \<sigma> d i = Some fn \<and> 0 < fn_ref fn \<and> map_of (ur_fn_deltas ur) i = Some n \<and>
    ur_delta T ur i = n \<and> ref_of T \<sigma> d i = fn_ref fn"
proof -
  obtain fn n where f: "find_fn \<sigma> d i = Some fn" "map_of (ur_fn_deltas ur) i = Some n"
    using requests_okD(5)[OF ok] c unfolding deltas_ok_def by blast
  have "is_fn T i" using fns_ok_is_fn[OF level_okD(1)[OF lvl] level_okD(4)[OF lvl]] f(1) by (simp add: find_fn_def)
  moreover have "0 < fn_ref fn" using fns_okD(2)[OF level_okD(4)[OF lvl]] f(1) by (auto simp: find_fn_def)
  ultimately show ?thesis using f by (simp add: ur_delta_def ref_of_def)
qed

lemma make_plan_spec:
  assumes lvl: "level_ok T U \<sigma> d" and ok: "requests_ok T U \<sigma> d ur"
    and nn: "\<And>i. is_fn T i \<Longrightarrow> 0 \<le> ref_of T \<sigma> d i + ur_delta T ur i"
  shows "\<exists>p. make_plan T \<sigma> d ur = Some p \<and> plan_ok T U \<sigma> d ur p"
proof -
  let ?N = "filter (\<lambda>i. find_fn \<sigma> d i = None) (ur_fn_new ur)" and ?Z = "dying T \<sigma> d ur"
  let ?C = "ur_fn_deletion_candidates ur"
  note dok = requests_okD(5)[OF ok] and uok = requests_okD(4)[OF ok]
  note cand = requests_ok_dying[OF lvl ok]
  have fnc: "is_fn T i" if "i \<in> set ?C" for i
    using cand[OF that] fns_ok_is_fn[OF level_okD(1)[OF lvl] level_okD(4)[OF lvl]] by (auto simp: find_fn_def)
  have d: "distinct ?C" "al_ok (ur_fn_deltas ur)" "distinct (ur_fn_new ur)" using dok by (simp_all add: deltas_ok_def)
  obtain dels deltas where del: "plan_deletions \<sigma> d ?C [] (ur_fn_deltas ur) = Some (dels, deltas)"
    "distinct dels" "al_ok deltas"
    "set dels = {i \<in> set ?C. \<exists>n. map_of (ur_fn_deltas ur) i = Some n \<and> (\<exists>fn. find_fn \<sigma> d i = Some fn \<and> fn_ref fn + n = 0)}"
    "\<forall>i. map_of deltas i = (if i \<in> set ?C \<and> (\<exists>n. map_of (ur_fn_deltas ur) i = Some n \<and>
        (n = 0 \<or> (\<exists>fn. find_fn \<sigma> d i = Some fn \<and> fn_ref fn + n = 0))) then None else map_of (ur_fn_deltas ur) i)"
    using plan_deletions_spec[OF d(1,2), of "[]" \<sigma> d] cand nn fnc by fastforce
  have zero: "(\<exists>n. map_of (ur_fn_deltas ur) i = Some n \<and> (\<exists>fn. find_fn \<sigma> d i = Some fn \<and> fn_ref fn + n = 0))
      \<longleftrightarrow> i \<in> ?Z" if "i \<in> set ?C" for i
    using cand[OF that] that by (auto simp: dying_def)
  have zero': "(\<exists>n. map_of (ur_fn_deltas ur) i = Some n \<and> (n = 0 \<or> (\<exists>fn. find_fn \<sigma> d i = Some fn \<and> fn_ref fn + n = 0)))
      \<longleftrightarrow> ur_delta T ur i = 0 \<or> i \<in> ?Z" if "i \<in> set ?C" for i
    using cand[OF that] that by (auto simp: dying_def)
  have delsZ: "set dels = ?Z" using del(4) zero by (auto simp: dying_def)
  have deltas: "map_of deltas i = (if i \<in> set ?C \<and> (ur_delta T ur i = 0 \<or> i \<in> ?Z) then None else map_of (ur_fn_deltas ur) i)" for i
    using del(5) zero'[of i] by (cases "i \<in> set ?C") auto
  have upd: "fn_update_ok T U \<sigma> d src tgt data" if "(src, ts) \<in> set (ur_fn_updates ur)" "(tgt, data) \<in> set ts" for src ts tgt data
    using uok that unfolding fn_updates_ok_def by (metis al_mem_iff)
  have pl0: "planning T U \<sigma> d (set ?N) ?Z (?N, dels, [], [])"
    using d del(2) delsZ by (simp add: planning_def)
  obtain tbc dels' copies moves where st: "plan_updates (ur_fn_updates ur) ?N dels [] [] = (tbc, dels', copies, moves)"
    by (metis prod_cases4)
  have pl: "planning T U \<sigma> d (set ?N) ?Z (tbc, dels', copies, moves)"
    and tbc: "set tbc = set ?N - (\<Union>(src, ts) \<in> set (ur_fn_updates ur). set (keys_of ts))"
    using plan_updates_spec[OF pl0, of "ur_fn_updates ur"] upd st by (auto simp: split_def)
  have "\<exists>es. map_of (ur_fn_creations ur) i = Some es \<and> creation_ok T U d i es" if "i \<in> set tbc" for i
  proof -
    have "has_recipe ur i" using requests_okD(6)[OF ok] that tbc by auto
    moreover have False if "map_of (ur_fn_updates ur) src = Some ts" "map_of ts i \<noteq> None" for src ts
      using that \<open>i \<in> set tbc\<close> tbc map_of_SomeD[OF that(1)] by (auto simp: al_find_None_iff)
    ultimately show ?thesis using requests_okD(3)[OF ok] unfolding has_recipe_def creations_ok_def by blast
  qed
  then obtain cs where cs: "plan_creations (ur_fn_creations ur) tbc = Some cs" "map fc_id cs = tbc"
    "\<forall>c \<in> set cs. creation_ok T U d (fc_id c) (fc_entries c)"
    using plan_creations_spec by blast
  let ?p = "\<lparr>up_fn_create = cs, up_fn_update_copy = copies, up_fn_update_move = moves,
           up_fn_delete = dels', up_fn_deltas = deltas,
           up_sen_changes = (if in_place_node T d then [] else filter (\<lambda>(i, c). sc_delta c \<noteq> 0) (ur_sen_changes ur))\<rparr>"
  have "make_plan T \<sigma> d ur = Some ?p" using del(1) st cs(1) by (simp add: make_plan_def Let_def)
  moreover have "up_sen_changes ?p = filter (\<lambda>(i, c). sc_delta c \<noteq> 0) (ur_sen_changes ur)"
  proof (cases "in_place_node T d")
    case True
    then have none: "map_of (ur_sen_changes ur) i = None" for i
      using requests_okD(1)[OF ok] unfolding sen_changes_ok_def sen_change_ok_def by (metis not_Some_eq)
    have "ur_sen_changes ur = []" by (rule al_find_all_None) (rule none)
    then show ?thesis by simp
  qed simp
  then have "plan_ok T U \<sigma> d ur ?p"
    using pl cs(2,3) del(3) deltas unfolding plan_ok_def plan_targets_of_def planning_def
    by (auto simp: conj_assoc)
  ultimately show ?thesis by blast
qed

end
