(* ===== verification/Apply_Update.thy ===== *)
theory Apply_Update
  imports Update_Plan
begin

text \<open>
  Executing a plan and recursing to the level below
  (internal/raw/node_context/update_details/ApplyUpdate.hpp). Nodes are created, copied, reused and
  deleted; every change of an edge is turned into a request for the level below, which is executed
  next. The program's object is the state \<open>apply_state\<close>: the storage, the requests for the children
  and the full nodes whose reference count is already final. \<open>None\<close> is a failed assertion, a
  failed \<open>at\<close> or a null pointer.
\<close>

datatype node_origin = Copied | Moved | JustCreated

record 'v apply_state =
  as_storage :: "'v node_storage"
  as_child :: "'v update_requests"
  as_done :: "node_id list"

subsection \<open>Inserting entries into a full node\<close>

text \<open>A copied node shares its unchanged children.\<close>

fun copied_children ::
  "'v htt \<Rightarrow> nat \<Rightarrow> (key_part \<times> 'v entry list) list \<Rightarrow> (key_part \<times> node_id) list \<Rightarrow> 'v update_requests \<Rightarrow> 'v update_requests" where
  "copied_children T child_depth newly [] ur = ur"
| "copied_children T child_depth newly ((kp, child) # edges) ur =
     (if map_of newly kp \<noteq> None then copied_children T child_depth newly edges ur
      else if in_place_node T child_depth \<and> is_sen T child then copied_children T child_depth newly edges ur
      else copied_children T child_depth newly edges (apply_ref_count_delta T child_depth ur child 1))"

definition insert_child_group ::
  "'v::zero_neq_one htt \<Rightarrow> 'v node_storage \<Rightarrow> nat \<Rightarrow> node_origin \<Rightarrow> (key_part \<times> node_id) list \<times> 'v update_requests
     \<Rightarrow> key_part \<times> 'v entry list \<Rightarrow> ((key_part \<times> node_id) list \<times> 'v update_requests) option" where
  "insert_child_group T \<sigma> child_depth origin st grp =
     (case st of (edges, ur) \<Rightarrow> case grp of (kp, entries) \<Rightarrow> do {
        check (entries \<noteq> []);
        case (if origin \<noteq> JustCreated then map_of edges kp else None) of
          Some child \<Rightarrow> do {
            (child', ur') \<leftarrow> insert_into_node T \<sigma> child_depth ur child entries (origin = Moved);
            Some (AList.update kp child' edges, ur')
          }
        | None \<Rightarrow>
            if in_place_node T child_depth \<and> length entries = 1 then
              Some (AList.update kp (encode_single_entry T child_depth (entries ! 0)) edges, ur)
            else do {
              (child', ur') \<leftarrow> add_node T child_depth ur entries 1;
              Some (AList.update kp child' edges, ur')
            }
      })"

definition insert_at_pos ::
  "'v::zero_neq_one htt \<Rightarrow> 'v node_storage \<Rightarrow> nat \<Rightarrow> node_origin \<Rightarrow> 'v entry list
     \<Rightarrow> 'v full_node \<times> 'v update_requests \<Rightarrow> nat \<Rightarrow> ('v full_node \<times> 'v update_requests) option" where
  "insert_at_pos T \<sigma> child_depth origin entries st pos =
     (case st of (fn, ur) \<Rightarrow>
        let newly = entry_subset_for_pos entries pos; edges = fn_edges fn ! pos;
            ur1 = (if origin = Copied then copied_children T child_depth newly edges ur else ur)
        in do {
          (edges', ur') \<leftarrow> foldM (insert_child_group T \<sigma> child_depth origin) newly (edges, ur1);
          Some (fn\<lparr>fn_edges := (fn_edges fn)[pos := edges']\<rparr>, ur')
        })"

definition apply_fn_entry_insertion ::
  "'v::zero_neq_one htt \<Rightarrow> 'v node_storage \<Rightarrow> nat \<Rightarrow> node_origin \<Rightarrow> 'v entry list
     \<Rightarrow> 'v full_node \<Rightarrow> 'v update_requests \<Rightarrow> ('v full_node \<times> 'v update_requests) option" where
  "apply_fn_entry_insertion T \<sigma> depth origin entries fn ur =
     (if depth = 1 then Some (foldl (\<lambda>f e. fn1_insert_or_assign f (fst e ! 0) (snd e)) fn entries, ur)
      else foldM (insert_at_pos T \<sigma> (depth - 1) origin entries) [0..<depth]
             (fn\<lparr>fn_count := (fn_count fn + length entries) mod 2 ^ 64\<rparr>, ur))"

subsection \<open>Erasing entries from a full node\<close>

fun erase_copied ::
  "'v::zero_neq_one htt \<Rightarrow> 'v node_storage \<Rightarrow> nat \<Rightarrow> (key_part \<times> 'v entry list) list
     \<Rightarrow> (key_part \<times> node_id) list \<Rightarrow> 'v update_requests \<Rightarrow> ((key_part \<times> node_id) list \<times> 'v update_requests) option" where
  "erase_copied T \<sigma> child_depth changes [] ur = Some ([], ur)"
| "erase_copied T \<sigma> child_depth changes ((kp, child) # edges) ur =
     (case map_of changes kp of
        Some entries \<Rightarrow> do {
          (child', ur1) \<leftarrow> remove_from_node T \<sigma> child_depth ur child entries False;
          (edges', ur2) \<leftarrow> erase_copied T \<sigma> child_depth changes edges ur1;
          Some (if id_empty T child' then edges' else (kp, child') # edges', ur2)
        }
      | None \<Rightarrow> do {
          (edges', ur2) \<leftarrow> erase_copied T \<sigma> child_depth changes edges (apply_ref_count_delta T child_depth ur child 1);
          Some ((kp, child) # edges', ur2)
        })"

definition erase_moved_group ::
  "'v::zero_neq_one htt \<Rightarrow> 'v node_storage \<Rightarrow> nat \<Rightarrow> (key_part \<times> node_id) list \<times> 'v update_requests
     \<Rightarrow> key_part \<times> 'v entry list \<Rightarrow> ((key_part \<times> node_id) list \<times> 'v update_requests) option" where
  "erase_moved_group T \<sigma> child_depth st grp =
     (case st of (edges, ur) \<Rightarrow> case grp of (kp, entries) \<Rightarrow> do {
        child \<leftarrow> map_of edges kp;
        (child', ur') \<leftarrow> remove_from_node T \<sigma> child_depth ur child entries True;
        Some (if id_empty T child' then AList.delete kp edges else AList.update kp child' edges, ur')
      })"

definition erase_at_pos ::
  "'v::zero_neq_one htt \<Rightarrow> 'v node_storage \<Rightarrow> nat \<Rightarrow> node_origin \<Rightarrow> 'v entry list
     \<Rightarrow> 'v full_node \<times> 'v update_requests \<Rightarrow> nat \<Rightarrow> ('v full_node \<times> 'v update_requests) option" where
  "erase_at_pos T \<sigma> child_depth origin entries st pos =
     (case st of (fn, ur) \<Rightarrow>
        let changes = entry_subset_for_pos entries pos; edges = fn_edges fn ! pos in do {
          (edges', ur') \<leftarrow> (if origin = Copied then erase_copied T \<sigma> child_depth changes edges ur
                           else foldM (erase_moved_group T \<sigma> child_depth) changes (edges, ur));
          Some (fn\<lparr>fn_edges := (fn_edges fn)[pos := edges']\<rparr>, ur')
        })"

definition apply_fn_entry_erasure ::
  "'v::zero_neq_one htt \<Rightarrow> 'v node_storage \<Rightarrow> nat \<Rightarrow> node_origin \<Rightarrow> 'v entry list
     \<Rightarrow> 'v full_node \<Rightarrow> 'v update_requests \<Rightarrow> ('v full_node \<times> 'v update_requests) option" where
  "apply_fn_entry_erasure T \<sigma> depth origin entries fn ur =
     (if depth = 1 then do {
        check (length entries + 1 < fn_size depth fn);
        Some (foldl (\<lambda>f e. fn1_erase f (fst e ! 0)) fn entries, ur)
      } else
        let count = (fn_count fn + 2 ^ 64 - length entries) mod 2 ^ 64 in do {
          check (1 < count);
          foldM (erase_at_pos T \<sigma> (depth - 1) origin entries) [0..<depth] (fn\<lparr>fn_count := count\<rparr>, ur)
        })"

subsection \<open>The steps of a plan\<close>

definition create_fn ::
  "'v::zero_neq_one htt \<Rightarrow> nat \<Rightarrow> 'v update_plan \<Rightarrow> 'v apply_state \<Rightarrow> 'v fn_creation \<Rightarrow> 'v apply_state option" where
  "create_fn T depth p s c = do {
     let \<sigma> = as_storage s;
     check (find_fn \<sigma> depth (fc_id c) = None);
     n \<leftarrow> map_of (up_fn_deltas p) (fc_id c);
     check (0 < n);
     (fn, ur) \<leftarrow> apply_fn_entry_insertion T \<sigma> depth JustCreated (fc_entries c) (new_fn depth n) (as_child s);
     Some \<lparr>as_storage = put_fns depth (AList.update (fc_id c) fn (fns \<sigma> depth)) \<sigma>, as_child = ur,
           as_done = fc_id c # as_done s\<rparr>
   }"

definition apply_entries ::
  "'v::zero_neq_one htt \<Rightarrow> 'v node_storage \<Rightarrow> nat \<Rightarrow> node_origin \<Rightarrow> entries_update_mode \<Rightarrow> 'v entry list
     \<Rightarrow> 'v full_node \<Rightarrow> 'v update_requests \<Rightarrow> ('v full_node \<times> 'v update_requests) option" where
  "apply_entries T \<sigma> depth origin mode entries fn ur =
     (case mode of INSERT \<Rightarrow> apply_fn_entry_insertion T \<sigma> depth origin entries fn ur
      | ERASE \<Rightarrow> apply_fn_entry_erasure T \<sigma> depth origin entries fn ur)"

definition copy_update_fn_to_fn ::
  "'v::zero_neq_one htt \<Rightarrow> nat \<Rightarrow> 'v update_plan \<Rightarrow> 'v apply_state \<Rightarrow> 'v fn_entries_update \<Rightarrow> 'v apply_state option" where
  "copy_update_fn_to_fn T depth p s u = do {
     let \<sigma> = as_storage s;
     source \<leftarrow> find_fn \<sigma> depth (eu_source u);
     check (find_fn \<sigma> depth (eu_target u) = None);
     ref_count \<leftarrow> map_of (up_fn_deltas p) (eu_target u);
     (fn, ur) \<leftarrow> apply_entries T \<sigma> depth Copied (eu_mode u) (eu_entries u) source (as_child s);
     Some \<lparr>as_storage = put_fns depth (AList.update (eu_target u) (fn\<lparr>fn_ref := ref_count\<rparr>) (fns \<sigma> depth)) \<sigma>,
           as_child = ur, as_done = eu_target u # as_done s\<rparr>
   }"

definition move_update_fn_to_fn ::
  "'v::zero_neq_one htt \<Rightarrow> nat \<Rightarrow> 'v update_plan \<Rightarrow> 'v apply_state \<Rightarrow> 'v fn_entries_update \<Rightarrow> 'v apply_state option" where
  "move_update_fn_to_fn T depth p s u = do {
     let \<sigma> = as_storage s;
     source \<leftarrow> find_fn \<sigma> depth (eu_source u);
     check (find_fn \<sigma> depth (eu_target u) = None);
     ref_count \<leftarrow> map_of (up_fn_deltas p) (eu_target u);
     (fn, ur) \<leftarrow> apply_entries T \<sigma> depth Moved (eu_mode u) (eu_entries u) source (as_child s);
     Some \<lparr>as_storage = put_fns depth (AList.update (eu_target u) (fn\<lparr>fn_ref := ref_count\<rparr>)
             (AList.delete (eu_source u) (fns \<sigma> depth))) \<sigma>,
           as_child = ur, as_done = eu_target u # eu_source u # as_done s\<rparr>
   }"

fun release_children :: "'v htt \<Rightarrow> nat \<Rightarrow> (key_part \<times> node_id) list \<Rightarrow> 'v update_requests \<Rightarrow> 'v update_requests" where
  "release_children T child_depth [] ur = ur"
| "release_children T child_depth ((kp, child) # edges) ur =
     (if in_place_node T child_depth \<and> is_sen T child then release_children T child_depth edges ur
      else release_children T child_depth edges (apply_ref_count_delta T child_depth ur child (- 1)))"

definition delete_fn :: "'v htt \<Rightarrow> nat \<Rightarrow> 'v apply_state \<Rightarrow> node_id \<Rightarrow> 'v apply_state option" where
  "delete_fn T depth s i = do {
     let \<sigma> = as_storage s;
     fn \<leftarrow> find_fn \<sigma> depth i;
     Some (s\<lparr>as_storage := put_fns depth (AList.delete i (fns \<sigma> depth)) \<sigma>,
             as_child := (if 1 < depth
               then foldl (\<lambda>ur edges. release_children T (depth - 1) edges ur) (as_child s) (fn_edges fn)
               else as_child s)\<rparr>)
   }"

definition apply_fn_delta :: "nat \<Rightarrow> 'v apply_state \<Rightarrow> node_id \<times> int \<Rightarrow> 'v apply_state option" where
  "apply_fn_delta depth s idn =
     (case idn of (i, n) \<Rightarrow>
        if i \<in> set (as_done s) then Some s
        else do {
          let \<sigma> = as_storage s;
          fn \<leftarrow> find_fn \<sigma> depth i;
          check (0 < fn_ref fn + n);
          Some (s\<lparr>as_storage := put_fns depth (AList.update i (fn\<lparr>fn_ref := fn_ref fn + n\<rparr>) (fns \<sigma> depth)) \<sigma>,
                  as_done := i # as_done s\<rparr>)
        })"

definition apply_sen_update ::
  "'v::zero_neq_one htt \<Rightarrow> nat \<Rightarrow> 'v node_storage \<Rightarrow> node_id \<times> 'v sen_change \<Rightarrow> 'v node_storage option" where
  "apply_sen_update T depth \<sigma> idc =
     (case idc of (i, c) \<Rightarrow> do {
        check (case sc_entry c of None \<Rightarrow> True | Some e \<Rightarrow> encode_single_entry T depth e = i \<and> entry_nonzero e);
        if sc_delta c = 0 then Some \<sigma>
        else case find_sen \<sigma> depth i of
          Some s \<Rightarrow> do {
            check (0 \<le> sn_ref s + sc_delta c);
            Some (put_sens depth (if sn_ref s + sc_delta c = 0 then AList.delete i (sens \<sigma> depth)
              else AList.update i (s\<lparr>sn_ref := sn_ref s + sc_delta c\<rparr>) (sens \<sigma> depth)) \<sigma>)
          }
        | None \<Rightarrow> do {
            check (0 \<le> sc_delta c);
            e \<leftarrow> sc_entry c;
            Some (put_sens depth (AList.update i (new_sen e (sc_delta c)) (sens \<sigma> depth)) \<sigma>)
          }
      })"

subsection \<open>Executing the requests of a level and of all levels below\<close>

definition execute_fns ::
  "'v::zero_neq_one htt \<Rightarrow> nat \<Rightarrow> 'v update_plan \<Rightarrow> 'v node_storage \<Rightarrow> 'v apply_state option" where
  "execute_fns T depth p \<sigma> = do {
     s1 \<leftarrow> foldM (create_fn T depth p) (up_fn_create p)
            \<lparr>as_storage = \<sigma>, as_child = empty_requests, as_done = []\<rparr>;
     s2 \<leftarrow> foldM (copy_update_fn_to_fn T depth p) (up_fn_update_copy p) s1;
     s3 \<leftarrow> foldM (move_update_fn_to_fn T depth p) (up_fn_update_move p) s2;
     s4 \<leftarrow> foldM (delete_fn T depth) (up_fn_delete p) s3;
     foldM (apply_fn_delta depth) (up_fn_deltas p) s4
   }"

fun consume_and_execute ::
  "'v::zero_neq_one htt \<Rightarrow> nat \<Rightarrow> 'v node_storage \<Rightarrow> 'v update_requests \<Rightarrow> 'v node_storage option" where
  "consume_and_execute T 0 \<sigma> ur = None"
| "consume_and_execute T (Suc d) \<sigma> ur = do {
     p \<leftarrow> make_plan T \<sigma> (Suc d) ur;
     s \<leftarrow> execute_fns T (Suc d) p \<sigma>;
     \<sigma>' \<leftarrow> foldM (apply_sen_update T (Suc d)) (up_sen_changes p) (as_storage s);
     if d = 0 then Some \<sigma>' else consume_and_execute T d \<sigma>' (as_child s)
   }"

text \<open>\<open>apply_update\<close> for a node container, and its two instances.\<close>

definition apply_update ::
  "entries_update_mode \<Rightarrow> 'v::zero_neq_one htt \<Rightarrow> nat \<Rightarrow> 'v node_storage \<Rightarrow> node_container \<Rightarrow> 'v entry list
     \<Rightarrow> ('v node_storage \<times> node_container) option" where
  "apply_update mode T depth \<sigma> nodec entries =
     (if entries = [] then Some (\<sigma>, nodec)
      else do {
        (target_id, ur) \<leftarrow> (case mode of
            INSERT \<Rightarrow> if id_empty T (nc_id nodec) then add_node T depth empty_requests entries 1
              else insert_into_node T \<sigma> depth empty_requests (nc_id nodec) entries True
          | ERASE \<Rightarrow> remove_from_node T \<sigma> depth empty_requests (nc_id nodec) entries True);
        \<sigma>' \<leftarrow> consume_and_execute T depth \<sigma> ur;
        if id_empty T target_id then do {
          check (mode = ERASE);
          Some (\<sigma>', empty_container)
        } else if in_place_node T depth \<and> is_sen T target_id then
          Some (\<sigma>', \<lparr>nc_id = target_id, nc_ptr = False\<rparr>)
        else do {
          let nodec' = (if in_place_node T depth
            then \<lparr>nc_id = target_id, nc_ptr = (find_fn \<sigma>' depth target_id \<noteq> None)\<rparr>
            else lookup T \<sigma>' depth target_id);
          check (mode = INSERT \<longrightarrow> nc_ptr nodec');
          Some (\<sigma>', nodec')
        }
      })"

definition insert_entries_into_node ::
  "'v::zero_neq_one htt \<Rightarrow> nat \<Rightarrow> 'v node_storage \<Rightarrow> node_container \<Rightarrow> 'v entry list
     \<Rightarrow> ('v node_storage \<times> node_container) option" where
  "insert_entries_into_node = apply_update INSERT"

definition erase_entries_from_node ::
  "'v::zero_neq_one htt \<Rightarrow> nat \<Rightarrow> 'v node_storage \<Rightarrow> node_container \<Rightarrow> 'v entry list
     \<Rightarrow> ('v node_storage \<times> node_container) option" where
  "erase_entries_from_node = apply_update ERASE"

end
