(* ===== verification/Update_Steps.thy ===== *)
theory Update_Steps
  imports Apply_Update
begin

text \<open>
  The steps of a plan change one full node and collect the requests for its children. Shown here:
  the edges of the changed node lead to the identifiers of the entries it now represents, and the
  collected changes of reference counts are exactly the edges gained minus the edges given up.
\<close>

abbreviation edge_count_of :: "(key_part \<times> node_id) list \<Rightarrow> node_id \<Rightarrow> int" where
  "edge_count_of es i \<equiv> int (count_list (map snd es) i)"

subsection \<open>Counting edges\<close>

lemma sum_of_bool_card: "distinct xs \<Longrightarrow> (\<Sum>x\<leftarrow>xs. of_bool (P x)) = int (card {x \<in> set xs. P x})"
proof (induction xs)
  case (Cons x xs)
  have "{y \<in> set (x # xs). P y} = (if P x then insert x {y \<in> set xs. P y} else {y \<in> set xs. P y})" by auto
  then show ?case using Cons by simp
qed simp

lemma sum_al_swap:
  assumes a: "al_ok (a :: ('k \<times> 'a) list)" and b: "al_ok b"
  shows "(\<Sum>q\<leftarrow>a. of_bool (map_of b (fst q) \<noteq> None \<and> snd q = i)) = (\<Sum>q\<leftarrow>b. of_bool (map_of a (fst q) = Some i) :: int)"
proof -
  let ?K = "{k. map_of a k = Some i \<and> map_of b k \<noteq> None}"
  have da: "distinct a" "distinct b" using a b by (simp_all add: distinct_map)
  have h: "k \<in> fst ` {q \<in> set a. map_of b (fst q) \<noteq> None \<and> snd q = i} \<longleftrightarrow> (k, i) \<in> set a \<and> map_of b k \<noteq> None" for k
    by (cases "map_of b k = None") (auto simp: image_iff Bex_def)
  have "fst ` {q \<in> set a. map_of b (fst q) \<noteq> None \<and> snd q = i} = ?K"
    by (rule set_eqI) (simp only: h mem_Collect_eq al_mem_iff[OF a])
  moreover have "inj_on fst {q \<in> set a. map_of b (fst q) \<noteq> None \<and> snd q = i}"
    by (rule inj_on_subset[of fst "set a"]) (use a in \<open>auto simp: distinct_map\<close>)
  ultimately have ca: "card {q \<in> set a. map_of b (fst q) \<noteq> None \<and> snd q = i} = card ?K"
    using card_image[of fst "{q \<in> set a. map_of b (fst q) \<noteq> None \<and> snd q = i}"] by simp
  have h: "k \<in> fst ` {q \<in> set b. map_of a (fst q) = Some i} \<longleftrightarrow> map_of a k = Some i \<and> map_of b k \<noteq> None" for k
    unfolding al_find_None_iff by force
  have "fst ` {q \<in> set b. map_of a (fst q) = Some i} = ?K"
    by (rule set_eqI) (simp only: h mem_Collect_eq)
  moreover have "inj_on fst {q \<in> set b. map_of a (fst q) = Some i}"
    by (rule inj_on_subset[of fst "set b"]) (use b in \<open>auto simp: distinct_map\<close>)
  ultimately have cb: "card {q \<in> set b. map_of a (fst q) = Some i} = card ?K"
    using card_image[of fst "{q \<in> set b. map_of a (fst q) = Some i}"] by simp
  show ?thesis using ca cb sum_of_bool_card[OF da(1)] sum_of_bool_card[OF da(2)] by simp
qed

lemma edge_count_sum: "edge_count_of es i = (\<Sum>q\<leftarrow>es. of_bool (snd q = i))"
  by (induction es) auto

lemma edge_refs_sum: "edge_refs fn i = (\<Sum>es\<leftarrow>fn_edges fn. edge_count_of es i)"
  by (simp add: edge_refs_def)

lemma sum_list_update_int:
  fixes f :: "'a \<Rightarrow> int"
  shows "p < length xs \<Longrightarrow> (\<Sum>x\<leftarrow>xs[p := y]. f x) = (\<Sum>x\<leftarrow>xs. f x) + f y - f (xs ! p)"
  by (induction xs arbitrary: p) (auto split: nat.split)

subsection \<open>A loop over the positions of a node\<close>

lemma positions_loop:
  assumes ok: "requests_ok T U \<sigma> d ur" and len: "length es0 = Suc d" "fn_edges fn = es0"
    and step: "\<And>g ur p. p < Suc d \<Longrightarrow> requests_ok T U \<sigma> d ur \<Longrightarrow> length (fn_edges g) = Suc d \<Longrightarrow>
      fn_edges g ! p = es0 ! p \<Longrightarrow>
      \<exists>es' ur'. f (g, ur) p = Some (g\<lparr>fn_edges := (fn_edges g)[p := es']\<rparr>, ur') \<and> edges_repr T d p E' es' \<and>
        requests_ok T U \<sigma> d ur' \<and> (\<forall>i. tracked T d i \<longrightarrow>
          ur_delta T ur' i = ur_delta T ur i + edge_count_of es' i - of_bool m * edge_count_of (es0 ! p) i)"
  shows "\<exists>es' ur'. foldM f [0..<Suc d] (fn, ur) = Some (fn\<lparr>fn_edges := es'\<rparr>, ur') \<and> length es' = Suc d \<and>
    (\<forall>p < Suc d. edges_repr T d p E' (es' ! p)) \<and> requests_ok T U \<sigma> d ur' \<and> (\<forall>i. tracked T d i \<longrightarrow>
      ur_delta T ur' i = ur_delta T ur i + edge_refs (fn\<lparr>fn_edges := es'\<rparr>) i - of_bool m * edge_refs fn i)"
proof -
  define cnt where "cnt es ps i = (\<Sum>p\<leftarrow>ps. edge_count_of (es ! p) i)" for es ps i
  let ?P = "\<lambda>ps st. \<exists>es' ur'. st = (fn\<lparr>fn_edges := es'\<rparr>, ur') \<and> length es' = Suc d \<and>
    (\<forall>p < Suc d. if p \<in> set ps then edges_repr T d p E' (es' ! p) else es' ! p = es0 ! p) \<and>
    requests_ok T U \<sigma> d ur' \<and> (\<forall>i. tracked T d i \<longrightarrow>
      ur_delta T ur' i = ur_delta T ur i + cnt es' ps i - of_bool m * cnt es0 ps i)"
  have "\<exists>s'. foldM f [0..<Suc d] (fn, ur) = Some s' \<and> ?P [0..<Suc d] s'"
  proof (rule foldM_rule[of ?P])
    show "?P [] (fn, ur)" using ok len by (intro exI[of _ es0] exI[of _ ur]) (auto simp: cnt_def)
    fix ps p qs st
    assume pos: "[0..<Suc d] = ps @ p # qs" and "?P ps st"
    then obtain es' ur' where st: "st = (fn\<lparr>fn_edges := es'\<rparr>, ur')" "length es' = Suc d"
      "\<forall>p < Suc d. if p \<in> set ps then edges_repr T d p E' (es' ! p) else es' ! p = es0 ! p"
      "requests_ok T U \<sigma> d ur'" "\<forall>i. tracked T d i \<longrightarrow>
        ur_delta T ur' i = ur_delta T ur i + cnt es' ps i - of_bool m * cnt es0 ps i" by blast
    have "p \<in> set [0..<Suc d]" "distinct (ps @ p # qs)"
      using in_set_conv_decomp[of p "[0..<Suc d]"] distinct_upt[of 0 "Suc d"] pos by metis+
    then have p: "p < Suc d" "p \<notin> set ps" by auto
    obtain es1 ur1 where s1: "f st p = Some (fn\<lparr>fn_edges := es'[p := es1]\<rparr>, ur1)" "edges_repr T d p E' es1"
        "requests_ok T U \<sigma> d ur1" "\<forall>i. tracked T d i \<longrightarrow>
          ur_delta T ur1 i = ur_delta T ur' i + edge_count_of es1 i - of_bool m * edge_count_of (es0 ! p) i"
      using step[OF p(1) st(4), of "fn\<lparr>fn_edges := es'\<rparr>"] st(1-3) p by auto
    have cnt': "cnt (es'[p := es1]) (ps @ [p]) i = cnt es' ps i + edge_count_of es1 i" for i
    proof -
      have "map (\<lambda>q. edge_count_of (es'[p := es1] ! q) i) ps = map (\<lambda>q. edge_count_of (es' ! q) i) ps"
        by (rule map_cong[OF refl]) (use p in \<open>metis nth_list_update_neq\<close>)
      then show ?thesis unfolding cnt_def map_append sum_list_append by (simp only: list.map sum_list.Cons nth_list_update_eq p st(2)) simp
    qed
    have "?P (ps @ [p]) (fn\<lparr>fn_edges := es'[p := es1]\<rparr>, ur1)"
    proof (intro exI conjI)
      show "\<forall>q < Suc d. if q \<in> set (ps @ [p]) then edges_repr T d q E' (es'[p := es1] ! q) else es'[p := es1] ! q = es0 ! q"
        using st(2,3) s1(2) p by (auto simp: nth_list_update)
      show "\<forall>i. tracked T d i \<longrightarrow> ur_delta T ur1 i
          = ur_delta T ur i + cnt (es'[p := es1]) (ps @ [p]) i - of_bool m * cnt es0 (ps @ [p]) i"
      proof (intro allI impI)
        fix i assume "tracked T d i"
        with st(5) s1(4) have "ur_delta T ur' i = ur_delta T ur i + cnt es' ps i - of_bool m * cnt es0 ps i"
          "ur_delta T ur1 i = ur_delta T ur' i + edge_count_of es1 i - of_bool m * edge_count_of (es0 ! p) i" by blast+
        then show "ur_delta T ur1 i = ur_delta T ur i + cnt (es'[p := es1]) (ps @ [p]) i - of_bool m * cnt es0 (ps @ [p]) i"
          unfolding cnt' by (simp add: cnt_def algebra_simps)
      qed
    qed (use s1(3) st(2) in auto)
    then show "\<exists>s'. f st p = Some s' \<and> ?P (ps @ [p]) s'" using s1(1) by blast
  qed
  then obtain es' ur' where r: "foldM f [0..<Suc d] (fn, ur) = Some (fn\<lparr>fn_edges := es'\<rparr>, ur')" "length es' = Suc d"
      "\<forall>p < Suc d. edges_repr T d p E' (es' ! p)" "requests_ok T U \<sigma> d ur'" "\<forall>i. tracked T d i \<longrightarrow>
        ur_delta T ur' i = ur_delta T ur i + cnt es' [0..<Suc d] i - of_bool m * cnt es0 [0..<Suc d] i"
    by (auto simp del: upt_Suc cong: if_cong)
  have full: "cnt es [0..<Suc d] i = (\<Sum>q\<leftarrow>es. edge_count_of q i)" if "length es = Suc d" for es i
  proof -
    have "map (\<lambda>p. edge_count_of (es ! p) i) [0..<Suc d] = map (\<lambda>q. edge_count_of q i) (map ((!) es) [0..<length es])"
      using that by (simp del: upt_Suc map_nth add: comp_def)
    then show ?thesis by (simp only: cnt_def map_nth)
  qed
  show ?thesis using r len by (intro exI[of _ es'] exI[of _ ur']) (simp add: full edge_refs_sum del: upt_Suc)
qed

subsection \<open>Inserting at one position\<close>

lemma sub_entries_Un_props:
  assumes U: "universe_ok T U" and ins: "ins_ok U (Suc d) E es" and d: "1 \<le> d" "p < Suc d"
    and es: "distinct es" "set es \<inter> E = {}"
  shows "ins_ok U d (sub_entries p k E) (sub_list p k es)"
    "sub_entries p k (set es) \<inter> sub_entries p k E = {}" "distinct (sub_list p k es)"
proof -
  show "ins_ok U d (sub_entries p k E) (sub_list p k es)" by (rule ins_ok_sub[OF U ins d])
  have len: "\<forall>e \<in> E \<union> set es. length (fst e) = Suc d" using entries_okD(3)[OF ins_okD(1)[OF ins]] by blast
  then show "distinct (sub_list p k es)" using distinct_sub_list[OF es(1) _ d(2)] by blast
  have "(E \<union> set es) - set es = E" using es(2) by blast
  then show "sub_entries p k (set es) \<inter> sub_entries p k E = {}"
    using sub_entries_Diff[OF len d(2), of "set es" k] by auto
qed

lemma insert_child_group_spec:
  assumes lvl: "level_ok T U \<sigma> d" and Ees: "ins_ok U (Suc d) E es" and p: "p < Suc d"
    and es: "distinct es" "set es \<inter> E = {}" and ok: "requests_ok T U \<sigma> d ur"
    and k: "sub_entries p k (set es) \<noteq> {}"
    and edge: "map_of edges k = (if sub_entries p k E = {} then None else Some (ident T d (sub_entries p k E)))"
    and pres: "sub_entries p k E \<noteq> {} \<Longrightarrow> present T \<sigma> d (ident T d (sub_entries p k E))"
    and orig: "origin = JustCreated \<Longrightarrow> E = {}"
  shows "\<exists>ur'. insert_child_group T \<sigma> d origin (edges, ur) (k, sub_list p k es)
      = Some (AList.update k (ident T d (sub_entries p k (E \<union> set es))) edges, ur') \<and> requests_ok T U \<sigma> d ur' \<and>
    moves_reference T d ur ur' (ident T d (sub_entries p k (E \<union> set es))) (ident T d (sub_entries p k E)) (origin = Moved)"
proof -
  note U = level_okD(1)[OF lvl] and T = level_okD(2)[OF lvl] and d = level_okD(3)[OF lvl]
  note props = sub_entries_Un_props[OF U Ees d p es, of k]
  let ?F = "sub_entries p k E" and ?g = "sub_list p k es"
  have ne: "?g \<noteq> []" using k by (metis empty_set set_sub_list)
  note gok = ins_okD(3)[OF props(1)]
  have FG: "sub_entries p k (E \<union> set es) = ?F \<union> set ?g" by (simp add: sub_entries_Un)
  show ?thesis
  proof (cases "?F = {}")
    case False
    then have "origin \<noteq> JustCreated" using orig by auto
    moreover obtain ur' where "insert_into_node T \<sigma> d ur (ident T d ?F) ?g (origin = Moved) = Some (ident T d (?F \<union> set ?g), ur')"
      "requests_ok T U \<sigma> d ur'" "moves_reference T d ur ur' (ident T d (?F \<union> set ?g)) (ident T d ?F) (origin = Moved)"
      using insert_into_node_spec[OF lvl ok False pres[OF False] props(3) ne, of "origin = Moved"] props(1,2) by auto
    ultimately show ?thesis using False edge ne unfolding FG by (auto simp: insert_child_group_def)
  next
    case True
    then have noedge: "map_of edges k = None" using edge by simp
    have nt: "\<not> tracked T d (ident T d {})" by simp
    show ?thesis
    proof (cases "in_place_node T d \<and> length ?g = 1")
      case ip: True
      then have "set ?g = {?g ! 0}" using singleton_list[of ?g] by (metis list.set(1) list.simps(15))
      then have "encode_single_entry T d (?g ! 0) = ident T d (set ?g)" "\<not> is_fn T (ident T d (set ?g))"
        using encode_single_entry_ident[OF T, of d "?g ! 0"] is_fn_ident[OF U gok] by simp_all
      then show ?thesis using ip noedge ne ok True unfolding FG
        by (auto simp: insert_child_group_def moves_reference_def tracked_def)
    next
      case nip: False
      obtain ur' where "add_node T d ur ?g 1 = Some (ident T d (set ?g), ur')" "requests_ok T U \<sigma> d ur'"
        "moves_reference T d ur ur' (ident T d (set ?g)) 0 False"
        using add_node_spec[OF lvl ok props(3) ne gok] by blast
      then show ?thesis using nip noedge ne True unfolding FG
        by (auto simp: insert_child_group_def moves_reference_def)
    qed
  qed
qed

lemma insert_groups_spec:
  assumes lvl: "level_ok T U \<sigma> d" and Ees: "ins_ok U (Suc d) E es" and p: "p < Suc d"
    and es: "distinct es" "set es \<inter> E = {}" and orig: "origin = JustCreated \<Longrightarrow> E = {}"
    and pres: "\<And>k. sub_entries p k E \<noteq> {} \<Longrightarrow> present T \<sigma> d (ident T d (sub_entries p k E))"
  shows "requests_ok T U \<sigma> d ur \<Longrightarrow> al_ok edges \<Longrightarrow> distinct (keys_of gs) \<Longrightarrow>
    (\<forall>(k, g) \<in> set gs. g = sub_list p k es \<and> sub_entries p k (set es) \<noteq> {} \<and>
       map_of edges k = (if sub_entries p k E = {} then None else Some (ident T d (sub_entries p k E)))) \<Longrightarrow>
    \<exists>edges' ur'. foldM (insert_child_group T \<sigma> d origin) gs (edges, ur) = Some (edges', ur') \<and> al_ok edges' \<and>
      (\<forall>k. map_of edges' k = (if k \<in> set (keys_of gs) then Some (ident T d (sub_entries p k (E \<union> set es))) else map_of edges k)) \<and>
      requests_ok T U \<sigma> d ur' \<and> (\<forall>i. tracked T d i \<longrightarrow> ur_delta T ur' i = ur_delta T ur i +
        edge_count_of edges' i - edge_count_of edges i +
        (if origin = Moved then 0 else (\<Sum>q\<leftarrow>gs. of_bool (map_of edges (fst q) = Some i))))"
proof (induction gs arbitrary: edges ur)
  case Nil
  then show ?case by simp
next
  case (Cons kg gs)
  obtain k where kg: "kg = (k, sub_list p k es)" "sub_entries p k (set es) \<noteq> {}"
    and edge: "map_of edges k = (if sub_entries p k E = {} then None else Some (ident T d (sub_entries p k E)))"
    using Cons.prems(4) by (cases kg) auto
  let ?new = "ident T d (sub_entries p k (E \<union> set es))" and ?old = "ident T d (sub_entries p k E)"
  obtain ur1 where s1: "insert_child_group T \<sigma> d origin (edges, ur) kg = Some (AList.update k ?new edges, ur1)"
    "requests_ok T U \<sigma> d ur1" "moves_reference T d ur ur1 ?new ?old (origin = Moved)"
    using insert_child_group_spec[OF lvl Ees p es Cons.prems(1) kg(2) edge pres orig] kg(1) by auto
  let ?e1 = "AList.update k ?new edges"
  have k: "k \<notin> set (keys_of gs)" using Cons.prems(3) kg by simp
  have other: "map_of ?e1 k' = map_of edges k'" if "k' \<in> set (keys_of gs)" for k'
    using that k by (auto simp: al_simps)
  have "\<exists>edges' ur'. foldM (insert_child_group T \<sigma> d origin) gs (?e1, ur1) = Some (edges', ur') \<and> al_ok edges' \<and>
      (\<forall>k. map_of edges' k = (if k \<in> set (keys_of gs) then Some (ident T d (sub_entries p k (E \<union> set es))) else map_of ?e1 k)) \<and>
      requests_ok T U \<sigma> d ur' \<and> (\<forall>i. tracked T d i \<longrightarrow> ur_delta T ur' i = ur_delta T ur1 i +
        edge_count_of edges' i - edge_count_of ?e1 i +
        (if origin = Moved then 0 else (\<Sum>q\<leftarrow>gs. of_bool (map_of ?e1 (fst q) = Some i))))"
  proof (rule Cons.IH[OF s1(2)])
    show "al_ok ?e1" using Cons.prems(2) by simp
    show "distinct (keys_of gs)" using Cons.prems(3) by simp
    show "\<forall>(k, g) \<in> set gs. g = sub_list p k es \<and> sub_entries p k (set es) \<noteq> {} \<and>
       map_of ?e1 k = (if sub_entries p k E = {} then None else Some (ident T d (sub_entries p k E)))"
    proof
      fix q assume q: "q \<in> set gs"
      then have "fst q \<in> set (keys_of gs)" by force
      from other[OF this] show "case q of (k, g) \<Rightarrow> g = sub_list p k es \<and> sub_entries p k (set es) \<noteq> {} \<and>
          map_of ?e1 k = (if sub_entries p k E = {} then None else Some (ident T d (sub_entries p k E)))"
        using bspec[OF Cons.prems(4), of q] q by (cases q) simp
    qed
  qed
  then obtain edges' ur' where r: "foldM (insert_child_group T \<sigma> d origin) gs (?e1, ur1) = Some (edges', ur')" "al_ok edges'"
      "\<forall>k. map_of edges' k = (if k \<in> set (keys_of gs) then Some (ident T d (sub_entries p k (E \<union> set es))) else map_of ?e1 k)"
      "requests_ok T U \<sigma> d ur'" "\<forall>i. tracked T d i \<longrightarrow> ur_delta T ur' i = ur_delta T ur1 i +
        edge_count_of edges' i - edge_count_of ?e1 i +
        (if origin = Moved then 0 else (\<Sum>q\<leftarrow>gs. of_bool (map_of ?e1 (fst q) = Some i)))"
    by blast
  have sums: "(\<Sum>q\<leftarrow>gs. of_bool (map_of ?e1 (fst q) = Some i)) = (\<Sum>q\<leftarrow>gs. of_bool (map_of edges (fst q) = Some i) :: int)" for i
    by (rule arg_cong[where f = sum_list], rule map_cong[OF refl]) (use other in force)
  have acc: "ur_delta T ur' i = ur_delta T ur i + edge_count_of edges' i - edge_count_of edges i +
        (if origin = Moved then 0 else (\<Sum>q\<leftarrow>kg # gs. of_bool (map_of edges (fst q) = Some i)))" if t: "tracked T d i" for i
  proof -
    have i0: "i \<noteq> 0" using t by auto
    have "ur_delta T ur1 i = ur_delta T ur i + of_bool (i = ?new) - of_bool (origin = Moved \<and> i = ?old)"
      using s1(3) t by (simp add: moves_reference_def)
    moreover have "edge_count_of ?e1 i = edge_count_of edges i + of_bool (?new = i) - of_bool (i = ?old)"
      unfolding count_list_al_update[OF Cons.prems(2)] edge using i0 by auto
    moreover have "of_bool (map_of edges (fst kg) = Some i) = (of_bool (i = ?old) :: int)"
      using kg edge i0 by auto
    ultimately show ?thesis using r(5)[rule_format, OF t] unfolding sums by auto
  qed
  have find: "map_of edges' k' = (if k' \<in> set (keys_of (kg # gs)) then Some (ident T d (sub_entries p k' (E \<union> set es))) else map_of edges k')" for k'
    using r(3) k kg by (auto simp: al_simps)
  have "foldM (insert_child_group T \<sigma> d origin) (kg # gs) (edges, ur) = Some (edges', ur')"
    using s1(1) r(1) by simp
  then show ?case using r(2,4) find acc by blast
qed

text \<open>An edge leads to a present node.\<close>

definition live_child ::
  "'v::zero_neq_one htt \<Rightarrow> 'v entry set set \<Rightarrow> 'v node_storage \<Rightarrow> nat \<Rightarrow> node_id \<Rightarrow> bool" where
  "live_child T U \<sigma> d c \<longleftrightarrow> (\<exists>F. entries_ok U d F \<and> F \<noteq> {} \<and> c = ident T d F) \<and> present T \<sigma> d c"

lemma live_child_delta:
  assumes lvl: "level_ok T U \<sigma> d" and ok: "requests_ok T U \<sigma> d ur" and c: "live_child T U \<sigma> d c"
  shows "requests_ok T U \<sigma> d (apply_ref_count_delta T d ur c n)"
    "tracked T d i \<Longrightarrow> ur_delta T (apply_ref_count_delta T d ur c n) i = ur_delta T ur i + (if c = i then n else 0)"
proof -
  obtain F where F: "c = ident T d F" "entries_ok U d F" "F \<noteq> {}" "present T \<sigma> d c"
    using c unfolding live_child_def by blast
  show "requests_ok T U \<sigma> d (apply_ref_count_delta T d ur c n)"
    by (rule apply_delta_present(1)[OF lvl ok F(4,1-3)])
  show "ur_delta T (apply_ref_count_delta T d ur c n) i = ur_delta T ur i + (if c = i then n else 0)" if "tracked T d i"
    using apply_delta_present(2)[OF lvl ok F(4,1-3) that] by auto
qed

lemma live_in_place:
  assumes lvl: "level_ok T U \<sigma> d" and "in_place_node T d" "is_sen T c" "tracked T d i"
  shows "c \<noteq> i"
  using assms is_fn_not_sen[OF level_okD(2)[OF lvl]] by (auto simp: tracked_def)

lemma copied_children_spec:
  assumes lvl: "level_ok T U \<sigma> d"
  shows "requests_ok T U \<sigma> d ur \<Longrightarrow> \<forall>c \<in> snd ` set edges. live_child T U \<sigma> d c \<Longrightarrow>
    requests_ok T U \<sigma> d (copied_children T d newly edges ur) \<and>
    (\<forall>i. tracked T d i \<longrightarrow> ur_delta T (copied_children T d newly edges ur) i
      = ur_delta T ur i + (\<Sum>q\<leftarrow>edges. of_bool (map_of newly (fst q) = None \<and> snd q = i)))"
proof (induction edges arbitrary: ur)
  case Nil
  then show ?case by simp
next
  case (Cons kc edges)
  obtain k c where kc: "kc = (k, c)" by (cases kc)
  have c: "live_child T U \<sigma> d c" using Cons.prems(2) kc by simp
  note step = live_child_delta[OF lvl Cons.prems(1) c, where n = 1]
  have rest: "\<forall>c \<in> snd ` set edges. live_child T U \<sigma> d c" using Cons.prems(2) by simp
  note IH0 = Cons.IH[OF Cons.prems(1) rest] and IH1 = Cons.IH[OF step(1) rest]
  consider "map_of newly k \<noteq> None" | "map_of newly k = None" "in_place_node T d \<and> is_sen T c"
    | "map_of newly k = None" "\<not> (in_place_node T d \<and> is_sen T c)" by blast
  then show ?case
  proof cases
    case 1
    then show ?thesis using IH0 kc by auto
  next
    case 2
    then show ?thesis using IH0 kc live_in_place[OF lvl] by auto
  next
    case 3
    then have "copied_children T d newly (kc # edges) ur = copied_children T d newly edges (apply_ref_count_delta T d ur c 1)"
      using kc by auto
    then show ?thesis using IH1 kc 3(1) step(2) by (simp del: copied_children.simps)
  qed
qed

lemma release_children_spec:
  assumes lvl: "level_ok T U \<sigma> d"
  shows "requests_ok T U \<sigma> d ur \<Longrightarrow> \<forall>c \<in> snd ` set edges. live_child T U \<sigma> d c \<Longrightarrow>
    requests_ok T U \<sigma> d (release_children T d edges ur) \<and>
    (\<forall>i. tracked T d i \<longrightarrow> ur_delta T (release_children T d edges ur) i = ur_delta T ur i - edge_count_of edges i)"
proof (induction edges arbitrary: ur)
  case Nil
  then show ?case by simp
next
  case (Cons kc edges)
  obtain k c where kc: "kc = (k, c)" by (cases kc)
  have c: "live_child T U \<sigma> d c" using Cons.prems(2) kc by simp
  note step = live_child_delta[OF lvl Cons.prems(1) c, where n = "- 1"]
  have rest: "\<forall>c \<in> snd ` set edges. live_child T U \<sigma> d c" using Cons.prems(2) by simp
  note IH0 = Cons.IH[OF Cons.prems(1) rest] and IH1 = Cons.IH[OF step(1) rest]
  show ?case
  proof (cases "in_place_node T d \<and> is_sen T c")
    case True
    then show ?thesis using IH0 kc live_in_place[OF lvl] by auto
  next
    case False
    then show ?thesis using IH1 kc step(2) by auto
  qed
qed

lemma edges_live:
  assumes U: "universe_ok T U" and E: "entries_ok U (Suc d) E" and d: "1 \<le> d" "p < Suc d"
    and repr: "edges_repr T d p E edges" and pres: "\<forall>c \<in> snd ` set edges. present T \<sigma> d c"
  shows "\<forall>c \<in> snd ` set edges. live_child T U \<sigma> d c"
    "sub_entries p k E \<noteq> {} \<Longrightarrow> present T \<sigma> d (ident T d (sub_entries p k E))"
proof -
  note r = edges_reprD[OF repr]
  show "\<forall>c \<in> snd ` set edges. live_child T U \<sigma> d c"
  proof
    fix c assume c: "c \<in> snd ` set edges"
    then obtain k where "map_of edges k = Some c" using al_mem_iff[OF r(1)] by force
    then have "sub_entries p k E \<noteq> {} \<and> c = ident T d (sub_entries p k E)" using r(2)[of k] by (simp split: if_splits)
    then show "live_child T U \<sigma> d c"
      using entries_ok_sub[OF U E d, of k] pres c unfolding live_child_def by blast
  qed
  show "present T \<sigma> d (ident T d (sub_entries p k E))" if "sub_entries p k E \<noteq> {}"
  proof -
    have "map_of edges k = Some (ident T d (sub_entries p k E))" using r(2)[of k] that by simp
    then have "ident T d (sub_entries p k E) \<in> snd ` set edges" using map_of_SomeD by force
    then show ?thesis using pres by blast
  qed
qed

lemma insert_at_pos_spec:
  assumes lvl: "level_ok T U \<sigma> d" and Ees: "ins_ok U (Suc d) E es" and p: "p < Suc d"
    and es: "distinct es" "set es \<inter> E = {}" and orig: "origin = JustCreated \<Longrightarrow> E = {}"
    and repr: "edges_repr T d p E (fn_edges fn ! p)" and pres: "\<forall>c \<in> snd ` set (fn_edges fn ! p). present T \<sigma> d c"
    and ok: "requests_ok T U \<sigma> d ur"
  shows "\<exists>es' ur'. insert_at_pos T \<sigma> d origin es (fn, ur) p = Some (fn\<lparr>fn_edges := (fn_edges fn)[p := es']\<rparr>, ur') \<and>
    edges_repr T d p (E \<union> set es) es' \<and> requests_ok T U \<sigma> d ur' \<and> (\<forall>i. tracked T d i \<longrightarrow>
      ur_delta T ur' i = ur_delta T ur i + edge_count_of es' i - of_bool (origin = Moved) * edge_count_of (fn_edges fn ! p) i)"
proof -
  note U = level_okD(1)[OF lvl] and d = level_okD(3)[OF lvl]
  note E = ins_okD(2)[OF Ees]
  note r = edges_reprD[OF repr] and live = edges_live[OF U E d p repr pres]
  let ?edges = "fn_edges fn ! p" and ?newly = "entry_subset_for_pos es p"
  let ?ur1 = "if origin = Copied then copied_children T d ?newly ?edges ur else ur"
  let ?aff = "\<lambda>i. (\<Sum>q\<leftarrow>?newly. of_bool (map_of ?edges (fst q) = Some i)) :: int"
  have ok1: "requests_ok T U \<sigma> d ?ur1" using copied_children_spec[OF lvl ok live(1)] ok by simp
  have d1: "ur_delta T ?ur1 i = ur_delta T ur i + (if origin = Copied then edge_count_of ?edges i - ?aff i else 0)" if t: "tracked T d i" for i
  proof -
    have "(\<Sum>q\<leftarrow>?edges. of_bool (map_of ?newly (fst q) = None \<and> snd q = i))
      + (\<Sum>q\<leftarrow>?edges. of_bool (map_of ?newly (fst q) \<noteq> None \<and> snd q = i)) = edge_count_of ?edges i"
      unfolding edge_count_sum sum_list_addf[symmetric]
      by (rule arg_cong[where f = sum_list], rule map_cong[OF refl]) auto
    then show ?thesis using copied_children_spec[OF lvl ok live(1), of ?newly] t sum_al_swap[OF r(1) entry_subset_ok, of es p i]
      by auto
  qed
  have groups: "\<forall>(k, g) \<in> set ?newly. g = sub_list p k es \<and> sub_entries p k (set es) \<noteq> {} \<and>
       map_of ?edges k = (if sub_entries p k E = {} then None else Some (ident T d (sub_entries p k E)))"
    using r(2) entry_subset_mem[of _ _ es p] by blast
  obtain es' ur' where s: "foldM (insert_child_group T \<sigma> d origin) ?newly (?edges, ?ur1) = Some (es', ur')" "al_ok es'"
      "\<forall>k. map_of es' k = (if k \<in> set (keys_of ?newly) then Some (ident T d (sub_entries p k (E \<union> set es))) else map_of ?edges k)"
      "requests_ok T U \<sigma> d ur'" "\<forall>i. tracked T d i \<longrightarrow> ur_delta T ur' i = ur_delta T ?ur1 i +
        edge_count_of es' i - edge_count_of ?edges i + (if origin = Moved then 0 else ?aff i)"
    using insert_groups_spec[OF lvl Ees p es orig live(2) ok1 r(1) entry_subset_ok groups] by blast
  have "edges_repr T d p (E \<union> set es) es'"
    unfolding edges_repr_def
  proof (intro conjI allI)
    fix k
    show "map_of es' k = (if sub_entries p k (E \<union> set es) = {} then None else Some (ident T d (sub_entries p k (E \<union> set es))))"
      using s(3)[rule_format, of k] r(2)[of k] entry_subset_keys[of es p] by (auto simp: sub_entries_Un)
  qed (rule s(2))
  moreover have "insert_at_pos T \<sigma> d origin es (fn, ur) p = Some (fn\<lparr>fn_edges := (fn_edges fn)[p := es']\<rparr>, ur')"
    using s(1) by (simp add: insert_at_pos_def Let_def)
  moreover have "ur_delta T ur' i = ur_delta T ur i + edge_count_of es' i - of_bool (origin = Moved) * edge_count_of ?edges i"
    if t: "tracked T d i" for i
  proof (cases origin)
    case JustCreated
    then have "?edges = []" using orig r(2) by (intro al_find_all_None) simp
    then show ?thesis using s(5)[rule_format, OF t] d1[OF t] JustCreated by simp
  qed (use s(5)[rule_format, OF t] d1[OF t] in simp_all)
  ultimately show ?thesis using s(4) by blast
qed

subsection \<open>Erasing at one position\<close>

lemma remove_child_spec:
  assumes below: "below_ok T U \<sigma> (Suc d)" and d: "1 \<le> d" "p < Suc d" and ok: "requests_ok T U \<sigma> d ur"
    and del: "del_ok U (Suc d) E es" and es: "distinct es" "set es \<subseteq> E" and k: "sub_entries p k (set es) \<noteq> {}"
    and pres: "present T \<sigma> d (ident T d (sub_entries p k E))"
  shows "\<exists>ur'. remove_from_node T \<sigma> d ur (ident T d (sub_entries p k E)) (sub_list p k es) dec
      = Some (ident T d (sub_entries p k (E - set es)), ur') \<and> requests_ok T U \<sigma> d ur' \<and>
    moves_reference T d ur ur' (ident T d (sub_entries p k (E - set es))) (ident T d (sub_entries p k E)) dec"
proof -
  have U: "universe_ok T U" using level_okD(1)[OF below_okD(1)[OF below]] d(1) by auto
  have len: "\<forall>e \<in> E. length (fst e) = Suc d" using entries_okD(3)[OF del_okD(1)[OF del]] by blast
  have dist: "distinct (sub_list p k es)" using distinct_sub_list[OF es(1) _ d(2)] len es(2) by blast
  have ne: "sub_list p k es \<noteq> []" using k by (metis empty_set set_sub_list)
  have sub: "set (sub_list p k es) \<subseteq> sub_entries p k E" using sub_entries_mono[OF es(2)] by simp
  show ?thesis
    using remove_from_node_spec[OF below d(1) ok del_ok_sub[OF U del es(2) d] pres dist ne sub]
      sub_entries_Diff[OF len d(2) es(2), of k] by simp
qed

text \<open>How the edges of a position look after the erasure, and how a position's loop accounts for
  them.\<close>

lemma rest_edge_zero:
  assumes U: "universe_ok T U" and del: "del_ok U (Suc d) E es" and d: "1 \<le> d" "p < Suc d"
  shows "ident T d (sub_entries p k (E - set es)) = 0 \<longleftrightarrow> sub_entries p k (E - set es) = {}"
  by (rule ident_nonzero[OF U entries_ok_sub[OF U del_okD(3)[OF del] d]])

lemma erase_copied_spec:
  assumes below: "below_ok T U \<sigma> (Suc d)" and d: "1 \<le> d" "p < Suc d"
    and del: "del_ok U (Suc d) E es" and es: "distinct es" "set es \<subseteq> E"
  shows "requests_ok T U \<sigma> d ur \<Longrightarrow> al_ok edges \<Longrightarrow>
    (\<forall>(k, c) \<in> set edges. c = ident T d (sub_entries p k E) \<and> live_child T U \<sigma> d c) \<Longrightarrow>
    \<exists>edges' ur'. erase_copied T \<sigma> d (entry_subset_for_pos es p) edges ur = Some (edges', ur') \<and> al_ok edges' \<and>
      set (keys_of edges') \<subseteq> set (keys_of edges) \<and>
      (\<forall>k. map_of edges' k = (if k \<in> set (keys_of edges) \<and> sub_entries p k (E - set es) \<noteq> {}
         then Some (ident T d (sub_entries p k (E - set es))) else None)) \<and>
      requests_ok T U \<sigma> d ur' \<and>
      (\<forall>i. tracked T d i \<longrightarrow> ur_delta T ur' i = ur_delta T ur i + edge_count_of edges' i)"
proof (induction edges arbitrary: ur)
  case Nil
  then show ?case by simp
next
  case (Cons kc edges)
  have lvl: "level_ok T U \<sigma> d" using below_okD(1)[OF below] d(1) by simp
  note U = level_okD(1)[OF lvl]
  obtain k where kc: "kc = (k, ident T d (sub_entries p k E))" and live: "live_child T U \<sigma> d (ident T d (sub_entries p k E))"
    using Cons.prems(3) by (cases kc) auto
  let ?old = "ident T d (sub_entries p k E)" and ?new = "ident T d (sub_entries p k (E - set es))"
  have prems: "al_ok edges" "\<forall>(k, c) \<in> set edges. c = ident T d (sub_entries p k E) \<and> live_child T U \<sigma> d c"
    "k \<notin> set (keys_of edges)" using Cons.prems kc by auto
  have len: "\<forall>e \<in> E. length (fst e) = Suc d" using entries_okD(3)[OF del_okD(1)[OF del]] by blast
  note diff = sub_entries_Diff[OF len d(2) es(2), of k]
  have zero: "?new = 0 \<longleftrightarrow> sub_entries p k (E - set es) = {}" by (rule rest_edge_zero[OF U del d])
  show ?case
  proof (cases "map_of (entry_subset_for_pos es p) k")
    case None
    then have "sub_entries p k (set es) = {}" unfolding entry_subset_find by (auto simp flip: set_sub_list split: if_splits)
    then have same: "sub_entries p k (E - set es) = sub_entries p k E" using diff by simp
    have ne: "sub_entries p k E \<noteq> {}"
      using live ident_nonzero[OF U] unfolding live_child_def by (metis ident_empty)
    note step = live_child_delta[OF lvl Cons.prems(1) live, where n = 1]
    obtain edges' ur' where r: "erase_copied T \<sigma> d (entry_subset_for_pos es p) edges (apply_ref_count_delta T d ur ?old 1) = Some (edges', ur')"
      "al_ok edges'" "set (keys_of edges') \<subseteq> set (keys_of edges)"
      "\<forall>k. map_of edges' k = (if k \<in> set (keys_of edges) \<and> sub_entries p k (E - set es) \<noteq> {}
         then Some (ident T d (sub_entries p k (E - set es))) else None)" "requests_ok T U \<sigma> d ur'"
      "\<forall>i. tracked T d i \<longrightarrow> ur_delta T ur' i = ur_delta T (apply_ref_count_delta T d ur ?old 1) i + edge_count_of edges' i"
      using Cons.IH[OF step(1) prems(1,2)] by blast
    show ?thesis
    proof (rule exI[of _ "(k, ?old) # edges'"], rule exI[of _ ur'], intro conjI allI impI)
      show "erase_copied T \<sigma> d (entry_subset_for_pos es p) (kc # edges) ur = Some ((k, ?old) # edges', ur')"
        using None r(1) kc by simp
      show "al_ok ((k, ?old) # edges')" using r(2,3) prems(3) by auto
      show "set (keys_of ((k, ?old) # edges')) \<subseteq> set (keys_of (kc # edges))" using r(3) kc by auto
      show "map_of ((k, ?old) # edges') k' = (if k' \<in> set (keys_of (kc # edges)) \<and> sub_entries p k' (E - set es) \<noteq> {}
         then Some (ident T d (sub_entries p k' (E - set es))) else None)" for k'
        using r(4) kc same ne by (cases "k' = k") auto
      show "ur_delta T ur' i = ur_delta T ur i + edge_count_of ((k, ?old) # edges') i" if "tracked T d i" for i
        using r(6)[rule_format, OF that] step(2)[OF that] by simp
    qed (rule r(5))
  next
    case (Some g)
    then have g: "g = sub_list p k es" "sub_entries p k (set es) \<noteq> {}"
      unfolding entry_subset_find by (auto simp flip: set_sub_list split: if_splits)
    obtain ur1 where s1: "remove_from_node T \<sigma> d ur ?old g False = Some (?new, ur1)" "requests_ok T U \<sigma> d ur1"
      "moves_reference T d ur ur1 ?new ?old False"
      using remove_child_spec[OF below d Cons.prems(1) del es g(2), of False] live unfolding g live_child_def by blast
    obtain edges' ur' where r: "erase_copied T \<sigma> d (entry_subset_for_pos es p) edges ur1 = Some (edges', ur')"
      "al_ok edges'" "set (keys_of edges') \<subseteq> set (keys_of edges)"
      "\<forall>k. map_of edges' k = (if k \<in> set (keys_of edges) \<and> sub_entries p k (E - set es) \<noteq> {}
         then Some (ident T d (sub_entries p k (E - set es))) else None)" "requests_ok T U \<sigma> d ur'"
      "\<forall>i. tracked T d i \<longrightarrow> ur_delta T ur' i = ur_delta T ur1 i + edge_count_of edges' i"
      using Cons.IH[OF s1(2) prems(1,2)] by blast
    let ?edges' = "if ?new = 0 then edges' else (k, ?new) # edges'"
    show ?thesis
    proof (rule exI[of _ ?edges'], rule exI[of _ ur'], intro conjI allI impI)
      show "erase_copied T \<sigma> d (entry_subset_for_pos es p) (kc # edges) ur = Some (?edges', ur')"
        using Some r(1) kc s1(1) by simp
      show "al_ok ?edges'" using r(2,3) prems(3) by auto
      show "set (keys_of ?edges') \<subseteq> set (keys_of (kc # edges))" using r(3) kc by auto
      show "map_of ?edges' k' = (if k' \<in> set (keys_of (kc # edges)) \<and> sub_entries p k' (E - set es) \<noteq> {}
         then Some (ident T d (sub_entries p k' (E - set es))) else None)" for k'
        using r(4)[rule_format, of k'] kc zero prems(3) by (cases "k' = k") auto
      show "ur_delta T ur' i = ur_delta T ur i + edge_count_of ?edges' i" if t: "tracked T d i" for i
      proof -
        have "i \<noteq> 0" using t by auto
        then show ?thesis using r(6)[rule_format, OF t] s1(3) t by (auto simp: moves_reference_def)
      qed
    qed (rule r(5))
  qed
qed

lemma erase_moved_spec:
  assumes below: "below_ok T U \<sigma> (Suc d)" and d: "1 \<le> d" "p < Suc d"
    and del: "del_ok U (Suc d) E es" and es: "distinct es" "set es \<subseteq> E"
    and pres: "\<And>k. sub_entries p k E \<noteq> {} \<Longrightarrow> present T \<sigma> d (ident T d (sub_entries p k E))"
  shows "requests_ok T U \<sigma> d ur \<Longrightarrow> al_ok edges \<Longrightarrow> distinct (keys_of gs) \<Longrightarrow>
    (\<forall>(k, g) \<in> set gs. g = sub_list p k es \<and> sub_entries p k (set es) \<noteq> {} \<and>
       map_of edges k = Some (ident T d (sub_entries p k E))) \<Longrightarrow>
    \<exists>edges' ur'. foldM (erase_moved_group T \<sigma> d) gs (edges, ur) = Some (edges', ur') \<and> al_ok edges' \<and>
      (\<forall>k. map_of edges' k = (if k \<in> set (keys_of gs)
         then (if sub_entries p k (E - set es) = {} then None else Some (ident T d (sub_entries p k (E - set es))))
         else map_of edges k)) \<and>
      requests_ok T U \<sigma> d ur' \<and>
      (\<forall>i. tracked T d i \<longrightarrow> ur_delta T ur' i = ur_delta T ur i + edge_count_of edges' i - edge_count_of edges i)"
proof (induction gs arbitrary: edges ur)
  case Nil
  then show ?case by simp
next
  case (Cons kg gs)
  have lvl: "level_ok T U \<sigma> d" using below_okD(1)[OF below] d(1) by simp
  note U = level_okD(1)[OF lvl]
  obtain k where kg: "kg = (k, sub_list p k es)" "sub_entries p k (set es) \<noteq> {}"
    and edge: "map_of edges k = Some (ident T d (sub_entries p k E))"
    using Cons.prems(4) by (cases kg) auto
  let ?old = "ident T d (sub_entries p k E)" and ?new = "ident T d (sub_entries p k (E - set es))"
  have ne: "sub_entries p k E \<noteq> {}" using kg(2) sub_entries_mono[OF es(2), of p k] by blast
  have zero: "?new = 0 \<longleftrightarrow> sub_entries p k (E - set es) = {}" by (rule rest_edge_zero[OF U del d])
  obtain ur1 where s1: "remove_from_node T \<sigma> d ur ?old (sub_list p k es) True = Some (?new, ur1)"
    "requests_ok T U \<sigma> d ur1" "moves_reference T d ur ur1 ?new ?old True"
    using remove_child_spec[OF below d Cons.prems(1) del es kg(2) pres[OF ne], of True] by blast
  let ?e1 = "if ?new = 0 then AList.delete k edges else AList.update k ?new edges"
  have step: "erase_moved_group T \<sigma> d (edges, ur) kg = Some (?e1, ur1)"
    using s1(1) edge kg by (simp add: erase_moved_group_def)
  have k: "k \<notin> set (keys_of gs)" using Cons.prems(3) kg by simp
  have other: "map_of ?e1 k' = map_of edges k'" if "k' \<in> set (keys_of gs)" for k'
    using that k by (auto simp: al_simps)
  have "\<exists>edges' ur'. foldM (erase_moved_group T \<sigma> d) gs (?e1, ur1) = Some (edges', ur') \<and> al_ok edges' \<and>
      (\<forall>k. map_of edges' k = (if k \<in> set (keys_of gs)
         then (if sub_entries p k (E - set es) = {} then None else Some (ident T d (sub_entries p k (E - set es))))
         else map_of ?e1 k)) \<and>
      requests_ok T U \<sigma> d ur' \<and>
      (\<forall>i. tracked T d i \<longrightarrow> ur_delta T ur' i = ur_delta T ur1 i + edge_count_of edges' i - edge_count_of ?e1 i)"
  proof (rule Cons.IH[OF s1(2)])
    show "al_ok ?e1" using Cons.prems(2) by simp
    show "distinct (keys_of gs)" using Cons.prems(3) by simp
    show "\<forall>(k, g) \<in> set gs. g = sub_list p k es \<and> sub_entries p k (set es) \<noteq> {} \<and>
       map_of ?e1 k = Some (ident T d (sub_entries p k E))"
    proof
      fix q assume q: "q \<in> set gs"
      then have "fst q \<in> set (keys_of gs)" by force
      from other[OF this] show "case q of (k, g) \<Rightarrow> g = sub_list p k es \<and> sub_entries p k (set es) \<noteq> {} \<and>
          map_of ?e1 k = Some (ident T d (sub_entries p k E))"
        using bspec[OF Cons.prems(4), of q] q by (cases q) simp
    qed
  qed
  then obtain edges' ur' where r: "foldM (erase_moved_group T \<sigma> d) gs (?e1, ur1) = Some (edges', ur')" "al_ok edges'"
      "\<forall>k. map_of edges' k = (if k \<in> set (keys_of gs)
         then (if sub_entries p k (E - set es) = {} then None else Some (ident T d (sub_entries p k (E - set es))))
         else map_of ?e1 k)" "requests_ok T U \<sigma> d ur'"
      "\<forall>i. tracked T d i \<longrightarrow> ur_delta T ur' i = ur_delta T ur1 i + edge_count_of edges' i - edge_count_of ?e1 i"
    by blast
  have acc: "ur_delta T ur' i = ur_delta T ur i + edge_count_of edges' i - edge_count_of edges i" if t: "tracked T d i" for i
  proof -
    have i0: "i \<noteq> 0" using t by auto
    have "ur_delta T ur1 i = ur_delta T ur i + of_bool (i = ?new) - of_bool (i = ?old)"
      using s1(3) t by (simp add: moves_reference_def)
    moreover have "edge_count_of ?e1 i = edge_count_of edges i + of_bool (?new = i) - of_bool (i = ?old)"
    proof (cases "?new = 0")
      case True
      then show ?thesis using count_list_al_delete[OF Cons.prems(2), of k i] edge i0 by simp
    next
      case False
      then show ?thesis using count_list_al_update[OF Cons.prems(2), of k ?new i] edge i0 by simp
    qed
    ultimately show ?thesis using r(5)[rule_format, OF t] by auto
  qed
  have find: "map_of edges' k' = (if k' \<in> set (keys_of (kg # gs))
      then (if sub_entries p k' (E - set es) = {} then None else Some (ident T d (sub_entries p k' (E - set es))))
      else map_of edges k')" for k'
    using r(3)[rule_format, of k'] k kg zero by (auto simp: al_simps)
  have "foldM (erase_moved_group T \<sigma> d) (kg # gs) (edges, ur) = Some (edges', ur')"
    using step r(1) by simp
  then show ?case using r(2,4) find acc by blast
qed

lemma erase_at_pos_spec:
  assumes below: "below_ok T U \<sigma> (Suc d)" and d: "1 \<le> d" "p < Suc d"
    and del: "del_ok U (Suc d) E es" and es: "distinct es" "set es \<subseteq> E" and orig: "origin \<noteq> JustCreated"
    and repr: "edges_repr T d p E (fn_edges fn ! p)" and pres: "\<forall>c \<in> snd ` set (fn_edges fn ! p). present T \<sigma> d c"
    and ok: "requests_ok T U \<sigma> d ur"
  shows "\<exists>es' ur'. erase_at_pos T \<sigma> d origin es (fn, ur) p = Some (fn\<lparr>fn_edges := (fn_edges fn)[p := es']\<rparr>, ur') \<and>
    edges_repr T d p (E - set es) es' \<and> requests_ok T U \<sigma> d ur' \<and> (\<forall>i. tracked T d i \<longrightarrow>
      ur_delta T ur' i = ur_delta T ur i + edge_count_of es' i - of_bool (origin = Moved) * edge_count_of (fn_edges fn ! p) i)"
proof -
  have U: "universe_ok T U" using level_okD(1)[OF below_okD(1)[OF below]] d(1) by auto
  note E = del_okD(1)[OF del]
  note r = edges_reprD[OF repr] and live = edges_live[OF U E d repr pres]
  let ?edges = "fn_edges fn ! p" and ?changes = "entry_subset_for_pos es p"
  have keys: "k \<in> set (keys_of ?edges) \<longleftrightarrow> sub_entries p k E \<noteq> {}" for k
    using r(2)[of k] al_find_None_iff[of ?edges k] by (metis option.distinct(1))
  have rest: "sub_entries p k (E - set es) \<noteq> {} \<Longrightarrow> sub_entries p k E \<noteq> {}" for k
    using sub_entries_mono[of "E - set es" E p k] by blast
  show ?thesis
  proof (cases "origin = Copied")
    case True
    have "\<forall>(k, c) \<in> set ?edges. c = ident T d (sub_entries p k E) \<and> live_child T U \<sigma> d c"
    proof
      fix q assume q: "q \<in> set ?edges"
      then have "map_of ?edges (fst q) = Some (snd q)" using al_mem_iff[OF r(1), of "fst q" "snd q"] by simp
      then show "case q of (k, c) \<Rightarrow> c = ident T d (sub_entries p k E) \<and> live_child T U \<sigma> d c"
        using r(2)[of "fst q"] live(1) q by (cases q) (auto split: if_splits)
    qed
    then obtain es' ur' where s: "erase_copied T \<sigma> d ?changes ?edges ur = Some (es', ur')" "al_ok es'"
      "\<forall>k. map_of es' k = (if k \<in> set (keys_of ?edges) \<and> sub_entries p k (E - set es) \<noteq> {}
         then Some (ident T d (sub_entries p k (E - set es))) else None)" "requests_ok T U \<sigma> d ur'"
      "\<forall>i. tracked T d i \<longrightarrow> ur_delta T ur' i = ur_delta T ur i + edge_count_of es' i"
      using erase_copied_spec[OF below d del es ok r(1)] by blast
    have "edges_repr T d p (E - set es) es'"
      unfolding edges_repr_def using s(2,3) keys rest by metis
    then show ?thesis using s True by (auto simp: erase_at_pos_def Let_def)
  next
    case False
    then have m: "origin = Moved" using orig by (cases origin) auto
    have "sub_entries p k E \<noteq> {}" if "sub_entries p k (set es) \<noteq> {}" for k
      using that sub_entries_mono[OF es(2), of p k] by blast
    then have "\<forall>(k, g) \<in> set ?changes. g = sub_list p k es \<and> sub_entries p k (set es) \<noteq> {} \<and>
       map_of ?edges k = Some (ident T d (sub_entries p k E))"
      using r(2) entry_subset_mem[of _ _ es p] by auto
    then obtain es' ur' where s: "foldM (erase_moved_group T \<sigma> d) ?changes (?edges, ur) = Some (es', ur')" "al_ok es'"
      "\<forall>k. map_of es' k = (if k \<in> set (keys_of ?changes)
         then (if sub_entries p k (E - set es) = {} then None else Some (ident T d (sub_entries p k (E - set es))))
         else map_of ?edges k)" "requests_ok T U \<sigma> d ur'"
      "\<forall>i. tracked T d i \<longrightarrow> ur_delta T ur' i = ur_delta T ur i + edge_count_of es' i - edge_count_of ?edges i"
      using erase_moved_spec[OF below d del es live(2) ok r(1) entry_subset_ok] by blast
    have "sub_entries p k (E - set es) = sub_entries p k E" if "sub_entries p k (set es) = {}" for k
      using sub_entries_Diff[of E "Suc d" p "set es" k] entries_okD(3)[OF E] d(2) es(2) that by simp
    then have "edges_repr T d p (E - set es) es'"
      unfolding edges_repr_def using s(2,3) r(2) entry_subset_keys[of es p] by auto
    then show ?thesis using s m by (auto simp: erase_at_pos_def Let_def)
  qed
qed

subsection \<open>Changing a whole node\<close>

lemma fn_repr_new: "fn_repr T D {} (new_fn D n)"
  by (auto simp: fn_repr_def new_fn_def edges_repr_def)

lemma fn1_insert_repr:
  assumes fn: "fn_repr T 1 E fn" and e: "all_depth 1 (insert e E)" "inj_on fst (insert e E)"
  shows "fn_repr T 1 (insert e E) (fn1_insert_or_assign fn (fst e ! 0) (snd e))"
proof -
  obtain k v where kv: "e = ([k], v)" using e(1) by (cases e) (auto simp: all_depth_def length_Suc_conv)
  have unique: "w = v" if "([k], w) \<in> E" for w
    using inj_onD[OF e(2), of "([k], w)" "([k], v)"] that kv by simp
  show ?thesis using fn unique unfolding kv fn_repr_def fn1_insert_or_assign_def by (auto simp: al_simps)
qed

lemma fn1_insert_all_repr:
  "fn_repr T 1 E fn \<Longrightarrow> all_depth 1 (E \<union> set es) \<Longrightarrow> inj_on fst (E \<union> set es) \<Longrightarrow>
    fn_repr T 1 (E \<union> set es) (foldl (\<lambda>f e. fn1_insert_or_assign f (fst e ! 0) (snd e)) fn es)"
proof (induction es arbitrary: E fn)
  case (Cons e es)
  have "all_depth 1 (insert e E)" "inj_on fst (insert e E)"
    using Cons.prems(2) inj_on_subset[OF Cons.prems(3), of "insert e E"] by (auto simp: all_depth_def)
  then have "fn_repr T 1 (insert e E) (fn1_insert_or_assign fn (fst e ! 0) (snd e))"
    by (rule fn1_insert_repr[OF Cons.prems(1)])
  then show ?case using Cons.IH[of "insert e E"] Cons.prems(2,3) by simp
qed simp

lemma fn1_erase_repr:
  assumes fn: "fn_repr T 1 E fn" and E: "all_depth 1 E" "inj_on fst E" and e: "e \<in> E"
  shows "fn_repr T 1 (E - {e}) (fn1_erase fn (fst e ! 0))"
proof -
  obtain k v where kv: "e = ([k], v)" using E(1) e by (cases e) (auto simp: all_depth_def length_Suc_conv)
  have unique: "w = v" if "([k], w) \<in> E" for w
    using inj_onD[OF E(2), of "([k], w)" "([k], v)"] that e kv by simp
  show ?thesis using fn unique unfolding kv fn_repr_def fn1_erase_def by (auto simp: al_simps)
qed

lemma fn1_erase_all_repr:
  "fn_repr T 1 E fn \<Longrightarrow> all_depth 1 E \<Longrightarrow> inj_on fst E \<Longrightarrow> distinct es \<Longrightarrow> set es \<subseteq> E \<Longrightarrow>
    fn_repr T 1 (E - set es) (foldl (\<lambda>f e. fn1_erase f (fst e ! 0)) fn es)"
proof (induction es arbitrary: E fn)
  case (Cons e es)
  have "fn_repr T 1 (E - {e}) (fn1_erase fn (fst e ! 0))"
    by (rule fn1_erase_repr[OF Cons.prems(1-3)]) (use Cons.prems(5) in simp)
  moreover have "all_depth 1 (E - {e})" "inj_on fst (E - {e})"
    using Cons.prems(2) inj_on_subset[OF Cons.prems(3), of "E - {e}"] by (auto simp: all_depth_def)
  ultimately have "fn_repr T 1 (E - {e} - set es) (foldl (\<lambda>f e. fn1_erase f (fst e ! 0)) (fn1_erase fn (fst e ! 0)) es)"
    using Cons.prems(4,5) by (intro Cons.IH) auto
  moreover have "E - {e} - set es = E - set (e # es)" by auto
  ultimately show ?case by simp
qed simp

text \<open>What a change of a node of depth \<open>D\<close> requests from the level below.\<close>

definition child_step ::
  "'v::zero_neq_one htt \<Rightarrow> 'v entry set set \<Rightarrow> 'v node_storage \<Rightarrow> nat \<Rightarrow> 'v update_requests \<Rightarrow> 'v update_requests
     \<Rightarrow> (node_id \<Rightarrow> int) \<Rightarrow> bool" where
  "child_step T U \<sigma> D ur ur' change \<longleftrightarrow> (2 \<le> D \<longrightarrow> requests_ok T U \<sigma> (D - 1) ur \<longrightarrow>
     requests_ok T U \<sigma> (D - 1) ur' \<and>
     (\<forall>i. tracked T (D - 1) i \<longrightarrow> ur_delta T ur' i = ur_delta T ur i + change i))"

lemma node_loop:
  assumes d: "1 \<le> d" and repr: "fn_repr T (Suc d) E fn" and card: "n = card E'"
    and step: "\<And>g ur p. p < Suc d \<Longrightarrow> requests_ok T U \<sigma> d ur \<Longrightarrow> length (fn_edges g) = Suc d \<Longrightarrow>
      fn_edges g ! p = fn_edges fn ! p \<Longrightarrow>
      \<exists>es' ur'. f (g, ur) p = Some (g\<lparr>fn_edges := (fn_edges g)[p := es']\<rparr>, ur') \<and> edges_repr T d p E' es' \<and>
        requests_ok T U \<sigma> d ur' \<and> (\<forall>i. tracked T d i \<longrightarrow>
          ur_delta T ur' i = ur_delta T ur i + edge_count_of es' i - of_bool m * edge_count_of (fn_edges fn ! p) i)"
    and ok: "requests_ok T U \<sigma> d ur"
  shows "\<exists>fn' ur'. foldM f [0..<Suc d] (fn\<lparr>fn_count := n\<rparr>, ur) = Some (fn', ur') \<and> fn_repr T (Suc d) E' fn' \<and>
    child_step T U \<sigma> (Suc d) ur ur' (\<lambda>i. edge_refs fn' i - of_bool m * edge_refs fn i)"
proof -
  have len: "length (fn_edges fn) = Suc d" "fn_edges (fn\<lparr>fn_count := n\<rparr>) = fn_edges fn"
    using fn_reprD(1)[OF repr d] by simp_all
  obtain es' ur' where r: "foldM f [0..<Suc d] (fn\<lparr>fn_count := n\<rparr>, ur) = Some (fn\<lparr>fn_count := n\<rparr>\<lparr>fn_edges := es'\<rparr>, ur')"
    "length es' = Suc d" "\<forall>p < Suc d. edges_repr T d p E' (es' ! p)" "requests_ok T U \<sigma> d ur'"
    "\<forall>i. tracked T d i \<longrightarrow> ur_delta T ur' i = ur_delta T ur i + edge_refs (fn\<lparr>fn_count := n\<rparr>\<lparr>fn_edges := es'\<rparr>) i
      - of_bool m * edge_refs (fn\<lparr>fn_count := n\<rparr>) i"
    using positions_loop[OF ok len, of f E' m] step by blast
  have "fn_repr T (Suc d) E' (fn\<lparr>fn_count := n\<rparr>\<lparr>fn_edges := es'\<rparr>)"
    using r(2,3) card d by (simp add: fn_repr_def)
  then show ?thesis using r by (auto simp: child_step_def simp del: upt_Suc)
qed

lemma kids_at:
  assumes repr: "fn_repr T (Suc d) E fn" and d: "1 \<le> d" "p < Suc d" and kids: "kids_present T \<sigma> d fn"
  shows "edges_repr T d p E (fn_edges fn ! p)" "\<forall>c \<in> snd ` set (fn_edges fn ! p). present T \<sigma> d c"
  using fn_reprD[OF repr d(1)] d(2) kids by (auto simp: kids_present_def)

lemma insertion_spec:
  assumes below: "below_ok T U \<sigma> D" and D: "1 \<le> D" and repr: "fn_repr T D E fn"
    and kids: "2 \<le> D \<Longrightarrow> kids_present T \<sigma> (D - 1) fn" and orig: "origin = JustCreated \<Longrightarrow> E = {}"
    and es: "distinct es" "set es \<inter> E = {}" and ins: "ins_ok U D E es"
    and ok: "2 \<le> D \<Longrightarrow> requests_ok T U \<sigma> (D - 1) ur"
  shows "\<exists>fn' ur'. apply_fn_entry_insertion T \<sigma> D origin es fn ur = Some (fn', ur') \<and> fn_repr T D (E \<union> set es) fn' \<and>
    child_step T U \<sigma> D ur ur' (\<lambda>i. edge_refs fn' i - of_bool (origin = Moved) * edge_refs fn i)"
proof (cases "D = 1")
  case True
  then show ?thesis using fn1_insert_all_repr[of T E fn es] repr ins_okD(1)[OF ins] unfolding entries_ok_def
    by (simp add: apply_fn_entry_insertion_def child_step_def)
next
  case False
  then obtain d where d: "D = Suc d" "1 \<le> d" using D by (cases D) auto
  have lvl: "level_ok T U \<sigma> d" using below_okD(1)[OF below, of d] d by simp
  have kids': "kids_present T \<sigma> d fn" and repr': "fn_repr T (Suc d) E fn" and Ees': "ins_ok U (Suc d) E es"
    and ok': "requests_ok T U \<sigma> d ur"
    using kids repr ins ok d by auto
  note Ees = ins_okD(1)[OF ins]
  have "card (E \<union> set es) = card E + card (set es)"
    using entries_okD(1)[OF Ees] es(2) by (intro card_Un_disjoint) auto
  then have "(fn_count fn + length es) mod 2 ^ 64 = card (E \<union> set es)"
    using fn_reprD(2)[OF repr' d(2)] es(1) entries_okD(5)[OF Ees] by (simp add: distinct_card size_max_def)
  note loop = node_loop[OF d(2) repr' this, of U \<sigma> "insert_at_pos T \<sigma> d origin es" "origin = Moved", OF _ ok']
  have "\<exists>fn' ur'. foldM (insert_at_pos T \<sigma> d origin es) [0..<Suc d]
      (fn\<lparr>fn_count := (fn_count fn + length es) mod 2 ^ 64\<rparr>, ur) = Some (fn', ur') \<and> fn_repr T (Suc d) (E \<union> set es) fn' \<and>
    child_step T U \<sigma> (Suc d) ur ur' (\<lambda>i. edge_refs fn' i - of_bool (origin = Moved) * edge_refs fn i)"
  proof (rule loop)
    fix g :: "'a full_node" and ur p
    assume p: "p < Suc d" and ok: "requests_ok T U \<sigma> d ur" and g: "fn_edges g ! p = fn_edges fn ! p"
    show "\<exists>es' ur'. insert_at_pos T \<sigma> d origin es (g, ur) p = Some (g\<lparr>fn_edges := (fn_edges g)[p := es']\<rparr>, ur') \<and>
      edges_repr T d p (E \<union> set es) es' \<and> requests_ok T U \<sigma> d ur' \<and> (\<forall>i. tracked T d i \<longrightarrow>
        ur_delta T ur' i = ur_delta T ur i + edge_count_of es' i - of_bool (origin = Moved) * edge_count_of (fn_edges fn ! p) i)"
      using insert_at_pos_spec[OF lvl Ees' p es orig, of origin g ur] kids_at[OF repr' d(2) p kids'] ok g by simp
  qed
  then show ?thesis using d by (simp add: apply_fn_entry_insertion_def del: upt_Suc)
qed

lemma erasure_spec:
  assumes below: "below_ok T U \<sigma> D" and D: "1 \<le> D" and repr: "fn_repr T D E fn"
    and kids: "2 \<le> D \<Longrightarrow> kids_present T \<sigma> (D - 1) fn" and orig: "origin \<noteq> JustCreated"
    and es: "distinct es" "set es \<subseteq> E" and del: "del_ok U D E es" and left: "2 \<le> card (E - set es)"
    and ok: "2 \<le> D \<Longrightarrow> requests_ok T U \<sigma> (D - 1) ur"
  shows "\<exists>fn' ur'. apply_fn_entry_erasure T \<sigma> D origin es fn ur = Some (fn', ur') \<and> fn_repr T D (E - set es) fn' \<and>
    child_step T U \<sigma> D ur ur' (\<lambda>i. edge_refs fn' i - of_bool (origin = Moved) * edge_refs fn i)"
proof -
  note E = del_okD(1)[OF del]
  have card: "card (E - set es) = card E - length es" "length es \<le> card E"
    using card_Diff_subset[OF _ es(2)] card_mono[OF entries_okD(1)[OF E] es(2)] es(1) by (simp_all add: distinct_card)
  show ?thesis
  proof (cases "D = 1")
    case True
    then show ?thesis using fn1_erase_all_repr[of T E fn es] repr E es fn_size_repr[OF E repr] card left
      by (simp add: entries_ok_def apply_fn_entry_erasure_def child_step_def)
  next
    case False
    then obtain d where d: "D = Suc d" "1 \<le> d" using D by (cases D) auto
    have kids': "kids_present T \<sigma> d fn" and repr': "fn_repr T (Suc d) E fn" and E': "del_ok U (Suc d) E es"
      and ok': "requests_ok T U \<sigma> d ur" and below': "below_ok T U \<sigma> (Suc d)"
      using kids repr del ok below d by auto
    let ?n = "(fn_count fn + 2 ^ 64 - length es) mod 2 ^ 64"
    have n: "?n = card (E - set es)"
    proof -
      have "card E < 2 ^ 64" using entries_okD(5)[OF E] by (simp add: size_max_def)
      moreover have "fn_count fn + 2 ^ 64 - length es = (card E - length es) + 2 ^ 64"
        using fn_reprD(2)[OF repr' d(2)] card(2) by simp
      ultimately show ?thesis using card(1) by simp
    qed
    note loop = node_loop[OF d(2) repr' n, of U \<sigma> "erase_at_pos T \<sigma> d origin es" "origin = Moved", OF _ ok']
    have "\<exists>fn' ur'. foldM (erase_at_pos T \<sigma> d origin es) [0..<Suc d] (fn\<lparr>fn_count := ?n\<rparr>, ur) = Some (fn', ur') \<and>
      fn_repr T (Suc d) (E - set es) fn' \<and>
      child_step T U \<sigma> (Suc d) ur ur' (\<lambda>i. edge_refs fn' i - of_bool (origin = Moved) * edge_refs fn i)"
    proof (rule loop)
      fix g :: "'a full_node" and ur p
      assume p: "p < Suc d" and ok: "requests_ok T U \<sigma> d ur" and g: "fn_edges g ! p = fn_edges fn ! p"
      show "\<exists>es' ur'. erase_at_pos T \<sigma> d origin es (g, ur) p = Some (g\<lparr>fn_edges := (fn_edges g)[p := es']\<rparr>, ur') \<and>
        edges_repr T d p (E - set es) es' \<and> requests_ok T U \<sigma> d ur' \<and> (\<forall>i. tracked T d i \<longrightarrow>
          ur_delta T ur' i = ur_delta T ur i + edge_count_of es' i - of_bool (origin = Moved) * edge_count_of (fn_edges fn ! p) i)"
        using erase_at_pos_spec[OF below' d(2) p E' es orig, of g ur] kids_at[OF repr' d(2) p kids'] ok g by simp
    qed
    moreover have "1 < ?n" using n left by simp
    ultimately show ?thesis using d by (simp add: apply_fn_entry_erasure_def Let_def del: upt_Suc)
  qed
qed

end
