(* ===== verification/Level_Update.thy ===== *)
theory Level_Update
  imports Update_Steps
begin

text \<open>
  Executing the plan of one level keeps the level consistent: afterwards every stored full node
  represents its entries, its reference count has changed by exactly what was requested, and the
  requests for the level below account for every edge gained and lost.
\<close>

subsection \<open>Changes of one level do not affect the others\<close>

lemma find_put_fns [simp]:
  "find_fn (put_fns D m \<sigma>) d i = (if d = D then map_of m i else find_fn \<sigma> d i)"
  "find_sen (put_fns D m \<sigma>) d i = find_sen \<sigma> d i"
  "find_fn (put_sens D w \<sigma>) d i = find_fn \<sigma> d i"
  "find_sen (put_sens D w \<sigma>) d i = (if d = D then map_of w i else find_sen \<sigma> d i)"
  by (simp_all add: find_fn_def find_sen_def)

lemma put_fns_put [simp]: "put_fns D m (put_fns D m' \<sigma>) = put_fns D m \<sigma>"
  by (simp add: put_fns_def)

lemma put_fns_id: "put_fns D (fns \<sigma> D) \<sigma> = \<sigma>"
  by (simp add: put_fns_def)

lemma put_sens_put [simp]: "put_sens D m (put_sens D m' \<sigma>) = put_sens D m \<sigma>"
  by (simp add: put_sens_def)

lemma requests_ok_other_level:
  assumes "\<And>i. find_fn \<sigma>' d i = find_fn \<sigma> d i" "\<And>i. find_sen \<sigma>' d i = find_sen \<sigma> d i"
  shows "requests_ok_upto T U \<sigma>' d X ur = requests_ok_upto T U \<sigma> d X ur"
  unfolding requests_ok_upto_def sen_changes_ok_def sen_change_ok_def fn_updates_ok_def fn_update_ok_def deltas_ok_def assms ..

lemma present_other_level:
  assumes "\<And>i. find_fn \<sigma>' d i = find_fn \<sigma> d i" "\<And>i. find_sen \<sigma>' d i = find_sen \<sigma> d i"
  shows "present T \<sigma>' d c = present T \<sigma> d c" "kids_present T \<sigma>' d fn = kids_present T \<sigma> d fn"
  unfolding kids_present_def present_def ref_of_def assms by (rule refl)+

lemma kids_present_put_fns [simp]: "d < D \<Longrightarrow> kids_present T (put_fns D m \<sigma>) d fn = kids_present T \<sigma> d fn"
  by (rule present_other_level) simp_all

lemma below_ok_put_fns [simp]: "below_ok T U (put_fns D m \<sigma>) D = below_ok T U \<sigma> D"
proof -
  have "level_ok T U (put_fns D m \<sigma>) d = level_ok T U \<sigma> d" if "d < D" for d
    using that by (simp add: level_ok_def)
  moreover have "kids_present T (put_fns D m \<sigma>) d g = kids_present T \<sigma> d g" if "d < D" for d g
    using that by simp
  ultimately show ?thesis unfolding below_ok_def by auto
qed

lemma requests_ok_put_fns [simp]:
  "d < D \<Longrightarrow> requests_ok_upto T U (put_fns D m \<sigma>) d X ur = requests_ok_upto T U \<sigma> d X ur"
  by (rule requests_ok_other_level) simp_all

subsection \<open>Reference counts of changed nodes\<close>

lemma foldM_preserves:
  assumes "foldM f xs s = Some s'" "Q s" "\<And>s x s'. f s x = Some s' \<Longrightarrow> Q s \<Longrightarrow> Q s'"
  shows "Q s'"
  using assms(1,2)
proof (induction xs arbitrary: s)
  case (Cons x xs)
  then show ?case using assms(3) by (auto split: option.splits)
qed simp

lemma insertion_ref:
  assumes "apply_fn_entry_insertion T \<sigma> D origin es fn ur = Some (fn', ur')"
  shows "fn_ref fn' = fn_ref fn"
proof (cases "D = 1")
  case True
  have "fn_ref (foldl (\<lambda>f e. fn1_insert_or_assign f (fst e ! 0) (snd e)) fn es) = fn_ref fn"
    by (induction es arbitrary: fn) (simp_all add: fn1_insert_or_assign_def)
  then show ?thesis using assms True by (auto simp: apply_fn_entry_insertion_def)
next
  case False
  then have loop: "foldM (insert_at_pos T \<sigma> (D - 1) origin es) [0..<D]
      (fn\<lparr>fn_count := (fn_count fn + length es) mod 2 ^ 64\<rparr>, ur) = Some (fn', ur')"
    using assms by (simp add: apply_fn_entry_insertion_def)
  have step: "fn_ref (fst s') = fn_ref fn" if "insert_at_pos T \<sigma> (D - 1) origin es s p = Some s'" "fn_ref (fst s) = fn_ref fn" for s p s'
    using that by (cases s) (auto simp: insert_at_pos_def Let_def bind_eq_Some_conv)
  have "fn_ref (fst (fn', ur')) = fn_ref fn"
    by (rule foldM_preserves[OF loop, where Q = "\<lambda>s. fn_ref (fst s) = fn_ref fn"]) (auto intro: step)
  then show ?thesis by simp
qed

subsection \<open>The invariant of executing a plan\<close>

definition good_node ::
  "'v::zero_neq_one htt \<Rightarrow> 'v entry set set \<Rightarrow> nat \<Rightarrow> node_id \<Rightarrow> 'v full_node \<Rightarrow> bool" where
  "good_node T U D i fn \<longleftrightarrow> (\<exists>E. entries_ok U D E \<and> 2 \<le> card E \<and> i = ident T D E \<and> fn_repr T D E fn)"

definition kids_accounted ::
  "'v::zero_neq_one htt \<Rightarrow> 'v entry set set \<Rightarrow> 'v node_storage \<Rightarrow> nat \<Rightarrow> (node_id \<times> 'v full_node) list \<Rightarrow> 'v update_requests \<Rightarrow> bool" where
  "kids_accounted T U \<sigma> D m ur \<longleftrightarrow> (2 \<le> D \<longrightarrow> requests_ok T U \<sigma> (D - 1) ur \<and>
     (\<forall>i. tracked T (D - 1) i \<longrightarrow> ur_delta T ur i = level_refs m i - level_refs (fns \<sigma> D) i))"

text \<open>\<open>A\<close> are the new nodes built so far, \<open>G\<close> the old ones given up.\<close>

definition building ::
  "'v::zero_neq_one htt \<Rightarrow> 'v entry set set \<Rightarrow> 'v node_storage \<Rightarrow> nat \<Rightarrow> 'v update_plan \<Rightarrow> node_id set \<Rightarrow> node_id set
     \<Rightarrow> (node_id \<times> 'v full_node) list \<Rightarrow> 'v apply_state \<Rightarrow> bool" where
  "building T U \<sigma> D p A G m s \<longleftrightarrow>
     as_storage s = put_fns D m \<sigma> \<and> al_ok m \<and> A \<subseteq> set (as_done s) \<and> set (as_done s) \<subseteq> A \<union> G \<and>
     (\<forall>i \<in> A. \<exists>fn. map_of m i = Some fn \<and> good_node T U D i fn \<and> map_of (up_fn_deltas p) i = Some (fn_ref fn) \<and> 0 < fn_ref fn) \<and>
     (\<forall>i. i \<notin> A \<longrightarrow> map_of m i = (if i \<in> G then None else find_fn \<sigma> D i)) \<and>
     kids_accounted T U \<sigma> D m (as_child s)"

lemma buildingD:
  assumes "building T U \<sigma> D p A G m s"
  shows "as_storage s = put_fns D m \<sigma>"
    "i \<in> A \<Longrightarrow> \<exists>fn. map_of m i = Some fn \<and> good_node T U D i fn \<and> map_of (up_fn_deltas p) i = Some (fn_ref fn) \<and> 0 < fn_ref fn"
    "i \<notin> A \<Longrightarrow> map_of m i = (if i \<in> G then None else find_fn \<sigma> D i)"
  using assms by (simp_all add: building_def)

lemma kids_accounted_step:
  assumes acc: "kids_accounted T U \<sigma> D m ur" and step: "child_step T U \<sigma> D ur ur' change"
    and refs: "\<And>i. level_refs m' i = level_refs m i + change i"
  shows "kids_accounted T U \<sigma> D m' ur'"
  using acc step unfolding kids_accounted_def child_step_def refs by auto

lemma stored_good:
  assumes below: "below_ok T U \<sigma> (Suc D)" and D: "1 \<le> D" and fn: "find_fn \<sigma> D i = Some fn"
  shows "good_node T U D i fn" "0 < fn_ref fn" "2 \<le> D \<Longrightarrow> kids_present T \<sigma> (D - 1) fn"
proof -
  have "fns_ok T U D (fns \<sigma> D)" using level_okD(4)[OF below_okD(1)[OF below D]] by simp
  then show "good_node T U D i fn" "0 < fn_ref fn"
    using fns_okD(2) fn unfolding good_node_def find_fn_def by blast+
  show "kids_present T \<sigma> (D - 1) fn" if "2 \<le> D"
    using below_okD(2)[OF below, of "D - 1" i fn] that fn by simp
qed

lemma child_step_put_fns:
  "child_step T U (put_fns D m \<sigma>) D ur ur' change = child_step T U \<sigma> D ur ur' change"
  by (cases "2 \<le> D") (simp_all add: child_step_def)

lemma create_fn_spec:
  assumes below: "below_ok T U \<sigma> (Suc D)" and D: "1 \<le> D" and b: "building T U \<sigma> D p A G m s"
    and c: "creation_ok T U D (fc_id c) (fc_entries c)" and n: "map_of (up_fn_deltas p) (fc_id c) = Some n" "0 < n"
    and new: "find_fn \<sigma> D (fc_id c) = None" "fc_id c \<notin> A"
  shows "\<exists>s' m'. create_fn T D p s c = Some s' \<and> building T U \<sigma> D p (insert (fc_id c) A) G m' s'"
proof -
  let ?i = "fc_id c" and ?es = "fc_entries c" and ?\<sigma>' = "put_fns D m \<sigma>"
  note b' = b[unfolded building_def]
  have below': "below_ok T U ?\<sigma>' D" using below_okD(3)[OF below, of D] by simp
  have es: "distinct ?es" "entries_ok U D (set ?es)" "2 \<le> card (set ?es)" "?i = ident T D (set ?es)"
    using c by (auto simp: creation_ok_def)
  have absent: "map_of m ?i = None" using b' new by auto
  have ins: "ins_ok U D {} ?es"
    using es entries_ok_empty[OF level_okD(1)[OF below_okD(1)[OF below D]]] by (simp add: ins_ok_def)
  obtain fn ur' where r: "apply_fn_entry_insertion T ?\<sigma>' D JustCreated ?es (new_fn D n) (as_child s) = Some (fn, ur')"
    "fn_repr T D (set ?es) fn" "child_step T U ?\<sigma>' D (as_child s) ur' (\<lambda>i. edge_refs fn i)"
    using ins insertion_spec[OF below' D fn_repr_new[where n = n], where origin = JustCreated and es = ?es and ur = "as_child s"] es b'
    by (auto simp: kids_present_def new_fn_def kids_accounted_def)
  have ref: "fn_ref fn = n" using insertion_ref[OF r(1)] by (simp add: new_fn_def)
  let ?m' = "AList.update ?i fn m"
  let ?s' = "\<lparr>as_storage = put_fns D ?m' \<sigma>, as_child = ur', as_done = ?i # as_done s\<rparr>"
  have "create_fn T D p s c = Some ?s'"
    using b' absent n r(1) by (simp add: create_fn_def Let_def)
  moreover have "kids_accounted T U \<sigma> D ?m' ur'"
  proof (rule kids_accounted_step)
    show "child_step T U \<sigma> D (as_child s) ur' (\<lambda>i. edge_refs fn i)" using r(3) by (simp add: child_step_put_fns)
    show "level_refs ?m' i = level_refs m i + edge_refs fn i" for i
      using level_refs_update[of m ?i fn i] b' absent by simp
  qed (use b' in blast)
  moreover have "good_node T U D ?i fn" using es r(2) by (auto simp: good_node_def)
  ultimately have "building T U \<sigma> D p (insert ?i A) G ?m' ?s'"
    using b' n ref new unfolding building_def by (auto simp: al_simps)
  then show ?thesis using \<open>create_fn T D p s c = Some ?s'\<close> by blast
qed

lemma apply_entries_spec:
  assumes below: "below_ok T U \<sigma> (Suc D)" and D: "1 \<le> D" and u: "planned_update_ok T U \<sigma> D u"
    and acc: "kids_accounted T U \<sigma> D m0 ur" and src: "find_fn \<sigma> D (eu_source u) = Some fn"
    and orig: "origin \<noteq> JustCreated"
  shows "\<exists>fn' ur'. apply_entries T (put_fns D m \<sigma>) D origin (eu_mode u) (eu_entries u) fn ur = Some (fn', ur') \<and>
    good_node T U D (eu_target u) fn' \<and>
    child_step T U \<sigma> D ur ur' (\<lambda>i. edge_refs fn' i - of_bool (origin = Moved) * edge_refs fn i)"
proof -
  note U = level_okD(1)[OF below_okD(1)[OF below D]]
  have below': "below_ok T U (put_fns D m \<sigma>) D" using below_okD(3)[OF below, of D] by simp
  obtain E where E: "entries_ok U D E" "eu_source u = ident T D E" "distinct (eu_entries u)"
    and esok: "entries_ok U D (set (eu_entries u))"
    and upd: "entries_ok U D (update_entries \<lparr>fd_entries = eu_entries u, fd_mode = eu_mode u\<rparr> E)"
      "2 \<le> card (update_entries \<lparr>fd_entries = eu_entries u, fd_mode = eu_mode u\<rparr> E)"
      "eu_target u = ident T D (update_entries \<lparr>fd_entries = eu_entries u, fd_mode = eu_mode u\<rparr> E)"
    and mode: "case eu_mode u of INSERT \<Rightarrow> set (eu_entries u) \<inter> E = {} | ERASE \<Rightarrow> set (eu_entries u) \<subseteq> E"
    using u unfolding planned_update_ok_def fn_update_ok_def fn_entries_data.simps by blast
  have repr: "fn_repr T D E fn"
    using fns_ok_repr(2)[OF U level_okD(4)[OF below_okD(1)[OF below D]] _ E(1)] src E(2) by (simp add: find_fn_def)
  have kids: "2 \<le> D \<Longrightarrow> kids_present T (put_fns D m \<sigma>) (D - 1) fn"
    using stored_good(3)[OF below D src] kids_present_put_fns[of "D - 1" D T m \<sigma> fn] by simp
  have ok: "2 \<le> D \<Longrightarrow> requests_ok T U (put_fns D m \<sigma>) (D - 1) ur"
    using acc by (simp add: kids_accounted_def)
  show ?thesis
  proof (cases "eu_mode u")
    case INSERT
    then show ?thesis
      using insertion_spec[OF below' D repr kids _ E(3) _ _ ok, of origin] mode upd orig esok E(1)
      by (auto simp: ins_ok_def apply_entries_def update_entries_def good_node_def child_step_put_fns)
  next
    case ERASE
    then show ?thesis
      using erasure_spec[OF below' D repr kids orig E(3) _ _ _ ok] mode upd esok E(1)
      by (auto simp: del_ok_def apply_entries_def update_entries_def good_node_def child_step_put_fns)
  qed
qed

lemma copy_update_spec:
  assumes below: "below_ok T U \<sigma> (Suc D)" and D: "1 \<le> D" and b: "building T U \<sigma> D p A {} m s"
    and u: "planned_update_ok T U \<sigma> D u" and n: "map_of (up_fn_deltas p) (eu_target u) = Some n" "0 < n"
    and new: "find_fn \<sigma> D (eu_target u) = None" "eu_target u \<notin> A" and A: "\<forall>i \<in> A. find_fn \<sigma> D i = None"
  shows "\<exists>s' m'. copy_update_fn_to_fn T D p s u = Some s' \<and> building T U \<sigma> D p (insert (eu_target u) A) {} m' s'"
proof -
  let ?i = "eu_target u"
  note b' = b[unfolded building_def]
  obtain src where src: "find_fn \<sigma> D (eu_source u) = Some src"
    using u unfolding planned_update_ok_def fn_update_ok_def by auto
  have srcm: "map_of m (eu_source u) = Some src" using b' src A by (metis empty_iff option.distinct(1))
  have absent: "map_of m ?i = None" using b' new by auto
  obtain fn ur' where r: "apply_entries T (put_fns D m \<sigma>) D Copied (eu_mode u) (eu_entries u) src (as_child s) = Some (fn, ur')"
    "good_node T U D ?i fn" "child_step T U \<sigma> D (as_child s) ur' (\<lambda>i. edge_refs fn i)"
    using apply_entries_spec[OF below D u _ src, of m "as_child s" Copied m] b' by auto
  let ?m' = "AList.update ?i (fn\<lparr>fn_ref := n\<rparr>) m"
  let ?s' = "\<lparr>as_storage = put_fns D ?m' \<sigma>, as_child = ur', as_done = ?i # as_done s\<rparr>"
  have run: "copy_update_fn_to_fn T D p s u = Some ?s'"
    using b' srcm absent n r(1) by (simp add: copy_update_fn_to_fn_def Let_def)
  moreover have "kids_accounted T U \<sigma> D ?m' ur'"
  proof (rule kids_accounted_step[OF _ r(3)])
    show "level_refs ?m' i = level_refs m i + edge_refs fn i" for i
      using level_refs_update[of m ?i "fn\<lparr>fn_ref := n\<rparr>" i] b' absent by simp
  qed (use b' in blast)
  moreover have "good_node T U D ?i (fn\<lparr>fn_ref := n\<rparr>)" using r(2) by (simp add: good_node_def)
  ultimately have "building T U \<sigma> D p (insert ?i A) {} ?m' ?s'"
    using b' n new unfolding building_def by (auto simp: al_simps)
  then show ?thesis using run by blast
qed

lemma move_update_spec:
  assumes below: "below_ok T U \<sigma> (Suc D)" and D: "1 \<le> D" and b: "building T U \<sigma> D p A G m s"
    and u: "planned_update_ok T U \<sigma> D u" and n: "map_of (up_fn_deltas p) (eu_target u) = Some n" "0 < n"
    and new: "find_fn \<sigma> D (eu_target u) = None" "eu_target u \<notin> A" and A: "\<forall>i \<in> A. find_fn \<sigma> D i = None"
    and G: "eu_source u \<notin> G"
  shows "\<exists>s' m'. move_update_fn_to_fn T D p s u = Some s' \<and>
    building T U \<sigma> D p (insert (eu_target u) A) (insert (eu_source u) G) m' s'"
proof -
  let ?i = "eu_target u" and ?j = "eu_source u"
  note b' = b[unfolded building_def]
  obtain src where src: "find_fn \<sigma> D ?j = Some src"
    using u unfolding planned_update_ok_def fn_update_ok_def by auto
  have jA: "?j \<notin> A" using A src by auto
  have srcm: "map_of m ?j = Some src" using b' src jA G by auto
  have absent: "map_of m ?i = None" using b' new by auto
  have ij: "?i \<noteq> ?j" using src new by auto
  obtain fn ur' where r: "apply_entries T (put_fns D m \<sigma>) D Moved (eu_mode u) (eu_entries u) src (as_child s) = Some (fn, ur')"
    "good_node T U D ?i fn" "child_step T U \<sigma> D (as_child s) ur' (\<lambda>i. edge_refs fn i - edge_refs src i)"
    using apply_entries_spec[OF below D u _ src, of m "as_child s" Moved m] b' by auto
  let ?m' = "AList.update ?i (fn\<lparr>fn_ref := n\<rparr>) (AList.delete ?j m)"
  let ?s' = "\<lparr>as_storage = put_fns D ?m' \<sigma>, as_child = ur', as_done = ?i # ?j # as_done s\<rparr>"
  have run: "move_update_fn_to_fn T D p s u = Some ?s'"
    using b' srcm absent n r(1) by (simp add: move_update_fn_to_fn_def Let_def)
  have al: "al_ok m" using b' by blast
  note find = al.find_move[OF al ij[symmetric], of "fn\<lparr>fn_ref := n\<rparr>"] and inv = al.invar_move[OF al]
  have kids: "kids_accounted T U \<sigma> D ?m' ur'"
  proof (rule kids_accounted_step[OF _ r(3)])
    show "level_refs ?m' i = level_refs m i + (edge_refs fn i - edge_refs src i)" for i
      using level_refs_update[of "AList.delete ?j m" ?i "fn\<lparr>fn_ref := n\<rparr>" i] level_refs_delete[OF al, of ?j i] al srcm absent ij
      by (simp add: al_simps)
  qed (use b' in blast)
  have "good_node T U D ?i (fn\<lparr>fn_ref := n\<rparr>)" using r(2) by (simp add: good_node_def)
  then have "building T U \<sigma> D p (insert ?i A) (insert ?j G) ?m' ?s'"
    using b' n new jA ij kids inv unfolding building_def find by auto
  then show ?thesis using run by blast
qed

lemma release_all_spec:
  assumes lvl: "level_ok T U \<sigma> d"
  shows "requests_ok T U \<sigma> d ur \<Longrightarrow> \<forall>es \<in> set ess. \<forall>c \<in> snd ` set es. live_child T U \<sigma> d c \<Longrightarrow>
    requests_ok T U \<sigma> d (foldl (\<lambda>ur es. release_children T d es ur) ur ess) \<and>
    (\<forall>i. tracked T d i \<longrightarrow> ur_delta T (foldl (\<lambda>ur es. release_children T d es ur) ur ess) i
      = ur_delta T ur i - (\<Sum>es\<leftarrow>ess. edge_count_of es i))"
proof (induction ess arbitrary: ur)
  case (Cons es ess)
  have live: "\<forall>c \<in> snd ` set es. live_child T U \<sigma> d c" using Cons.prems(2) by simp
  note step = release_children_spec[OF lvl Cons.prems(1) live]
  show ?case using Cons.IH[of "release_children T d es ur"] Cons.prems(2) step by simp
qed simp

lemma good_node_live:
  assumes below: "below_ok T U \<sigma> (Suc D)" and D: "2 \<le> D" and fn: "find_fn \<sigma> D i = Some fn"
  shows "\<forall>es \<in> set (fn_edges fn). \<forall>c \<in> snd ` set es. live_child T U \<sigma> (D - 1) c"
proof
  fix es assume es: "es \<in> set (fn_edges fn)"
  have d: "1 \<le> D - 1" "D = Suc (D - 1)" using D by auto
  obtain E where E: "entries_ok U D E" "fn_repr T D E fn"
    using stored_good(1)[OF below _ fn] D unfolding good_node_def by auto
  have repr: "fn_repr T (Suc (D - 1)) E fn" and E': "entries_ok U (Suc (D - 1)) E" using E d(2) by simp_all
  have U: "universe_ok T U" using level_okD(1)[OF below_okD(1)[OF below, of D]] D by simp
  obtain p where p: "p < Suc (D - 1)" "es = fn_edges fn ! p"
    using es fn_reprD(1)[OF repr d(1)] by (metis in_set_conv_nth)
  have kids: "kids_present T \<sigma> (D - 1) fn" using stored_good(3)[OF below _ fn D] D by simp
  show "\<forall>c \<in> snd ` set es. live_child T U \<sigma> (D - 1) c"
    using edges_live(1)[OF U E' d(1) p(1)] kids_at[OF repr d(1) p(1) kids] p(2) by blast
qed

lemma delete_fn_spec:
  assumes below: "below_ok T U \<sigma> (Suc D)" and D: "1 \<le> D" and b: "building T U \<sigma> D p A G m s"
    and fn: "find_fn \<sigma> D i = Some fn" and i: "i \<notin> A" "i \<notin> G"
  shows "\<exists>s' m'. delete_fn T D s i = Some s' \<and> building T U \<sigma> D p A (insert i G) m' s'"
proof -
  note b' = b[unfolded building_def]
  have fnm: "map_of m i = Some fn" and al: "al_ok m" using b' fn i by auto
  let ?ur = "if 1 < D then foldl (\<lambda>ur edges. release_children T (D - 1) edges ur) (as_child s) (fn_edges fn) else as_child s"
  let ?m' = "AList.delete i m"
  let ?s' = "s\<lparr>as_storage := put_fns D ?m' \<sigma>, as_child := ?ur\<rparr>"
  have run: "delete_fn T D s i = Some ?s'" using b' fnm by (simp add: delete_fn_def Let_def)
  have "child_step T U \<sigma> D (as_child s) ?ur (\<lambda>c. - edge_refs fn c)"
    unfolding child_step_def
  proof (intro impI)
    assume D2: "2 \<le> D" and ok: "requests_ok T U \<sigma> (D - 1) (as_child s)"
    have lvl: "level_ok T U \<sigma> (D - 1)" using below_okD(1)[OF below, of "D - 1"] D2 by simp
    show "requests_ok T U \<sigma> (D - 1) ?ur \<and>
        (\<forall>c. tracked T (D - 1) c \<longrightarrow> ur_delta T ?ur c = ur_delta T (as_child s) c + - edge_refs fn c)"
      using release_all_spec[OF lvl ok good_node_live[OF below D2 fn]] D2 by (simp add: edge_refs_sum)
  qed
  then have kids: "kids_accounted T U \<sigma> D ?m' ?ur"
  proof (rule kids_accounted_step[rotated])
    show "level_refs ?m' c = level_refs m c + - edge_refs fn c" for c
      using level_refs_delete[OF al, of i c] fnm by simp
  qed (use b' in blast)
  have "building T U \<sigma> D p A (insert i G) ?m' ?s'"
    unfolding building_def using b' kids al i by (auto simp: al_simps)
  then show ?thesis using run by blast
qed

lemma apply_deltas_spec:
  assumes b: "building T U \<sigma> D p A G m s" and al: "al_ok (up_fn_deltas p)"
    and keys: "\<And>i n. map_of (up_fn_deltas p) i = Some n \<Longrightarrow> i \<notin> A \<Longrightarrow>
      i \<notin> G \<and> (\<exists>fn. find_fn \<sigma> D i = Some fn \<and> 0 < fn_ref fn + n)"
  defines "bump \<equiv> (\<lambda>i fn. fn\<lparr>fn_ref := fn_ref fn + (case map_of (up_fn_deltas p) i of None \<Rightarrow> 0 | Some n \<Rightarrow> n)\<rparr>)"
  shows "\<exists>s' m'. foldM (apply_fn_delta D) (up_fn_deltas p) s = Some s' \<and> as_storage s' = put_fns D m' \<sigma> \<and> al_ok m' \<and>
    (\<forall>i. map_of m' i = (if i \<in> A then map_of m i else map_option (bump i) (map_of m i))) \<and>
    kids_accounted T U \<sigma> D m' (as_child s')"
proof -
  note b' = b[unfolded building_def]
  let ?P = "\<lambda>ps s'. \<exists>m'. as_storage s' = put_fns D m' \<sigma> \<and> al_ok m' \<and> as_child s' = as_child s \<and>
    set (as_done s') = set (as_done s) \<union> set (keys_of ps) \<and>
    (\<forall>i. map_of m' i = (if i \<notin> A \<and> i \<in> set (keys_of ps) then map_option (bump i) (map_of m i) else map_of m i)) \<and>
    (\<forall>c. level_refs m' c = level_refs m c)"
  have "\<exists>s'. foldM (apply_fn_delta D) (up_fn_deltas p) s = Some s' \<and> ?P (up_fn_deltas p) s'"
  proof (rule foldM_rule[of ?P])
    show "?P [] s" using b' by (intro exI[of _ m]) auto
    fix ps q qs and s' :: "'a apply_state"
    assume split: "up_fn_deltas p = ps @ q # qs" and "?P ps s'"
    then obtain m' where P: "as_storage s' = put_fns D m' \<sigma>" "al_ok m'" "as_child s' = as_child s"
      "set (as_done s') = set (as_done s) \<union> set (keys_of ps)"
      "\<forall>i. map_of m' i = (if i \<notin> A \<and> i \<in> set (keys_of ps) then map_option (bump i) (map_of m i) else map_of m i)"
      "\<forall>c. level_refs m' c = level_refs m c" by blast
    obtain i n where q: "q = (i, n)" by (cases q)
    have d: "map_of (up_fn_deltas p) i = Some n" using al_mem_iff[OF al, of i n] split q by simp
    have ips: "i \<notin> set (keys_of ps)" using al split q by auto
    show "\<exists>s''. apply_fn_delta D s' q = Some s'' \<and> ?P (ps @ [q]) s''"
    proof (cases "i \<in> A")
      case True
      then have "i \<in> set (as_done s')" using P(4) b' by auto
      then have "apply_fn_delta D s' q = Some s'" using q by (simp add: apply_fn_delta_def)
      moreover have "?P (ps @ [q]) s'"
        using P True q \<open>i \<in> set (as_done s')\<close> by (intro exI[of _ m']) auto
      ultimately show ?thesis by blast
    next
      case False
      then obtain fn where fn: "find_fn \<sigma> D i = Some fn" "0 < fn_ref fn + n" "i \<notin> G" using keys[OF d] by blast
      have nd: "i \<notin> set (as_done s')" using P(4) b' False fn(3) ips by auto
      have mi: "map_of m i = Some fn" "map_of m' i = Some fn" using b' False fn P(5) ips by auto
      let ?m = "AList.update i (fn\<lparr>fn_ref := fn_ref fn + n\<rparr>) m'"
      let ?s = "s'\<lparr>as_storage := put_fns D ?m \<sigma>, as_done := i # as_done s'\<rparr>"
      have "apply_fn_delta D s' q = Some ?s"
        using q nd mi P(1) fn(2) by (simp add: apply_fn_delta_def Let_def)
      moreover have "?P (ps @ [q]) ?s"
      proof (intro exI[of _ ?m] conjI allI)
        show "map_of ?m j = (if j \<notin> A \<and> j \<in> set (keys_of (ps @ [q])) then map_option (bump j) (map_of m j) else map_of m j)" for j
          using P(5) mi False d q by (auto simp: al_simps bump_def)
        show "level_refs ?m c = level_refs m c" for c
          using level_refs_update[OF P(2), of i "fn\<lparr>fn_ref := fn_ref fn + n\<rparr>" c] mi P(6) by simp
      qed (use P q in auto)
      ultimately show ?thesis by blast
    qed
  qed
  then obtain s' m' where r: "foldM (apply_fn_delta D) (up_fn_deltas p) s = Some s'" "as_storage s' = put_fns D m' \<sigma>" "al_ok m'"
    "as_child s' = as_child s"
    "\<forall>i. map_of m' i = (if i \<notin> A \<and> i \<in> set (keys_of (up_fn_deltas p)) then map_option (bump i) (map_of m i) else map_of m i)"
    "\<forall>c. level_refs m' c = level_refs m c" by blast
  have "kids_accounted T U \<sigma> D m' (as_child s')" using b' r(4,6) by (simp add: kids_accounted_def)
  moreover have "map_of m' i = (if i \<in> A then map_of m i else map_option (bump i) (map_of m i))" for i
  proof (cases "i \<in> set (keys_of (up_fn_deltas p))")
    case False
    then have "map_of (up_fn_deltas p) i = None" by (simp only: al_find_None_iff not_False_eq_True)
    then show ?thesis using r(5) False by (cases "map_of m i") (auto simp: bump_def)
  qed (use r(5) in auto)
  ultimately show ?thesis using r(1-3) by blast
qed

subsection \<open>Executing the plan for the full nodes\<close>

lemma plan_okD:
  assumes "plan_ok T U \<sigma> d ur p"
  shows "distinct (plan_targets_of p)"
    "set (plan_targets_of p) = {i \<in> set (ur_fn_new ur). find_fn \<sigma> d i = None}"
    "c \<in> set (up_fn_create p) \<Longrightarrow> creation_ok T U d (fc_id c) (fc_entries c)"
    "u \<in> set (up_fn_update_copy p) \<Longrightarrow> planned_update_ok T U \<sigma> d u"
    "u \<in> set (up_fn_update_move p) \<Longrightarrow> planned_update_ok T U \<sigma> d u"
    "distinct (map eu_source (up_fn_update_move p))" "distinct (up_fn_delete p)"
    "set (map eu_source (up_fn_update_move p)) \<inter> set (up_fn_delete p) = {}"
    "set (map eu_source (up_fn_update_move p)) \<union> set (up_fn_delete p) = dying T \<sigma> d ur"
    "al_ok (up_fn_deltas p)"
    "map_of (up_fn_deltas p) i = (if i \<in> set (ur_fn_deletion_candidates ur) \<and> (ur_delta T ur i = 0 \<or> i \<in> dying T \<sigma> d ur)
       then None else map_of (ur_fn_deltas ur) i)"
    "up_sen_changes p = filter (\<lambda>(i, c). sc_delta c \<noteq> 0) (ur_sen_changes ur)"
  using assms unfolding plan_ok_def by auto

lemma plan_target_new:
  assumes plan: "plan_ok T U \<sigma> d ur p" and ok: "requests_ok T U \<sigma> d ur" and t: "t \<in> set (plan_targets_of p)"
  shows "find_fn \<sigma> d t = None" "is_fn T t" "map_of (up_fn_deltas p) t = Some (ur_delta T ur t)" "0 < ur_delta T ur t"
proof -
  have tn: "t \<in> set (ur_fn_new ur)" "find_fn \<sigma> d t = None" using t plan_okD(2)[OF plan] by auto
  note dok = requests_okD(5)[OF ok, unfolded deltas_ok_def]
  obtain n where n: "map_of (ur_fn_deltas ur) t = Some n" and fn: "is_fn T t" using dok tn(1) by blast
  have nc: "t \<notin> set (ur_fn_deletion_candidates ur)" using dok tn(2) by blast
  have "0 < n" using dok n nc by blast
  moreover have "ur_delta T ur t = n" using fn n by (simp add: ur_delta_def)
  ultimately show "map_of (up_fn_deltas p) t = Some (ur_delta T ur t)" "0 < ur_delta T ur t"
    using plan_okD(11)[OF plan, of t] nc n by simp_all
  show "find_fn \<sigma> d t = None" "is_fn T t" by fact+
qed

lemma plan_delta_old:
  assumes plan: "plan_ok T U \<sigma> d ur p" and ok: "requests_ok T U \<sigma> d ur" and lvl: "level_ok T U \<sigma> d"
    and nn: "\<And>i. is_fn T i \<Longrightarrow> 0 \<le> ref_of T \<sigma> d i + ur_delta T ur i"
    and n: "map_of (up_fn_deltas p) i = Some n" and i: "i \<notin> set (plan_targets_of p)"
  shows "i \<notin> dying T \<sigma> d ur" "\<exists>fn. find_fn \<sigma> d i = Some fn \<and> 0 < fn_ref fn + n"
proof -
  note dok = requests_okD(5)[OF ok, unfolded deltas_ok_def]
  have n': "map_of (ur_fn_deltas ur) i = Some n"
    and nd: "\<not> (i \<in> set (ur_fn_deletion_candidates ur) \<and> (ur_delta T ur i = 0 \<or> i \<in> dying T \<sigma> d ur))"
    using plan_okD(11)[OF plan, of i] n by (auto split: if_splits)
  then show nd': "i \<notin> dying T \<sigma> d ur" by (auto simp: dying_def)
  have d1: "is_fn T i \<and> (find_fn \<sigma> d i \<noteq> None \<or> i \<in> set (ur_fn_new ur)) \<and>
      (i \<in> set (ur_fn_deletion_candidates ur) \<or> 0 < n)" using dok n' by blast
  then have fn: "is_fn T i" by blast
  have "i \<notin> {i \<in> set (ur_fn_new ur). find_fn \<sigma> d i = None}" using i unfolding plan_okD(2)[OF plan] .
  then have "find_fn \<sigma> d i \<noteq> None" using d1 by auto
  then obtain g where g: "find_fn \<sigma> d i = Some g" by auto
  have refs: "ref_of T \<sigma> d i = fn_ref g" "ur_delta T ur i = n" using fn g n' by (simp_all add: ref_of_def ur_delta_def)
  have "0 < fn_ref g" using fns_okD(2)[OF level_okD(4)[OF lvl]] g by (auto simp: find_fn_def)
  moreover have "i \<in> set (ur_fn_deletion_candidates ur) \<or> 0 < n" using d1 by blast
  moreover have "fn_ref g + n \<noteq> 0" if "i \<in> set (ur_fn_deletion_candidates ur)"
    using that nd' refs by (simp add: dying_def)
  ultimately have "0 < fn_ref g + n" using nn[OF fn] refs by (cases "0 < n") auto
  then show "\<exists>fn. find_fn \<sigma> d i = Some fn \<and> 0 < fn_ref fn + n" using g by blast
qed

lemma execute_phases:
  assumes below: "below_ok T U \<sigma> (Suc D)" and D: "1 \<le> D" and plan: "plan_ok T U \<sigma> D ur p"
    and ok: "requests_ok T U \<sigma> D ur"
  shows "\<exists>s1 s2 s3 s4 m. foldM (create_fn T D p) (up_fn_create p) \<lparr>as_storage = \<sigma>, as_child = empty_requests, as_done = []\<rparr> = Some s1 \<and>
    foldM (copy_update_fn_to_fn T D p) (up_fn_update_copy p) s1 = Some s2 \<and>
    foldM (move_update_fn_to_fn T D p) (up_fn_update_move p) s2 = Some s3 \<and>
    foldM (delete_fn T D) (up_fn_delete p) s3 = Some s4 \<and>
    building T U \<sigma> D p (set (plan_targets_of p)) (dying T \<sigma> D ur) m s4"
proof -
  let ?tc = "map fc_id (up_fn_create p)" and ?tu = "map eu_target (up_fn_update_copy p)" and ?tm = "map eu_target (up_fn_update_move p)"
  have dist: "distinct (?tc @ ?tu @ ?tm)" using plan_okD(1)[OF plan] by (simp add: plan_targets_of_def)
  have tgt: "find_fn \<sigma> D t = None \<and> (\<exists>n. map_of (up_fn_deltas p) t = Some n \<and> 0 < n)" if "t \<in> set (?tc @ ?tu @ ?tm)" for t
    using plan_target_new[OF plan ok, of t] that by (auto simp: plan_targets_of_def)
  let ?s0 = "\<lparr>as_storage = \<sigma>, as_child = empty_requests, as_done = []\<rparr>"
  have "\<exists>s. foldM (create_fn T D p) (up_fn_create p) ?s0 = Some s \<and>
      (\<exists>m. building T U \<sigma> D p (set (map fc_id (up_fn_create p))) {} m s)"
  proof (rule foldM_rule[of "\<lambda>cs s. \<exists>m. building T U \<sigma> D p (set (map fc_id cs)) {} m s"])
    have "al_ok (fns \<sigma> D)" using fns_okD(1)[OF level_okD(4)[OF below_okD(1)[OF below D]]] by simp
    then show "\<exists>m. building T U \<sigma> D p (set (map fc_id [])) {} m ?s0"
      by (intro exI[of _ "fns \<sigma> D"]) (simp add: building_def put_fns_id kids_accounted_def requests_ok_empty ur_delta_empty find_fn_def)
    fix cs c cs' s
    assume split: "up_fn_create p = cs @ c # cs'" and "\<exists>m. building T U \<sigma> D p (set (map fc_id cs)) {} m s"
    then obtain m where b: "building T U \<sigma> D p (set (map fc_id cs)) {} m s" by blast
    have c: "c \<in> set (up_fn_create p)" "fc_id c \<notin> set (map fc_id cs)" using split dist by auto
    obtain n where n: "find_fn \<sigma> D (fc_id c) = None" "map_of (up_fn_deltas p) (fc_id c) = Some n" "0 < n"
      using tgt[of "fc_id c"] c(1) by auto
    show "\<exists>s'. create_fn T D p s c = Some s' \<and> (\<exists>m. building T U \<sigma> D p (set (map fc_id (cs @ [c]))) {} m s')"
      using create_fn_spec[OF below D b plan_okD(3)[OF plan c(1)] n(2,3,1) c(2)] by simp
  qed
  then obtain s1 m1 where s1: "foldM (create_fn T D p) (up_fn_create p) ?s0 = Some s1" "building T U \<sigma> D p (set ?tc) {} m1 s1"
    by blast
  have "\<exists>s. foldM (copy_update_fn_to_fn T D p) (up_fn_update_copy p) s1 = Some s \<and>
      (\<exists>m. building T U \<sigma> D p (set ?tc \<union> set (map eu_target (up_fn_update_copy p))) {} m s)"
  proof (rule foldM_rule[of "\<lambda>us s. \<exists>m. building T U \<sigma> D p (set ?tc \<union> set (map eu_target us)) {} m s"])
    show "\<exists>m. building T U \<sigma> D p (set ?tc \<union> set (map eu_target [])) {} m s1" using s1(2) by auto
    fix us u us' s
    assume split: "up_fn_update_copy p = us @ u # us'"
      and "\<exists>m. building T U \<sigma> D p (set ?tc \<union> set (map eu_target us)) {} m s"
    then obtain m where b: "building T U \<sigma> D p (set ?tc \<union> set (map eu_target us)) {} m s" by blast
    have u: "u \<in> set (up_fn_update_copy p)" "eu_target u \<notin> set ?tc \<union> set (map eu_target us)" using split dist by auto
    have A: "\<forall>i \<in> set ?tc \<union> set (map eu_target us). find_fn \<sigma> D i = None"
      using tgt split by auto
    obtain n where n: "find_fn \<sigma> D (eu_target u) = None" "map_of (up_fn_deltas p) (eu_target u) = Some n" "0 < n"
      using tgt[of "eu_target u"] u(1) by auto
    show "\<exists>s'. copy_update_fn_to_fn T D p s u = Some s' \<and>
        (\<exists>m. building T U \<sigma> D p (set ?tc \<union> set (map eu_target (us @ [u]))) {} m s')"
      using copy_update_spec[OF below D b plan_okD(4)[OF plan u(1)] n(2,3,1) u(2) A] by auto
  qed
  then obtain s2 m2 where s2: "foldM (copy_update_fn_to_fn T D p) (up_fn_update_copy p) s1 = Some s2"
    "building T U \<sigma> D p (set ?tc \<union> set ?tu) {} m2 s2" by blast
  have "\<exists>s. foldM (move_update_fn_to_fn T D p) (up_fn_update_move p) s2 = Some s \<and>
      (\<exists>m. building T U \<sigma> D p (set ?tc \<union> set ?tu \<union> set (map eu_target (up_fn_update_move p)))
         (set (map eu_source (up_fn_update_move p))) m s)"
  proof (rule foldM_rule[of "\<lambda>us s. \<exists>m. building T U \<sigma> D p (set ?tc \<union> set ?tu \<union> set (map eu_target us)) (set (map eu_source us)) m s"])
    show "\<exists>m. building T U \<sigma> D p (set ?tc \<union> set ?tu \<union> set (map eu_target [])) (set (map eu_source [])) m s2" using s2(2) by auto
    fix us u us' s
    assume split: "up_fn_update_move p = us @ u # us'"
      and "\<exists>m. building T U \<sigma> D p (set ?tc \<union> set ?tu \<union> set (map eu_target us)) (set (map eu_source us)) m s"
    then obtain m where b: "building T U \<sigma> D p (set ?tc \<union> set ?tu \<union> set (map eu_target us)) (set (map eu_source us)) m s" by blast
    have u: "u \<in> set (up_fn_update_move p)" "eu_target u \<notin> set ?tc \<union> set ?tu \<union> set (map eu_target us)"
      "eu_source u \<notin> set (map eu_source us)" using split dist plan_okD(6)[OF plan] by auto
    have A: "\<forall>i \<in> set ?tc \<union> set ?tu \<union> set (map eu_target us). find_fn \<sigma> D i = None"
      using tgt split by auto
    obtain n where n: "find_fn \<sigma> D (eu_target u) = None" "map_of (up_fn_deltas p) (eu_target u) = Some n" "0 < n"
      using tgt[of "eu_target u"] u(1) by auto
    show "\<exists>s'. move_update_fn_to_fn T D p s u = Some s' \<and>
        (\<exists>m. building T U \<sigma> D p (set ?tc \<union> set ?tu \<union> set (map eu_target (us @ [u]))) (set (map eu_source (us @ [u]))) m s')"
      using move_update_spec[OF below D b plan_okD(5)[OF plan u(1)] n(2,3,1) u(2) A u(3)] by auto
  qed
  then obtain s3 m3 where s3: "foldM (move_update_fn_to_fn T D p) (up_fn_update_move p) s2 = Some s3"
    "building T U \<sigma> D p (set (plan_targets_of p)) (set (map eu_source (up_fn_update_move p))) m3 s3"
    by (auto simp: plan_targets_of_def Un_assoc)
  have "\<exists>s. foldM (delete_fn T D) (up_fn_delete p) s3 = Some s \<and>
      (\<exists>m. building T U \<sigma> D p (set (plan_targets_of p)) (set (map eu_source (up_fn_update_move p)) \<union> set (up_fn_delete p)) m s)"
  proof (rule foldM_rule[of "\<lambda>is s. \<exists>m. building T U \<sigma> D p (set (plan_targets_of p)) (set (map eu_source (up_fn_update_move p)) \<union> set is) m s"])
    show "\<exists>m. building T U \<sigma> D p (set (plan_targets_of p)) (set (map eu_source (up_fn_update_move p)) \<union> set []) m s3" using s3(2) by auto
    fix js i is' s
    assume split: "up_fn_delete p = js @ i # is'"
      and "\<exists>m. building T U \<sigma> D p (set (plan_targets_of p)) (set (map eu_source (up_fn_update_move p)) \<union> set js) m s"
    then obtain m where b: "building T U \<sigma> D p (set (plan_targets_of p)) (set (map eu_source (up_fn_update_move p)) \<union> set js) m s" by blast
    have i: "i \<in> set (up_fn_delete p)" "i \<notin> set js" using split plan_okD(7)[OF plan] by auto
    then have iG: "i \<notin> set (map eu_source (up_fn_update_move p)) \<union> set js" using plan_okD(8)[OF plan] by blast
    have "i \<in> set (ur_fn_deletion_candidates ur)" using i(1) plan_okD(9)[OF plan] by (auto simp: dying_def)
    then obtain fn where fn: "find_fn \<sigma> D i = Some fn"
      using requests_okD(5)[OF ok] unfolding deltas_ok_def by blast
    then have iA: "i \<notin> set (plan_targets_of p)" using plan_target_new(1)[OF plan ok] by force
    show "\<exists>s'. delete_fn T D s i = Some s' \<and>
        (\<exists>m. building T U \<sigma> D p (set (plan_targets_of p)) (set (map eu_source (up_fn_update_move p)) \<union> set (js @ [i])) m s')"
      using delete_fn_spec[OF below D b fn iA iG] by auto
  qed
  then obtain s4 m4 where s4: "foldM (delete_fn T D) (up_fn_delete p) s3 = Some s4"
    "building T U \<sigma> D p (set (plan_targets_of p)) (dying T \<sigma> D ur) m4 s4"
    using plan_okD(9)[OF plan] by auto
  show ?thesis using s1(1) s2(1) s3(1) s4 by blast
qed

lemma execute_fns_spec:
  assumes below: "below_ok T U \<sigma> (Suc D)" and D: "1 \<le> D" and plan: "plan_ok T U \<sigma> D ur p"
    and ok: "requests_ok T U \<sigma> D ur" and nn: "\<And>i. is_fn T i \<Longrightarrow> 0 \<le> ref_of T \<sigma> D i + ur_delta T ur i"
  shows "\<exists>s m. execute_fns T D p \<sigma> = Some s \<and> as_storage s = put_fns D m \<sigma> \<and> fns_ok T U D m \<and>
    (\<forall>i. is_fn T i \<longrightarrow> (case map_of m i of None \<Rightarrow> 0 | Some fn \<Rightarrow> fn_ref fn) = ref_of T \<sigma> D i + ur_delta T ur i) \<and>
    kids_accounted T U \<sigma> D m (as_child s)"
proof -
  have lvl: "level_ok T U \<sigma> D" using below_okD(1)[OF below D] by simp
  let ?A = "set (plan_targets_of p)" and ?G = "dying T \<sigma> D ur"
  obtain s1 s2 s3 s4 m where ph: "foldM (create_fn T D p) (up_fn_create p) \<lparr>as_storage = \<sigma>, as_child = empty_requests, as_done = []\<rparr> = Some s1"
    "foldM (copy_update_fn_to_fn T D p) (up_fn_update_copy p) s1 = Some s2"
    "foldM (move_update_fn_to_fn T D p) (up_fn_update_move p) s2 = Some s3"
    "foldM (delete_fn T D) (up_fn_delete p) s3 = Some s4" and b: "building T U \<sigma> D p ?A ?G m s4"
    using execute_phases[OF below D plan ok] by blast
  note old = plan_delta_old[OF plan ok lvl nn]
  have keys: "i \<notin> ?G \<and> (\<exists>fn. find_fn \<sigma> D i = Some fn \<and> 0 < fn_ref fn + n)"
    if "map_of (up_fn_deltas p) i = Some n" "i \<notin> ?A" for i n
    using old(1,2)[OF _ that] by blast
  obtain s m' where r: "foldM (apply_fn_delta D) (up_fn_deltas p) s4 = Some s" "as_storage s = put_fns D m' \<sigma>" "al_ok m'"
    "\<forall>i. map_of m' i = (if i \<in> ?A then map_of m i
       else map_option (\<lambda>fn. fn\<lparr>fn_ref := fn_ref fn + (case map_of (up_fn_deltas p) i of None \<Rightarrow> 0 | Some n \<Rightarrow> n)\<rparr>) (map_of m i))"
    "kids_accounted T U \<sigma> D m' (as_child s)"
  proof -
    note spec = apply_deltas_spec[OF b plan_okD(10)[OF plan], OF keys, simplified]
    show ?thesis using spec by (elim exE conjE) (rule that)
  qed
  have run: "execute_fns T D p \<sigma> = Some s" by (simp only: execute_fns_def ph r(1) Option.bind.simps)
  have new: "\<exists>fn. map_of m' i = Some fn \<and> good_node T U D i fn \<and> 0 < fn_ref fn \<and> fn_ref fn = ur_delta T ur i \<and> find_fn \<sigma> D i = None"
    if iA: "i \<in> ?A" for i
  proof -
    obtain fn where fn: "map_of m i = Some fn" "good_node T U D i fn" "map_of (up_fn_deltas p) i = Some (fn_ref fn)" "0 < fn_ref fn"
      using buildingD(2)[OF b iA] by blast
    moreover have "map_of m' i = map_of m i" using r(4) iA by simp
    ultimately show ?thesis using plan_target_new[OF plan ok iA] by simp
  qed
  have kept: "map_of m' i = (if i \<in> ?G then None else map_option (\<lambda>fn. fn\<lparr>fn_ref := fn_ref fn +
      (case map_of (up_fn_deltas p) i of None \<Rightarrow> 0 | Some n \<Rightarrow> n)\<rparr>) (find_fn \<sigma> D i))" if "i \<notin> ?A" for i
    using buildingD(3)[OF b that] r(4) that by auto
  have "fns_ok T U D m'"
    unfolding fns_ok_def
  proof (intro conjI allI impI)
    fix i fn assume fn: "map_of m' i = Some fn"
    show "\<exists>E. entries_ok U D E \<and> 2 \<le> card E \<and> i = ident T D E \<and> fn_repr T D E fn \<and> 0 < fn_ref fn"
    proof (cases "i \<in> ?A")
      case True
      then show ?thesis using new[OF True] fn unfolding good_node_def by auto
    next
      case False
      obtain g where g: "find_fn \<sigma> D i = Some g"
        "fn = g\<lparr>fn_ref := fn_ref g + (case map_of (up_fn_deltas p) i of None \<Rightarrow> 0 | Some n \<Rightarrow> n)\<rparr>"
        using kept[OF False] fn by (cases "find_fn \<sigma> D i"; cases "i \<in> ?G") simp_all
      have "0 < fn_ref fn"
        using stored_good(2)[OF below D g(1)] old(2)[of i _] False g by (cases "map_of (up_fn_deltas p) i") auto
      then show ?thesis using stored_good(1)[OF below D g(1)] g(2) unfolding good_node_def by auto
    qed
  qed (rule r(3))
  moreover have "(case map_of m' i of None \<Rightarrow> 0 | Some fn \<Rightarrow> fn_ref fn) = ref_of T \<sigma> D i + ur_delta T ur i" if fn: "is_fn T i" for i
  proof (cases "i \<in> ?A")
    case True
    then show ?thesis using new[OF True] fn by (auto simp: ref_of_def)
  next
    case False
    note dok = requests_okD(5)[OF ok, unfolded deltas_ok_def]
    have delta: "ur_delta T ur i = (case map_of (up_fn_deltas p) i of None \<Rightarrow> 0 | Some n \<Rightarrow> n)" if "i \<notin> ?G"
      using plan_okD(11)[OF plan, of i] that fn by (auto simp: ur_delta_def split: option.splits)
    show ?thesis
    proof (cases "i \<in> ?G")
      case True
      then show ?thesis using kept[OF False] by (simp add: dying_def)
    next
      case G: False
      show ?thesis
      proof (cases "find_fn \<sigma> D i")
        case None
        have "map_of (up_fn_deltas p) i = None" using old(2)[of i] False None by (cases "map_of (up_fn_deltas p) i") auto
        then show ?thesis using kept[OF False] None G delta fn by (simp add: ref_of_def)
      next
        case (Some g)
        then show ?thesis using kept[OF False] G delta fn by (simp add: ref_of_def)
      qed
    qed
  qed
  ultimately show ?thesis using run r(2,5) by blast
qed

subsection \<open>Executing the changes of single-entry nodes\<close>

definition sen_ref :: "(node_id \<times> 'v sen_node) list \<Rightarrow> node_id \<Rightarrow> int" where
  "sen_ref w i = (case map_of w i of None \<Rightarrow> 0 | Some s \<Rightarrow> sn_ref s)"

lemma apply_sen_update_spec:
  assumes U: "universe_ok T U" and w: "sens_ok T U D w" and c: "sen_change_ok T U \<sigma> D i c"
    and nn: "0 \<le> sen_ref w i + sc_delta c" and nz: "sc_delta c \<noteq> 0"
    and stored: "find_sen \<sigma> D i \<noteq> None \<Longrightarrow> 0 < sen_ref w i"
  shows "\<exists>w'. apply_sen_update T D (put_sens D w \<sigma>1) (i, c) = Some (put_sens D w' \<sigma>1) \<and> sens_ok T U D w' \<and>
    (\<forall>j. sen_ref w' j = sen_ref w j + (if j = i then sc_delta c else 0))"
proof -
  obtain e where e: "entries_ok U D {e}" "i = ident T D {e}" "sc_entry c = Some e \<or> sc_entry c = None \<and> find_sen \<sigma> D i \<noteq> None"
    and ip: "\<not> in_place_node T D"
    using c unfolding sen_change_ok_def by blast
  have chk: "case sc_entry c of None \<Rightarrow> True | Some e \<Rightarrow> encode_single_entry T D e = i \<and> entry_nonzero e"
    using e(2,3) encode_single_entry_ident[OF universe_okD(1)[OF U], of D e] entry_nonzero_ok[OF U e(1)] by auto
  note al = sens_okD(1)[OF w]
  show ?thesis
  proof (cases "map_of w i")
    case (Some s)
    let ?r = "sn_ref s + sc_delta c"
    let ?w = "if ?r = 0 then AList.delete i w else AList.update i (s\<lparr>sn_ref := ?r\<rparr>) w"
    have "apply_sen_update T D (put_sens D w \<sigma>1) (i, c) = Some (put_sens D ?w \<sigma>1)"
      using chk nz nn Some by (simp add: apply_sen_update_def sen_ref_def)
    moreover have "sens_ok T U D ?w"
      using w ip nn Some unfolding sens_ok_def by (auto simp: al_simps sen_ref_def sn_entry_def)
    moreover have "sen_ref ?w j = sen_ref w j + (if j = i then sc_delta c else 0)" for j
      using Some by (auto simp: sen_ref_def al_simps)
    ultimately show ?thesis by blast
  next
    case None
    then have r0: "sen_ref w i = 0" by (simp add: sen_ref_def)
    have entry: "sc_entry c = Some e" using e(3) stored r0 by auto
    let ?w = "AList.update i (new_sen e (sc_delta c)) w"
    have "apply_sen_update T D (put_sens D w \<sigma>1) (i, c) = Some (put_sens D ?w \<sigma>1)"
      using chk nz nn r0 None entry by (simp add: apply_sen_update_def)
    moreover have "sens_ok T U D ?w"
      using w ip nn nz r0 e unfolding sens_ok_def by (auto simp: al_simps sn_entry_def new_sen_def)
    moreover have "sen_ref ?w j = sen_ref w j + (if j = i then sc_delta c else 0)" for j
      using None by (auto simp: sen_ref_def al_simps new_sen_def)
    ultimately show ?thesis by blast
  qed
qed

end
