(* ===== verification/Update_Correct.thy ===== *)
theory Update_Correct
  imports Level_Update
begin

text \<open>
  Executing the requests of a level and, through the requests they produce, of all levels below
  restores a consistent storage: \<open>pending\<close> is the state in which only one level disagrees with its
  reference counts, by exactly what has been requested for it. The two theorems at the end are the
  contract of inserting entries into a node and of erasing entries from it.
\<close>

definition pending ::
  "'v::zero_neq_one htt \<Rightarrow> 'v entry set set \<Rightarrow> nat \<Rightarrow> (nat \<Rightarrow> node_id \<Rightarrow> int) \<Rightarrow> 'v node_storage \<Rightarrow> nat
     \<Rightarrow> 'v update_requests \<Rightarrow> bool" where
  "pending T U D R \<sigma> d ur \<longleftrightarrow> universe_ok T U \<and> content_ok T U D \<sigma> \<and> (\<forall>d i. 0 \<le> R d i) \<and>
     (\<forall>d'. 1 \<le> d' \<and> d' \<le> D \<and> d' \<noteq> d \<longrightarrow> refs_ok T \<sigma> R d') \<and> requests_ok T U \<sigma> d ur \<and>
     (\<forall>i. tracked T d i \<longrightarrow> ref_of T \<sigma> d i + ur_delta T ur i = level_refs (fns \<sigma> (Suc d)) i + R d i)"

lemma pending_below:
  assumes "pending T U D R \<sigma> d ur" "d \<le> D"
  shows "below_ok T U \<sigma> (Suc d)"
  unfolding below_ok_def
proof (intro allI impI conjI)
  fix d' assume d': "1 \<le> d' \<and> d' < Suc d"
  note p = assms(1)[unfolded pending_def]
  show "level_ok T U \<sigma> d'"
    using p d' assms(2) unfolding level_ok_def content_ok_def by auto
  fix j g assume s: "Suc d' < Suc d" and g: "find_fn \<sigma> (Suc d') j = Some g"
  have "refs_ok T \<sigma> R d'" using p d' s assms(2) by auto
  then show "kids_present T \<sigma> d' g" by (rule refs_ok_kids) (use p g in auto)
qed

lemma apply_sens_spec:
  assumes U: "universe_ok T U" and w: "sens_ok T U D (sens \<sigma> D)" and ch: "sen_changes_ok T U \<sigma> D cs"
    and nn: "\<And>i c. map_of cs i = Some c \<Longrightarrow> 0 \<le> sen_ref (sens \<sigma> D) i + sc_delta c"
    and \<sigma>1: "sens \<sigma>1 D = sens \<sigma> D"
  shows "\<exists>w'. foldM (apply_sen_update T D) (filter (\<lambda>(i, c). sc_delta c \<noteq> 0) cs) \<sigma>1 = Some (put_sens D w' \<sigma>1) \<and>
    sens_ok T U D w' \<and>
    (\<forall>i. sen_ref w' i = sen_ref (sens \<sigma> D) i + (case map_of cs i of None \<Rightarrow> 0 | Some c \<Rightarrow> sc_delta c))"
proof -
  let ?cs = "filter (\<lambda>(i, c). sc_delta c \<noteq> 0) cs"
  let ?d = "\<lambda>xs i. case map_of xs i of None \<Rightarrow> 0 | Some c \<Rightarrow> sc_delta c"
  let ?P = "\<lambda>xs \<sigma>2. \<exists>w'. \<sigma>2 = put_sens D w' \<sigma>1 \<and> sens_ok T U D w' \<and>
    (\<forall>i. sen_ref w' i = sen_ref (sens \<sigma> D) i + ?d xs i)"
  have alc: "al_ok cs" using ch by (simp add: sen_changes_ok_def)
  then have al: "al_ok ?cs" by (induction cs) auto
  have "\<exists>\<sigma>2. foldM (apply_sen_update T D) ?cs \<sigma>1 = Some \<sigma>2 \<and> ?P ?cs \<sigma>2"
  proof (rule foldM_rule[of ?P])
    have "put_sens D (sens \<sigma> D) \<sigma>1 = \<sigma>1" using \<sigma>1 by (simp add: put_sens_def flip: \<sigma>1)
    then show "?P [] \<sigma>1" using w by (intro exI[of _ "sens \<sigma> D"]) auto
    fix xs x ys \<sigma>2
    assume split: "?cs = xs @ x # ys" and "?P xs \<sigma>2"
    then obtain w' where P: "\<sigma>2 = put_sens D w' \<sigma>1" "sens_ok T U D w'" "\<forall>i. sen_ref w' i = sen_ref (sens \<sigma> D) i + ?d xs i"
      by blast
    obtain i c where x: "x = (i, c)" by (cases x)
    have mem: "(i, c) \<in> set ?cs" using split x by simp
    then have c: "map_of cs i = Some c" "sc_delta c \<noteq> 0" using al_mem_iff[OF alc] by auto
    have "i \<notin> set (keys_of xs)" using al split x by auto
    then have none: "map_of xs i = None" by (simp only: al_find_None_iff not_False_eq_True)
    have r: "sen_ref w' i = sen_ref (sens \<sigma> D) i" using P(3) none by simp
    have stored: "0 < sen_ref w' i" if f: "find_sen \<sigma> D i \<noteq> None"
      unfolding r using f sens_okD(3)[OF w] by (auto simp: sen_ref_def find_sen_def)
    have cok: "sen_change_ok T U \<sigma> D i c" using ch c(1) unfolding sen_changes_ok_def by blast
    have nn': "0 \<le> sen_ref w' i + sc_delta c" using nn[OF c(1)] r by simp
    obtain w2 where w2: "apply_sen_update T D (put_sens D w' \<sigma>1) (i, c) = Some (put_sens D w2 \<sigma>1)" "sens_ok T U D w2"
      "\<forall>j. sen_ref w2 j = sen_ref w' j + (if j = i then sc_delta c else 0)"
      using apply_sen_update_spec[OF U P(2) cok nn' c(2) stored] by blast
    have "sen_ref w2 j = sen_ref (sens \<sigma> D) j + ?d (xs @ [x]) j" for j
      using w2(3) P(3) none x by (auto simp: map_add_def split: option.splits)
    then show "\<exists>\<sigma>3. apply_sen_update T D \<sigma>2 x = Some \<sigma>3 \<and> ?P (xs @ [x]) \<sigma>3"
      using w2(1,2) P(1) x by blast
  qed
  then obtain w' where r: "foldM (apply_sen_update T D) ?cs \<sigma>1 = Some (put_sens D w' \<sigma>1)" "sens_ok T U D w'"
    "\<forall>i. sen_ref w' i = sen_ref (sens \<sigma> D) i + ?d ?cs i" by blast
  have "?d ?cs i = ?d cs i" for i
  proof -
    have f: "map_of ?cs i = Some c \<longleftrightarrow> map_of cs i = Some c \<and> sc_delta c \<noteq> 0" for c
      using al_mem_iff[OF alc, of i c] al_mem_iff[OF al, of i c] by simp
    show ?thesis
    proof (cases "map_of ?cs i")
      case None
      then show ?thesis using f by (cases "map_of cs i") auto
    next
      case (Some c)
      then show ?thesis using f[of c] by simp
    qed
  qed
  then show ?thesis using r by auto
qed

lemma ref_of_sen: "\<not> is_fn T i \<Longrightarrow> ref_of T \<sigma> d i = sen_ref (sens \<sigma> d) i"
  by (simp add: ref_of_def sen_ref_def find_sen_def)

text \<open>One level.\<close>

lemma execute_level:
  assumes pend: "pending T U D R \<sigma> d ur" and d: "1 \<le> d" "d \<le> D"
  shows "\<exists>p s \<sigma>'. make_plan T \<sigma> d ur = Some p \<and> execute_fns T d p \<sigma> = Some s \<and>
    foldM (apply_sen_update T d) (up_sen_changes p) (as_storage s) = Some \<sigma>' \<and>
    (if d = 1 then storage_inv T U D R \<sigma>' else pending T U D R \<sigma>' (d - 1) (as_child s))"
proof -
  note pd = pend[unfolded pending_def]
  have below: "below_ok T U \<sigma> (Suc d)" by (rule pending_below[OF pend d(2)])
  have lvl: "level_ok T U \<sigma> d" using below_okD(1)[OF below d(1)] by simp
  have U: "universe_ok T U" and ok: "requests_ok T U \<sigma> d ur" and R: "0 \<le> R d' i" for d' i using pd by auto
  have bal: "ref_of T \<sigma> d i + ur_delta T ur i = level_refs (fns \<sigma> (Suc d)) i + R d i" if "tracked T d i" for i
    using pd that by blast
  have nnt: "0 \<le> ref_of T \<sigma> d i + ur_delta T ur i" if "tracked T d i" for i
    unfolding bal[OF that] using R by simp
  have nn: "0 \<le> ref_of T \<sigma> d i + ur_delta T ur i" if "is_fn T i" for i
    using nnt[of i] that by (simp add: tracked_def)
  obtain p where p: "make_plan T \<sigma> d ur = Some p" "plan_ok T U \<sigma> d ur p"
    using make_plan_spec[OF lvl ok nn] by blast
  obtain s m where s: "execute_fns T d p \<sigma> = Some s" "as_storage s = put_fns d m \<sigma>" "fns_ok T U d m"
    "\<forall>i. is_fn T i \<longrightarrow> (case map_of m i of None \<Rightarrow> 0 | Some fn \<Rightarrow> fn_ref fn) = ref_of T \<sigma> d i + ur_delta T ur i"
    "kids_accounted T U \<sigma> d m (as_child s)"
    using execute_fns_spec[OF below d(1) p(2) ok nn] by blast
  have ch: "sen_changes_ok T U \<sigma> d (ur_sen_changes ur)" by (rule requests_okD(1)[OF ok])
  have sen: "\<not> is_fn T i \<and> tracked T d i" if c: "map_of (ur_sen_changes ur) i = Some c" for i c
  proof -
    obtain e where e: "entries_ok U d {e}" "i = ident T d {e}" and ip: "\<not> in_place_node T d"
      using ch c unfolding sen_changes_ok_def sen_change_ok_def by blast
    then show ?thesis using is_fn_ident[OF U e(1)] is_sen_ident[OF U e(1)] by (simp add: tracked_def)
  qed
  have nns: "0 \<le> sen_ref (sens \<sigma> d) i + sc_delta c" if c: "map_of (ur_sen_changes ur) i = Some c" for i c
    using nnt[of i] sen[OF c] c by (simp add: ref_of_sen ur_delta_def)
  obtain w where w: "foldM (apply_sen_update T d) (up_sen_changes p) (put_fns d m \<sigma>) = Some (put_sens d w (put_fns d m \<sigma>))"
    "sens_ok T U d w"
    "\<forall>i. sen_ref w i = sen_ref (sens \<sigma> d) i + (case map_of (ur_sen_changes ur) i of None \<Rightarrow> 0 | Some c \<Rightarrow> sc_delta c)"
    using apply_sens_spec[OF U level_okD(5)[OF lvl] ch nns, of "put_fns d m \<sigma>"] plan_okD(12)[OF p(2)] by auto
  let ?\<sigma>' = "put_sens d w (put_fns d m \<sigma>)"
  have content: "content_ok T U D ?\<sigma>'" using pd s(3) w(2) d unfolding content_ok_def by auto
  have refd: "ref_of T ?\<sigma>' d i = ref_of T \<sigma> d i + ur_delta T ur i" for i
  proof (cases "is_fn T i")
    case True
    then show ?thesis using s(4) by (simp add: ref_of_def)
  next
    case False
    then show ?thesis using w(3) by (simp add: ref_of_sen ur_delta_def)
  qed
  have refs_d: "refs_ok T ?\<sigma>' R d" using refd bal by (simp add: refs_ok_def)
  have ref_other: "ref_of T ?\<sigma>' d' i = ref_of T \<sigma> d' i" if "d' \<noteq> d" for d' i
    using that by (simp add: ref_of_def)
  have refs_other: "refs_ok T ?\<sigma>' R d'" if "1 \<le> d'" "d' \<le> D" "d' \<noteq> d" "Suc d' \<noteq> d" for d'
    using pd that ref_other unfolding refs_ok_def by auto
  have "if d = 1 then storage_inv T U D R ?\<sigma>' else pending T U D R ?\<sigma>' (d - 1) (as_child s)"
  proof (cases "d = 1")
    case True
    then have "refs_ok T ?\<sigma>' R d'" if "1 \<le> d'" "d' \<le> D" for d'
      using refs_other[OF that] refs_d that by (cases "d' = d") auto
    then show ?thesis using True U content R by (simp add: storage_inv_def)
  next
    case False
    then have d2: "2 \<le> d" "d - 1 < d" "Suc (d - 1) = d" using d(1) by auto
    have child: "requests_ok T U \<sigma> (d - 1) (as_child s)"
      "\<And>i. tracked T (d - 1) i \<Longrightarrow> ur_delta T (as_child s) i = level_refs m i - level_refs (fns \<sigma> d) i"
      using s(5) d2 unfolding kids_accounted_def by auto
    have "requests_ok T U ?\<sigma>' (d - 1) (as_child s)"
      using child(1) d2(2) by (subst requests_ok_other_level[where \<sigma> = \<sigma>]) auto
    moreover have "1 \<le> d - 1 \<and> d - 1 \<le> D \<and> d - 1 \<noteq> d" using d2 d(2) by linarith
    then have "refs_ok T \<sigma> R (d - 1)" using pd by blast
    then have "ref_of T ?\<sigma>' (d - 1) i + ur_delta T (as_child s) i = level_refs (fns ?\<sigma>' (Suc (d - 1))) i + R (d - 1) i"
      if "tracked T (d - 1) i" for i
      using child(2)[OF that] that d2 ref_other[of "d - 1" i] unfolding refs_ok_def by simp
    moreover have "refs_ok T ?\<sigma>' R d'" if "1 \<le> d'" "d' \<le> D" "d' \<noteq> d - 1" for d'
      using refs_other[OF that(1,2)] refs_d that d2 by (cases "d' = d") auto
    ultimately show ?thesis using False U content R by (simp add: pending_def)
  qed
  then show ?thesis using p(1) s(1,2) w(1) by auto
qed

lemma consume_and_execute_spec:
  "pending T U D R \<sigma> d ur \<Longrightarrow> 1 \<le> d \<Longrightarrow> d \<le> D \<Longrightarrow>
    \<exists>\<sigma>'. consume_and_execute T d \<sigma> ur = Some \<sigma>' \<and> storage_inv T U D R \<sigma>'"
proof (induction d arbitrary: \<sigma> ur)
  case (Suc d)
  obtain p s \<sigma>' where l: "make_plan T \<sigma> (Suc d) ur = Some p" "execute_fns T (Suc d) p \<sigma> = Some s"
    "foldM (apply_sen_update T (Suc d)) (up_sen_changes p) (as_storage s) = Some \<sigma>'"
    "if Suc d = 1 then storage_inv T U D R \<sigma>' else pending T U D R \<sigma>' (Suc d - 1) (as_child s)"
    using execute_level[OF Suc.prems] by blast
  show ?case
  proof (cases "d = 0")
    case True
    then show ?thesis using l by simp
  next
    case False
    then obtain \<sigma>'' where "consume_and_execute T d \<sigma>' (as_child s) = Some \<sigma>''" "storage_inv T U D R \<sigma>''"
      using Suc.IH[of \<sigma>' "as_child s"] l(4) Suc.prems(3) by auto
    then show ?thesis using l False by simp
  qed
qed simp

subsection \<open>Inserting into and erasing from a node\<close>

text \<open>\<open>R d i\<close> counts the handles to \<open>i\<close> that users of depth \<open>d\<close> hold, empty ones included. An
  update moves one handle from the old to the new identifier.\<close>

definition move_handle ::
  "(nat \<Rightarrow> node_id \<Rightarrow> int) \<Rightarrow> nat \<Rightarrow> node_id \<Rightarrow> node_id \<Rightarrow> nat \<Rightarrow> node_id \<Rightarrow> int" where
  "move_handle R d old new = R(d := \<lambda>i. R d i + of_bool (i = new) - of_bool (i = old))"

lemma move_handle_nonneg: "0 < R d old \<Longrightarrow> (\<And>d i. 0 \<le> R d i) \<Longrightarrow> 0 \<le> move_handle R d old new d' i"
  by (auto simp: move_handle_def of_bool_def)

lemma storage_inv_pending:
  assumes inv: "storage_inv T U D R \<sigma>" and d: "1 \<le> d" "d \<le> D" and ok: "requests_ok T U \<sigma> d ur"
    and mv: "moves_reference T d empty_requests ur tgt src dec" and h: "0 < R d old"
    and src: "\<And>i. tracked T d i \<Longrightarrow> (dec \<and> i = src) = (i = old)"
  shows "pending T U D (move_handle R d old tgt) \<sigma> d ur"
proof -
  note i = storage_invD[OF inv]
  have "refs_ok T \<sigma> (move_handle R d old tgt) d'" if "1 \<le> d'" "d' \<le> D" "d' \<noteq> d" for d'
    using i(4)[OF that(1,2)] that by (simp add: refs_ok_def move_handle_def)
  moreover have "ref_of T \<sigma> d c + ur_delta T ur c = level_refs (fns \<sigma> (Suc d)) c + move_handle R d old tgt d c"
    if "tracked T d c" for c
    using i(4)[OF d] mv that src[OF that] by (simp add: refs_ok_def move_handle_def moves_reference_def ur_delta_empty)
  ultimately show ?thesis
    using i(1,2) move_handle_nonneg[of R d old, OF h i(3)] ok by (simp add: pending_def)
qed

lemma storage_inv_below:
  assumes "storage_inv T U D R \<sigma>" "d \<le> D"
  shows "below_ok T U \<sigma> (Suc d)"
proof -
  note i = storage_invD[OF assms(1)]
  have "level_ok T U \<sigma> d'" if "1 \<le> d'" "d' < Suc d" for d'
    using i(1) content_okD[OF i(2), of d'] that assms(2) by (simp add: level_ok_def)
  moreover have "kids_present T \<sigma> d' g" if "1 \<le> d'" "Suc d' < Suc d" "find_fn \<sigma> (Suc d') j = Some g" for d' j g
    using refs_ok_kids[OF i(4) i(3) that(3)] that(1,2) assms(2) by simp
  ultimately show ?thesis by (simp add: below_ok_def)
qed

lemma updated_container:
  assumes inv: "storage_inv T U D R \<sigma>" and d: "1 \<le> d" "d \<le> D" and E: "entries_ok U d E" "E \<noteq> {}"
    and h: "0 < R d (ident T d E)"
  shows "if in_place_node T d \<and> is_sen T (ident T d E) then container_ok T d E \<lparr>nc_id = ident T d E, nc_ptr = False\<rparr>
    else if in_place_node T d then find_fn \<sigma> d (ident T d E) \<noteq> None
    else lookup T \<sigma> d (ident T d E) = \<lparr>nc_id = ident T d E, nc_ptr = True\<rparr>"
proof -
  note U = storage_invD(1)[OF inv]
  have pres: "present T \<sigma> d (ident T d E)" by (rule handle_present[OF inv d h])
  have nz: "ident T d E \<noteq> 0" using ident_nonzero[OF U E(1)] E(2) by simp
  show ?thesis
  proof (cases "is_fn T (ident T d E)")
    case True
    obtain g where "find_fn \<sigma> d (ident T d E) = Some g" using present_fn[OF pres True] .
    then show ?thesis using True nz is_fn_not_sen[OF universe_okD(1)[OF U] True] by (simp add: lookup_def)
  next
    case False
    then have sen: "is_sen T (ident T d E)" using not_fn_sen[OF universe_okD(1)[OF U] nz] by simp
    show ?thesis
    proof (cases "in_place_node T d")
      case ip: False
      obtain s where "find_sen \<sigma> d (ident T d E) = Some s" using present_sen[OF pres sen ip universe_okD(1)[OF U]] .
      then show ?thesis using ip False nz by (simp add: lookup_def)
    qed (use sen is_sen_ident[OF U E(1)] in \<open>simp add: container_ok_def\<close>)
  qed
qed

lemma insert_entries_spec:
  assumes inv: "storage_inv T U D R \<sigma>" and d: "1 \<le> d" "d \<le> D" and ins: "ins_ok U d E es"
    and es: "distinct es" "set es \<inter> E = {}" and h: "0 < R d (ident T d E)" and c: "container_ok T d E c"
  shows "\<exists>\<sigma>' c'. insert_entries_into_node T d \<sigma> c es = Some (\<sigma>', c') \<and> container_ok T d (E \<union> set es) c' \<and>
    storage_inv T U D (move_handle R d (ident T d E) (ident T d (E \<union> set es))) \<sigma>'"
proof (cases "es = []")
  case True
  then have "move_handle R d (ident T d E) (ident T d (E \<union> set es)) = R" by (simp add: move_handle_def fun_eq_iff)
  then show ?thesis using True inv c by (simp add: insert_entries_into_node_def apply_update_def)
next
  case False
  note i = storage_invD[OF inv] and cid = container_okD(1)[OF c]
  note U = i(1)
  let ?R = "move_handle R d (ident T d E) (ident T d (E \<union> set es))"
  note Ees = ins_okD(1)[OF ins] and E = ins_okD(2)[OF ins] and esok = ins_okD(3)[OF ins]
  have lvl: "level_ok T U \<sigma> d" using below_okD(1)[OF storage_inv_below[OF inv d(2)] d(1)] by simp
  have pres: "present T \<sigma> d (ident T d E)" by (rule handle_present[OF inv d h])
  have ne: "E \<union> set es \<noteq> {}" using False by simp
  have zero: "ident T d E = 0 \<longleftrightarrow> E = {}" by (rule ident_nonzero[OF U E])
  have "\<exists>ur. (if id_empty T (nc_id c) then add_node T d empty_requests es 1
      else insert_into_node T \<sigma> d empty_requests (nc_id c) es True) = Some (ident T d (E \<union> set es), ur) \<and>
    pending T U D ?R \<sigma> d ur"
  proof (cases "E = {}")
    case True
    obtain ur where ur: "add_node T d empty_requests es 1 = Some (ident T d (set es), ur)" "requests_ok T U \<sigma> d ur"
      "moves_reference T d empty_requests ur (ident T d (set es)) 0 False"
      using add_node_spec[OF lvl requests_ok_empty es(1) False esok] by blast
    have "pending T U D ?R \<sigma> d ur"
    proof -
      have "(False \<and> i = 0) = (i = ident T d E)" if "tracked T d i" for i
        using that True tracked_0[of T d] by auto
      from storage_inv_pending[OF inv d ur(2,3) h this] show ?thesis using True by simp
    qed
    then show ?thesis using ur(1) cid zero True by simp
  next
    case ne: False
    obtain ur where ur: "insert_into_node T \<sigma> d empty_requests (ident T d E) es True = Some (ident T d (E \<union> set es), ur)"
      "requests_ok T U \<sigma> d ur" "moves_reference T d empty_requests ur (ident T d (E \<union> set es)) (ident T d E) True"
      using insert_into_node_spec[OF lvl requests_ok_empty ne pres es(1) False es(2) ins] by blast
    have "pending T U D ?R \<sigma> d ur" using storage_inv_pending[OF inv d ur(2,3) h] by simp
    then show ?thesis using ur(1) cid zero ne by simp
  qed
  then obtain ur \<sigma>' where ur: "(if id_empty T (nc_id c) then add_node T d empty_requests es 1
      else insert_into_node T \<sigma> d empty_requests (nc_id c) es True) = Some (ident T d (E \<union> set es), ur)"
    and run: "consume_and_execute T d \<sigma> ur = Some \<sigma>'" and inv': "storage_inv T U D ?R \<sigma>'"
    using consume_and_execute_spec[OF _ d] by blast
  have "E \<noteq> E \<union> set es" using es(2) False by (cases es) auto
  then have "ident T d E \<noteq> ident T d (E \<union> set es)" using ident_inj[OF U E Ees] by blast
  then have h': "0 < ?R d (ident T d (E \<union> set es))" using i(3)[of d "ident T d (E \<union> set es)"] by (simp add: move_handle_def)
  have nz: "ident T d (E \<union> set es) \<noteq> 0" using ident_nonzero[OF U Ees] ne by simp
  have body: "insert_entries_into_node T d \<sigma> c es
    = (if in_place_node T d \<and> is_sen T (ident T d (E \<union> set es)) then Some (\<sigma>', \<lparr>nc_id = ident T d (E \<union> set es), nc_ptr = False\<rparr>)
       else do {
          let nodec' = (if in_place_node T d
            then \<lparr>nc_id = ident T d (E \<union> set es), nc_ptr = (find_fn \<sigma>' d (ident T d (E \<union> set es)) \<noteq> None)\<rparr>
            else lookup T \<sigma>' d (ident T d (E \<union> set es)));
          check (nc_ptr nodec');
          Some (\<sigma>', nodec') })"
    using False ur run nz unfolding insert_entries_into_node_def apply_update_def by (simp add: Let_def)
  show ?thesis
    using updated_container[OF inv' d Ees ne h'] inv' unfolding body
    by (auto simp: Let_def container_ok_def split: if_splits)
qed

lemma erase_entries_spec:
  assumes inv: "storage_inv T U D R \<sigma>" and d: "1 \<le> d" "d \<le> D" and del: "del_ok U d E es"
    and es: "distinct es" "set es \<subseteq> E" and h: "0 < R d (ident T d E)" and c: "container_ok T d E c"
  shows "\<exists>\<sigma>' c'. erase_entries_from_node T d \<sigma> c es = Some (\<sigma>', c') \<and> container_ok T d (E - set es) c' \<and>
    storage_inv T U D (move_handle R d (ident T d E) (ident T d (E - set es))) \<sigma>'"
proof (cases "es = []")
  case True
  then have "move_handle R d (ident T d E) (ident T d (E - set es)) = R" by (simp add: move_handle_def fun_eq_iff)
  then show ?thesis using True inv c by (simp add: erase_entries_from_node_def apply_update_def)
next
  case False
  note i = storage_invD[OF inv] and cid = container_okD(1)[OF c]
  note U = i(1)
  let ?t = "ident T d (E - set es)"
  let ?R = "move_handle R d (ident T d E) ?t"
  note E = del_okD(1)[OF del] and rest = del_okD(3)[OF del]
  have pres: "present T \<sigma> d (ident T d E)" by (rule handle_present[OF inv d h])
  obtain ur where ur: "remove_from_node T \<sigma> d empty_requests (ident T d E) es True = Some (?t, ur)"
    "requests_ok T U \<sigma> d ur" "moves_reference T d empty_requests ur ?t (ident T d E) True"
    using remove_from_node_spec[OF storage_inv_below[OF inv d(2)] d(1) requests_ok_empty del pres es(1) False es(2)] by blast
  have "pending T U D ?R \<sigma> d ur" using storage_inv_pending[OF inv d ur(2,3) h] by simp
  then obtain \<sigma>' where run: "consume_and_execute T d \<sigma> ur = Some \<sigma>'" and inv': "storage_inv T U D ?R \<sigma>'"
    using consume_and_execute_spec[OF _ d] by blast
  show ?thesis
  proof (cases "E - set es = {}")
    case True
    then have t0: "?t = 0" by (metis ident_empty)
    then show ?thesis using False ur(1) run inv' cid container_ok_empty[of T d] unfolding True
      by (simp add: erase_entries_from_node_def apply_update_def)
  next
    case ne: False
    have "E \<noteq> E - set es" using es(2) False by (cases es) auto
    then have "ident T d E \<noteq> ?t" using ident_inj[OF U E rest] by blast
    then have h': "0 < ?R d ?t" using i(3)[of d ?t] by (simp add: move_handle_def)
    have nz: "?t \<noteq> 0" using ident_nonzero[OF U rest] ne by simp
    have body: "erase_entries_from_node T d \<sigma> c es
      = (if in_place_node T d \<and> is_sen T ?t then Some (\<sigma>', \<lparr>nc_id = ?t, nc_ptr = False\<rparr>)
         else Some (\<sigma>', if in_place_node T d then \<lparr>nc_id = ?t, nc_ptr = (find_fn \<sigma>' d ?t \<noteq> None)\<rparr> else lookup T \<sigma>' d ?t))"
      using False ur(1) run nz cid unfolding erase_entries_from_node_def apply_update_def by (simp add: Let_def)
    show ?thesis
      using updated_container[OF inv' d rest ne h'] inv' unfolding body
        by (auto simp: container_ok_def split: if_splits)
  qed
qed

end
