(* ===== verification/Sample_Universe.thy ===== *)
theory Sample_Universe
  imports Update_Correct
begin

text \<open>
  A concrete trait and universe of entries at which the theorems of the development are applied:
  Boolean-valued entries whose keys have at most three parts, each 1, 2 or 3, hashed to a word with
  one bit that is different for every key of the same length. It shows that the hypotheses on the
  hash functions (xor combination, no collisions) can be met.
\<close>

definition key_code :: "raw_key \<Rightarrow> nat" where
  "key_code key = foldl (\<lambda>a k. 3 * a + (unat k - 1)) 0 key"

definition sample_htt :: "bool htt" where
  "sample_htt = \<lparr>bool_valued = True, in_place_depth1 = True, tag_pos = 63, entry_hash = (\<lambda>e. push_bit (key_code (fst e)) 1),
     hash_combine = (\<lambda>hs. foldr (XOR) hs 0)\<rparr>"

definition sample_all :: "bool entry set" where
  "sample_all = {e. fst e \<noteq> [] \<and> length (fst e) \<le> 3 \<and> set (fst e) \<subseteq> {1, 2, 3} \<and> snd e}"

definition sample_universe :: "bool entry set set" where
  "sample_universe = {E. finite E \<and> E \<subseteq> sample_all}"

text \<open>The handles: one handle to the empty node at every depth.\<close>

definition empty_handles :: "nat \<Rightarrow> node_id \<Rightarrow> int" where
  "empty_handles d i = of_bool (i = 0)"

subsection \<open>One-hot hashes do not collide\<close>

lemma bit_xor_hash:
  assumes "finite E" "inj_on n E" "\<forall>e \<in> E. n e < 64 \<and> entry_hash T e = push_bit (n e) 1"
  shows "bit (xor_hash T E) m \<longleftrightarrow> (\<exists>e \<in> E. n e = m)"
  using assms
proof (induction E)
  case (insert x E)
  have "bit (push_bit (n x) (1 :: node_id)) m \<longleftrightarrow> m = n x" using insert.prems(2) by (auto simp: bit_simps)
  moreover have "(\<exists>e \<in> E. n e = m) \<longrightarrow> m \<noteq> n x" using insert.prems(1) insert.hyps(2) by (auto simp: inj_on_def)
  moreover have "bit (xor_hash T E) m \<longleftrightarrow> (\<exists>e \<in> E. n e = m)" using insert by auto
  ultimately show ?case using insert by (auto simp: bit_xor_iff)
qed simp

lemma one_hot_inj:
  assumes T: "htt_ok T" and n: "inj_on n V" "\<forall>e \<in> V. n e < 64 \<and> n e \<noteq> tag_pos T \<and> entry_hash T e = push_bit (n e) 1"
  shows "inj_on (untagged T) {E. finite E \<and> E \<subseteq> V}"
proof (rule inj_onI)
  fix A B assume AB: "A \<in> {E. finite E \<and> E \<subseteq> V}" "B \<in> {E. finite E \<and> E \<subseteq> V}" "untagged T A = untagged T B"
  have mem: "e \<in> E \<longleftrightarrow> bit (untagged T E) (n e)" if e: "e \<in> V" and E: "finite E" "E \<subseteq> V" for e E
  proof -
    have "bit (xor_hash T E) (n e) \<longleftrightarrow> (\<exists>f \<in> E. n f = n e)"
      by (rule bit_xor_hash[OF E(1) inj_on_subset[OF n(1) E(2)]]) (use n(2) E(2) in blast)
    also have "\<dots> \<longleftrightarrow> e \<in> E" using n(1) e E(2) by (auto simp: inj_on_def)
    finally show ?thesis using n(2) e by (simp add: untagged_def bit_tag_as_fn[OF T])
  qed
  have A: "finite A" "A \<subseteq> V" and B: "finite B" "B \<subseteq> V" using AB(1,2) by auto
  have "e \<in> A \<longleftrightarrow> e \<in> B" if "e \<in> V" for e using mem[OF that A] mem[OF that B] AB(3) by simp
  then show "A = B" using A(2) B(2) by (metis subsetD subsetI subset_antisym)
qed

subsection \<open>The sample universe\<close>

lemma part_cases: "(k :: key_part) \<in> {1, 2, 3} \<Longrightarrow> unat k - 1 < 3 \<and> k \<noteq> 0 \<and> \<not> bit k 63"
  by auto

lemma part_inj: "(k :: key_part) \<in> {1, 2, 3} \<Longrightarrow> l \<in> {1, 2, 3} \<Longrightarrow> unat k - 1 = unat l - 1 \<Longrightarrow> k = l"
  by auto

lemma key_code_snoc [simp]: "key_code (key @ [k]) = 3 * key_code key + (unat k - 1)"
  by (simp add: key_code_def)

lemma key_code_Nil [simp]: "key_code [] = 0"
  by (simp add: key_code_def)

lemma key_code_less: "set key \<subseteq> {1, 2, 3} \<Longrightarrow> key_code key < 3 ^ length key"
proof (induction key rule: rev_induct)
  case (snoc k key)
  have "unat k - 1 < 3" using snoc.prems part_cases by auto
  then show ?case using snoc by simp
qed simp

lemma base3_digit: "3 * a + x = 3 * b + y \<Longrightarrow> x < 3 \<Longrightarrow> y < 3 \<Longrightarrow> a = b \<and> x = (y :: nat)"
  by presburger

lemma key_code_inj:
  "length a = length b \<Longrightarrow> set a \<subseteq> {1, 2, 3} \<Longrightarrow> set b \<subseteq> {1, 2, 3} \<Longrightarrow> key_code a = key_code b \<Longrightarrow> a = b"
proof (induction a arbitrary: b rule: rev_induct)
  case (snoc k a)
  then obtain c l where b: "b = c @ [l]" by (cases b rule: rev_cases) auto
  have kl: "unat k - 1 < 3" "unat l - 1 < 3" using snoc.prems part_cases b by auto
  have "3 * key_code a + (unat k - 1) = 3 * key_code c + (unat l - 1)" using snoc.prems b by simp
  then have "key_code a = key_code c" "unat k - 1 = unat l - 1" using base3_digit[OF _ kl] by blast+
  then show ?case using snoc b part_inj[of k l] by auto
qed simp

lemma sample_htt_ok: "htt_ok sample_htt"
  by (simp add: htt_ok_def sample_htt_def combine_is_xor_def)

lemma sample_universe_ok: "universe_ok sample_htt sample_universe"
  unfolding universe_ok_def
proof (intro conjI ballI allI)
  show "htt_ok sample_htt" by (rule sample_htt_ok)
  show "{} \<in> sample_universe" by (simp add: sample_universe_def)
  show "entry_ok sample_htt e" if "E \<in> sample_universe" "e \<in> E" for E e
  proof -
    have e: "e \<in> sample_all" using that by (auto simp: sample_universe_def)
    have "k \<noteq> 0 \<and> \<not> bit k 63" if "k \<in> set (fst e)" for k
      using part_cases[of k] that e by (auto simp: sample_all_def)
    then show ?thesis using e
      by (auto simp: entry_ok_def sample_all_def sample_htt_def zero_bool_def one_bool_def)
  qed
  show "all_depth (Suc d) E \<longrightarrow> 1 \<le> d \<longrightarrow> p < Suc d \<longrightarrow> sub_entries p k E \<in> sample_universe"
    if "E \<in> sample_universe" for E d p k
  proof (intro impI)
    assume E: "all_depth (Suc d) E" and d: "1 \<le> d" "p < Suc d"
    have "(subkey (fst e) p, snd e) \<in> sample_all" if "e \<in> E" for e
    proof -
      have e: "e \<in> sample_all" "length (fst e) = Suc d"
        using that \<open>E \<in> sample_universe\<close> E by (auto simp: sample_universe_def all_depth_def)
      then have "set (subkey (fst e) p) \<subseteq> {1, 2, 3}" "length (subkey (fst e) p) = d"
        using set_subkey[of p "fst e"] d(2) by (auto simp: sample_all_def)
      then show ?thesis using d(1) e by (cases "subkey (fst e) p") (auto simp: sample_all_def)
    qed
    then show "sub_entries p k E \<in> sample_universe"
      using that by (auto simp: sample_universe_def sub_entries_def)
  qed
  have "{E \<in> sample_universe. all_depth d E} = {E. finite E \<and> E \<subseteq> {e \<in> sample_all. length (fst e) = d}}" for d
    by (auto simp: sample_universe_def all_depth_def)
  moreover have "inj_on (untagged sample_htt) {E. finite E \<and> E \<subseteq> {e \<in> sample_all. length (fst e) = d}}" for d
  proof (rule one_hot_inj[OF sample_htt_ok, where n = "\<lambda>e. key_code (fst e)"])
    show "inj_on (\<lambda>e. key_code (fst e)) {e \<in> sample_all. length (fst e) = d}"
    proof (rule inj_onI)
      fix e f
      assume "e \<in> {e \<in> sample_all. length (fst e) = d}" "f \<in> {e \<in> sample_all. length (fst e) = d}"
        and code: "key_code (fst e) = key_code (fst f)"
      then have "length (fst e) = length (fst f)" "set (fst e) \<subseteq> {1, 2, 3}" "set (fst f) \<subseteq> {1, 2, 3}" "snd e = snd f"
        by (auto simp: sample_all_def)
      then show "e = f" using key_code_inj[OF _ _ _ code] by (simp add: prod_eq_iff)
    qed
    show "\<forall>e \<in> {e \<in> sample_all. length (fst e) = d}. key_code (fst e) < 64 \<and> key_code (fst e) \<noteq> tag_pos sample_htt \<and>
        entry_hash sample_htt e = push_bit (key_code (fst e)) 1"
    proof
      fix e assume e: "e \<in> {e \<in> sample_all. length (fst e) = d}"
      then have "key_code (fst e) < 3 ^ length (fst e)" "length (fst e) \<le> 3"
        using key_code_less by (auto simp: sample_all_def)
      then have "key_code (fst e) < 3 ^ 3" by (meson le_less_trans less_le_trans one_le_numeral order.strict_trans2 power_increasing)
      then show "key_code (fst e) < 64 \<and> key_code (fst e) \<noteq> tag_pos sample_htt \<and>
        entry_hash sample_htt e = push_bit (key_code (fst e)) 1" by (simp add: sample_htt_def)
    qed
  qed
  ultimately show "inj_on (untagged sample_htt) {E \<in> sample_universe. all_depth d E}" for d by simp
qed

lemma sample_entries_ok:
  assumes "\<forall>e \<in> set es. length (fst e) = d \<and> set (fst e) \<subseteq> {1, 2, 3} \<and> snd e" "1 \<le> d" "d \<le> 3" "length es < 100"
  shows "entries_ok sample_universe d (set es)"
proof -
  have "card (set es) < size_max" using card_length[of es] assms(4) by (simp add: size_max_def)
  moreover have "inj_on fst (set es)" by (rule inj_onI) (use assms(1) in auto)
  ultimately show ?thesis using assms by (auto simp: entries_ok_def sample_all_def sample_universe_def all_depth_def)
qed

lemma storage_inv_empty:
  assumes "universe_ok T U"
  shows "storage_inv T U D empty_handles empty_storage"
  using assms by (auto simp: storage_inv_def content_ok_def fns_ok_def sens_ok_def empty_handles_def refs_ok_def
      ref_of_def find_fn_def find_sen_def)

end
