(* ===== verification/Raw_Context.thy ===== *)
theory Raw_Context
  imports Update_Correct
begin

text \<open>
  Reading a hypertrie (internal/raw/node_context/RawHypertrieContext.hpp): size, resolution of one
  key part, lookup of a key, slices by fixed key parts and diagonal slices, and the reference
  counts that handles hold. \<open>None\<close> is a failed assertion or a null pointer. \<open>container_ok\<close> says that a
  node container stands for a set of entries; under \<open>below_ok\<close>, which follows from the invariant of
  the storage, every read operation is proved to compute the abstract operation on that set.
\<close>

subsection \<open>Pointers and sizes\<close>

definition fn_deref :: "'v node_storage \<Rightarrow> nat \<Rightarrow> node_container \<Rightarrow> 'v full_node option" where
  "fn_deref \<sigma> depth c = (if nc_ptr c then find_fn \<sigma> depth (nc_id c) else None)"

definition sen_deref :: "'v node_storage \<Rightarrow> nat \<Rightarrow> node_container \<Rightarrow> 'v sen_node option" where
  "sen_deref \<sigma> depth c = (if nc_ptr c then find_sen \<sigma> depth (nc_id c) else None)"

definition sen_size :: "'v htt \<Rightarrow> node_container \<Rightarrow> nat" where
  "sen_size T c = (if id_empty T (nc_id c) then 0 else 1)"

definition fn_container_size :: "'v htt \<Rightarrow> 'v node_storage \<Rightarrow> nat \<Rightarrow> node_container \<Rightarrow> nat option" where
  "fn_container_size T \<sigma> depth c =
     (if \<not> id_empty T (nc_id c) then map_option (fn_size depth) (fn_deref \<sigma> depth c) else Some 0)"

definition node_size :: "'v htt \<Rightarrow> 'v node_storage \<Rightarrow> nat \<Rightarrow> node_container \<Rightarrow> nat option" where
  "node_size T \<sigma> depth c =
     (if is_sen T (nc_id c) then Some (sen_size T c) else fn_container_size T \<sigma> depth c)"

subsection \<open>Resolution and lookup\<close>

definition child_container :: "'v htt \<Rightarrow> 'v node_storage \<Rightarrow> nat \<Rightarrow> node_id \<Rightarrow> node_container" where
  "child_container T \<sigma> child_depth child =
     (if in_place_node T child_depth then
        if is_sen T child then \<lparr>nc_id = child, nc_ptr = False\<rparr>
        else \<lparr>nc_id = child, nc_ptr = (find_fn \<sigma> child_depth child \<noteq> None)\<rparr>
      else if \<not> id_empty T child then lookup T \<sigma> child_depth child
      else empty_container)"

definition resolve ::
  "'v htt \<Rightarrow> 'v node_storage \<Rightarrow> nat \<Rightarrow> node_container \<Rightarrow> nat \<Rightarrow> key_part \<Rightarrow> node_container option" where
  "resolve T \<sigma> depth c pos kp = do {
     check (pos < depth);
     if id_empty T (nc_id c) then Some empty_container
     else do {
       fn \<leftarrow> fn_deref \<sigma> depth c;
       Some (child_container T \<sigma> (depth - 1) (fn_child fn pos kp))
     }
   }"

definition resolve_value ::
  "'v::zero_neq_one htt \<Rightarrow> 'v node_storage \<Rightarrow> node_container \<Rightarrow> key_part \<Rightarrow> 'v option" where
  "resolve_value T \<sigma> c kp =
     (if id_empty T (nc_id c) then Some 0 else map_option (\<lambda>fn. fn_value fn kp) (fn_deref \<sigma> 1 c))"

text \<open>Single-entry nodes may belong to the storage or to a handle without a context, so the two
  operations on them take the node.\<close>

definition sen_node_get ::
  "'v::zero_neq_one htt \<Rightarrow> nat \<Rightarrow> node_id \<Rightarrow> 'v sen_node option \<Rightarrow> raw_key \<Rightarrow> 'v option" where
  "sen_node_get T depth i node key =
     (if id_empty T i then Some 0
      else if in_place_node T depth then map_option (\<lambda>e. if fst e ! 0 = key ! 0 then 1 else 0) (get_entry T i)
      else map_option (\<lambda>s. if sn_key s = key then sn_value s else 0) node)"

definition sen_get ::
  "'v::zero_neq_one htt \<Rightarrow> 'v node_storage \<Rightarrow> nat \<Rightarrow> node_container \<Rightarrow> raw_key \<Rightarrow> 'v option" where
  "sen_get T \<sigma> depth c key = sen_node_get T depth (nc_id c) (sen_deref \<sigma> depth c) key"

fun node_get ::
  "'v::zero_neq_one htt \<Rightarrow> 'v node_storage \<Rightarrow> nat \<Rightarrow> node_container \<Rightarrow> raw_key \<Rightarrow> 'v option" where
  "node_get T \<sigma> 0 c key = None"
| "node_get T \<sigma> (Suc d) c key =
     (if is_sen T (nc_id c) then sen_get T \<sigma> (Suc d) c key
      else if id_empty T (nc_id c) then Some 0
      else if d = 0 then resolve_value T \<sigma> c (key ! 0)
      else do {
        fn \<leftarrow> fn_deref \<sigma> (Suc d) c;
        let pos = min_card_pos (Suc d) fn;
        child \<leftarrow> resolve T \<sigma> (Suc d) c pos (key ! pos);
        node_get T \<sigma> d child (subkey key pos)
      })"

subsection \<open>Dereferencing containers that stand for a set of entries\<close>

text \<open>Dereferencing the container of a present node.\<close>

lemma fn_deref_repr:
  assumes lvl: "level_ok T U \<sigma> d" and E: "entries_ok U d E" "2 \<le> card E"
    and pres: "present T \<sigma> d (ident T d E)" and c: "container_ok T d E c"
  shows "\<exists>fn. fn_deref \<sigma> d c = Some fn \<and> find_fn \<sigma> d (ident T d E) = Some fn \<and> fn_repr T d E fn"
proof -
  note U = level_okD(1)[OF lvl]
  have "is_fn T (ident T d E)" using is_fn_ident[OF U E(1)] E(2) by simp
  then obtain fn where fn: "find_fn \<sigma> d (ident T d E) = Some fn" using present_fn[OF pres] by blast
  then have "fn_repr T d E fn" using fns_ok_repr(2)[OF U level_okD(4)[OF lvl] _ E(1)] by (simp add: find_fn_def)
  then show ?thesis using fn container_okD(1,2)[OF c] E(2) by (simp add: fn_deref_def)
qed

lemma sen_deref_entry:
  assumes lvl: "level_ok T U \<sigma> d" and e: "entries_ok U d {e}" and ip: "\<not> in_place_node T d"
    and pres: "present T \<sigma> d (ident T d {e})" and c: "container_ok T d {e} c"
  shows "\<exists>s. sen_deref \<sigma> d c = Some s \<and> sn_entry s = e"
proof -
  note U = level_okD(1)[OF lvl]
  have "is_sen T (ident T d {e})" using is_sen_ident[OF U e] by simp
  then obtain s where s: "find_sen \<sigma> d (ident T d {e}) = Some s"
    using present_sen[OF pres _ ip level_okD(2)[OF lvl]] by blast
  then have "sn_entry s = e" using sens_ok_repr(1)[OF U level_okD(5)[OF lvl] _ e] by (simp add: find_sen_def)
  then show ?thesis using s container_okD(1,3)[OF c] ip by (simp add: sen_deref_def)
qed

lemma node_size_spec:
  assumes lvl: "level_ok T U \<sigma> d" and E: "entries_ok U d E"
    and pres: "present T \<sigma> d (ident T d E)" and c: "container_ok T d E c"
  shows "node_size T \<sigma> d c = Some (card E)"
proof (cases rule: card_cases[OF entries_okD(1)[OF E]])
  case 1
  then show ?thesis using container_okD(1)[OF c] by (simp add: node_size_def fn_container_size_def)
next
  case (2 e)
  then have "is_sen T (ident T d E)" using is_sen_ident[OF level_okD(1)[OF lvl] E] by simp
  then show ?thesis using container_okD(1)[OF c] 2 by (auto simp: node_size_def sen_size_def)
next
  case 3
  obtain fn where fn: "fn_deref \<sigma> d c = Some fn" "fn_repr T d E fn" using fn_deref_repr[OF lvl E 3 pres c] by blast
  have "\<not> is_sen T (ident T d E)" "ident T d E \<noteq> 0"
    using is_sen_ident[OF level_okD(1)[OF lvl] E] ident_nonzero[OF level_okD(1)[OF lvl] E] 3 by auto
  then show ?thesis using fn fn_size_repr[OF E] container_okD(1)[OF c] by (simp add: node_size_def fn_container_size_def)
qed

text \<open>The container of a present child, and resolving a key part of a full node.\<close>

lemma child_container_ok:
  assumes T: "universe_ok T U" and E: "entries_ok U d E" and pres: "present T \<sigma> d (ident T d E)"
  shows "container_ok T d E (child_container T \<sigma> d (ident T d E))"
proof (cases rule: card_cases[OF entries_okD(1)[OF E]])
  case 1
  then show ?thesis using is_sen_0 by (simp add: container_ok_def empty_container_def child_container_def)
next
  case (2 e)
  note e = E[unfolded 2] and pres_e = pres[unfolded 2]
  have sen: "is_sen T (ident T d {e})" using is_sen_ident[OF T e] by simp
  show ?thesis
  proof (cases "in_place_node T d")
    case False
    obtain s where "find_sen \<sigma> d (ident T d {e}) = Some s"
      using present_sen[OF pres_e sen False universe_okD(1)[OF T]] .
    moreover have "\<not> is_fn T (ident T d {e})" using is_fn_not_sen[OF universe_okD(1)[OF T]] sen by blast
    ultimately show ?thesis using False ident_nonzero[OF T e]
      by (simp add: 2 container_ok_def lookup_def child_container_def)
  qed (use sen in \<open>simp add: 2 container_ok_def child_container_def\<close>)
next
  case 3
  have fnF: "is_fn T (ident T d E)" using is_fn_ident[OF T E] 3 by simp
  obtain g where "find_fn \<sigma> d (ident T d E) = Some g" using present_fn[OF pres fnF] .
  then show ?thesis using fnF is_fn_not_sen[OF universe_okD(1)[OF T] fnF] 3 ident_nonzero[OF T E]
    by (auto simp: container_ok_def lookup_def child_container_def)
qed

lemma resolve_spec:
  assumes below: "below_ok T U \<sigma> (Suc (Suc d))" and d: "1 \<le> d" "p < Suc d"
    and E: "entries_ok U (Suc d) E" "2 \<le> card E" and pres: "present T \<sigma> (Suc d) (ident T (Suc d) E)"
    and c: "container_ok T (Suc d) E c"
  shows "\<exists>child. resolve T \<sigma> (Suc d) c p k = Some child \<and> container_ok T d (sub_entries p k E) child \<and>
    present T \<sigma> d (ident T d (sub_entries p k E)) \<and> entries_ok U d (sub_entries p k E)"
proof -
  have lvl: "level_ok T U \<sigma> (Suc d)" using below_okD(1)[OF below] d by auto
  note U = level_okD(1)[OF lvl]
  obtain fn where fn: "fn_deref \<sigma> (Suc d) c = Some fn" "find_fn \<sigma> (Suc d) (ident T (Suc d) E) = Some fn"
    "fn_repr T (Suc d) E fn" using fn_deref_repr[OF lvl E pres c] by blast
  let ?F = "sub_entries p k E"
  have Fok: "entries_ok U d ?F" by (rule entries_ok_sub[OF U E(1) d])
  have child: "fn_child fn p k = ident T d ?F"
    using edges_reprD(2)[OF fn_reprD(3)[OF fn(3) d(1,2)], of k] by (simp add: fn_child_def)
  have pres': "present T \<sigma> d (ident T d ?F)"
  proof (cases "?F = {}")
    case False
    then show ?thesis using kids_presentD[OF below_okD(2)[OF below d(1) _ fn(2)] fn(3) d] by simp
  qed (simp add: present_def)
  have "ident T (Suc d) E \<noteq> 0" using ident_nonzero[OF U E(1)] E(2) by auto
  then show ?thesis using fn(1) child container_okD(1)[OF c] d(2) pres' Fok child_container_ok[OF U Fok pres']
    by (simp add: resolve_def)
qed

subsection \<open>Looking up a key\<close>

definition value_at :: "'v::zero_neq_one entry set \<Rightarrow> raw_key \<Rightarrow> 'v" where
  "value_at E key = (if key \<in> fst ` E then THE v. (key, v) \<in> E else 0)"

lemma value_at_in: "inj_on fst E \<Longrightarrow> (key, v) \<in> E \<Longrightarrow> value_at E key = v"
proof -
  assume inj: "inj_on fst E" and v: "(key, v) \<in> E"
  then have "w = v" if "(key, w) \<in> E" for w using inj_onD[OF inj _ that v] by simp
  then have "(THE v. (key, v) \<in> E) = v" using v by (rule the_equality[rotated])
  then show ?thesis using v unfolding value_at_def by force
qed

lemma value_at_out: "(\<And>v. (key, v) \<notin> E) \<Longrightarrow> value_at E key = 0"
  by (force simp: value_at_def)

lemma value_at_empty [simp]: "value_at {} key = 0"
  by (simp add: value_at_def)

lemma sub_entries_at:
  assumes "\<forall>e \<in> E. length (fst e) = length key" "p < length key"
  shows "(subkey key p, v) \<in> sub_entries p (key ! p) E \<longleftrightarrow> (key, v) \<in> E"
proof -
  have "k = key" if "(k, v) \<in> E" "k ! p = key ! p" "subkey key p = subkey k p" for k
    using subkey_inj[of p k key] assms that by force
  then show ?thesis by (force simp: sub_entries_def)
qed

lemma value_at_sub:
  assumes E: "entries_ok U (Suc d) E" and U: "universe_ok T U" and d: "1 \<le> d" "p < Suc d" and len: "length key = Suc d"
  shows "value_at (sub_entries p (key ! p) E) (subkey key p) = value_at E key"
proof (cases "\<exists>v. (key, v) \<in> E")
  case True
  then obtain v where v: "(key, v) \<in> E" by blast
  then have "(subkey key p, v) \<in> sub_entries p (key ! p) E"
    using sub_entries_at[of E key p v] entries_okD(3)[OF E] len d by simp
  then show ?thesis
    using value_at_in[OF entries_okD(4)[OF entries_ok_sub[OF U E d]]] value_at_in[OF entries_okD(4)[OF E] v] by metis
next
  case False
  then have "(subkey key p, v) \<notin> sub_entries p (key ! p) E" for v
    using sub_entries_at[of E key p v] entries_okD(3)[OF E] len d by simp
  then show ?thesis using False value_at_out by metis
qed

lemma min_card_loop_mem: "min_card_loop f ps m c \<in> insert m (set ps)"
  by (induction f ps m c rule: min_card_loop.induct) (auto simp: Let_def)

lemma min_card_pos_less: "1 \<le> d \<Longrightarrow> min_card_pos d fn < d"
  using min_card_loop_mem[of "edge_count d fn" "[0..<d]" 0 size_max] by (auto simp: min_card_pos_def)

lemma sen_get_spec:
  assumes lvl: "level_ok T U \<sigma> d" and e: "entries_ok U d {e}" and len: "length key = d"
    and pres: "present T \<sigma> d (ident T d {e})" and c: "container_ok T d {e} c"
  shows "sen_get T \<sigma> d c key = Some (value_at {e} key)"
proof -
  note U = level_okD(1)[OF lvl] and d = level_okD(3)[OF lvl]
  have val: "value_at {e} key = (if fst e = key then snd e else 0)"
    using value_at_in[of "{e}" key "snd e"] value_at_out[of key "{e}"] by (cases e) auto
  have nz: "ident T d {e} \<noteq> 0" using ident_nonzero[OF U e] by simp
  show ?thesis
  proof (cases "in_place_node T d")
    case True
    then have d1: "d = 1" "in_place_depth1 T" by (simp_all add: in_place_node_def)
    obtain k where k: "e = ([k], 1)" using in_place_singleton[OF U] e d1 by blast
    obtain x where x: "key = [x]" using len d1 by (cases key) auto
    show ?thesis using get_entry_ident[OF U] e d1 k x nz container_okD(1)[OF c] True val
      by (simp add: sen_get_def sen_node_get_def)
  next
    case False
    obtain s where s: "sen_deref \<sigma> d c = Some s" "sn_entry s = e" using sen_deref_entry[OF lvl e False pres c] by blast
    then show ?thesis using nz container_okD(1)[OF c] False val by (auto simp: sen_get_def sen_node_get_def sn_entry_def)
  qed
qed

lemma fn_value_repr:
  assumes E: "entries_ok U 1 E" and fn: "fn_repr T 1 E fn"
  shows "fn_value fn k = value_at E [k]"
  using value_at_in[OF entries_okD(4)[OF E], of "[k]"] value_at_out[of "[k]" E] fn_repr1D(2)[OF fn, of k]
  by (auto simp: fn_value_def split: option.split)

lemma node_get_spec:
  "1 \<le> d \<Longrightarrow> below_ok T U \<sigma> (Suc d) \<Longrightarrow> entries_ok U d E \<Longrightarrow> present T \<sigma> d (ident T d E) \<Longrightarrow>
    container_ok T d E c \<Longrightarrow> length key = d \<Longrightarrow> node_get T \<sigma> d c key = Some (value_at E key)"
proof (induction d arbitrary: E c key)
  case (Suc d)
  have lvl: "level_ok T U \<sigma> (Suc d)" using below_okD(1)[OF Suc.prems(2), of "Suc d"] by simp
  note U = level_okD(1)[OF lvl] and E = Suc.prems(3) and pres = Suc.prems(4) and c = Suc.prems(5)
  show ?case
  proof (cases rule: card_cases[OF entries_okD(1)[OF E]])
    case 1
    then show ?thesis using container_okD(1)[OF c] by simp
  next
    case (2 e)
    then have "is_sen T (ident T (Suc d) E)" using is_sen_ident[OF U E] by simp
    then show ?thesis using sen_get_spec[OF lvl, of e key c] E pres c Suc.prems(6) 2 container_okD(1)[OF c] by simp
  next
    case 3
    obtain fn where fn: "fn_deref \<sigma> (Suc d) c = Some fn" "fn_repr T (Suc d) E fn"
      using fn_deref_repr[OF lvl E 3 pres c] by blast
    have id: "\<not> is_sen T (nc_id c)" "nc_id c \<noteq> 0"
      using is_sen_ident[OF U E] ident_nonzero[OF U E] 3 container_okD(1)[OF c] by auto
    show ?thesis
    proof (cases "d = 0")
      case True
      obtain x where x: "key = [x]" using Suc.prems(6) True by (cases key) auto
      show ?thesis using id fn True x fn_value_repr[of U E T fn x] E by (simp add: resolve_value_def)
    next
      case False
      then have d: "1 \<le> d" by simp
      let ?p = "min_card_pos (Suc d) fn"
      have p: "?p < Suc d" by (rule min_card_pos_less) simp
      obtain child where ch: "resolve T \<sigma> (Suc d) c ?p (key ! ?p) = Some child"
        "container_ok T d (sub_entries ?p (key ! ?p) E) child"
        "present T \<sigma> d (ident T d (sub_entries ?p (key ! ?p) E))" "entries_ok U d (sub_entries ?p (key ! ?p) E)"
        using resolve_spec[OF Suc.prems(2) d p E 3 pres c] by blast
      have "node_get T \<sigma> d child (subkey key ?p) = Some (value_at (sub_entries ?p (key ! ?p) E) (subkey key ?p))"
        by (rule Suc.IH[OF d below_okD(3)[OF Suc.prems(2)] ch(4,3,2)]) (use p Suc.prems(6) in simp_all)
      then show ?thesis using id fn ch(1) d value_at_sub[OF E U d p Suc.prems(6)] by (simp add: Let_def)
    qed
  qed
qed simp

subsection \<open>Slices by fixed key parts\<close>

text \<open>A slice result holds a container of a stored node, or a single-entry node of its own
  (allocated with the standard allocator), which is managed by the caller's cache or not at all.\<close>

datatype 'v slice_container = SEN_Of node_container | FN_Of node_container | STL_SEN node_id "'v sen_node option"

record 'v slice_result =
  sr_container :: "'v slice_container"
  sr_provided_alloc :: bool
  sr_managed :: bool

definition empty_slice_result :: "'v slice_result" where
  "empty_slice_result = \<lparr>sr_container = SEN_Of empty_container, sr_provided_alloc = True, sr_managed = True\<rparr>"

definition make_with_provided_alloc :: "'v htt \<Rightarrow> node_container \<Rightarrow> 'v slice_result" where
  "make_with_provided_alloc T c =
     \<lparr>sr_container = (if is_fn T (nc_id c) then FN_Of c else SEN_Of c), sr_provided_alloc = True, sr_managed = True\<rparr>"

definition make_sen_with_stl_alloc :: "bool \<Rightarrow> node_id \<Rightarrow> 'v sen_node option \<Rightarrow> 'v slice_result" where
  "make_sen_with_stl_alloc managed i node =
     \<lparr>sr_container = STL_SEN i node, sr_provided_alloc = False, sr_managed = managed\<rparr>"

definition slice_result_id :: "'v slice_result \<Rightarrow> node_id" where
  "slice_result_id r = (case sr_container r of SEN_Of c \<Rightarrow> nc_id c | FN_Of c \<Rightarrow> nc_id c | STL_SEN i _ \<Rightarrow> i)"

definition slice_result_empty :: "'v htt \<Rightarrow> 'v slice_result \<Rightarrow> bool" where
  "slice_result_empty T r = id_empty T (slice_result_id r)"

definition holds_fn :: "'v slice_result \<Rightarrow> bool" where
  "holds_fn r = (case sr_container r of FN_Of _ \<Rightarrow> True | _ \<Rightarrow> False)"

definition holds_sen :: "'v slice_result \<Rightarrow> bool" where
  "holds_sen r = (case sr_container r of SEN_Of _ \<Rightarrow> True | _ \<Rightarrow> False)"

definition holds_stl_alloc_sen :: "'v slice_result \<Rightarrow> bool" where
  "holds_stl_alloc_sen r = (case sr_container r of STL_SEN _ _ \<Rightarrow> True | _ \<Rightarrow> False)"

datatype 'v slice_out = Scalar 'v | Slice "'v slice_result"

text \<open>Slicing a single-entry node, with fewer fixed key parts than its depth.\<close>

definition sen_node_slice ::
  "'v::zero_neq_one htt \<Rightarrow> nat \<Rightarrow> node_id \<Rightarrow> 'v sen_node option \<Rightarrow> key_part raw_slice_key \<Rightarrow> 'v slice_result option" where
  "sen_node_slice T depth i node_ptr fs =
     (let result_depth = depth - length fs in
      if id_empty T i then Some empty_slice_result
      else do {
        node \<leftarrow> node_ptr;
        case raw_slice fs (sn_key node) of
          None \<Rightarrow> Some empty_slice_result
        | Some key \<Rightarrow>
            let e = (key, sn_value node); i = encode_single_entry T result_depth e in
            if in_place_node T result_depth then
              Some (make_with_provided_alloc T \<lparr>nc_id = i, nc_ptr = False\<rparr>)
            else Some (make_sen_with_stl_alloc False i (Some (new_sen e 0)))
      })"

definition sen_slice ::
  "'v::zero_neq_one htt \<Rightarrow> 'v node_storage \<Rightarrow> nat \<Rightarrow> node_container \<Rightarrow> key_part raw_slice_key \<Rightarrow> 'v slice_result option" where
  "sen_slice T \<sigma> depth c fs = sen_node_slice T depth (nc_id c) (sen_deref \<sigma> depth c) fs"

fun slice_rek ::
  "'v::zero_neq_one htt \<Rightarrow> 'v node_storage \<Rightarrow> nat \<Rightarrow> node_container \<Rightarrow> key_part raw_slice_key \<Rightarrow> 'v slice_result option" where
  "slice_rek T \<sigma> 0 c fs = None"
| "slice_rek T \<sigma> (Suc d) c fs =
     (if is_sen T (nc_id c) then sen_slice T \<sigma> (Suc d) c fs
      else do {
        fn \<leftarrow> fn_deref \<sigma> (Suc d) c;
        let i = min_fixed_keypart_i (Suc d) fn fs;
        child \<leftarrow> resolve T \<sigma> (Suc d) c (fst (fs ! i)) (snd (fs ! i));
        if id_empty T (nc_id child) then Some empty_slice_result
        else if length fs = 1 then Some (make_with_provided_alloc T child)
        else slice_rek T \<sigma> d child (raw_subkey_i fs i)
      })"

definition node_slice ::
  "'v::zero_neq_one htt \<Rightarrow> 'v node_storage \<Rightarrow> nat \<Rightarrow> node_container \<Rightarrow> key_part raw_slice_key \<Rightarrow> 'v slice_out option" where
  "node_slice T \<sigma> depth c fs =
     (if fs = [] then Some (Slice (make_with_provided_alloc T c))
      else if length fs = depth then map_option Scalar (node_get T \<sigma> depth c (map snd fs))
      else if id_empty T (nc_id c) then Some (Slice empty_slice_result)
      else map_option Slice (slice_rek T \<sigma> depth c fs))"

text \<open>What a slice stands for, and a result that stands for it.\<close>

definition slice_entries :: "key_part raw_slice_key \<Rightarrow> 'v entry set \<Rightarrow> 'v entry set" where
  "slice_entries fs E = {(key', v). \<exists>key. (key, v) \<in> E \<and> raw_slice fs key = Some key'}"

definition slice_denotes :: "'v htt \<Rightarrow> 'v node_storage \<Rightarrow> nat \<Rightarrow> 'v entry set \<Rightarrow> 'v slice_result \<Rightarrow> bool" where
  "slice_denotes T \<sigma> d E r \<longleftrightarrow>
     (case sr_container r of
        STL_SEN i node \<Rightarrow> \<not> sr_provided_alloc r \<and> (\<exists>e. E = {e} \<and> i = ident T d E \<and>
          (if node = None then in_place_node T d else sn_entry (the node) = e))
      | FN_Of c \<Rightarrow> sr_provided_alloc r \<and> 2 \<le> card E \<and> container_ok T d E c \<and> present T \<sigma> d (ident T d E)
      | SEN_Of c \<Rightarrow> sr_provided_alloc r \<and> card E \<le> 1 \<and> finite E \<and> container_ok T d E c \<and> present T \<sigma> d (ident T d E))"

lemma slice_entries_Nil [simp]: "slice_entries [] E = E"
  by (auto simp: slice_entries_def raw_slice_def)

lemma slice_entries_empty [simp]: "slice_entries fs {} = {}"
  by (simp add: slice_entries_def)

lemma slice_entries_sub:
  assumes E: "all_depth (Suc d) E" and fs: "raw_slice_key_ok (Suc d) fs" "i < length fs"
  shows "slice_entries (raw_subkey_i fs i) (sub_entries (fst (fs ! i)) (snd (fs ! i)) E) = slice_entries fs E"
proof -
  obtain p v where f: "fs ! i = (p, v)" by (cases "fs ! i")
  have eq: "raw_slice (raw_subkey_i fs i) (subkey key p) = raw_slice fs key"
    if "(key, w) \<in> E" "key ! p = v" for key w
    using raw_slice_subkey_i[of key fs i p v] fs f that E by (force simp: all_depth_def)
  have "key ! p = v" if "(key, w) \<in> E" "raw_slice fs key = Some key'" for key w key'
  proof -
    have "length key = Suc d" using E that(1) by (force simp: all_depth_def)
    then have "slice_matches fs key" using raw_slice_closed[of key fs] fs that(2) by (auto split: if_splits)
    then show ?thesis using f fs(2) nth_mem[OF fs(2)] by (auto simp: slice_matches_def)
  qed
  then have "(\<exists>key. (key, w) \<in> E \<and> key ! p = v \<and> raw_slice (raw_subkey_i fs i) (subkey key p) = Some key')
      \<longleftrightarrow> (\<exists>key. (key, w) \<in> E \<and> raw_slice fs key = Some key')" for key' w
    using eq by metis
  moreover have "(key', w) \<in> slice_entries (raw_subkey_i fs i) (sub_entries p v E) \<longleftrightarrow>
      (\<exists>key. (key, w) \<in> E \<and> key ! p = v \<and> raw_slice (raw_subkey_i fs i) (subkey key p) = Some key')" for key' w
    by (force simp: slice_entries_def sub_entries_def)
  ultimately show ?thesis unfolding f fst_conv snd_conv by (auto simp: slice_entries_def)
qed

lemma length_raw_subkey_i: "i < length fs \<Longrightarrow> length (raw_subkey_i fs i) = length fs - 1"
  by (simp add: raw_subkey_i_eq)

lemma slice_entries_ok:
  "universe_ok T U \<Longrightarrow> entries_ok U d E \<Longrightarrow> raw_slice_key_ok d fs \<Longrightarrow> length fs < d \<Longrightarrow>
    entries_ok U (d - length fs) (slice_entries fs E)"
proof (induction "length fs" arbitrary: d fs E)
  case (Suc n)
  obtain d' where d': "d = Suc d'" "1 \<le> d'" using Suc.prems(4) Suc.hyps(2) by (cases d) auto
  have i: "0 < length fs" using Suc.hyps(2) by linarith
  let ?F = "sub_entries (fst (fs ! 0)) (snd (fs ! 0)) E"
  have p: "fst (fs ! 0) < Suc d'" using Suc.prems(3) i d' nth_mem[OF i] by (simp add: raw_slice_key_ok_def)
  have F: "entries_ok U d' ?F" using entries_ok_sub[OF Suc.prems(1) _ d'(2) p] Suc.prems(2) d'(1) by simp
  have ok: "raw_slice_key_ok d' (raw_subkey_i fs 0)" using raw_subkey_i_ok[OF _ i] Suc.prems(3) d'(1) by simp
  have "entries_ok U (d' - length (raw_subkey_i fs 0)) (slice_entries (raw_subkey_i fs 0) ?F)"
    by (rule Suc.hyps(1)[OF _ Suc.prems(1) F ok]) (use length_raw_subkey_i[OF i] Suc.hyps(2) Suc.prems(4) d' in simp_all)
  moreover have "d' - length (raw_subkey_i fs 0) = d - length fs"
    using length_raw_subkey_i[OF i] Suc.hyps(2) d' by simp
  ultimately show ?case
    using slice_entries_sub[of d' E fs 0] Suc.prems(2,3) i d' by (simp add: entries_ok_def)
qed simp

lemma min_fixed_loop_less:
  "i < length fs \<Longrightarrow> min_i < length fs \<Longrightarrow> min_fixed_loop f fs ps i min_i c < length fs"
proof (induction ps arbitrary: i min_i c)
  case (Cons p ps)
  show ?case
  proof (cases "p = fst (fs ! i) \<and> Suc i \<noteq> length fs")
    case True
    then have "Suc i < length fs" using Cons.prems(1) by simp
    then show ?thesis using True Cons.IH[of "Suc i" i] Cons.IH[of "Suc i" min_i] Cons.prems
      by (simp add: Let_def)
  qed (use Cons in \<open>auto simp: Let_def\<close>)
qed simp

lemma min_fixed_keypart_i_less: "fs \<noteq> [] \<Longrightarrow> min_fixed_keypart_i d fn fs < length fs"
  by (simp add: min_fixed_keypart_i_def min_fixed_loop_less)

lemma empty_slice_denotes: "slice_denotes T \<sigma> d {} empty_slice_result"
  by (simp add: slice_denotes_def empty_slice_result_def container_ok_empty present_def)

lemma provided_slice_denotes:
  assumes U: "universe_ok T U" and E: "entries_ok U d E" and c: "container_ok T d E c" and pres: "present T \<sigma> d (ident T d E)"
  shows "slice_denotes T \<sigma> d E (make_with_provided_alloc T c)"
  using is_fn_ident[OF U E] c pres entries_okD(1)[OF E] container_okD(1)[OF c]
  by (auto simp: slice_denotes_def make_with_provided_alloc_def)

lemma slice_denotes_empty:
  assumes "universe_ok T U" "entries_ok U d F" "slice_denotes T \<sigma> d F r"
  shows "slice_result_empty T r \<longleftrightarrow> F = {}"
  using assms ident_nonzero[OF assms(1,2)]
  by (auto simp: slice_denotes_def slice_result_empty_def slice_result_id_def container_ok_def split: slice_container.splits)

lemma slice_entries_single:
  "slice_entries fs {(key, v)} = (case raw_slice fs key of None \<Rightarrow> {} | Some key' \<Rightarrow> {(key', v)})"
  by (auto simp: slice_entries_def split: option.split)

lemma sen_node_slice_spec:
  assumes U: "universe_ok T U" and e: "entries_ok U d {e}" and fs: "raw_slice_key_ok d fs" "length fs < d"
    and s: "node_ptr = Some s" "sn_entry s = e" and i: "i = ident T d {e}"
  shows "\<exists>r. sen_node_slice T d i node_ptr fs = Some r \<and> slice_denotes T \<sigma> (d - length fs) (slice_entries fs {e}) r"
proof -
  obtain key v where kv: "e = (key, v)" by (cases e)
  have skv: "sn_key s = key" "sn_value s = v" using s(2) kv by (simp_all add: sn_entry_def)
  have nz: "i \<noteq> 0" using ident_nonzero[OF U e] i by simp
  show ?thesis
  proof (cases "raw_slice fs key")
    case None
    then show ?thesis using s skv nz kv empty_slice_denotes by (auto simp: sen_node_slice_def slice_entries_single)
  next
    case (Some key')
    let ?d = "d - length fs" and ?e = "(key', v)"
    have id: "encode_single_entry T ?d ?e = ident T ?d {?e}"
      by (rule encode_single_entry_ident[OF universe_okD(1)[OF U]])
    have ok: "entries_ok U ?d {?e}"
      using slice_entries_ok[OF U e fs] Some kv by (simp add: slice_entries_single)
    show ?thesis
    proof (cases "in_place_node T ?d")
      case True
      then have "container_ok T ?d {?e} \<lparr>nc_id = ident T ?d {?e}, nc_ptr = False\<rparr>" "present T \<sigma> ?d (ident T ?d {?e})"
        using is_fn_ident[OF U ok] by (simp_all add: container_ok_def present_def tracked_def)
      from provided_slice_denotes[OF U ok this] show ?thesis
        using s skv nz kv Some True id by (simp add: sen_node_slice_def slice_entries_single)
    next
      case False
      then show ?thesis using s skv nz kv Some id
        by (simp add: sen_node_slice_def slice_entries_single slice_denotes_def make_sen_with_stl_alloc_def sn_entry_def new_sen_def)
    qed
  qed
qed

lemma sen_slice_spec:
  assumes lvl: "level_ok T U \<sigma> d" and e: "entries_ok U d {e}" and fs: "raw_slice_key_ok d fs" "fs \<noteq> []" "length fs < d"
    and pres: "present T \<sigma> d (ident T d {e})" and c: "container_ok T d {e} c"
  shows "\<exists>r. sen_slice T \<sigma> d c fs = Some r \<and> slice_denotes T \<sigma> (d - length fs) (slice_entries fs {e}) r"
proof -
  have "1 < d" using fs(2,3) by (cases fs) auto
  then have ip: "\<not> in_place_node T d" by (simp add: in_place_node_def)
  obtain s where s: "sen_deref \<sigma> d c = Some s" "sn_entry s = e" using sen_deref_entry[OF lvl e ip pres c] by blast
  show ?thesis unfolding sen_slice_def
    by (rule sen_node_slice_spec[OF level_okD(1)[OF lvl] e fs(1,3) s container_okD(1)[OF c]])
qed

lemma slice_rek_spec:
  "below_ok T U \<sigma> (Suc d) \<Longrightarrow> entries_ok U d E \<Longrightarrow> E \<noteq> {} \<Longrightarrow> present T \<sigma> d (ident T d E) \<Longrightarrow>
    container_ok T d E c \<Longrightarrow> raw_slice_key_ok d fs \<Longrightarrow> fs \<noteq> [] \<Longrightarrow> length fs < d \<Longrightarrow>
    \<exists>r. slice_rek T \<sigma> d c fs = Some r \<and> slice_denotes T \<sigma> (d - length fs) (slice_entries fs E) r"
proof (induction d arbitrary: E c fs)
  case (Suc d)
  have lvl: "level_ok T U \<sigma> (Suc d)" using below_okD(1)[OF Suc.prems(1), of "Suc d"] by simp
  note U = level_okD(1)[OF lvl] and E = Suc.prems(2) and pres = Suc.prems(4) and c = Suc.prems(5) and fs = Suc.prems(6-8)
  have d: "1 \<le> d" using fs(2,3) by (cases fs; cases d) auto
  show ?case
  proof (cases "card E = 1")
    case True
    then obtain e where e: "E = {e}" by (auto simp: card_1_singleton_iff)
    have "is_sen T (nc_id c)" using is_sen_ident[OF U E] True container_okD(1)[OF c] by simp
    then show ?thesis using sen_slice_spec[OF lvl _ fs, of e c] E pres c e by simp
  next
    case False
    then have card: "2 \<le> card E" using Suc.prems(3) card_cases[OF entries_okD(1)[OF E]] by (metis card.empty is_singletonI is_singleton_altdef)
    obtain fn where fn: "fn_deref \<sigma> (Suc d) c = Some fn" "fn_repr T (Suc d) E fn"
      using fn_deref_repr[OF lvl E card pres c] by blast
    have id: "\<not> is_sen T (nc_id c)" using is_sen_ident[OF U E] False container_okD(1)[OF c] by simp
    let ?i = "min_fixed_keypart_i (Suc d) fn fs"
    let ?F = "sub_entries (fst (fs ! ?i)) (snd (fs ! ?i)) E"
    have i: "?i < length fs" by (rule min_fixed_keypart_i_less[OF fs(2)])
    have p: "fst (fs ! ?i) < Suc d" using fs(1) nth_mem[OF i] by (simp add: raw_slice_key_ok_def)
    obtain child where ch: "resolve T \<sigma> (Suc d) c (fst (fs ! ?i)) (snd (fs ! ?i)) = Some child"
      "container_ok T d ?F child" "present T \<sigma> d (ident T d ?F)" "entries_ok U d ?F"
      using resolve_spec[OF Suc.prems(1) d p E card pres c] by blast
    have sub: "slice_entries (raw_subkey_i fs ?i) ?F = slice_entries fs E"
      using slice_entries_sub[where E = E, OF _ fs(1) i] E by (simp add: entries_ok_def)
    have zero: "id_empty T (nc_id child) \<longleftrightarrow> ?F = {}"
      using ident_nonzero[OF U ch(4)] container_okD(1)[OF ch(2)] by simp
    note run = fn(1) id ch(1)
    show ?thesis
    proof (cases "?F = {}")
      case True
      then have "slice_entries fs E = {}" using sub by simp
      then show ?thesis using run zero True empty_slice_denotes by (auto simp: Let_def)
    next
      case ne: False
      show ?thesis
      proof (cases "length fs = 1")
        case True
        then have "raw_subkey_i fs ?i = []" using length_raw_subkey_i[OF i] by simp
        then have "slice_entries fs E = ?F" using sub by simp
        then show ?thesis using run zero ne True provided_slice_denotes[OF U ch(4,2,3)] by (simp add: Let_def)
      next
        case False
        then have len: "length (raw_subkey_i fs ?i) = length fs - 1" "raw_subkey_i fs ?i \<noteq> []"
          using length_raw_subkey_i[OF i] i by auto
        have "\<exists>r. slice_rek T \<sigma> d child (raw_subkey_i fs ?i) = Some r \<and>
            slice_denotes T \<sigma> (d - length (raw_subkey_i fs ?i)) (slice_entries (raw_subkey_i fs ?i) ?F) r"
          by (rule Suc.IH[OF below_okD(3)[OF Suc.prems(1)] ch(4) ne ch(3,2) raw_subkey_i_ok[OF fs(1) i] len(2)])
            (use len fs(3) i in simp_all)
        moreover have "d - length (raw_subkey_i fs ?i) = Suc d - length fs" using len(1) i by simp
        ultimately show ?thesis using run zero ne False sub by (simp add: Let_def)
      qed
    qed
  qed
qed simp

lemma node_slice_spec:
  assumes below: "below_ok T U \<sigma> (Suc d)" and d: "1 \<le> d" and E: "entries_ok U d E" and pres: "present T \<sigma> d (ident T d E)"
    and c: "container_ok T d E c" and fs: "raw_slice_key_ok d fs"
  shows "length fs = d \<Longrightarrow> node_slice T \<sigma> d c fs = Some (Scalar (value_at E (map snd fs)))"
    "length fs < d \<Longrightarrow> \<exists>r. node_slice T \<sigma> d c fs = Some (Slice r) \<and>
      slice_denotes T \<sigma> (d - length fs) (slice_entries fs E) r"
proof -
  have U: "universe_ok T U" using level_okD(1)[OF below_okD(1)[OF below d]] by simp
  show "node_slice T \<sigma> d c fs = Some (Scalar (value_at E (map snd fs)))" if "length fs = d"
    using node_get_spec[OF d below E pres c, of "map snd fs"] that d by (auto simp: node_slice_def)
  have zero: "id_empty T (nc_id c) \<longleftrightarrow> E = {}" using ident_nonzero[OF U E] container_okD(1)[OF c] by simp
  show "\<exists>r. node_slice T \<sigma> d c fs = Some (Slice r) \<and> slice_denotes T \<sigma> (d - length fs) (slice_entries fs E) r"
    if len: "length fs < d"
  proof (cases "fs = []")
    case True
    then show ?thesis using provided_slice_denotes[OF U E c pres] by (simp add: node_slice_def)
  next
    case False
    then show ?thesis
      using slice_rek_spec[OF below E _ pres c fs False len] zero len empty_slice_denotes
      by (cases "E = {}") (auto simp: node_slice_def)
  qed
qed

subsection \<open>Diagonal slices\<close>

text \<open>All positions of a mask are fixed to one key part. \<open>cached\<close> says whether the caller passes a
  cache for a single-entry result.\<close>

fun diagonal_slice_rek ::
  "'v::zero_neq_one htt \<Rightarrow> 'v node_storage \<Rightarrow> nat \<Rightarrow> nat \<Rightarrow> node_container \<Rightarrow> raw_key_positions \<Rightarrow> key_part \<Rightarrow> bool
     \<Rightarrow> 'v slice_result option" where
  "diagonal_slice_rek T \<sigma> 0 fixed c m kp cached = None"
| "diagonal_slice_rek T \<sigma> (Suc d) fixed c m kp cached =
     (let result_depth = Suc d - fixed in
      if is_sen T (nc_id c) then do {
        node \<leftarrow> sen_deref \<sigma> (Suc d) c;
        case kp_slice fixed m (sn_key node) kp of
          None \<Rightarrow> Some empty_slice_result
        | Some key \<Rightarrow>
            let e = (key, sn_value node); i = encode_single_entry T result_depth e in
            if in_place_node T result_depth then Some (make_sen_with_stl_alloc True i None)
            else Some (make_sen_with_stl_alloc cached i (Some (new_sen e 0)))
      }
      else do {
        fn \<leftarrow> fn_deref \<sigma> (Suc d) c;
        let pos = min_card_pos_mask (Suc d) fn m;
        child \<leftarrow> resolve T \<sigma> (Suc d) c pos kp;
        if id_empty T (nc_id child) then Some empty_slice_result
        else if fixed = 1 then Some (make_with_provided_alloc T child)
        else do {
          sub_poss \<leftarrow> kp_sub (Suc d) m pos;
          diagonal_slice_rek T \<sigma> d (fixed - 1) child sub_poss kp cached
        }
      })"

definition diagonal_slice ::
  "'v::zero_neq_one htt \<Rightarrow> 'v node_storage \<Rightarrow> nat \<Rightarrow> nat \<Rightarrow> node_container \<Rightarrow> raw_key_positions \<Rightarrow> key_part \<Rightarrow> bool
     \<Rightarrow> 'v slice_out option" where
  "diagonal_slice T \<sigma> depth fixed c m kp cached =
     (if fixed = 0 then Some (Slice (make_with_provided_alloc T c))
      else if depth = fixed then map_option Scalar (node_get T \<sigma> depth c (replicate depth kp))
      else if id_empty T (nc_id c) then Some (Slice empty_slice_result)
      else map_option Slice (diagonal_slice_rek T \<sigma> depth fixed c m kp cached))"

definition diag_entries :: "nat \<Rightarrow> raw_key_positions \<Rightarrow> key_part \<Rightarrow> 'v entry set \<Rightarrow> 'v entry set" where
  "diag_entries d m kp E = {(key', v). \<exists>key. (key, v) \<in> E \<and> kp_slice (card (kp_set d m)) m key kp = Some key'}"

lemma diag_entries_empty [simp]: "diag_entries d m kp {} = {}"
  by (simp add: diag_entries_def)

lemma diag_entries_none: "kp_set d m = {} \<Longrightarrow> diag_entries d m kp E = E"
  by (auto simp: diag_entries_def kp_slice_def)

lemma diag_entries_sub:
  assumes E: "all_depth (Suc d) E" and p: "p \<in> kp_set (Suc d) m"
  shows "diag_entries d (sub_mask (Suc d) m p) kp (sub_entries p kp E) = diag_entries (Suc d) m kp E"
proof -
  have c: "card (kp_set d (sub_mask (Suc d) m p)) = card (kp_set (Suc d) m) - 1"
    using kp_set_sub(2)[of p "Suc d" m] card_shifted[OF finite_kp_set p] p by (simp add: kp_set_def)
  have "card (kp_set (Suc d) m) \<noteq> 0" using p by (auto simp: card_eq_0_iff)
  then obtain n where n: "card (kp_set (Suc d) m) = Suc n" by (cases "card (kp_set (Suc d) m)") auto
  have eq: "kp_slice n (sub_mask (Suc d) m p) (subkey key p) kp = kp_slice (Suc n) m key kp"
    if "(key, w) \<in> E" "key ! p = kp" for key w
    using kp_slice_sub[of p key m kp n] that E p n by (force simp: all_depth_def)
  have "key ! p = kp" if "(key, w) \<in> E" "kp_slice (Suc n) m key kp = Some key'" for key w key'
  proof -
    have "length key = Suc d" using E that(1) by (force simp: all_depth_def)
    then show ?thesis using kp_slice_closed[of key m "Suc n" kp] n that(2) p by (auto split: if_splits)
  qed
  then have "(\<exists>key. (key, w) \<in> E \<and> key ! p = kp \<and> kp_slice n (sub_mask (Suc d) m p) (subkey key p) kp = Some key')
      \<longleftrightarrow> (\<exists>key. (key, w) \<in> E \<and> kp_slice (Suc n) m key kp = Some key')" for key' w
    using eq by metis
  moreover have "(key', w) \<in> diag_entries d (sub_mask (Suc d) m p) kp (sub_entries p kp E) \<longleftrightarrow>
      (\<exists>key. (key, w) \<in> E \<and> key ! p = kp \<and> kp_slice n (sub_mask (Suc d) m p) (subkey key p) kp = Some key')" for key' w
    using c n by (force simp: diag_entries_def sub_entries_def)
  ultimately show ?thesis using n by (auto simp: diag_entries_def)
qed

lemma diag_entries_ok:
  "universe_ok T U \<Longrightarrow> entries_ok U d E \<Longrightarrow> card (kp_set d m) < d \<Longrightarrow>
    entries_ok U (d - card (kp_set d m)) (diag_entries d m kp E)"
proof (induction "card (kp_set d m)" arbitrary: d m E)
  case 0
  then show ?case by (simp add: diag_entries_none)
next
  case (Suc n)
  obtain p where p: "p \<in> kp_set d m" using Suc.hyps(2) by (metis card.empty ex_in_conv nat.distinct(1))
  obtain d' where d': "d = Suc d'" "1 \<le> d'" using Suc.prems(3) Suc.hyps(2) by (cases d) auto
  have pd: "p < Suc d'" using p d' by (simp add: kp_set_def)
  have F: "entries_ok U d' (sub_entries p kp E)" using entries_ok_sub[OF Suc.prems(1) _ d'(2) pd] Suc.prems(2) d'(1) by simp
  have n: "n = card (kp_set d' (sub_mask d m p))"
    using kp_set_sub(2)[of p d m] card_shifted[OF finite_kp_set p] Suc.hyps(2) pd d' by simp
  have "entries_ok U (d' - card (kp_set d' (sub_mask d m p))) (diag_entries d' (sub_mask d m p) kp (sub_entries p kp E))"
    by (rule Suc.hyps(1)[OF n Suc.prems(1) F]) (use n Suc.hyps(2) Suc.prems(3) d' in linarith)
  moreover have "d' - card (kp_set d' (sub_mask d m p)) = d - card (kp_set d m)" using n Suc.hyps(2) d' by linarith
  ultimately show ?case
    using diag_entries_sub[of d' E p m kp] Suc.prems(2) p d' by (simp add: entries_ok_def)
qed

lemma min_card_loop_min:
  "min_card_loop f ps m c = r \<Longrightarrow>
    (r = m \<and> (\<forall>p \<in> set ps. c \<le> f p)) \<or> (r \<in> set ps \<and> f r < c \<and> (\<forall>p \<in> set ps. f r \<le> f p))"
proof (induction f ps m c arbitrary: r rule: min_card_loop.induct)
  case (2 f pos ps m c)
  show ?case
  proof (cases "f pos < c")
    case True
    then have "min_card_loop f ps pos (f pos) = r" using 2(3) by (simp add: Let_def)
    from 2(1)[OF refl True this] show ?thesis using True by auto
  next
    case False
    then have "min_card_loop f ps m c = r" using 2(3) by (simp add: Let_def)
    from 2(2)[OF refl False this] show ?thesis using False by auto
  qed
qed simp

lemma edge_count_le:
  assumes E: "entries_ok U d E" and fn: "fn_repr T d E fn" and d: "1 \<le> d" "p < d"
  shows "edge_count d fn p \<le> card E"
proof (cases "d = 1")
  case True
  then show ?thesis using fn_size_repr[OF E fn] by (simp add: edge_count_def fn_size_def)
next
  case False
  then obtain d' where d': "d = Suc d'" "1 \<le> d'" using d by (cases d) auto
  note r = edges_reprD[OF fn_reprD(3)[OF fn[unfolded d'(1)] d'(2), of p]]
  have "set (keys_of (fn_edges fn ! p)) \<subseteq> (\<lambda>e. fst e ! p) ` E"
  proof
    fix k assume "k \<in> set (keys_of (fn_edges fn ! p))"
    then have "sub_entries p k E \<noteq> {}" using r(2)[of k] d d' al_find_None_iff[of "fn_edges fn ! p" k] by auto
    then show "k \<in> (\<lambda>e. fst e ! p) ` E" by (force simp: sub_entries_def)
  qed
  then have "card (set (keys_of (fn_edges fn ! p))) \<le> card E"
    using entries_okD(1)[OF E] by (meson card_image_le card_mono finite_imageI le_trans)
  then show ?thesis using r(1) d d' False distinct_card[of "keys_of (fn_edges fn ! p)"] by (simp add: edge_count_def)
qed

lemma min_card_pos_mask_mem:
  assumes E: "entries_ok U d E" and fn: "fn_repr T d E fn" and d: "1 \<le> d" and m: "kp_set d m \<noteq> {}"
  shows "min_card_pos_mask d fn m \<in> kp_set d m"
proof -
  let ?ps = "filter (kp_at m) [0..<d]"
  obtain p where p: "p \<in> set ?ps" using m by (auto simp: kp_set_def)
  then have "edge_count d fn p < size_max"
    using edge_count_le[OF E fn d] entries_okD(5)[OF E] by (auto intro: le_less_trans)
  then have "min_card_loop (edge_count d fn) ?ps 0 size_max \<in> set ?ps"
    using min_card_loop_min[of "edge_count d fn" ?ps 0 size_max, OF refl] p by (meson not_le)
  then show ?thesis by (simp add: min_card_pos_mask_def kp_set_def)
qed

lemma diag_entries_single:
  "diag_entries d m kp {(key, v)} =
    (case kp_slice (card (kp_set d m)) m key kp of None \<Rightarrow> {} | Some key' \<Rightarrow> {(key', v)})"
  by (auto simp: diag_entries_def split: option.split)

lemma diagonal_slice_rek_spec:
  "below_ok T U \<sigma> (Suc d) \<Longrightarrow> entries_ok U d E \<Longrightarrow> E \<noteq> {} \<Longrightarrow> present T \<sigma> d (ident T d E) \<Longrightarrow>
    container_ok T d E c \<Longrightarrow> card (kp_set d m) = fixed \<Longrightarrow> fixed \<noteq> 0 \<Longrightarrow> fixed < d \<Longrightarrow>
    \<exists>r. diagonal_slice_rek T \<sigma> d fixed c m kp cached = Some r \<and>
      slice_denotes T \<sigma> (d - fixed) (diag_entries d m kp E) r"
proof (induction d arbitrary: E c m fixed)
  case (Suc d)
  have lvl: "level_ok T U \<sigma> (Suc d)" using below_okD(1)[OF Suc.prems(1), of "Suc d"] by simp
  note U = level_okD(1)[OF lvl] and E = Suc.prems(2) and pres = Suc.prems(4) and c = Suc.prems(5) and m = Suc.prems(6-8)
  have d: "1 \<le> d" using m(2,3) by simp
  let ?rd = "Suc d - fixed"
  show ?case
  proof (cases "card E = 1")
    case True
    then obtain key v where kv: "E = {(key, v)}" by (auto simp: card_1_singleton_iff)
    have sen: "is_sen T (nc_id c)" using is_sen_ident[OF U E] True container_okD(1)[OF c] by simp
    have ip: "\<not> in_place_node T (Suc d)" using d by (simp add: in_place_node_def)
    obtain s where s: "sen_deref \<sigma> (Suc d) c = Some s" "sn_entry s = (key, v)"
      using sen_deref_entry[OF lvl _ ip, of "(key, v)" c] E pres c kv by blast
    then have skv: "sn_key s = key" "sn_value s = v" by (simp_all add: sn_entry_def)
    show ?thesis
    proof (cases "kp_slice fixed m key kp")
      case None
      then show ?thesis using sen s skv kv m(1) empty_slice_denotes by (auto simp: diag_entries_single Let_def)
    next
      case (Some key')
      have "encode_single_entry T ?rd (key', v) = ident T ?rd {(key', v)}"
        by (rule encode_single_entry_ident[OF level_okD(2)[OF lvl]])
      then show ?thesis using sen s skv kv m(1) Some
        by (simp add: diag_entries_single Let_def slice_denotes_def make_sen_with_stl_alloc_def sn_entry_def new_sen_def)
    qed
  next
    case False
    then have card: "2 \<le> card E" using Suc.prems(3) card_cases[OF entries_okD(1)[OF E]] by (metis card.empty is_singletonI is_singleton_altdef)
    obtain fn where fn: "fn_deref \<sigma> (Suc d) c = Some fn" "fn_repr T (Suc d) E fn"
      using fn_deref_repr[OF lvl E card pres c] by blast
    have id: "\<not> is_sen T (nc_id c)" using is_sen_ident[OF U E] False container_okD(1)[OF c] by simp
    let ?p = "min_card_pos_mask (Suc d) fn m"
    let ?F = "sub_entries ?p kp E"
    have p: "?p \<in> kp_set (Suc d) m" using m by (intro min_card_pos_mask_mem[OF E fn(2)]) auto
    then have pd: "?p < Suc d" by (simp add: kp_set_def)
    obtain child where ch: "resolve T \<sigma> (Suc d) c ?p kp = Some child"
      "container_ok T d ?F child" "present T \<sigma> d (ident T d ?F)" "entries_ok U d ?F"
      using resolve_spec[OF Suc.prems(1) d pd E card pres c] by blast
    have sub: "diag_entries d (sub_mask (Suc d) m ?p) kp ?F = diag_entries (Suc d) m kp E"
      using diag_entries_sub[where E = E, OF _ p] E by (simp add: entries_ok_def)
    have n: "card (kp_set d (sub_mask (Suc d) m ?p)) = fixed - 1"
      using kp_set_sub(2)[of ?p "Suc d" m] card_shifted[OF finite_kp_set p] pd m(1) by simp
    have zero: "id_empty T (nc_id child) \<longleftrightarrow> ?F = {}"
      using ident_nonzero[OF U ch(4)] container_okD(1)[OF ch(2)] by simp
    note run = fn(1) id ch(1)
    consider "?F = {}" | "?F \<noteq> {}" "fixed = 1" | "?F \<noteq> {}" "fixed \<noteq> 1" by blast
    then show ?thesis
    proof cases
      case 1
      then have "diag_entries (Suc d) m kp E = {}" using sub by simp
      then show ?thesis using run zero 1 empty_slice_denotes by (auto simp: Let_def)
    next
      case 2
      then have "kp_set d (sub_mask (Suc d) m ?p) = {}" using n by simp
      then have "diag_entries (Suc d) m kp E = ?F" using sub diag_entries_none by metis
      then show ?thesis using run zero 2 provided_slice_denotes[OF U ch(4,2,3)] by (simp add: Let_def)
    next
      case 3
      have "\<exists>r. diagonal_slice_rek T \<sigma> d (fixed - 1) child (sub_mask (Suc d) m ?p) kp cached = Some r \<and>
          slice_denotes T \<sigma> (d - (fixed - 1)) (diag_entries d (sub_mask (Suc d) m ?p) kp ?F) r"
        by (rule Suc.IH[OF below_okD(3)[OF Suc.prems(1)] ch(4) 3(1) ch(3,2) n]) (use 3(2) m in simp_all)
      moreover have "d - (fixed - 1) = Suc d - fixed" using m by simp
      ultimately show ?thesis using run zero 3 sub kp_sub_eq[OF pd, of m] by (simp add: Let_def)
    qed
  qed
qed simp

lemma diagonal_slice_spec:
  assumes below: "below_ok T U \<sigma> (Suc d)" and d: "1 \<le> d" and E: "entries_ok U d E" and pres: "present T \<sigma> d (ident T d E)"
    and c: "container_ok T d E c" and m: "card (kp_set d m) = fixed"
  shows "fixed = d \<Longrightarrow> diagonal_slice T \<sigma> d fixed c m kp cached = Some (Scalar (value_at E (replicate d kp)))"
    "fixed < d \<Longrightarrow> \<exists>r. diagonal_slice T \<sigma> d fixed c m kp cached = Some (Slice r) \<and>
      slice_denotes T \<sigma> (d - fixed) (diag_entries d m kp E) r"
proof -
  have U: "universe_ok T U" using level_okD(1)[OF below_okD(1)[OF below d]] by simp
  show "diagonal_slice T \<sigma> d fixed c m kp cached = Some (Scalar (value_at E (replicate d kp)))" if "fixed = d"
    using node_get_spec[OF d below E pres c, of "replicate d kp"] that d by (simp add: diagonal_slice_def)
  have zero: "id_empty T (nc_id c) \<longleftrightarrow> E = {}" using ident_nonzero[OF U E] container_okD(1)[OF c] by simp
  show "\<exists>r. diagonal_slice T \<sigma> d fixed c m kp cached = Some (Slice r) \<and> slice_denotes T \<sigma> (d - fixed) (diag_entries d m kp E) r"
    if lt: "fixed < d"
  proof (cases "fixed = 0")
    case True
    then show ?thesis using provided_slice_denotes[OF U E c pres] m by (simp add: diagonal_slice_def diag_entries_none)
  next
    case False
    then show ?thesis
      using diagonal_slice_rek_spec[OF below E _ pres c m False lt] zero lt empty_slice_denotes
      by (cases "E = {}") (auto simp: diagonal_slice_def)
  qed
qed

end
