(* ===== verification/Cursor.thy ===== *)
theory Cursor
  imports Prelude
begin

text \<open>
  The interface of the iterators. The raw iterator and both hash diagonals are used the same way:
  their user checks the end, dereferences, increments. \<open>run_cursor\<close> is that loop, with fuel. The
  locale \<open>cursor\<close> states what an iterator promises, \<open>rest\<close> being the items that are still to come;
  the loop then ends and yields the items in their order. A keyed cursor yields a value per key.
\<close>

fun run_cursor :: "('s \<Rightarrow> bool) \<Rightarrow> ('s \<Rightarrow> 'y option) \<Rightarrow> ('s \<Rightarrow> 's option) \<Rightarrow> nat \<Rightarrow> 's \<Rightarrow> 'y list option" where
  "run_cursor ended deref inc 0 s = (if ended s then Some [] else None)"
| "run_cursor ended deref inc (Suc fuel) s =
     (if ended s then Some []
      else do {
        y \<leftarrow> deref s;
        s' \<leftarrow> inc s;
        ys \<leftarrow> run_cursor ended deref inc fuel s';
        Some (y # ys)
      })"

text \<open>The same loop without fuel, as a \<open>for\<close> over an iterator runs it.\<close>

partial_function (option) drain :: "('s \<Rightarrow> bool) \<Rightarrow> ('s \<Rightarrow> 'y option) \<Rightarrow> ('s \<Rightarrow> 's option) \<Rightarrow> 's \<Rightarrow> 'y list option" where
  "drain ended deref inc s =
     (if ended s then Some []
      else do {
        y \<leftarrow> deref s;
        s' \<leftarrow> inc s;
        ys \<leftarrow> drain ended deref inc s';
        Some (y # ys)
      })"

lemma drain_run: "run_cursor ended deref inc fuel s = Some ys \<Longrightarrow> drain ended deref inc s = Some ys"
proof (induction fuel arbitrary: s ys)
  case 0
  then show ?case by (subst drain.simps) (simp split: if_splits)
next
  case (Suc fuel)
  then show ?case by (subst drain.simps) (auto simp: bind_eq_Some_conv split: if_splits)
qed

locale cursor =
  fixes ended :: "'s \<Rightarrow> bool" and deref :: "'s \<Rightarrow> 'y option" and inc :: "'s \<Rightarrow> 's option"
    and ok :: "'s \<Rightarrow> bool" and rest :: "'s \<Rightarrow> 'x list" and yields :: "'x \<Rightarrow> 'y \<Rightarrow> bool"
  assumes end_iff: "ok s \<Longrightarrow> ended s \<longleftrightarrow> rest s = []"
    and step: "ok s \<Longrightarrow> rest s = x # xs \<Longrightarrow>
      \<exists>y s'. deref s = Some y \<and> yields x y \<and> inc s = Some s' \<and> ok s' \<and> rest s' = xs"
begin

lemma run: "ok s \<Longrightarrow> length (rest s) \<le> fuel \<Longrightarrow>
    \<exists>ys. run_cursor ended deref inc fuel s = Some ys \<and> list_all2 yields (rest s) ys"
proof (induction fuel arbitrary: s)
  case 0
  then show ?case using end_iff by simp
next
  case (Suc fuel)
  show ?case
  proof (cases "rest s")
    case Nil
    then show ?thesis using end_iff[OF Suc.prems(1)] by simp
  next
    case (Cons x xs)
    then obtain y s' where s': "deref s = Some y" "yields x y" "inc s = Some s'" "ok s'" "rest s' = xs"
      using step[OF Suc.prems(1)] by blast
    then show ?thesis using Suc.IH[OF s'(4)] Suc.prems Cons end_iff by auto
  qed
qed

end

locale keyed_cursor = cursor ended deref inc ok rest yields
  for ended :: "'s \<Rightarrow> bool" and deref :: "'s \<Rightarrow> ('k \<times> 'a) option" and inc ok rest
    and yields :: "'k \<Rightarrow> 'k \<times> 'a \<Rightarrow> bool" +
  assumes key: "yields k y \<Longrightarrow> fst y = k" and distinct_rest: "ok s \<Longrightarrow> distinct (rest s)"
begin

lemma run_keys: "ok s \<Longrightarrow> length (rest s) \<le> fuel \<Longrightarrow>
    \<exists>ys. run_cursor ended deref inc fuel s = Some ys \<and> map fst ys = rest s \<and> distinct (map fst ys) \<and>
      (\<forall>y \<in> set ys. yields (fst y) y)"
proof -
  assume s: "ok s" "length (rest s) \<le> fuel"
  obtain ys where ys: "run_cursor ended deref inc fuel s = Some ys" "list_all2 yields (rest s) ys"
    using run[OF s] by blast
  have "map fst ys = ks" "\<forall>y \<in> set ys. yields (fst y) y" if "list_all2 yields ks ys" for ks ys
    using that by (induction ks ys) (use key in auto)
  then show ?thesis using ys distinct_rest[OF s(1)] by metis
qed

end

end
