(* ===== verification/Raw_Iterator.thy ===== *)
theory Raw_Iterator
  imports Raw_Context Cursor
begin

text \<open>
  The iterator over the entries of a node (internal/raw/iteration/RawIterator.hpp). The program
  keeps one pair of hash map iterators per depth; the model keeps the part of the edge list that
  starts at the current edge, so that the pair is at its end when the list is empty. The key is
  written from the back: the level of depth \<open>d\<close> writes position \<open>d - 1\<close>. \<open>enum\<close> is the reference: the
  entries of a node, level by level. Iterating from the begin to the end yields exactly \<open>enum\<close>, which
  lists every entry of the node's set once.
\<close>

subsection \<open>The iterator\<close>

record 'v raw_iterator =
  ri_key :: raw_key
  ri_value :: 'v
  ri_iters :: "nat \<Rightarrow> (key_part \<times> node_id) list"
  ri_values :: "(key_part \<times> 'v) list"
  ri_active :: nat
  ri_ended :: bool

definition new_iterator :: "nat \<Rightarrow> 'v::zero_neq_one raw_iterator" where
  "new_iterator depth = \<lparr>ri_key = replicate depth 0, ri_value = 1, ri_iters = \<lambda>_. [], ri_values = [],
     ri_active = 0, ri_ended = True\<rparr>"

text \<open>\<open>write_uncompressed_mapped_key_part\<close>; dereferencing an end iterator is \<open>None\<close>.\<close>

definition write_mapped_key_part :: "nat \<Rightarrow> 'v raw_iterator \<Rightarrow> 'v raw_iterator option" where
  "write_mapped_key_part node_depth it =
     (if node_depth = 1 then
        (case ri_values it of [] \<Rightarrow> None
         | (kp, v) # _ \<Rightarrow> Some (it\<lparr>ri_key := (ri_key it)[0 := kp], ri_value := v\<rparr>))
      else
        (case ri_iters it node_depth of [] \<Rightarrow> None
         | (kp, _) # _ \<Rightarrow> Some (it\<lparr>ri_key := (ri_key it)[node_depth - 1 := kp]\<rparr>)))"

definition write_compressed ::
  "'v::zero_neq_one htt \<Rightarrow> 'v node_storage \<Rightarrow> nat \<Rightarrow> node_id \<Rightarrow> 'v raw_iterator \<Rightarrow> 'v raw_iterator option" where
  "write_compressed T \<sigma> node_depth i it =
     (if in_place_node T node_depth then map_option (\<lambda>e. it\<lparr>ri_key := (ri_key it)[0 := fst e ! 0]\<rparr>) (get_entry T i)
      else map_option (\<lambda>s. it\<lparr>ri_key := sn_key s @ drop (length (sn_key s)) (ri_key it), ri_value := sn_value s\<rparr>)
             (find_sen \<sigma> node_depth i))"

fun init_fn_rek ::
  "'v::zero_neq_one htt \<Rightarrow> 'v node_storage \<Rightarrow> nat \<Rightarrow> 'v full_node \<Rightarrow> 'v raw_iterator \<Rightarrow> 'v raw_iterator option" where
  "init_fn_rek T \<sigma> 0 fn it = None"
| "init_fn_rek T \<sigma> (Suc 0) fn it =
     write_mapped_key_part 1 (it\<lparr>ri_active := 1, ri_values := fn_values fn\<rparr>)"
| "init_fn_rek T \<sigma> (Suc (Suc d)) fn it = do {
     let edges = fn_edges fn ! Suc d;
     it1 \<leftarrow> write_mapped_key_part (Suc (Suc d))
       (it\<lparr>ri_active := Suc (Suc d), ri_iters := (ri_iters it)(Suc (Suc d) := edges)\<rparr>);
     let child = snd (hd edges);
     if is_fn T child then do {
       child_fn \<leftarrow> find_fn \<sigma> (Suc d) child;
       init_fn_rek T \<sigma> (Suc d) child_fn it1
     } else write_compressed T \<sigma> (Suc d) child it1
   }"

definition iterator_fn ::
  "'v::zero_neq_one htt \<Rightarrow> 'v node_storage \<Rightarrow> nat \<Rightarrow> node_container \<Rightarrow> 'v raw_iterator option" where
  "iterator_fn T \<sigma> depth c =
     (if id_empty T (nc_id c) then Some (new_iterator depth)
      else do {
        fn \<leftarrow> fn_deref \<sigma> depth c;
        init_fn_rek T \<sigma> depth fn ((new_iterator depth)\<lparr>ri_ended := False\<rparr>)
      })"

text \<open>The constructor for a single-entry node, of the context or owned by a handle: \<open>node\<close> is what the
  container points to.\<close>

definition iterator_sen ::
  "'v::zero_neq_one htt \<Rightarrow> nat \<Rightarrow> node_container \<Rightarrow> 'v sen_node option \<Rightarrow> 'v raw_iterator option" where
  "iterator_sen T depth c node =
     (let it = new_iterator depth in
      if id_empty T (nc_id c) then Some it
      else if in_place_node T depth then
        map_option (\<lambda>e. it\<lparr>ri_ended := False, ri_key := (ri_key it)[depth - 1 := fst e ! 0]\<rparr>) (get_entry T (nc_id c))
      else map_option (\<lambda>s. it\<lparr>ri_ended := False, ri_key := sn_key s @ drop (length (sn_key s)) (ri_key it), ri_value := sn_value s\<rparr>)
             node)"

definition iterator_begin ::
  "'v::zero_neq_one htt \<Rightarrow> 'v node_storage \<Rightarrow> nat \<Rightarrow> node_container \<Rightarrow> 'v raw_iterator option" where
  "iterator_begin T \<sigma> depth c =
     (if is_sen T (nc_id c) then iterator_sen T depth c (sen_deref \<sigma> depth c) else iterator_fn T \<sigma> depth c)"

text \<open>Advancing a level; \<open>levels\<close> is the number of levels above.\<close>

fun inc_rek ::
  "'v::zero_neq_one htt \<Rightarrow> 'v node_storage \<Rightarrow> nat \<Rightarrow> nat \<Rightarrow> 'v raw_iterator \<Rightarrow> 'v raw_iterator option" where
  "inc_rek T \<sigma> levels 0 it = None"
| "inc_rek T \<sigma> levels (Suc d) it =
     (let it1 = it\<lparr>ri_active := Suc d\<rparr>;
          it2 = (if d = 0 then it1\<lparr>ri_values := tl (ri_values it1)\<rparr>
                 else it1\<lparr>ri_iters := (ri_iters it1)(Suc d := tl (ri_iters it1 (Suc d)))\<rparr>)
      in if (if d = 0 then ri_values it2 \<noteq> [] else ri_iters it2 (Suc d) \<noteq> []) then do {
           it3 \<leftarrow> write_mapped_key_part (Suc d) it2;
           if d = 0 then Some it3
           else let child = snd (hd (ri_iters it2 (Suc d))) in
             if is_fn T child then do {
               child_fn \<leftarrow> find_fn \<sigma> d child;
               init_fn_rek T \<sigma> d child_fn it3
             } else write_compressed T \<sigma> d child it3
         }
         else (case levels of 0 \<Rightarrow> Some (it2\<lparr>ri_ended := True\<rparr>) | Suc l \<Rightarrow> inc_rek T \<sigma> l (Suc (Suc d)) it2))"

definition iterator_inc ::
  "'v::zero_neq_one htt \<Rightarrow> 'v node_storage \<Rightarrow> nat \<Rightarrow> 'v raw_iterator \<Rightarrow> 'v raw_iterator option" where
  "iterator_inc T \<sigma> depth it =
     (if ri_active it = 0 then Some (it\<lparr>ri_ended := True\<rparr>)
      else inc_rek T \<sigma> (depth - ri_active it) (ri_active it) it)"

definition iterator_value :: "'v raw_iterator \<Rightarrow> 'v entry" where
  "iterator_value it = (ri_key it, ri_value it)"

text \<open>The values an iterator yields, with fuel for the loop of its user.\<close>

definition iterate :: "'v::zero_neq_one htt \<Rightarrow> 'v node_storage \<Rightarrow> nat \<Rightarrow> nat \<Rightarrow> 'v raw_iterator \<Rightarrow> 'v entry list option" where
  "iterate T \<sigma> depth = run_cursor ri_ended (\<lambda>it. Some (iterator_value it)) (iterator_inc T \<sigma> depth)"

subsection \<open>The entries of a node, level by level\<close>

fun enum :: "'v::zero_neq_one htt \<Rightarrow> 'v node_storage \<Rightarrow> nat \<Rightarrow> node_id \<Rightarrow> 'v entry list" where
  "enum T \<sigma> 0 i = []"
| "enum T \<sigma> (Suc d) i =
     (if is_sen T i then
        (if in_place_node T (Suc d) then [in_place_entry T i]
         else case find_sen \<sigma> (Suc d) i of None \<Rightarrow> [] | Some s \<Rightarrow> [sn_entry s])
      else case find_fn \<sigma> (Suc d) i of None \<Rightarrow> []
        | Some fn \<Rightarrow>
            if d = 0 then map (\<lambda>(kp, v). ([kp], v)) (fn_values fn)
            else concat (map (\<lambda>(kp, c). map (\<lambda>(key, v). (key @ [kp], v)) (enum T \<sigma> d c)) (fn_edges fn ! d)))"

lemma pair_set_eqI: "(\<And>a b. (a, b) \<in> A \<longleftrightarrow> (a, b) \<in> B) \<Longrightarrow> A = B"
  by auto

lemma subkey_last: "length key = Suc d \<Longrightarrow> subkey key d = butlast key"
  by (simp add: subkey_take_drop butlast_conv_take)

lemma snoc_sub_entries:
  assumes "\<forall>e \<in> E. length (fst e) = Suc d"
  shows "(key @ [k], v) \<in> E \<longleftrightarrow> (key, v) \<in> sub_entries d k E"
proof
  assume "(key @ [k], v) \<in> E"
  moreover from this have "length key = d" using assms by force
  ultimately show "(key, v) \<in> sub_entries d k E"
    using sub_entries_at[of E "key @ [k]" d v] assms by (simp add: subkey_last nth_append)
next
  assume "(key, v) \<in> sub_entries d k E"
  then obtain key' where k: "(key', v) \<in> E" "key' ! d = k" "key = subkey key' d" by (auto simp: sub_entries_def)
  then have len: "length key' = Suc d" using assms by force
  then have "key' = butlast key' @ [key' ! d]" by (metis append_butlast_last_id diff_Suc_1 last_conv_nth length_0_conv nat.distinct(1))
  then show "(key @ [k], v) \<in> E" using k subkey_last[OF len] by simp
qed

lemma enum_spec:
  "1 \<le> d \<Longrightarrow> below_ok T U \<sigma> (Suc d) \<Longrightarrow> entries_ok U d E \<Longrightarrow> present T \<sigma> d (ident T d E) \<Longrightarrow>
    set (enum T \<sigma> d (ident T d E)) = E \<and> distinct (enum T \<sigma> d (ident T d E))"
proof (induction d arbitrary: E)
  case (Suc d)
  have lvl: "level_ok T U \<sigma> (Suc d)" using below_okD(1)[OF Suc.prems(2), of "Suc d"] by simp
  note U = level_okD(1)[OF lvl] and T = level_okD(2)[OF lvl] and E = Suc.prems(3) and pres = Suc.prems(4)
  let ?i = "ident T (Suc d) E"
  have len: "\<forall>e \<in> E. length (fst e) = Suc d" using entries_okD(3)[OF E] by blast
  show ?case
  proof (cases rule: card_cases[OF entries_okD(1)[OF E]])
    case 1
    have "find_fn \<sigma> (Suc d) 0 = None"
    proof (rule ccontr)
      assume "find_fn \<sigma> (Suc d) 0 \<noteq> None"
      then have "is_fn T 0" using fns_ok_is_fn[OF U level_okD(4)[OF lvl], of 0] by (auto simp: find_fn_def)
      then show False by (simp add: is_fn_def)
    qed
    then show ?thesis using 1 by simp
  next
    case (2 e)
    note e = E[unfolded 2]
    have sen: "is_sen T ?i" using is_sen_ident[OF U E] 2 by simp
    show ?thesis
    proof (cases "in_place_node T (Suc d)")
      case True
      then have "d = 0" "in_place_depth1 T" by (auto simp: in_place_node_def)
      then show ?thesis using get_entry_ident[OF U] e sen True 2 by simp
    next
      case False
      obtain s where s: "find_sen \<sigma> (Suc d) ?i = Some s" using present_sen[OF pres sen False T] .
      then have "sn_entry s = e" using sens_ok_repr(1)[OF U level_okD(5)[OF lvl] _ E] 2 by (simp add: find_sen_def)
      then show ?thesis using sen False s 2 by simp
    qed
  next
    case 3
    have fn: "is_fn T ?i" "\<not> is_sen T ?i" using is_sen_ident[OF U E] is_fn_ident[OF U E] 3 by auto
    obtain g where g: "find_fn \<sigma> (Suc d) ?i = Some g" using present_fn[OF pres fn(1)] .
    have repr: "fn_repr T (Suc d) E g" using fns_ok_repr(2)[OF U level_okD(4)[OF lvl] _ E] g by (simp add: find_fn_def)
    show ?thesis
    proof (cases "d = 0")
      case True
      have r: "al_ok (fn_values g)" "\<And>k v. map_of (fn_values g) k = Some v \<longleftrightarrow> ([k], v) \<in> E"
        using fn_repr1D[of T E g] repr True by auto
      have "(key, v) \<in> (\<lambda>(kp, v). ([kp], v)) ` set (fn_values g) \<longleftrightarrow> (key, v) \<in> E" for key v
      proof -
        have "(key, v) \<in> (\<lambda>(kp, v). ([kp], v)) ` set (fn_values g) \<longleftrightarrow> (\<exists>kp. key = [kp] \<and> (kp, v) \<in> set (fn_values g))"
          by force
        also have "\<dots> \<longleftrightarrow> (\<exists>kp. key = [kp] \<and> ([kp], v) \<in> E)" by (simp add: al_mem_iff[OF r(1)] r(2))
        also have "\<dots> \<longleftrightarrow> (key, v) \<in> E"
        proof
          assume kv: "(key, v) \<in> E"
          then have "length key = Suc 0" using len True by force
          then show "\<exists>kp. key = [kp] \<and> ([kp], v) \<in> E" using kv by (auto simp: length_Suc_conv)
        qed auto
        finally show ?thesis .
      qed
      then have "(\<lambda>(kp, v). ([kp], v)) ` set (fn_values g) = E" by (rule pair_set_eqI)
      moreover have "distinct (map (\<lambda>(kp, v). ([kp], v)) (fn_values g))"
        using r(1) by (auto simp: distinct_map inj_on_def)
      ultimately show ?thesis using fn g True by auto
    next
      case False
      then have d: "1 \<le> d" by simp
      note er = edges_reprD[OF fn_reprD(3)[OF repr d, of d]]
      have kid: "sub_entries d k E \<noteq> {} \<and> c = ident T d (sub_entries d k E) \<and> set (enum T \<sigma> d c) = sub_entries d k E \<and> distinct (enum T \<sigma> d c)"
        if "(k, c) \<in> set (fn_edges g ! d)" for k c
      proof -
        have kc: "sub_entries d k E \<noteq> {} \<and> c = ident T d (sub_entries d k E)"
          using that er(2)[of k] al_mem_iff[OF er(1)] by (metis lessI option.distinct(1) option.inject)
        have "present T \<sigma> d (ident T d (sub_entries d k E))"
          using kids_presentD[OF below_okD(2)[OF Suc.prems(2) d _ g] repr d, of d k] kc by simp
        then show ?thesis
          using Suc.IH[OF d below_okD(3)[OF Suc.prems(2)] entries_ok_sub[OF U E d lessI]] kc by simp
      qed
      let ?f = "\<lambda>(kp, c). map (\<lambda>(key, v). (key @ [kp], v)) (enum T \<sigma> d c)"
      have "(key, v) \<in> set (concat (map ?f (fn_edges g ! d))) \<longleftrightarrow> (key, v) \<in> E" for key v
      proof
        assume "(key, v) \<in> set (concat (map ?f (fn_edges g ! d)))"
        then obtain kp c key' where x: "(kp, c) \<in> set (fn_edges g ! d)" "(key', v) \<in> set (enum T \<sigma> d c)" "key = key' @ [kp]"
          by auto
        then have "(key', v) \<in> sub_entries d kp E" using kid[OF x(1)] by blast
        then show "(key, v) \<in> E" using x(3) snoc_sub_entries[OF len, of key' kp v] by simp
      next
        assume kv: "(key, v) \<in> E"
        then have "length key = Suc d" using len by force
        then obtain key' kp where key: "key = key' @ [kp]" by (metis length_Suc_conv_rev)
        then have sub: "(key', v) \<in> sub_entries d kp E" using snoc_sub_entries[OF len] kv by simp
        then have "map_of (fn_edges g ! d) kp = Some (ident T d (sub_entries d kp E))" using er(2)[of kp] by auto
        then have mem: "(kp, ident T d (sub_entries d kp E)) \<in> set (fn_edges g ! d)" by (rule map_of_SomeD)
        then have "(key', v) \<in> set (enum T \<sigma> d (ident T d (sub_entries d kp E)))" using kid[OF mem] sub by blast
        then show "(key, v) \<in> set (concat (map ?f (fn_edges g ! d)))" using mem key by force
      qed
      then have "set (concat (map ?f (fn_edges g ! d))) = E" by (rule pair_set_eqI)
      moreover have "distinct (concat (map ?f (fn_edges g ! d)))"
      proof -
        have "distinct (concat (map ?f es))" if "al_ok es" "\<forall>(k, c) \<in> set es. distinct (enum T \<sigma> d c)" for es
          using that
        proof (induction es)
          case (Cons kc es)
          then show ?case by (force simp: distinct_map inj_on_def)
        qed simp
        then show ?thesis using er(1) kid by auto
      qed
      ultimately show ?thesis using fn g False by simp
    qed
  qed
qed simp

subsection \<open>Advancing the iterator\<close>

text \<open>What the levels still have to yield: the edges after the current one.\<close>

definition level_rest :: "'v::zero_neq_one htt \<Rightarrow> 'v node_storage \<Rightarrow> 'v raw_iterator \<Rightarrow> nat \<Rightarrow> 'v entry list" where
  "level_rest T \<sigma> it l =
     (if l = 1 then map (\<lambda>(kp, v). (kp # drop 1 (ri_key it), v)) (tl (ri_values it))
      else concat (map (\<lambda>(kp, c). map (\<lambda>(key, v). (key @ kp # drop l (ri_key it), v)) (enum T \<sigma> (l - 1) c)) (tl (ri_iters it l))))"

definition pending :: "'v::zero_neq_one htt \<Rightarrow> 'v node_storage \<Rightarrow> 'v raw_iterator \<Rightarrow> nat \<Rightarrow> nat \<Rightarrow> 'v entry list" where
  "pending T \<sigma> it lo hi = concat (map (level_rest T \<sigma> it) [lo..<hi])"

definition extend :: "raw_key \<Rightarrow> 'v entry list \<Rightarrow> 'v entry list" where
  "extend back es = map (\<lambda>(key, v). (key @ back, v)) es"

lemma set_tl_subset: "set (tl xs) \<subseteq> set xs"
  by (cases xs) auto

definition live_levels where
  "live_levels T U \<sigma> it lo hi \<longleftrightarrow>
     (\<forall>l. lo \<le> l \<longrightarrow> l < hi \<longrightarrow> 2 \<le> l \<longrightarrow> (\<forall>c \<in> snd ` set (ri_iters it l). live_child T U \<sigma> (l - 1) c))"

definition values_one :: "'v::zero_neq_one htt \<Rightarrow> 'v raw_iterator \<Rightarrow> bool" where
  "values_one T it \<longleftrightarrow> (in_place_depth1 T \<longrightarrow> ri_value it = 1 \<and> (\<forall>kv \<in> set (ri_values it). snd kv = 1))"

text \<open>Descending into a child, as \<open>init_fn_rek\<close> and \<open>inc_rek\<close> do it.\<close>

definition enter :: "'v::zero_neq_one htt \<Rightarrow> 'v node_storage \<Rightarrow> nat \<Rightarrow> node_id \<Rightarrow> 'v raw_iterator \<Rightarrow> 'v raw_iterator option" where
  "enter T \<sigma> d c it =
     (if is_fn T c then do { fn \<leftarrow> find_fn \<sigma> d c; init_fn_rek T \<sigma> d fn it } else write_compressed T \<sigma> d c it)"

lemma init_fn_rek_enter:
  assumes "1 \<le> d"
  shows "init_fn_rek T \<sigma> (Suc d) fn it = do {
     it1 \<leftarrow> write_mapped_key_part (Suc d)
       (it\<lparr>ri_active := Suc d, ri_iters := (ri_iters it)(Suc d := fn_edges fn ! d)\<rparr>);
     enter T \<sigma> d (snd (hd (fn_edges fn ! d))) it1 }"
  using assms by (cases d) (simp_all add: enter_def[abs_def] Let_def)

lemma inc_rek_enter:
  assumes "1 \<le> d"
  shows "inc_rek T \<sigma> levels (Suc d) it =
     (let it2 = it\<lparr>ri_active := Suc d, ri_iters := (ri_iters it)(Suc d := tl (ri_iters it (Suc d)))\<rparr>
      in if tl (ri_iters it (Suc d)) \<noteq> [] then do {
           it3 \<leftarrow> write_mapped_key_part (Suc d) it2;
           enter T \<sigma> d (snd (hd (tl (ri_iters it (Suc d))))) it3 }
         else (case levels of 0 \<Rightarrow> Some (it2\<lparr>ri_ended := True\<rparr>) | Suc l \<Rightarrow> inc_rek T \<sigma> l (Suc (Suc d)) it2))"
  using assms by (cases levels) (simp_all add: Let_def enter_def[abs_def])

lemma init_fn_rek_active: "1 \<le> d \<Longrightarrow> init_fn_rek T \<sigma> d fn (it\<lparr>ri_active := a\<rparr>) = init_fn_rek T \<sigma> d fn it"
  by (cases d; cases "d - 1") simp_all

lemma level_rest_cong:
  assumes "drop l (ri_key it') = drop l (ri_key it)" "l = 1 \<Longrightarrow> ri_values it' = ri_values it"
    "ri_iters it' l = ri_iters it l"
  shows "level_rest T \<sigma> it' l = level_rest T \<sigma> it l"
  using assms by (cases "l = 1") (simp_all add: level_rest_def)

lemma pending_cong:
  assumes "\<And>l. lo \<le> l \<Longrightarrow> l < hi \<Longrightarrow> level_rest T \<sigma> it' l = level_rest T \<sigma> it l"
  shows "pending T \<sigma> it' lo hi = pending T \<sigma> it lo hi"
  using assms unfolding pending_def by (intro arg_cong[where f = concat] map_cong) auto

lemma pending_split: "lo \<le> mid \<Longrightarrow> mid \<le> hi \<Longrightarrow> pending T \<sigma> it lo hi = pending T \<sigma> it lo mid @ pending T \<sigma> it mid hi"
  unfolding pending_def by (metis concat_append le_Suc_ex map_append upt_add_eq_append)

lemma pending_Cons: "lo < hi \<Longrightarrow> pending T \<sigma> it lo hi = level_rest T \<sigma> it lo @ pending T \<sigma> it (Suc lo) hi"
  unfolding pending_def by (simp add: upt_conv_Cons)

lemma pending_Nil [simp]: "pending T \<sigma> it lo lo = []"
  by (simp add: pending_def)

text \<open>The state after descending into the child \<open>c\<close> of depth \<open>d\<close>: the positions and levels above are as
  before, and the current entry and the pending ones are those of the child.\<close>

definition entered where
  "entered T U \<sigma> d c it it' \<longleftrightarrow>
     length (ri_key it') = length (ri_key it) \<and> drop d (ri_key it') = drop d (ri_key it) \<and>
     (\<forall>l > d. ri_iters it' l = ri_iters it l) \<and> ri_ended it' = ri_ended it \<and> values_one T it' \<and>
     1 \<le> ri_active it' \<and> ri_active it' \<le> Suc d \<and> live_levels T U \<sigma> it' (ri_active it') (Suc d) \<and>
     (ri_key it', ri_value it') # pending T \<sigma> it' (ri_active it') (Suc d) = extend (drop d (ri_key it)) (enum T \<sigma> d c)"

lemma enteredD:
  assumes "entered T U \<sigma> d c it it'"
  shows "length (ri_key it') = length (ri_key it)" "drop d (ri_key it') = drop d (ri_key it)"
    "d < l \<Longrightarrow> ri_iters it' l = ri_iters it l" "ri_ended it' = ri_ended it" "values_one T it'"
    "1 \<le> ri_active it'" "ri_active it' \<le> Suc d" "live_levels T U \<sigma> it' (ri_active it') (Suc d)"
    "(ri_key it', ri_value it') # pending T \<sigma> it' (ri_active it') (Suc d) = extend (drop d (ri_key it)) (enum T \<sigma> d c)"
  using assms by (auto simp: entered_def)

lemma drop_later: "a \<le> b \<Longrightarrow> drop a xs = drop a ys \<Longrightarrow> drop b xs = drop b ys"
  by (metis drop_drop le_add_diff_inverse2)

lemma extend_enum_edge:
  "extend back (map (\<lambda>(key, v). (key @ [kp], v)) es) = extend (kp # back) es"
  by (auto simp: extend_def)

lemma extend_concat:
  "extend back (concat (map (\<lambda>(kp, c). map (\<lambda>(key, v). (key @ [kp], v)) (f c)) es))
     = concat (map (\<lambda>(kp, c). map (\<lambda>(key, v). (key @ kp # back, v)) (f c)) es)"
  by (induction es) (auto simp: extend_def)

text \<open>Descending from a level whose current edge is \<open>(kp, c)\<close>, once its key part is written.\<close>

lemma entered_edge:
  assumes d: "1 \<le> d" and edges: "ri_iters it (Suc d) = (kp, c) # es"
    and len: "Suc d \<le> length (ri_key it)" and kp: "ri_key it ! d = kp"
    and ent: "entered T U \<sigma> d c it it'"
    and live: "\<forall>c \<in> snd ` set (ri_iters it (Suc d)). live_child T U \<sigma> d c"
  shows "drop (Suc d) (ri_key it') = drop (Suc d) (ri_key it)"
    "live_levels T U \<sigma> it' (ri_active it') (Suc (Suc d))"
    "(ri_key it', ri_value it') # pending T \<sigma> it' (ri_active it') (Suc (Suc d))
       = concat (map (\<lambda>(kp, c). map (\<lambda>(key, v). (key @ kp # drop (Suc d) (ri_key it), v)) (enum T \<sigma> d c)) ((kp, c) # es))"
proof -
  note e = enteredD[OF ent]
  show key_above: "drop (Suc d) (ri_key it') = drop (Suc d) (ri_key it)" by (rule drop_later[OF _ e(2)]) simp
  have it': "ri_iters it' (Suc d) = ri_iters it (Suc d)" using e(3) by simp
  show "live_levels T U \<sigma> it' (ri_active it') (Suc (Suc d))"
    using e(8) live it' by (auto simp: live_levels_def less_Suc_eq)
  have "pending T \<sigma> it' (ri_active it') (Suc (Suc d)) = pending T \<sigma> it' (ri_active it') (Suc d) @ level_rest T \<sigma> it' (Suc d)"
    using e(7) by (simp add: pending_split[of "ri_active it'" "Suc d" "Suc (Suc d)" T] pending_Cons[of "Suc d" "Suc (Suc d)" T])
  moreover have "level_rest T \<sigma> it' (Suc d)
      = concat (map (\<lambda>(kp, c). map (\<lambda>(key, v). (key @ kp # drop (Suc d) (ri_key it), v)) (enum T \<sigma> d c)) es)"
    using d it' edges key_above by (simp add: level_rest_def)
  moreover have "drop d (ri_key it) = kp # drop (Suc d) (ri_key it)"
    using len kp Cons_nth_drop_Suc[of d "ri_key it"] by simp
  ultimately show "(ri_key it', ri_value it') # pending T \<sigma> it' (ri_active it') (Suc (Suc d))
      = concat (map (\<lambda>(kp, c). map (\<lambda>(key, v). (key @ kp # drop (Suc d) (ri_key it), v)) (enum T \<sigma> d c)) ((kp, c) # es))"
    using e(9) by (simp add: extend_def)
qed

lemma write_edge:
  assumes "1 \<le> d" "ri_iters it (Suc d) = (kp, c) # es" "Suc d \<le> length (ri_key it)"
  shows "\<exists>it'. write_mapped_key_part (Suc d) it = Some it' \<and> it' = it\<lparr>ri_key := (ri_key it)[d := kp]\<rparr> \<and>
    ri_key it' ! d = kp \<and> drop (Suc d) (ri_key it') = drop (Suc d) (ri_key it)"
  using assms by (simp add: write_mapped_key_part_def)

lemma live_childE:
  assumes "live_child T U \<sigma> d c"
  obtains F where "entries_ok U d F" "F \<noteq> {}" "c = ident T d F" "present T \<sigma> d (ident T d F)"
  using assms by (auto simp: live_child_def)

lemma live_edges:
  assumes U: "universe_ok T U" and E: "entries_ok U (Suc d) E" and d: "1 \<le> d"
    and repr: "fn_repr T (Suc d) E g" and kids: "kids_present T \<sigma> d g"
  shows "\<forall>c \<in> snd ` set (fn_edges g ! d). live_child T U \<sigma> d c"
proof
  fix c assume "c \<in> snd ` set (fn_edges g ! d)"
  then obtain k where k: "(k, c) \<in> set (fn_edges g ! d)" by auto
  note er = edges_reprD[OF fn_reprD(3)[OF repr d, of d, simplified]]
  have kc: "sub_entries d k E \<noteq> {} \<and> c = ident T d (sub_entries d k E)"
    using k er(2)[of k] al_mem_iff[OF er(1)] by (metis option.distinct(1) option.inject)
  then show "live_child T U \<sigma> d c"
    using kids_presentD[OF kids repr d _, of d k] entries_ok_sub[OF U E d lessI]
    by (auto simp: live_child_def)
qed

lemma live_one:
  assumes U: "universe_ok T U" and E: "entries_ok U d E" and ip: "in_place_depth1 T" and T: "htt_ok T" and e: "e \<in> E"
  shows "snd e = 1"
  using universe_okD(2)[OF U entries_okD(2)[OF E] e] ip T by (auto simp: entry_ok_def htt_ok_def)

lemma enter_spec:
  "1 \<le> d \<Longrightarrow> below_ok T U \<sigma> (Suc d) \<Longrightarrow> live_child T U \<sigma> d c \<Longrightarrow> d \<le> length (ri_key it) \<Longrightarrow>
    (is_fn T c \<or> ri_active it = Suc d) \<Longrightarrow> values_one T it \<Longrightarrow>
    \<exists>it'. enter T \<sigma> d c it = Some it' \<and> entered T U \<sigma> d c it it'"
proof (induction d arbitrary: c it)
  case (Suc d)
  have lvl: "level_ok T U \<sigma> (Suc d)" using below_okD(1)[OF Suc.prems(2), of "Suc d"] by simp
  note U = level_okD(1)[OF lvl] and T = level_okD(2)[OF lvl] and len = Suc.prems(4)
  obtain E where E: "entries_ok U (Suc d) E" and ne: "E \<noteq> {}" and c: "c = ident T (Suc d) E"
    and pres: "present T \<sigma> (Suc d) (ident T (Suc d) E)" using live_childE[OF Suc.prems(3)] .
  have one: "in_place_depth1 T \<Longrightarrow> e \<in> E \<Longrightarrow> snd e = 1" for e using live_one[OF U E _ T] .
  show ?case
  proof (cases rule: card_cases[OF entries_okD(1)[OF E]])
    case (2 e)
    note e = E[unfolded 2]
    have sen: "is_sen T c" "\<not> is_fn T c" using is_sen_ident[OF U E] is_fn_ident[OF U E] 2 c by auto
    have act: "ri_active it = Suc (Suc d)" using Suc.prems(5) sen by simp
    have key: "length (fst e) = Suc d" using entries_okD(3)[OF E] 2 by simp
    show ?thesis
    proof (cases "in_place_node T (Suc d)")
      case True
      then have d0: "d = 0" "in_place_depth1 T" by (auto simp: in_place_node_def)
      obtain kp where kp: "fst e = [kp]" using key d0 by (auto simp: length_Suc_conv)
      have ent: "get_entry T c = Some ([kp], 1)" "in_place_entry T c = ([kp], 1)"
        using get_entry_ident[OF U] e d0 c 2 one[OF d0(2)] kp by (simp_all add: prod_eq_iff)
      let ?it' = "it\<lparr>ri_key := kp # drop 1 (ri_key it)\<rparr>"
      have "(ri_key it)[0 := kp] = kp # drop 1 (ri_key it)" using len d0 by (cases "ri_key it") auto
      then have "enter T \<sigma> (Suc d) c it = Some ?it'" using True sen(2) ent by (simp add: enter_def write_compressed_def)
      moreover have "enum T \<sigma> (Suc d) c = [([kp], 1)]" using True sen(1) ent by simp
      moreover have "ri_value it = 1" using Suc.prems(6) d0(2) by (simp add: values_one_def)
      ultimately show ?thesis
        using act d0(1) Suc.prems(6) len by (simp add: entered_def values_one_def live_levels_def extend_def)
    next
      case False
      obtain s where s: "find_sen \<sigma> (Suc d) c = Some s" using present_sen[OF pres _ False T] sen(1) c by blast
      then have "sn_entry s = e" using sens_ok_repr(1)[OF U level_okD(5)[OF lvl] _ E] 2 c by (simp add: find_sen_def)
      then have se: "sn_key s = fst e" "sn_value s = snd e" by (auto simp: sn_entry_def)
      let ?it' = "it\<lparr>ri_key := fst e @ drop (Suc d) (ri_key it), ri_value := snd e\<rparr>"
      have "enter T \<sigma> (Suc d) c it = Some ?it'" using False sen(2) s se key by (simp add: enter_def write_compressed_def)
      moreover have "enum T \<sigma> (Suc d) c = [e]" using False sen(1) s \<open>sn_entry s = e\<close> by simp
      moreover have "values_one T ?it'" using Suc.prems(6) one[of e] 2 by (simp add: values_one_def)
      ultimately show ?thesis
        using act len key by (cases e) (simp add: entered_def live_levels_def extend_def)
    qed
  next
    case 3
    have fn: "is_fn T c" "\<not> is_sen T c" using is_sen_ident[OF U E] is_fn_ident[OF U E] 3 c by auto
    obtain g where g: "find_fn \<sigma> (Suc d) c = Some g" using present_fn[OF pres] fn(1) c by blast
    have repr: "fn_repr T (Suc d) E g" using fns_ok_repr(2)[OF U level_okD(4)[OF lvl] _ E] g c by (simp add: find_fn_def)
    show ?thesis
    proof (cases "d = 0")
      case True
      have r: "al_ok (fn_values g)" "\<And>k v. map_of (fn_values g) k = Some v \<longleftrightarrow> ([k], v) \<in> E"
        using fn_repr1D[of T E g] repr True by auto
      have "fst e \<in> {[k] |k. k \<in> fst ` set (fn_values g)}" if e: "e \<in> E" for e
      proof -
        obtain k where "e = ([k], snd e)"
          using entries_okD(3)[OF E e] True by (cases e) (auto simp: length_Suc_conv)
        then show ?thesis using r(2)[of k "snd e"] e by (metis (mono_tags, lifting) CollectI fst_conv image_eqI map_of_SomeD)
      qed
      then have "fn_values g \<noteq> []" using ne by force
      then obtain kp v vs where vals: "fn_values g = (kp, v) # vs" by (metis list.exhaust prod.exhaust)
      let ?it' = "it\<lparr>ri_active := 1, ri_values := fn_values g, ri_key := kp # drop 1 (ri_key it), ri_value := v\<rparr>"
      have "(ri_key it)[0 := kp] = kp # drop 1 (ri_key it)" using len True by (cases "ri_key it") auto
      then have "enter T \<sigma> (Suc d) c it = Some ?it'"
        using fn(1) g True vals by (simp add: enter_def write_mapped_key_part_def)
      moreover have "enum T \<sigma> (Suc d) c = map (\<lambda>(kp, v). ([kp], v)) ((kp, v) # vs)" using fn g True vals by simp
      moreover have v1: "snd kv = 1" if "in_place_depth1 T" "kv \<in> set (fn_values g)" for kv
        using one[OF that(1), of "([fst kv], snd kv)"] that(2) al_mem_iff[OF r(1), of "fst kv" "snd kv"] r(2) by simp
      have "values_one T ?it'" using v1 v1[of "(kp, v)"] vals by (simp add: values_one_def)
      ultimately show ?thesis
        using True len by (auto simp: entered_def live_levels_def extend_def pending_Cons level_rest_def vals)
    next
      case False
      then have d: "1 \<le> d" by simp
      let ?edges = "fn_edges g ! d"
      have live: "\<forall>c \<in> snd ` set ?edges. live_child T U \<sigma> d c"
        by (rule live_edges[OF U E d repr below_okD(2)[OF Suc.prems(2) d _ g[unfolded c]]]) simp
      note er = edges_reprD[OF fn_reprD(3)[OF repr d, of d, simplified]]
      have "?edges \<noteq> []"
      proof
        assume "?edges = []"
        then have "sub_entries d k E = {}" for k using er(2)[of k] by (auto split: if_splits)
        moreover obtain key v where "(key, v) \<in> E" using ne by auto
        moreover have "\<forall>e \<in> E. length (fst e) = Suc d" using entries_okD(3)[OF E] by blast
        ultimately show False using sub_entries_at[of E key d v] by force
      qed
      then obtain kp ch es where edges: "?edges = (kp, ch) # es" by (metis list.exhaust prod.exhaust)
      let ?it0 = "it\<lparr>ri_active := Suc d, ri_iters := (ri_iters it)(Suc d := ?edges)\<rparr>"
      obtain it1 where it1: "write_mapped_key_part (Suc d) ?it0 = Some it1" "it1 = ?it0\<lparr>ri_key := (ri_key it)[d := kp]\<rparr>"
        "ri_key it1 ! d = kp" "drop (Suc d) (ri_key it1) = drop (Suc d) (ri_key it)"
        using write_edge[OF d, of ?it0 kp ch es] edges len by auto
      obtain it' where it': "enter T \<sigma> d ch it1 = Some it'" "entered T U \<sigma> d ch it1 it'"
        using Suc.IH[OF d below_okD(3)[OF Suc.prems(2)], of ch it1] live edges it1(2) len Suc.prems(6)
        by (auto simp: values_one_def)
      note e = enteredD[OF it'(2)]
      have it1_edges: "ri_iters it1 (Suc d) = (kp, ch) # es" using it1(2) edges by simp
      have len1: "length (ri_key it1) = length (ri_key it)" "ri_ended it1 = ri_ended it" using it1(2) by simp_all
      have "\<forall>c \<in> snd ` set (ri_iters it1 (Suc d)). live_child T U \<sigma> d c" using live edges it1_edges by simp
      note up = entered_edge[OF d it1_edges _ it1(3) it'(2) this, unfolded it1(4) len1, OF len]
      have "enter T \<sigma> (Suc d) c it = Some it'"
        using fn(1) g it1(1) it'(1) edges by (simp add: enter_def[of T \<sigma> "Suc d"] init_fn_rek_enter[OF d])
      moreover have enum: "enum T \<sigma> (Suc d) c
          = concat (map (\<lambda>(kp, c). map (\<lambda>(key, v). (key @ [kp], v)) (enum T \<sigma> d c)) ((kp, ch) # es))"
        using fn g False edges by simp
      moreover have "entered T U \<sigma> (Suc d) c it it'"
      proof -
        have "ri_iters it' l = ri_iters it l" if "Suc d < l" for l using e(3)[of l] it1(2) that by simp
        moreover have "(ri_key it', ri_value it') # pending T \<sigma> it' (ri_active it') (Suc (Suc d))
            = extend (drop (Suc d) (ri_key it)) (enum T \<sigma> (Suc d) c)"
          unfolding enum extend_concat by (rule up(3))
        ultimately show ?thesis
          using e(1,4,5,6,7) up(1,2) len1 unfolding entered_def by simp
      qed
      ultimately show ?thesis by blast
    qed
  qed (use ne in simp)
qed simp

text \<open>An iterator that stands at an entry of a node of depth \<open>depth\<close>.\<close>

definition iter_ok where
  "iter_ok T U \<sigma> depth it \<longleftrightarrow> length (ri_key it) = depth \<and> 1 \<le> ri_active it \<and> ri_active it \<le> depth \<and>
     \<not> ri_ended it \<and> live_levels T U \<sigma> it (ri_active it) (Suc depth) \<and> values_one T it"

lemma pending_above:
  assumes "1 \<le> lo" "drop lo (ri_key it') = drop lo (ri_key it)" "\<And>l. lo < l \<Longrightarrow> ri_iters it' l = ri_iters it l"
  shows "pending T \<sigma> it' (Suc lo) hi = pending T \<sigma> it (Suc lo) hi"
proof (rule pending_cong, rule level_rest_cong)
  fix l assume l: "Suc lo \<le> l"
  then show "drop l (ri_key it') = drop l (ri_key it)" using drop_later[OF _ assms(2)] by simp
qed (use assms in auto)

lemma live_above:
  assumes "live_levels T U \<sigma> it lo hi" "\<And>l. lo \<le> l \<Longrightarrow> ri_iters it' l = ri_iters it l"
  shows "live_levels T U \<sigma> it' lo hi"
  using assms by (simp add: live_levels_def)

lemma live_later: "live_levels T U \<sigma> it lo hi \<Longrightarrow> lo \<le> lo' \<Longrightarrow> live_levels T U \<sigma> it lo' hi"
  by (simp add: live_levels_def)

lemma live_join: "live_levels T U \<sigma> it lo mid \<Longrightarrow> live_levels T U \<sigma> it mid hi \<Longrightarrow> live_levels T U \<sigma> it lo hi"
  unfolding live_levels_def by (metis not_le)

lemma inc_values:
  assumes "length (ri_key it) = depth" "1 \<le> depth" "live_levels T U \<sigma> it 1 (Suc depth)"
    "values_one T it" "\<not> ri_ended it" "tl (ri_values it) \<noteq> []"
  shows "\<exists>it'. inc_rek T \<sigma> levels 1 it = Some it' \<and> iter_ok T U \<sigma> depth it' \<and>
    (ri_key it', ri_value it') # pending T \<sigma> it' (ri_active it') (Suc depth) = pending T \<sigma> it 1 (Suc depth)"
proof -
  obtain kp v vs where vals: "tl (ri_values it) = (kp, v) # vs" using assms(6) by (metis list.exhaust prod.exhaust)
  let ?it' = "it\<lparr>ri_active := 1, ri_values := (kp, v) # vs, ri_key := kp # drop 1 (ri_key it), ri_value := v\<rparr>"
  have "(ri_key it)[0 := kp] = kp # drop 1 (ri_key it)" using assms(1,2) by (cases "ri_key it") auto
  then have "inc_rek T \<sigma> levels 1 it = Some ?it'" using vals by (simp add: write_mapped_key_part_def)
  moreover have "values_one T ?it'"
    using assms(4) vals by (cases "ri_values it") (auto simp: values_one_def)
  moreover have "live_levels T U \<sigma> ?it' 1 (Suc depth)" by (rule live_above[OF assms(3)]) simp
  moreover have "pending T \<sigma> ?it' (Suc 1) (Suc depth) = pending T \<sigma> it (Suc 1) (Suc depth)"
    by (rule pending_above) (use assms(1,2) in auto)
  then have "(kp # drop 1 (ri_key it), v) # pending T \<sigma> ?it' 1 (Suc depth) = pending T \<sigma> it 1 (Suc depth)"
    using assms(2) vals by (simp add: pending_Cons level_rest_def)
  ultimately show ?thesis using assms(1,2,5) by (intro exI[of _ ?it']) (simp add: iter_ok_def)
qed

lemma inc_edges:
  assumes d: "1 \<le> d" and len: "length (ri_key it) = depth" "Suc d \<le> depth" and below: "below_ok T U \<sigma> (Suc depth)"
    and live: "live_levels T U \<sigma> it (Suc d) (Suc depth)" and it: "values_one T it" "\<not> ri_ended it"
    and more: "tl (ri_iters it (Suc d)) \<noteq> []"
  shows "\<exists>it'. inc_rek T \<sigma> levels (Suc d) it = Some it' \<and> iter_ok T U \<sigma> depth it' \<and>
    (ri_key it', ri_value it') # pending T \<sigma> it' (ri_active it') (Suc depth) = pending T \<sigma> it (Suc d) (Suc depth)"
proof -
  obtain kp c es where tl: "tl (ri_iters it (Suc d)) = (kp, c) # es" using more by (metis list.exhaust prod.exhaust)
  let ?it0 = "it\<lparr>ri_active := Suc d, ri_iters := (ri_iters it)(Suc d := (kp, c) # es)\<rparr>"
  obtain it1 where it1: "write_mapped_key_part (Suc d) ?it0 = Some it1" "it1 = ?it0\<lparr>ri_key := (ri_key it)[d := kp]\<rparr>"
    "ri_key it1 ! d = kp" "drop (Suc d) (ri_key it1) = drop (Suc d) (ri_key it)"
    using write_edge[OF d, of ?it0 kp c es] len by auto
  have edges: "ri_iters it1 (Suc d) = (kp, c) # es" using it1(2) by simp
  have len1: "length (ri_key it1) = length (ri_key it)" "ri_ended it1 = ri_ended it" using it1(2) by simp_all
  have "set (tl (ri_iters it (Suc d))) \<subseteq> set (ri_iters it (Suc d))" by (rule set_tl_subset)
  then have kids: "\<forall>c \<in> snd ` set (ri_iters it1 (Suc d)). live_child T U \<sigma> d c"
    using live edges tl d len unfolding live_levels_def by fastforce
  obtain it' where it': "enter T \<sigma> d c it1 = Some it'" "entered T U \<sigma> d c it1 it'"
    using enter_spec[OF d below_okD(3)[OF below], of c it1] kids edges it1(2) len it by (auto simp: values_one_def)
  note e = enteredD[OF it'(2)]
  have len0: "Suc d \<le> length (ri_key it)" using len by simp
  note up = entered_edge[OF d edges _ it1(3) it'(2) kids, unfolded it1(4) len1, OF len0]
  have above: "ri_iters it' l = ri_iters it l" if "Suc d < l" for l using e(3)[of l] it1(2) that by simp
  have "inc_rek T \<sigma> levels (Suc d) it = Some it'" unfolding inc_rek_enter[OF d] using it1(1) it'(1) tl by (simp add: Let_def)
  moreover have "live_levels T U \<sigma> it' (ri_active it') (Suc depth)"
    by (rule live_join[OF up(2)], rule live_above[OF live_later[OF live]]) (use above in auto)
  then have "iter_ok T U \<sigma> depth it'" using e(1,4,5,6,7) len1 len it by (simp add: iter_ok_def)
  moreover have "pending T \<sigma> it (Suc d) (Suc depth) = level_rest T \<sigma> it (Suc d) @ pending T \<sigma> it (Suc (Suc d)) (Suc depth)"
    using len by (simp add: pending_Cons)
  moreover have "level_rest T \<sigma> it (Suc d) = (ri_key it', ri_value it') # pending T \<sigma> it' (ri_active it') (Suc (Suc d))"
    unfolding up(3) using d tl by (simp add: level_rest_def)
  moreover have "pending T \<sigma> it' (Suc (Suc d)) (Suc depth) = pending T \<sigma> it (Suc (Suc d)) (Suc depth)"
    by (rule pending_above) (use up(1) above d in auto)
  moreover have "pending T \<sigma> it' (ri_active it') (Suc depth)
      = pending T \<sigma> it' (ri_active it') (Suc (Suc d)) @ pending T \<sigma> it' (Suc (Suc d)) (Suc depth)"
    by (rule pending_split) (use e(7) len in auto)
  ultimately show ?thesis by simp
qed

definition level_done :: "'v raw_iterator \<Rightarrow> nat \<Rightarrow> bool" where
  "level_done it l \<longleftrightarrow> (if l = 1 then tl (ri_values it) = [] else tl (ri_iters it l) = [])"

lemma inc_level:
  assumes "1 \<le> l" "l \<le> depth" "length (ri_key it) = depth" "below_ok T U \<sigma> (Suc depth)"
    "live_levels T U \<sigma> it l (Suc depth)" "values_one T it" "\<not> ri_ended it" "\<not> level_done it l"
  shows "\<exists>it'. inc_rek T \<sigma> levels l it = Some it' \<and> iter_ok T U \<sigma> depth it' \<and>
    (ri_key it', ri_value it') # pending T \<sigma> it' (ri_active it') (Suc depth) = pending T \<sigma> it l (Suc depth)"
proof (cases "l = 1")
  case True
  then show ?thesis using inc_values[of it depth T U \<sigma>] assms by (simp add: level_done_def)
next
  case False
  then show ?thesis using inc_edges[of "l - 1" it depth T U \<sigma>] assms by (simp add: level_done_def)
qed

lemma inc_done:
  assumes "1 \<le> l" "l \<le> depth" "length (ri_key it) = depth" "live_levels T U \<sigma> it l (Suc depth)" "values_one T it" "\<not> ri_ended it"
    "level_done it l"
  shows "\<exists>it2. inc_rek T \<sigma> levels l it = (case levels of 0 \<Rightarrow> Some (it2\<lparr>ri_ended := True\<rparr>) | Suc n \<Rightarrow> inc_rek T \<sigma> n (Suc l) it2) \<and>
    length (ri_key it2) = depth \<and> live_levels T U \<sigma> it2 (Suc l) (Suc depth) \<and> values_one T it2 \<and> \<not> ri_ended it2 \<and>
    pending T \<sigma> it2 (Suc l) (Suc depth) = pending T \<sigma> it l (Suc depth)"
proof -
  define it2 where "it2 = (if l = 1 then it\<lparr>ri_active := l, ri_values := tl (ri_values it)\<rparr>
    else it\<lparr>ri_active := l, ri_iters := (ri_iters it)(l := tl (ri_iters it l))\<rparr>)"
  have it2: "ri_key it2 = ri_key it" "ri_ended it2 = ri_ended it" "ri_value it2 = ri_value it"
    "\<And>m. l < m \<Longrightarrow> ri_iters it2 m = ri_iters it m" "set (ri_values it2) \<subseteq> set (ri_values it)"
    using set_tl_subset[of "ri_values it"] by (auto simp: it2_def)
  have "inc_rek T \<sigma> levels l it = (case levels of 0 \<Rightarrow> Some (it2\<lparr>ri_ended := True\<rparr>) | Suc n \<Rightarrow> inc_rek T \<sigma> n (Suc l) it2)"
  proof (cases "l = 1")
    case True
    then show ?thesis using assms(7) by (cases levels) (simp_all add: it2_def level_done_def Let_def)
  next
    case False
    then show ?thesis using assms(1,7) inc_rek_enter[of "l - 1" T \<sigma> levels it]
      by (cases levels) (simp_all add: it2_def level_done_def Let_def del: inc_rek.simps)
  qed
  moreover have "live_levels T U \<sigma> it2 (Suc l) (Suc depth)"
    by (rule live_above[OF live_later[OF assms(4)]]) (use it2 in auto)
  moreover have "values_one T it2" using assms(5) it2 by (auto simp: values_one_def)
  moreover have "pending T \<sigma> it2 (Suc l) (Suc depth) = pending T \<sigma> it (Suc l) (Suc depth)"
    by (rule pending_above) (use assms(1) it2 in auto)
  then have "pending T \<sigma> it2 (Suc l) (Suc depth) = pending T \<sigma> it l (Suc depth)"
    using assms(2,7) by (simp add: pending_Cons[of l] level_rest_def level_done_def split: if_splits)
  ultimately show ?thesis using it2 assms(3,6) by (intro exI[of _ it2]) simp
qed

lemma inc_rek_spec:
  "levels + l = depth \<Longrightarrow> 1 \<le> l \<Longrightarrow> length (ri_key it) = depth \<Longrightarrow> below_ok T U \<sigma> (Suc depth) \<Longrightarrow>
    live_levels T U \<sigma> it l (Suc depth) \<Longrightarrow> values_one T it \<Longrightarrow> \<not> ri_ended it \<Longrightarrow>
    \<exists>it'. inc_rek T \<sigma> levels l it = Some it' \<and>
      (case pending T \<sigma> it l (Suc depth) of [] \<Rightarrow> ri_ended it'
       | x # xs \<Rightarrow> iter_ok T U \<sigma> depth it' \<and> (ri_key it', ri_value it') = x \<and>
           pending T \<sigma> it' (ri_active it') (Suc depth) = xs)"
proof (induction levels arbitrary: l it)
  case (0 l it)
  show ?case
  proof (cases "level_done it l")
    case True
    then show ?thesis using inc_done[of l depth it T U \<sigma> 0] 0 by force
  next
    case False
    then obtain it' where "inc_rek T \<sigma> 0 l it = Some it'" "iter_ok T U \<sigma> depth it'"
      "(ri_key it', ri_value it') # pending T \<sigma> it' (ri_active it') (Suc depth) = pending T \<sigma> it l (Suc depth)"
      using inc_level[of l depth it T U \<sigma> 0] 0 by auto
    then show ?thesis by (intro exI[of _ it']) (auto split: list.splits)
  qed
next
  case (Suc n l it)
  show ?case
  proof (cases "level_done it l")
    case True
    then obtain it2 where "inc_rek T \<sigma> (Suc n) l it = inc_rek T \<sigma> n (Suc l) it2"
      "length (ri_key it2) = depth" "live_levels T U \<sigma> it2 (Suc l) (Suc depth)" "values_one T it2" "\<not> ri_ended it2"
      "pending T \<sigma> it2 (Suc l) (Suc depth) = pending T \<sigma> it l (Suc depth)"
      using inc_done[of l depth it T U \<sigma> "Suc n"] Suc.prems by auto
    then show ?thesis using Suc.IH[of "Suc l" it2] Suc.prems(1,4) by simp
  next
    case False
    then obtain it' where "inc_rek T \<sigma> (Suc n) l it = Some it'" "iter_ok T U \<sigma> depth it'"
      "(ri_key it', ri_value it') # pending T \<sigma> it' (ri_active it') (Suc depth) = pending T \<sigma> it l (Suc depth)"
      using inc_level[of l depth it T U \<sigma> "Suc n"] Suc.prems by auto
    then show ?thesis by (intro exI[of _ it']) (auto split: list.splits)
  qed
qed

subsection \<open>Iterating over a node\<close>

definition it_ok where
  "it_ok T U \<sigma> depth it \<longleftrightarrow> below_ok T U \<sigma> (Suc depth) \<and> (ri_ended it \<or> ri_active it = 0 \<or> iter_ok T U \<sigma> depth it)"

definition it_rest where
  "it_rest T \<sigma> depth it = (if ri_ended it then []
     else (ri_key it, ri_value it) # (if ri_active it = 0 then [] else pending T \<sigma> it (ri_active it) (Suc depth)))"

interpretation it: cursor ri_ended "\<lambda>it. Some (iterator_value it)" "iterator_inc T \<sigma> depth"
  "it_ok T U \<sigma> depth" "it_rest T \<sigma> depth" "(=)"
  for T U \<sigma> depth
proof
  fix it :: "'a raw_iterator" and x xs assume it: "it_ok T U \<sigma> depth it" "it_rest T \<sigma> depth it = x # xs"
  have run: "\<not> ri_ended it" "x = iterator_value it"
    "xs = (if ri_active it = 0 then [] else pending T \<sigma> it (ri_active it) (Suc depth))"
    using it(2) by (auto simp: it_rest_def iterator_value_def split: if_splits)
  show "\<exists>y s'. Some (iterator_value it) = Some y \<and> x = y \<and> iterator_inc T \<sigma> depth it = Some s' \<and>
      it_ok T U \<sigma> depth s' \<and> it_rest T \<sigma> depth s' = xs"
  proof (cases "ri_active it = 0")
    case True
    then show ?thesis using run it(1) by (simp add: iterator_inc_def it_ok_def it_rest_def)
  next
    case False
    then have ok: "iter_ok T U \<sigma> depth it" and below: "below_ok T U \<sigma> (Suc depth)"
      using it(1) run by (auto simp: it_ok_def)
    then obtain it' where it': "iterator_inc T \<sigma> depth it = Some it'"
      "case xs of [] \<Rightarrow> ri_ended it'
         | x # xs \<Rightarrow> iter_ok T U \<sigma> depth it' \<and> (ri_key it', ri_value it') = x \<and>
             pending T \<sigma> it' (ri_active it') (Suc depth) = xs"
      using inc_rek_spec[of "depth - ri_active it" "ri_active it" depth it T U \<sigma>] run(3) False
      by (auto simp: iterator_inc_def iter_ok_def)
    then have "it_ok T U \<sigma> depth it'" "it_rest T \<sigma> depth it' = xs"
      using below by (cases xs; auto simp: it_ok_def it_rest_def iter_ok_def)+
    then show ?thesis using it'(1) run by auto
  qed
qed (auto simp: it_rest_def)

lemma iterate_spec:
  assumes "it_ok T U \<sigma> depth it" "length (it_rest T \<sigma> depth it) \<le> fuel"
  shows "iterate T \<sigma> depth fuel it = Some (it_rest T \<sigma> depth it)"
  using it.run[OF assms] by (auto simp: iterate_def list.rel_eq)

lemma distinct_singleton_set: "set xs = {x} \<Longrightarrow> distinct xs \<Longrightarrow> xs = [x]"
  by (cases xs; cases "tl xs") (auto simp: insert_eq_iff split: if_splits)

lemma extend_Nil [simp]: "extend [] es = es"
  by (induction es) (auto simp: extend_def)

lemma iterator_sen_spec:
  assumes U: "universe_ok T U" and E: "entries_ok U d {e}" and id: "nc_id c = ident T d {e}"
    and node: "\<not> in_place_node T d \<Longrightarrow> \<exists>s. node = Some s \<and> sn_entry s = e"
  shows "\<exists>it. iterator_sen T d c node = Some it \<and> ri_active it = 0 \<and> \<not> ri_ended it \<and> (ri_key it, ri_value it) = e"
proof -
  have nz: "nc_id c \<noteq> 0" using ident_nonzero[OF U E] id by simp
  have key: "length (fst e) = d" using entries_okD(3)[OF E] by simp
  show ?thesis
  proof (cases "in_place_node T d")
    case True
    then have d1: "d = 1" "in_place_depth1 T" by (auto simp: in_place_node_def)
    obtain kp where kp: "e = ([kp], 1)" using in_place_singleton[OF U] E d1 by blast
    moreover have "get_entry T (nc_id c) = Some e" using get_entry_ident[OF U] E d1 id kp by simp
    ultimately show ?thesis using nz True d1(1) by (simp add: iterator_sen_def new_iterator_def)
  next
    case False
    then obtain s where "node = Some s" "sn_entry s = e" using node by blast
    then show ?thesis using nz False key by (auto simp: iterator_sen_def new_iterator_def sn_entry_def)
  qed
qed

lemma iterator_begin_spec:
  assumes "1 \<le> d" "below_ok T U \<sigma> (Suc d)" "entries_ok U d E" "present T \<sigma> d (ident T d E)" "container_ok T d E c"
  shows "\<exists>it. iterator_begin T \<sigma> d c = Some it \<and> (card E \<le> fuel \<longrightarrow> iterate T \<sigma> d fuel it = Some (enum T \<sigma> d (nc_id c)))"
proof -
  obtain n where d: "d = Suc n" using assms(1) by (cases d) auto
  have lvl: "level_ok T U \<sigma> d" using below_okD(1)[OF assms(2,1)] by simp
  note U = level_okD(1)[OF lvl] and T = level_okD(2)[OF lvl] and E = assms(3) and pres = assms(4)
  note id = container_okD(1)[OF assms(5)]
  note enum = enum_spec[OF assms(1-4)]
  show ?thesis
  proof (cases rule: card_cases[OF entries_okD(1)[OF E]])
    case 1
    then have "nc_id c = 0" "enum T \<sigma> d (nc_id c) = []" using id enum by simp_all
    then show ?thesis
      by (cases fuel) (simp_all add: iterate_def iterator_begin_def iterator_fn_def is_sen_def new_iterator_def)
  next
    case (2 e)
    note e = E[unfolded 2]
    have sen: "is_sen T (nc_id c)" "nc_id c \<noteq> 0" using is_sen_ident[OF U E] 2 id by (auto simp: is_sen_def)
    have key: "length (fst e) = d" using entries_okD(3)[OF E] 2 by simp
    have enum_e: "enum T \<sigma> d (nc_id c) = [e]"
      using enum id 2 distinct_singleton_set[of "enum T \<sigma> d (nc_id c)" e] by simp
    have "\<exists>s. sen_deref \<sigma> d c = Some s \<and> sn_entry s = e" if "\<not> in_place_node T d"
      using sen_deref_entry[OF lvl e that] pres assms(5) 2 by auto
    from iterator_sen_spec[OF U e _ this] obtain it where
      it: "iterator_sen T d c (sen_deref \<sigma> d c) = Some it" "ri_active it = 0" "\<not> ri_ended it" "(ri_key it, ri_value it) = e"
      using id 2 by auto
    have "it_ok T U \<sigma> d it" "it_rest T \<sigma> d it = [e]" using it assms(2) by (auto simp: it_ok_def it_rest_def)
    then have "card E \<le> fuel \<longrightarrow> iterate T \<sigma> d fuel it = Some [e]" using iterate_spec[of T U \<sigma> d it fuel] 2 by simp
    then show ?thesis using it(1) sen enum_e by (simp add: iterator_begin_def)
  next
    case 3
    have fn: "is_fn T (nc_id c)" "\<not> is_sen T (nc_id c)" "nc_id c \<noteq> 0"
      using is_sen_ident[OF U E] is_fn_ident[OF U E] 3 id by (auto simp: is_fn_def)
    obtain g where g: "fn_deref \<sigma> d c = Some g" "find_fn \<sigma> d (nc_id c) = Some g"
      using fn_deref_repr[OF lvl E 3 pres assms(5)] id by auto
    let ?it0 = "(new_iterator d)\<lparr>ri_ended := False\<rparr> :: 'a raw_iterator"
    have "live_child T U \<sigma> d (nc_id c)" using E pres id 3 by (auto simp: live_child_def)
    then obtain it where it: "enter T \<sigma> d (nc_id c) ?it0 = Some it" "entered T U \<sigma> d (nc_id c) ?it0 it"
      using enter_spec[OF assms(1,2), of "nc_id c" ?it0] fn(1) by (auto simp: new_iterator_def values_one_def)
    note e = enteredD[OF it(2)]
    have all: "(ri_key it, ri_value it) # pending T \<sigma> it (ri_active it) (Suc d) = enum T \<sigma> d (nc_id c)"
      using e(9) by (simp add: new_iterator_def)
    have len: "Suc (length (pending T \<sigma> it (ri_active it) (Suc d))) = card E"
      using enum id arg_cong[OF all, of length] by (metis distinct_card length_Cons)
    have "ri_active it \<noteq> Suc d" using len 3 by auto
    then have ok: "iter_ok T U \<sigma> d it" using e by (simp add: iter_ok_def new_iterator_def)
    then have "it_ok T U \<sigma> d it" "it_rest T \<sigma> d it = enum T \<sigma> d (nc_id c)"
      using assms(2) all by (auto simp: it_ok_def it_rest_def iter_ok_def)
    then have "card E \<le> fuel \<longrightarrow> iterate T \<sigma> d fuel it = Some (enum T \<sigma> d (nc_id c))"
      using iterate_spec[of T U \<sigma> d it fuel] len arg_cong[OF all, of length] by simp
    moreover have "iterator_begin T \<sigma> d c = Some it"
      using fn g it(1) by (simp add: iterator_begin_def iterator_fn_def enter_def)
    ultimately show ?thesis by blast
  qed
qed

text \<open>Iterating yields every entry of the node's set once.\<close>

lemma iterator_spec:
  assumes "1 \<le> d" "below_ok T U \<sigma> (Suc d)" "entries_ok U d E" "present T \<sigma> d (ident T d E)" "container_ok T d E c"
    "card E \<le> fuel"
  shows "\<exists>it es. iterator_begin T \<sigma> d c = Some it \<and> iterate T \<sigma> d fuel it = Some es \<and> set es = E \<and> distinct es"
  using iterator_begin_spec[OF assms(1-5), of fuel] enum_spec[OF assms(1-4)] container_okD(1)[OF assms(5)] assms(6) by auto

end
