(* ===== verification/Context_Handles.thy ===== *)
theory Context_Handles
  imports Raw_Context
begin

text \<open>
  The operations of \<open>RawHypertrieContext\<close> that change the storage: taking and dropping a reference
  (\<open>inc_ref_count\<close>, \<open>decr_ref_count\<close>), inserting, removing, and setting the value of one key. Each is
  proved to keep the invariant of the storage, with the handles of the users adjusted, and \<open>set\<close> to
  return the old value and to change exactly one key, except in the two cases that are stated as
  theorems about what the code does instead.
\<close>

subsection \<open>Taking and dropping references\<close>

definition container_ref :: "'v htt \<Rightarrow> 'v node_storage \<Rightarrow> nat \<Rightarrow> node_container \<Rightarrow> int option" where
  "container_ref T \<sigma> depth c =
     (if is_sen T (nc_id c) then map_option sn_ref (sen_deref \<sigma> depth c) else map_option fn_ref (fn_deref \<sigma> depth c))"

definition write_ref :: "'v htt \<Rightarrow> 'v node_storage \<Rightarrow> nat \<Rightarrow> node_container \<Rightarrow> int \<Rightarrow> 'v node_storage option" where
  "write_ref T \<sigma> depth c r =
     (if is_sen T (nc_id c) then
        map_option (\<lambda>s. put_sens depth (AList.update (nc_id c) (s\<lparr>sn_ref := r\<rparr>) (sens \<sigma> depth)) \<sigma>) (sen_deref \<sigma> depth c)
      else
        map_option (\<lambda>fn. put_fns depth (AList.update (nc_id c) (fn\<lparr>fn_ref := r\<rparr>) (fns \<sigma> depth)) \<sigma>) (fn_deref \<sigma> depth c))"

definition inc_ref_count :: "'v htt \<Rightarrow> 'v node_storage \<Rightarrow> nat \<Rightarrow> node_container \<Rightarrow> 'v node_storage option" where
  "inc_ref_count T \<sigma> depth c = do {
     check (nc_ptr c \<and> \<not> id_empty T (nc_id c));
     check (is_sen T (nc_id c) \<longrightarrow> \<not> in_place_node T depth);
     r \<leftarrow> container_ref T \<sigma> depth c;
     write_ref T \<sigma> depth c (r + 1)
   }"

definition decr_ref_count :: "'v::zero_neq_one htt \<Rightarrow> 'v node_storage \<Rightarrow> nat \<Rightarrow> node_container \<Rightarrow> 'v node_storage option" where
  "decr_ref_count T \<sigma> depth c = do {
     check (nc_ptr c \<and> \<not> id_empty T (nc_id c));
     r \<leftarrow> container_ref T \<sigma> depth c;
     check (1 \<le> r);
     if 1 < r then write_ref T \<sigma> depth c (r - 1)
     else consume_and_execute T depth \<sigma> (apply_ref_count_delta T depth empty_requests (nc_id c) (- 1))
   }"

definition shift_handle :: "(nat \<Rightarrow> node_id \<Rightarrow> int) \<Rightarrow> nat \<Rightarrow> node_id \<Rightarrow> int \<Rightarrow> nat \<Rightarrow> node_id \<Rightarrow> int" where
  "shift_handle R d i n = R(d := (R d)(i := R d i + n))"

lemma shift_handle_nonneg: "(\<And>d i. 0 \<le> R d i) \<Longrightarrow> 0 \<le> R d i + n \<Longrightarrow> 0 \<le> shift_handle R d i n d' j"
  by (simp add: shift_handle_def)

lemma refs_ok_shift_other: "d' \<noteq> d \<Longrightarrow> refs_ok T \<sigma> (shift_handle R d i n) d' = refs_ok T \<sigma> R d'"
  by (simp add: refs_ok_def shift_handle_def)

lemma refs_ok_cong:
  assumes "refs_ok T \<sigma> R d" "\<And>i. tracked T d i \<Longrightarrow> ref_of T \<sigma>' d i = ref_of T \<sigma> d i"
    "\<And>i. level_refs (fns \<sigma>' (Suc d)) i = level_refs (fns \<sigma> (Suc d)) i"
  shows "refs_ok T \<sigma>' R d"
  using assms by (simp add: refs_ok_def)

text \<open>Writing a positive reference count is shifting the handles by the difference.\<close>

lemma storage_inv_put_fn_ref:
  assumes inv: "storage_inv T U D R \<sigma>" and d: "1 \<le> d" "d \<le> D" and fn: "find_fn \<sigma> d i = Some fn"
    and n: "0 < fn_ref fn + n" "0 \<le> R d i + n"
  shows "storage_inv T U D (shift_handle R d i n) (put_fns d (AList.update i (fn\<lparr>fn_ref := fn_ref fn + n\<rparr>) (fns \<sigma> d)) \<sigma>)"
    (is "storage_inv T U D ?R ?\<sigma>")
proof -
  note v = storage_invD[OF inv]
  have fnsd: "fns_ok T U d (fns \<sigma> d)" using content_okD(1)[OF v(2) d] .
  have m: "map_of (fns \<sigma> d) i = Some fn" using fn by (simp add: find_fn_def)
  have isfn: "is_fn T i" by (rule fns_ok_is_fn[OF v(1) fnsd m])
  have "fns_ok T U d (fns ?\<sigma> d)"
    using fnsd m n(1) fn_repr_ref unfolding fns_ok_def by (auto simp: al_simps)
  then have content: "content_ok T U D ?\<sigma>" using v(2) d by (auto simp: content_ok_def)
  have level: "level_refs (fns ?\<sigma> (Suc d')) j = level_refs (fns \<sigma> (Suc d')) j" for d' j
    using level_refs_update[of "fns \<sigma> d" i "fn\<lparr>fn_ref := fn_ref fn + n\<rparr>" j] m fns_okD(1)[OF fnsd] by auto
  have ref: "ref_of T ?\<sigma> d' j = ref_of T \<sigma> d' j + (if d' = d \<and> j = i then n else 0)" for d' j
    using isfn m by (auto simp: ref_of_def find_fn_def find_sen_def al_simps)
  have "refs_ok T ?\<sigma> ?R d'" if "1 \<le> d'" "d' \<le> D" for d'
    using v(4)[OF that] level ref by (auto simp: refs_ok_def shift_handle_def)
  then show ?thesis using v(1) content shift_handle_nonneg[of R, OF v(3) n(2)] by (simp add: storage_inv_def)
qed

lemma storage_inv_put_sen_ref:
  assumes inv: "storage_inv T U D R \<sigma>" and d: "1 \<le> d" "d \<le> D" and s: "find_sen \<sigma> d i = Some s"
    and n: "0 < sn_ref s + n" "0 \<le> R d i + n"
  shows "storage_inv T U D (shift_handle R d i n) (put_sens d (AList.update i (s\<lparr>sn_ref := sn_ref s + n\<rparr>) (sens \<sigma> d)) \<sigma>)"
    (is "storage_inv T U D ?R ?\<sigma>")
proof -
  note v = storage_invD[OF inv]
  have sensd: "sens_ok T U d (sens \<sigma> d)" using content_okD(2)[OF v(2) d] .
  have m: "map_of (sens \<sigma> d) i = Some s" using s by (simp add: find_sen_def)
  have sen: "is_sen T i" "\<not> in_place_node T d" by (rule sens_ok_is_sen[OF v(1) sensd m])+
  have nfn: "\<not> is_fn T i" using is_fn_not_sen universe_okD(1)[OF v(1)] sen(1) by blast
  have "sens_ok T U d (sens ?\<sigma> d)"
    using sensd m n(1) sen(2) unfolding sens_ok_def by (auto simp: al_simps sn_entry_def)
  then have content: "content_ok T U D ?\<sigma>" using v(2) d by (auto simp: content_ok_def)
  have ref: "ref_of T ?\<sigma> d' j = ref_of T \<sigma> d' j + (if d' = d \<and> j = i then n else 0)" for d' j
    using nfn m by (auto simp: ref_of_def find_fn_def find_sen_def al_simps)
  have "refs_ok T ?\<sigma> ?R d'" if "1 \<le> d'" "d' \<le> D" for d'
    using v(4)[OF that] ref by (auto simp: refs_ok_def shift_handle_def)
  then show ?thesis using v(1) content shift_handle_nonneg[of R, OF v(3) n(2)] by (simp add: storage_inv_def)
qed

text \<open>The reference count of a container with a pointer, and writing it.\<close>

lemma write_ref_spec:
  assumes inv: "storage_inv T U D R \<sigma>" and d: "1 \<le> d" "d \<le> D" and E: "entries_ok U d E" "E \<noteq> {}"
    and pres: "present T \<sigma> d (ident T d E)" and c: "container_ok T d E c" and tr: "\<not> (in_place_node T d \<and> card E = 1)"
  shows "nc_ptr c \<and> \<not> id_empty T (nc_id c) \<and> container_ref T \<sigma> d c = Some (ref_of T \<sigma> d (ident T d E))"
    "0 < ref_of T \<sigma> d (ident T d E) + n \<Longrightarrow> 0 \<le> R d (ident T d E) + n \<Longrightarrow>
      \<exists>\<sigma>'. write_ref T \<sigma> d c (ref_of T \<sigma> d (ident T d E) + n) = Some \<sigma>' \<and>
        storage_inv T U D (shift_handle R d (ident T d E) n) \<sigma>'"
proof -
  have lvl: "level_ok T U \<sigma> d" using below_okD(1)[OF storage_inv_below[OF inv d(2)] d(1)] by simp
  note U = level_okD(1)[OF lvl]
  have id: "nc_id c = ident T d E" "ident T d E \<noteq> 0" "nc_ptr c"
    using container_okD(1)[OF c] ident_nonzero[OF U E(1)] E(2) c tr by (auto simp: container_ok_def)
  have "(nc_ptr c \<and> \<not> id_empty T (nc_id c) \<and> container_ref T \<sigma> d c = Some (ref_of T \<sigma> d (ident T d E))) \<and>
    (0 < ref_of T \<sigma> d (ident T d E) + n \<longrightarrow> 0 \<le> R d (ident T d E) + n \<longrightarrow>
      (\<exists>\<sigma>'. write_ref T \<sigma> d c (ref_of T \<sigma> d (ident T d E) + n) = Some \<sigma>' \<and>
        storage_inv T U D (shift_handle R d (ident T d E) n) \<sigma>'))"
  proof (cases "card E = 1")
    case True
    then obtain e where e: "E = {e}" by (auto simp: card_1_singleton_iff)
    have ip: "\<not> in_place_node T d" using tr True by blast
    have sen: "is_sen T (ident T d E)" "\<not> is_fn T (ident T d E)"
      using is_sen_ident[OF U E(1)] is_fn_ident[OF U E(1)] True by simp_all
    obtain s where s: "find_sen \<sigma> d (ident T d E) = Some s" using present_sen[OF pres sen(1) ip level_okD(2)[OF lvl]] .
    then show ?thesis using storage_inv_put_sen_ref[OF inv d s, of n] id sen
      by (simp add: container_ref_def write_ref_def sen_deref_def ref_of_def)
  next
    case False
    then have card: "2 \<le> card E" using E(2) card_cases[OF entries_okD(1)[OF E(1)]] by (metis card.empty is_singletonI is_singleton_altdef)
    have fn: "is_fn T (ident T d E)" "\<not> is_sen T (ident T d E)"
      using is_sen_ident[OF U E(1)] is_fn_ident[OF U E(1)] card False by simp_all
    obtain g where g: "find_fn \<sigma> d (ident T d E) = Some g" using present_fn[OF pres fn(1)] .
    then show ?thesis using storage_inv_put_fn_ref[OF inv d g, of n] id fn
      by (simp add: container_ref_def write_ref_def fn_deref_def ref_of_def)
  qed
  then show "nc_ptr c \<and> \<not> id_empty T (nc_id c) \<and> container_ref T \<sigma> d c = Some (ref_of T \<sigma> d (ident T d E))"
    "0 < ref_of T \<sigma> d (ident T d E) + n \<Longrightarrow> 0 \<le> R d (ident T d E) + n \<Longrightarrow>
      \<exists>\<sigma>'. write_ref T \<sigma> d c (ref_of T \<sigma> d (ident T d E) + n) = Some \<sigma>' \<and>
        storage_inv T U D (shift_handle R d (ident T d E) n) \<sigma>'" by blast+
qed

lemma tracked_ident:
  assumes U: "universe_ok T U" and E: "entries_ok U d E" "E \<noteq> {}"
  shows "tracked T d (ident T d E) \<longleftrightarrow> \<not> (in_place_node T d \<and> card E = 1)"
proof (cases rule: card_cases[OF entries_okD(1)[OF E(1)]])
  case 3
  then show ?thesis using is_fn_ident[OF U E(1)] by (simp add: tracked_def)
qed (use E is_sen_ident[OF U E(1)] is_fn_ident[OF U E(1)] in \<open>auto simp: tracked_def\<close>)

lemma inc_ref_count_spec:
  assumes inv: "storage_inv T U D R \<sigma>" and d: "1 \<le> d" "d \<le> D" and E: "entries_ok U d E" "E \<noteq> {}"
    and pres: "present T \<sigma> d (ident T d E)" and c: "container_ok T d E c" and tr: "\<not> (in_place_node T d \<and> card E = 1)"
  shows "\<exists>\<sigma>'. inc_ref_count T \<sigma> d c = Some \<sigma>' \<and> storage_inv T U D (shift_handle R d (ident T d E) 1) \<sigma>'"
proof -
  note U = storage_invD(1)[OF inv]
  have "0 < ref_of T \<sigma> d (ident T d E)" using pres tracked_ident[OF U E] tr by (simp add: present_def)
  moreover have "is_sen T (nc_id c) \<longrightarrow> \<not> in_place_node T d"
    using is_sen_ident[OF U E(1)] container_okD(1)[OF c] tr by auto
  moreover have "0 \<le> R d (ident T d E) + 1" using storage_invD(3)[OF inv, of d "ident T d E"] by simp
  ultimately show ?thesis using write_ref_spec(1)[OF inv d E pres c tr] write_ref_spec(2)[OF inv d E pres c tr, of 1]
    by (auto simp: inc_ref_count_def)
qed

lemma decr_ref_count_spec:
  assumes inv: "storage_inv T U D R \<sigma>" and d: "1 \<le> d" "d \<le> D" and E: "entries_ok U d E" "E \<noteq> {}"
    and h: "0 < R d (ident T d E)" and c: "container_ok T d E c" and tr: "\<not> (in_place_node T d \<and> card E = 1)"
  shows "\<exists>\<sigma>'. decr_ref_count T \<sigma> d c = Some \<sigma>' \<and> storage_inv T U D (shift_handle R d (ident T d E) (- 1)) \<sigma>'"
proof -
  note v = storage_invD[OF inv]
  let ?i = "ident T d E" and ?R = "shift_handle R d (ident T d E) (- 1)"
  have pres: "present T \<sigma> d ?i" by (rule handle_present[OF inv d h])
  have tracked: "tracked T d ?i" using tracked_ident[OF v(1) E] tr by simp
  then have ref: "0 < ref_of T \<sigma> d ?i" using pres by (simp add: present_def)
  note w = write_ref_spec(1)[OF inv d E pres c tr] write_ref_spec(2)[OF inv d E pres c tr, of "- 1"]
  show ?thesis
  proof (cases "1 < ref_of T \<sigma> d ?i")
    case True
    then show ?thesis using w h ref by (auto simp: decr_ref_count_def)
  next
    case False
    let ?ur = "apply_ref_count_delta T d empty_requests ?i (- 1)"
    have lvl: "level_ok T U \<sigma> d" using below_okD(1)[OF storage_inv_below[OF inv d(2)] d(1)] by simp
    note req = apply_delta_present[OF lvl requests_ok_empty pres refl E]
    have "refs_ok T \<sigma> ?R d'" if "1 \<le> d'" "d' \<le> D" "d' \<noteq> d" for d'
      using v(4)[OF that(1,2)] refs_ok_shift_other[OF that(3)] by blast
    moreover have "ref_of T \<sigma> d j + ur_delta T ?ur j = level_refs (fns \<sigma> (Suc d)) j + ?R d j" if "tracked T d j" for j
      using v(4)[OF d] req(2)[OF that] that by (simp add: refs_ok_def shift_handle_def ur_delta_empty)
    ultimately have "pending T U D ?R \<sigma> d ?ur"
      using v(1,2) shift_handle_nonneg[of R d ?i "- 1", OF v(3)] h req(1) by (simp add: pending_def)
    then obtain \<sigma>' where "consume_and_execute T d \<sigma> ?ur = Some \<sigma>'" "storage_inv T U D ?R \<sigma>'"
      using consume_and_execute_spec[OF _ d] by blast
    then show ?thesis using w(1) ref False container_okD(1)[OF c] by (auto simp: decr_ref_count_def)
  qed
qed

subsection \<open>No node outlives its references\<close>

text \<open>When no handle refers to a node that is stored, all levels of the storage are empty.\<close>

lemma storage_inv_no_handles:
  assumes inv: "storage_inv T U D R \<sigma>" and R: "\<And>d i. 1 \<le> d \<Longrightarrow> d \<le> D \<Longrightarrow> tracked T d i \<Longrightarrow> R d i = 0"
  shows "1 \<le> d \<Longrightarrow> d \<le> D \<Longrightarrow> fns \<sigma> d = [] \<and> sens \<sigma> d = []"
proof (induction "D - d" arbitrary: d rule: less_induct)
  case less
  note v = storage_invD[OF inv] and d = less.prems
  have "fns \<sigma> (Suc d) = []"
  proof (cases "Suc d \<le> D")
    case True
    then show ?thesis using less.hyps[of "Suc d"] by simp
  next
    case False
    then show ?thesis using v(2) by (simp add: content_ok_def)
  qed
  then have zero: "ref_of T \<sigma> d i = 0" if "tracked T d i" for i
    using v(4)[OF d] R[OF d that] that by (simp add: refs_ok_def)
  note c = content_okD[OF v(2) d]
  have "map_of (fns \<sigma> d) i = None" for i
  proof (rule ccontr)
    assume "map_of (fns \<sigma> d) i \<noteq> None"
    then obtain fn where fn: "map_of (fns \<sigma> d) i = Some fn" by blast
    then have "is_fn T i" "0 < fn_ref fn" using fns_ok_is_fn[OF v(1) c(1)] fns_okD(2)[OF c(1)] by auto
    then show False using zero[of i] fn by (simp add: tracked_def ref_of_def find_fn_def)
  qed
  moreover have "map_of (sens \<sigma> d) i = None" for i
  proof (rule ccontr)
    assume "map_of (sens \<sigma> d) i \<noteq> None"
    then obtain s where s: "map_of (sens \<sigma> d) i = Some s" by blast
    then have "is_sen T i" "\<not> in_place_node T d" "0 < sn_ref s"
      using sens_ok_is_sen[OF v(1) c(2)] sens_okD(3)[OF c(2)] by auto
    moreover from this have "\<not> is_fn T i" using is_fn_not_sen universe_okD(1)[OF v(1)] by blast
    ultimately show False using zero[of i] s by (simp add: tracked_def ref_of_def find_sen_def)
  qed
  ultimately show ?case by (simp add: al_find_all_None)
qed

subsection \<open>Inserting, removing and setting\<close>

definition context_insert ::
  "'v::zero_neq_one htt \<Rightarrow> 'v node_storage \<Rightarrow> nat \<Rightarrow> node_container \<Rightarrow> 'v entry list \<Rightarrow> ('v node_storage \<times> node_container) option" where
  "context_insert T \<sigma> depth c entries = insert_entries_into_node T depth \<sigma> c entries"

definition context_remove ::
  "'v::zero_neq_one htt \<Rightarrow> 'v node_storage \<Rightarrow> nat \<Rightarrow> node_container \<Rightarrow> 'v entry list \<Rightarrow> ('v node_storage \<times> node_container) option" where
  "context_remove T \<sigma> depth c entries = erase_entries_from_node T depth \<sigma> c entries"

text \<open>The entry of a Boolean-valued hypertrie stores no value: it is always one.\<close>

definition single_entry :: "'v::zero_neq_one htt \<Rightarrow> raw_key \<Rightarrow> 'v \<Rightarrow> 'v entry" where
  "single_entry T key v = (key, if bool_valued T then 1 else v)"

definition node_set ::
  "'v::zero_neq_one htt \<Rightarrow> 'v node_storage \<Rightarrow> nat \<Rightarrow> node_container \<Rightarrow> raw_key \<Rightarrow> 'v
     \<Rightarrow> ('v node_storage \<times> node_container \<times> 'v) option" where
  "node_set T \<sigma> depth c key v = do {
     (\<sigma>1, c1) \<leftarrow> (if in_place_node T depth \<and> id_empty T (nc_id c)
                  then context_insert T \<sigma> depth c [single_entry T key v] else Some (\<sigma>, c));
     old \<leftarrow> node_get T \<sigma>1 depth c1 key;
     if v = old then Some (\<sigma>1, c1, v)
     else if v = 0 then
       (if bool_valued T then do {
          (\<sigma>', c') \<leftarrow> context_remove T \<sigma>1 depth c1 [single_entry T key 1];
          Some (\<sigma>', c', old)
        } else None)
     else if old = 0 then do {
       (\<sigma>', c') \<leftarrow> context_insert T \<sigma>1 depth c1 [single_entry T key v];
       Some (\<sigma>', c', old)
     }
     else Some (\<sigma>1, c1, old)
   }"

lemma handle_get:
  assumes inv: "storage_inv T U D R \<sigma>" and d: "1 \<le> d" "d \<le> D" and E: "entries_ok U d E"
    and h: "0 < R d (ident T d E)" and c: "container_ok T d E c" and key: "length key = d"
  shows "node_get T \<sigma> d c key = Some (value_at E key)"
  by (rule node_get_spec[OF d(1) storage_inv_below[OF inv d(2)] E handle_present[OF inv d h] c key])

lemma entries_ok_bool:
  assumes "universe_ok T U" "entries_ok U d E" "bool_valued T" "e \<in> E"
  shows "snd e = 1"
  using universe_okD(2)[OF assms(1) entries_okD(2)[OF assms(2)] assms(4)] assms(3) by (simp add: entry_ok_def)

lemma value_at_bool:
  assumes "universe_ok T U" "entries_ok U d E" "bool_valued T"
  shows "value_at E key = (if (key, 1) \<in> E then 1 else 0)"
proof (cases "(key, 1) \<in> E")
  case True
  then show ?thesis using value_at_in[OF entries_okD(4)[OF assms(2)]] by simp
next
  case False
  then have "(key, v) \<notin> E" for v using entries_ok_bool[OF assms, of "(key, v)"] by auto
  then show ?thesis using False value_at_out by auto
qed

definition entries_set :: "'v::zero_neq_one entry set \<Rightarrow> raw_key \<Rightarrow> 'v \<Rightarrow> 'v entry set" where
  "entries_set E key v = (if v = 0 then E - {(key, 1)} else insert (key, 1) E)"

lemma move_handle_same: "move_handle R d i i = R"
  by (simp add: move_handle_def fun_eq_iff)

lemma move_handle_back: "move_handle (move_handle R d i j) d j i = R"
  by (simp add: move_handle_def fun_eq_iff)

lemma node_set_spec:
  assumes inv: "storage_inv T U D R \<sigma>" and d: "1 \<le> d" "d \<le> D" and E: "entries_ok U d E"
    and h: "0 < R d (ident T d E)" and c: "container_ok T d E c" and key: "length key = d"
    and bool: "bool_valued T" and v: "v = 0 \<or> v = 1"
    and ok: "entries_ok U d {(key, 1)}" "entries_ok U d (entries_set E key v)"
    and no: "\<not> (in_place_node T d \<and> E = {})"
  shows "\<exists>\<sigma>' c'. node_set T \<sigma> d c key v = Some (\<sigma>', c', value_at E key) \<and> container_ok T d (entries_set E key v) c' \<and>
    storage_inv T U D (move_handle R d (ident T d E) (ident T d (entries_set E key v))) \<sigma>'"
proof -
  note U = storage_invD(1)[OF inv]
  have get: "node_get T \<sigma> d c key = Some (value_at E key)" by (rule handle_get[OF inv d E h c key])
  have neg: "\<not> (in_place_node T d \<and> id_empty T (nc_id c))"
    using no ident_nonzero[OF U E] container_okD(1)[OF c] by auto
  have run: "node_set T \<sigma> d c key v = (if v = value_at E key then Some (\<sigma>, c, v)
      else if v = 0 then do { (\<sigma>', c') \<leftarrow> erase_entries_from_node T d \<sigma> c [(key, 1)]; Some (\<sigma>', c', value_at E key) }
      else if value_at E key = 0 then do { (\<sigma>', c') \<leftarrow> insert_entries_into_node T d \<sigma> c [(key, 1)]; Some (\<sigma>', c', value_at E key) }
      else Some (\<sigma>, c, value_at E key))"
    unfolding node_set_def if_not_P[OF neg] Option.bind.simps prod.case get using bool
    by (simp add: context_insert_def context_remove_def single_entry_def)
  note val = value_at_bool[OF U E bool, of key]
  consider "v = value_at E key" | "v = 0" "(key, 1) \<in> E" | "v = 1" "(key, 1) \<notin> E"
    using v val by (auto split: if_splits)
  then show ?thesis
  proof cases
    case 1
    then have "entries_set E key v = E" using val by (auto simp: entries_set_def split: if_splits)
    then show ?thesis using 1 run inv c by (simp add: move_handle_same)
  next
    case 2
    have del: "del_ok U d E [(key, 1)]" using E ok 2 by (simp add: del_ok_def entries_set_def)
    obtain \<sigma>' c' where "erase_entries_from_node T d \<sigma> c [(key, 1)] = Some (\<sigma>', c')"
      "container_ok T d (E - set [(key, 1)]) c'" "storage_inv T U D (move_handle R d (ident T d E) (ident T d (E - set [(key, 1)]))) \<sigma>'"
      using erase_entries_spec[OF inv d del _ _ h c] 2 by auto
    then show ?thesis using 2 run val by (simp add: entries_set_def)
  next
    case 3
    have ins: "ins_ok U d E [(key, 1)]" using E ok 3 by (simp add: ins_ok_def entries_set_def)
    obtain \<sigma>' c' where "insert_entries_into_node T d \<sigma> c [(key, 1)] = Some (\<sigma>', c')"
      "container_ok T d (E \<union> set [(key, 1)]) c'" "storage_inv T U D (move_handle R d (ident T d E) (ident T d (E \<union> set [(key, 1)]))) \<sigma>'"
      using insert_entries_spec[OF inv d ins _ _ h c] 3 by auto
    then show ?thesis using 3 run val by (simp add: entries_set_def)
  qed
qed

text \<open>On the empty in-place node of depth 1, \<open>set\<close> inserts the key before it looks the old value up:
  the stored set is right, but the value returned is one whatever the value was.\<close>

lemma node_set_in_place_empty:
  assumes inv: "storage_inv T U D R \<sigma>" and ip: "in_place_node T d" and D: "1 \<le> D"
    and h: "0 < R d (ident T d {})" and c: "container_ok T d {} c" and key: "length key = d"
    and v: "v = 0 \<or> v = 1" and ok: "entries_ok U d {(key, 1)}"
  shows "\<exists>\<sigma>' c'. node_set T \<sigma> d c key v = Some (\<sigma>', c', 1) \<and> container_ok T d (entries_set {} key v) c' \<and>
    storage_inv T U D (move_handle R d (ident T d {}) (ident T d (entries_set {} key v))) \<sigma>'"
proof -
  note U = storage_invD(1)[OF inv]
  have d: "1 \<le> d" "d \<le> D" using ip D by (simp_all add: in_place_node_def)
  have bool: "bool_valued T" using ip universe_okD(1)[OF U] by (simp add: in_place_node_def htt_ok_def)
  note none = entries_ok_empty[OF U, of d]
  have ins: "ins_ok U d {} [(key, 1)]" using ok none by (simp add: ins_ok_def)
  obtain \<sigma>1 c1 where s: "insert_entries_into_node T d \<sigma> c [(key, 1)] = Some (\<sigma>1, c1)"
    "container_ok T d {(key, 1)} c1" "storage_inv T U D (move_handle R d (ident T d {}) (ident T d {(key, 1)})) \<sigma>1"
    using insert_entries_spec[OF inv d ins _ _ h c] by auto
  have h1: "0 < move_handle R d (ident T d {}) (ident T d {(key, 1)}) d (ident T d {(key, 1)})"
    using ident_nonzero[OF U ok] storage_invD(3)[OF inv, of d "ident T d {(key, 1)}"] by (simp add: move_handle_def)
  have get: "node_get T \<sigma>1 d c1 key = Some 1"
    using handle_get[OF s(3) d ok h1 s(2) key] value_at_bool[OF U ok bool] by simp
  have run: "node_set T \<sigma> d c key v = (if v = 1 then Some (\<sigma>1, c1, 1)
      else do { (\<sigma>', c') \<leftarrow> erase_entries_from_node T d \<sigma>1 c1 [(key, 1)]; Some (\<sigma>', c', 1) })"
    using ip container_okD(1)[OF c] s(1) bool v get
    by (auto simp: node_set_def context_insert_def context_remove_def single_entry_def)
  show ?thesis
  proof (cases "v = 1")
    case True
    then show ?thesis using run s(2,3) by (simp add: entries_set_def)
  next
    case False
    then have v0: "v = 0" using v by blast
    have "del_ok U d {(key, 1)} [(key, 1)]" using ok none by (simp add: del_ok_def)
    from erase_entries_spec[OF s(3) d this _ _ h1 s(2)] obtain \<sigma>' c' where
      "erase_entries_from_node T d \<sigma>1 c1 [(key, 1)] = Some (\<sigma>', c')" "container_ok T d {} c'"
      "storage_inv T U D (move_handle (move_handle R d (ident T d {}) (ident T d {(key, 1)})) d (ident T d {(key, 1)}) (ident T d {})) \<sigma>'"
      by auto
    then show ?thesis using run False v0 by (simp add: entries_set_def move_handle_same move_handle_back[of R d 0, simplified])
  qed
qed

text \<open>Setting another value for a key that is stored with a value changes nothing.\<close>

lemma node_set_keeps_value:
  assumes "node_get T \<sigma> d c key = Some old" "old \<noteq> 0" "v \<noteq> 0" "v \<noteq> old" "\<not> id_empty T (nc_id c)"
  shows "node_set T \<sigma> d c key v = Some (\<sigma>, c, old)"
  using assms by (simp add: node_set_def)

subsection \<open>Releasing all handles\<close>

text \<open>A client gives its handles back one after the other.\<close>

definition release_all ::
  "'v::zero_neq_one htt \<Rightarrow> (nat \<times> node_container) list \<Rightarrow> 'v node_storage \<Rightarrow> 'v node_storage option" where
  "release_all T hs \<sigma> = foldM (\<lambda>\<sigma> (d, c). decr_ref_count T \<sigma> d c) hs \<sigma>"

text \<open>The handles to the nodes of a list of sets, and how many of them have an identifier.\<close>

definition is_handle ::
  "'v::zero_neq_one htt \<Rightarrow> 'v entry set set \<Rightarrow> nat \<Rightarrow> nat \<times> 'v entry set \<Rightarrow> nat \<times> node_container \<Rightarrow> bool" where
  "is_handle T U D x h \<longleftrightarrow> (case (x, h) of ((d, E), (d', c)) \<Rightarrow> d' = d \<and> 1 \<le> d \<and> d \<le> D \<and> entries_ok U d E \<and> E \<noteq> {} \<and>
     \<not> (in_place_node T d \<and> card E = 1) \<and> container_ok T d E c)"

definition handles_to :: "'v::zero_neq_one htt \<Rightarrow> (nat \<times> 'v entry set) list \<Rightarrow> nat \<Rightarrow> node_id \<Rightarrow> int" where
  "handles_to T xs d i = (\<Sum>(e, E)\<leftarrow>xs. of_bool (e = d \<and> ident T e E = i))"

lemma handles_to_simps [simp]:
  "handles_to T [] d i = 0"
  "handles_to T ((e, E) # xs) d i = of_bool (e = d \<and> ident T e E = i) + handles_to T xs d i"
  by (simp_all add: handles_to_def)

lemma handles_to_nonneg: "0 \<le> handles_to T xs d i"
  by (induction xs) auto

theorem release_all_handles:
  assumes "storage_inv T U D R \<sigma>" "list_all2 (is_handle T U D) xs hs"
    "\<forall>d i. 1 \<le> d \<and> d \<le> D \<and> tracked T d i \<longrightarrow> R d i = handles_to T xs d i"
  shows "\<exists>\<sigma>'. release_all T hs \<sigma> = Some \<sigma>' \<and> (\<forall>d. 1 \<le> d \<and> d \<le> D \<longrightarrow> fns \<sigma>' d = [] \<and> sens \<sigma>' d = [])"
  using assms
proof (induction xs arbitrary: hs R \<sigma>)
  case Nil
  then show ?case using storage_inv_no_handles[OF Nil.prems(1)] by (simp add: release_all_def)
next
  case (Cons x xs)
  obtain d E where x: "x = (d, E)" by (cases x)
  obtain y hs' where y: "hs = y # hs'" "is_handle T U D (d, E) y" "list_all2 (is_handle T U D) xs hs'"
    using Cons.prems(2) x by (auto simp: list_all2_Cons1)
  obtain c where hs: "hs = (d, c) # hs'" "list_all2 (is_handle T U D) xs hs'"
    and h: "1 \<le> d" "d \<le> D" "entries_ok U d E" "E \<noteq> {}" "\<not> (in_place_node T d \<and> card E = 1)" "container_ok T d E c"
    using y by (cases y) (simp add: is_handle_def)
  let ?i = "ident T d E"
  have tr: "tracked T d ?i" using tracked_ident[OF storage_invD(1)[OF Cons.prems(1)] h(3,4)] h(5) by simp
  then have "R d ?i = 1 + handles_to T xs d ?i" using Cons.prems(3) h(1,2) x by simp
  then have pos: "0 < R d ?i" using handles_to_nonneg[of T xs d ?i] by simp
  from decr_ref_count_spec[OF Cons.prems(1) h(1-4) pos h(6,5)] obtain \<sigma>1 where
    s1: "decr_ref_count T \<sigma> d c = Some \<sigma>1" "storage_inv T U D (shift_handle R d ?i (- 1)) \<sigma>1" by blast
  have "\<forall>e j. 1 \<le> e \<and> e \<le> D \<and> tracked T e j \<longrightarrow> shift_handle R d ?i (- 1) e j = handles_to T xs e j"
    using Cons.prems(3) x by (auto simp: shift_handle_def)
  from Cons.IH[OF s1(2) hs(2) this] show ?case using s1(1) hs(1) by (simp add: release_all_def)
qed

end
