(* ===== verification/Bulk_Update.thy ===== *)
theory Bulk_Update
  imports Context_Handles
begin

text \<open>
  The bulk updaters (internal/raw/node_context/SynchronousRawBulkUpdater.hpp and RawBulkUpdater.hpp)
  collect entries, drop duplicates and entries that need no change, and hand bulks to the context.
  They use four operations of the context and the identifier of an entry, which \<open>bulk_context\<close>
  collects; the locale \<open>bulk_target\<close> states what they rely on, and the raw context provides it. The
  asynchronous updater runs a worker thread: its model is a step relation over the actions of the
  user and of the worker, with the order of the accesses to the shared queue and flags.
\<close>

subsection \<open>The interface to the context\<close>

datatype bulk_mode = Insert_Mode | Remove_Mode

record ('s, 'e) bulk_context =
  bc_get :: "'s \<Rightarrow> 'e \<Rightarrow> bool option"
  bc_insert :: "'s \<Rightarrow> 'e list \<Rightarrow> 's option"
  bc_remove :: "'s \<Rightarrow> 'e list \<Rightarrow> 's option"
  bc_size :: "'s \<Rightarrow> nat option"
  bc_id :: "'e \<Rightarrow> node_id"

definition raw_bulk_context ::
  "'v::zero_neq_one htt \<Rightarrow> nat \<Rightarrow> ('v node_storage \<times> node_container, 'v entry) bulk_context" where
  "raw_bulk_context T depth =
     \<lparr>bc_get = \<lambda>(\<sigma>, c) e. map_option (\<lambda>v. v \<noteq> 0) (node_get T \<sigma> depth c (fst e)),
      bc_insert = \<lambda>(\<sigma>, c) es. context_insert T \<sigma> depth c es,
      bc_remove = \<lambda>(\<sigma>, c) es. context_remove T \<sigma> depth c es,
      bc_size = \<lambda>(\<sigma>, c). node_size T \<sigma> depth c,
      bc_id = encode_single_entry T depth\<rparr>"

definition wanted :: "bulk_mode \<Rightarrow> bool \<Rightarrow> bool" where
  "wanted mode stored = (case mode of Insert_Mode \<Rightarrow> \<not> stored | Remove_Mode \<Rightarrow> stored)"

locale bulk_target =
  fixes C :: "('s, 'e) bulk_context" and rep :: "'s \<Rightarrow> 'e set \<Rightarrow> bool" and A :: "'e set"
  assumes get_law: "rep s E \<Longrightarrow> e \<in> A \<Longrightarrow> bc_get C s e = Some (e \<in> E)"
    and insert_law: "rep s E \<Longrightarrow> distinct es \<Longrightarrow> set es \<subseteq> A - E \<Longrightarrow>
      \<exists>s'. bc_insert C s es = Some s' \<and> rep s' (E \<union> set es)"
    and remove_law: "rep s E \<Longrightarrow> distinct es \<Longrightarrow> set es \<subseteq> E \<Longrightarrow>
      \<exists>s'. bc_remove C s es = Some s' \<and> rep s' (E - set es)"
    and size_law: "rep s E \<Longrightarrow> bc_size C s = Some (card E)"
    and id_law: "rep s E \<Longrightarrow> e \<in> A \<Longrightarrow> e' \<in> A \<Longrightarrow> bc_id C e = bc_id C e' \<Longrightarrow> e = e'"
    and rep_in: "rep s E \<Longrightarrow> E \<subseteq> A"

subsection \<open>The synchronous updater\<close>

record 'e sync_updater =
  su_bulk_size :: nat
  su_dedup_max :: nat
  su_new :: "'e list"
  su_dedup :: "node_id set"
  su_seen :: nat
  su_stats :: "(nat \<times> nat \<times> nat) list"

definition new_sync_updater :: "nat \<Rightarrow> 'e sync_updater" where
  "new_sync_updater bulk_size =
     \<lparr>su_bulk_size = (if bulk_size = 0 then 1 else bulk_size), su_dedup_max = 4 * bulk_size,
      su_new = [], su_dedup = {}, su_seen = 0, su_stats = []\<rparr>"

text \<open>\<open>flush\<close> does not look at the mode: it always inserts.\<close>

definition sync_flush :: "('s, 'e) bulk_context \<Rightarrow> 's \<times> 'e sync_updater \<Rightarrow> ('s \<times> 'e sync_updater) option" where
  "sync_flush C su = (case su of (s, u) \<Rightarrow>
     if su_new u = [] then Some (s, u)
     else do {
       s' \<leftarrow> bc_insert C s (su_new u);
       n \<leftarrow> bc_size C s';
       Some (s', u\<lparr>su_stats := su_stats u @ [(su_seen u, length (su_new u), n)], su_new := []\<rparr>)
     })"

definition sync_add ::
  "('s, 'e) bulk_context \<Rightarrow> bulk_mode \<Rightarrow> 's \<times> 'e sync_updater \<Rightarrow> 'e \<Rightarrow> ('s \<times> 'e sync_updater) option" where
  "sync_add C mode su entry = (case su of (s, u) \<Rightarrow>
     let entry_hash = bc_id C entry;
         unseen = (entry_hash \<notin> su_dedup u);
         dedup = insert entry_hash (su_dedup u);
         u1 = u\<lparr>su_dedup := (if card dedup = su_dedup_max u then {} else dedup)\<rparr>
     in if \<not> unseen then Some (s, u1)
        else do {
          already_stored \<leftarrow> bc_get C s entry;
          if \<not> wanted mode already_stored then Some (s, u1)
          else
            let u2 = u1\<lparr>su_new := su_new u1 @ [entry]\<rparr>
            in if su_bulk_size u2 \<le> length (su_new u2) then sync_flush C (s, u2) else Some (s, u2)
        })"

definition sync_size :: "'e sync_updater \<Rightarrow> nat" where
  "sync_size u = length (su_new u)"

text \<open>The overload that takes a user-facing entry checks its size; entries are Boolean-valued.\<close>

definition sync_add_entry ::
  "('s, 'v::zero_neq_one entry) bulk_context \<Rightarrow> bulk_mode \<Rightarrow> nat \<Rightarrow> 's \<times> 'v entry sync_updater \<Rightarrow> 'v user_entry
     \<Rightarrow> hypertrie_error + ('s \<times> 'v entry sync_updater) option" where
  "sync_add_entry C mode depth su entry =
     (if length (ue_key entry) = depth then Inr (sync_add C mode su (ue_key entry, 1))
      else Inl (LogicError ''The provided NonZeroEntry has a wrong depth/size.''))"

text \<open>What holds while a stream of entries is added: \<open>E0\<close> is the set at the start.\<close>

definition sync_inv :: "('s, 'e) bulk_context \<Rightarrow> ('s \<Rightarrow> 'e set \<Rightarrow> bool) \<Rightarrow> 'e set \<Rightarrow> 'e list \<Rightarrow> 's \<times> 'e sync_updater \<Rightarrow> bool" where
  "sync_inv C rep E0 seen su \<longleftrightarrow> (\<exists>E. rep (fst su) E \<and> E0 \<subseteq> E \<and> E \<union> set (su_new (snd su)) = E0 \<union> set seen \<and>
     distinct (su_new (snd su)) \<and> set (su_new (snd su)) \<inter> E = {} \<and> su_dedup (snd su) = bc_id C ` set seen)"

context bulk_target
begin

lemma id_inj: "rep s E \<Longrightarrow> inj_on (bc_id C) A"
  using id_law by (auto intro: inj_onI)

lemma sync_flush_inv:
  assumes inv: "sync_inv C rep E0 seen su" and A: "E0 \<subseteq> A" "set seen \<subseteq> A"
  shows "\<exists>su'. sync_flush C su = Some su' \<and> sync_inv C rep E0 seen su' \<and> su_new (snd su') = [] \<and>
    su_bulk_size (snd su') = su_bulk_size (snd su) \<and> su_dedup_max (snd su') = su_dedup_max (snd su)"
proof -
  obtain s u E where su: "su = (s, u)" "rep s E" "E0 \<subseteq> E" "E \<union> set (su_new u) = E0 \<union> set seen"
    "distinct (su_new u)" "set (su_new u) \<inter> E = {}" "su_dedup u = bc_id C ` set seen"
    using inv by (cases su) (auto simp: sync_inv_def)
  show ?thesis
  proof (cases "su_new u = []")
    case True
    then show ?thesis using inv su(1) by (simp add: sync_flush_def)
  next
    case False
    have "set (su_new u) \<subseteq> A - E" using su(4,6) A by blast
    then obtain s' where s': "bc_insert C s (su_new u) = Some s'" "rep s' (E \<union> set (su_new u))"
      using insert_law[OF su(2,5)] by blast
    then show ?thesis using False su size_law[OF s'(2)] by (auto simp: sync_flush_def sync_inv_def)
  qed
qed

lemma sync_add_inv:
  assumes inv: "sync_inv C rep E0 seen su" and A: "E0 \<subseteq> A" "set seen \<subseteq> A" "e \<in> A"
    and few: "card (insert e (set seen)) < su_dedup_max (snd su)"
  shows "\<exists>su'. sync_add C Insert_Mode su e = Some su' \<and> sync_inv C rep E0 (seen @ [e]) su' \<and>
    su_bulk_size (snd su') = su_bulk_size (snd su) \<and> su_dedup_max (snd su') = su_dedup_max (snd su)"
proof -
  obtain s u E where su: "su = (s, u)" "rep s E" "E0 \<subseteq> E" "E \<union> set (su_new u) = E0 \<union> set seen"
    "distinct (su_new u)" "set (su_new u) \<inter> E = {}" "su_dedup u = bc_id C ` set seen"
    using inv by (cases su) (auto simp: sync_inv_def)
  have seen: "bc_id C e \<in> su_dedup u \<longleftrightarrow> e \<in> set seen" using su(7) A inj_on_image_mem_iff[OF id_inj[OF su(2)], of e "set seen"] by auto
  have ids: "insert (bc_id C e) (su_dedup u) = bc_id C ` insert e (set seen)" using su(7) by simp
  have "card (insert (bc_id C e) (su_dedup u)) = card (insert e (set seen))"
    unfolding ids by (rule card_image) (rule inj_on_subset[OF id_inj[OF su(2)]], use A in auto)
  then have keep: "card (insert (bc_id C e) (su_dedup u)) \<noteq> su_dedup_max u" using few su(1) by simp
  let ?u1 = "u\<lparr>su_dedup := insert (bc_id C e) (su_dedup u)\<rparr>"
  show ?thesis
  proof (cases "e \<in> set seen \<or> e \<in> E")
    case True
    then have "sync_add C Insert_Mode su e = Some (s, ?u1)"
      using su(1) seen keep get_law[OF su(2) A(3)] by (auto simp: sync_add_def Let_def wanted_def)
    moreover have "sync_inv C rep E0 (seen @ [e]) (s, ?u1)"
      using su True ids unfolding sync_inv_def by (intro exI[of _ E]) auto
    ultimately show ?thesis using su(1) by auto
  next
    case False
    let ?u2 = "?u1\<lparr>su_new := su_new u @ [e]\<rparr>"
    have "e \<notin> set (su_new u)" using False su(3,4) by auto
    then have inv2: "sync_inv C rep E0 (seen @ [e]) (s, ?u2)"
      using su False ids unfolding sync_inv_def by (intro exI[of _ E]) auto
    have run: "sync_add C Insert_Mode su e
        = (if su_bulk_size u \<le> Suc (length (su_new u)) then sync_flush C (s, ?u2) else Some (s, ?u2))"
      using su(1) seen keep False get_law[OF su(2) A(3)] by (simp add: sync_add_def Let_def wanted_def)
    show ?thesis
      using sync_flush_inv[OF inv2] A su(1) inv2 unfolding run by auto
  qed
qed

text \<open>Adding a stream and flushing inserts exactly its entries, as long as the set for
  de-duplication is not cleared.\<close>

lemma sync_insert_stream:
  assumes rep: "rep s E" and A: "set es \<subseteq> A" and few: "card (set es) < 4 * bulk_size"
  shows "\<exists>s' u'. (case foldM (sync_add C Insert_Mode) es (s, new_sync_updater bulk_size) of
      None \<Rightarrow> None | Some su \<Rightarrow> sync_flush C su) = Some (s', u') \<and> rep s' (E \<union> set es) \<and> su_new u' = []"
proof -
  let ?P = "\<lambda>seen (su :: 's \<times> 'e sync_updater). sync_inv C rep E seen su \<and> su_dedup_max (snd su) = 4 * bulk_size"
  have "\<exists>su. foldM (sync_add C Insert_Mode) es (s, new_sync_updater bulk_size) = Some su \<and> ?P es su"
  proof (rule foldM_rule)
    show "?P [] (s, new_sync_updater bulk_size)"
      using rep by (auto simp: sync_inv_def new_sync_updater_def)
    fix as e bs su assume split: "es = as @ e # bs" and P: "?P as su"
    have "card (insert e (set as)) \<le> card (set es)" by (rule card_mono) (auto simp: split)
    then show "\<exists>su'. sync_add C Insert_Mode su e = Some su' \<and> ?P (as @ [e]) su'"
      using sync_add_inv[of E as su e] P split A few rep_in[OF rep] by auto
  qed
  then obtain su where su: "foldM (sync_add C Insert_Mode) es (s, new_sync_updater bulk_size) = Some su" "sync_inv C rep E es su"
    by blast
  obtain su' where su': "sync_flush C su = Some su'" "sync_inv C rep E es su'" "su_new (snd su') = []"
    using sync_flush_inv[OF su(2) rep_in[OF rep] A] by blast
  obtain s' u' where "su' = (s', u')" by (cases su')
  then show ?thesis using su(1) su' by (auto simp: sync_inv_def)
qed

end

text \<open>Removing does not work: the remover hands the stored entries to \<open>insert\<close>.\<close>

lemma sync_remover_inserts:
  assumes "bc_get C s e = Some True"
  shows "sync_add C Remove_Mode (s, new_sync_updater 1) e
    = do {
        s' \<leftarrow> bc_insert C s [e];
        n \<leftarrow> bc_size C s';
        Some (s', (new_sync_updater 1)\<lparr>su_dedup := {bc_id C e}, su_stats := [(0, 1, n)]\<rparr>)
      }"
  using assms by (simp add: sync_add_def sync_flush_def new_sync_updater_def wanted_def Let_def)

text \<open>Once the set for de-duplication is cleared, an entry that waits for its bulk is taken again:
  the bulk then holds it twice.\<close>

lemma sync_add_stored:
  assumes "\<forall>e \<in> set es. bc_get C s e = Some True" "distinct (map (bc_id C) es)"
    "bc_id C ` set es \<inter> su_dedup u = {}" "finite (su_dedup u)" "card (su_dedup u) + length es < su_dedup_max u"
  shows "foldM (sync_add C Insert_Mode) es (s, u) = Some (s, u\<lparr>su_dedup := su_dedup u \<union> bc_id C ` set es\<rparr>)"
  using assms
proof (induction es arbitrary: u)
  case (Cons e es)
  then have "sync_add C Insert_Mode (s, u) e = Some (s, u\<lparr>su_dedup := insert (bc_id C e) (su_dedup u)\<rparr>)"
    by (simp add: sync_add_def wanted_def Let_def)
  moreover have "foldM (sync_add C Insert_Mode) es (s, u\<lparr>su_dedup := insert (bc_id C e) (su_dedup u)\<rparr>)
      = Some (s, u\<lparr>su_dedup := su_dedup u \<union> bc_id C ` set (e # es)\<rparr>)"
    using Cons.IH[of "u\<lparr>su_dedup := insert (bc_id C e) (su_dedup u)\<rparr>"] Cons.prems by auto
  ultimately show ?case by simp
qed simp

lemma sync_duplicate_bulk:
  assumes stored: "\<forall>e \<in> set es. bc_get C s e = Some True" and new: "bc_get C s b = Some False"
    and ids: "distinct (map (bc_id C) (es @ [b]))" and len: "length es = 7"
  shows "foldM (sync_add C Insert_Mode) (es @ [b, b]) (s, new_sync_updater 2)
    = sync_flush C (s, (new_sync_updater 2)\<lparr>su_dedup := {bc_id C b}, su_new := [b, b]\<rparr>)"
proof -
  let ?u = "(new_sync_updater 2)\<lparr>su_dedup := bc_id C ` set es\<rparr>"
  have "foldM (sync_add C Insert_Mode) es (s, new_sync_updater 2) = Some (s, ?u)"
    using sync_add_stored[of es C s "new_sync_updater 2"] stored ids len by (simp add: new_sync_updater_def)
  moreover have "card (bc_id C ` set es) = 7"
    using distinct_card[of "map (bc_id C) es"] ids len by simp
  then have "sync_add C Insert_Mode (s, ?u) b = Some (s, (new_sync_updater 2)\<lparr>su_dedup := {}, su_new := [b]\<rparr>)"
    using new ids by (simp add: sync_add_def wanted_def Let_def new_sync_updater_def card_insert_if)
  moreover have "sync_add C Insert_Mode (s, (new_sync_updater 2)\<lparr>su_dedup := {}, su_new := [b]\<rparr>) b
      = sync_flush C (s, (new_sync_updater 2)\<lparr>su_dedup := {bc_id C b}, su_new := [b, b]\<rparr>)"
    using new by (simp add: sync_add_def wanted_def Let_def new_sync_updater_def)
  ultimately show ?thesis by (simp add: foldM_append split: option.splits)
qed

subsection \<open>The asynchronous updater\<close>

text \<open>The worker reads the queue, and, when it finds it empty, reads the stop token; these are two
  accesses, between which the user may act. \<open>At_Commit\<close> is the part after the inner loop.\<close>

datatype worker_pc = At_Loop | Read_Failed | At_Commit | Terminated

record ('s, 'e) async_updater =
  au_store :: 's
  au_queue :: "'e list"
  au_new :: "'e list"
  au_dedup :: "node_id set"
  au_seen :: nat
  au_flush :: bool
  au_stop :: bool
  au_done :: bool
  au_pc :: worker_pc
  au_stats :: "(nat \<times> nat \<times> nat) list"

definition async_bulk_size :: "nat \<Rightarrow> nat" where
  "async_bulk_size bulk_size = (if 2 < bulk_size then bulk_size else 2)"

definition new_async_updater :: "'s \<Rightarrow> ('s, 'e) async_updater" where
  "new_async_updater s = \<lparr>au_store = s, au_queue = [], au_new = [], au_dedup = {}, au_seen = 0, au_flush = False,
     au_stop = False, au_done = False, au_pc = At_Loop, au_stats = []\<rparr>"

text \<open>One entry that was read from the queue. When the set for de-duplication is full it is
  cleared and filled with the entries of the current bulk, before the entry itself is added.\<close>

definition async_process ::
  "('s, 'e) bulk_context \<Rightarrow> bulk_mode \<Rightarrow> nat \<Rightarrow> ('s, 'e) async_updater \<Rightarrow> 'e \<Rightarrow> ('s, 'e) async_updater option" where
  "async_process C mode bulk st entry =
     (let i = bc_id C entry;
          is_new = (i \<notin> au_dedup st);
          dedup = insert i (au_dedup st);
          dedup' = (if card dedup = 4 * bulk then bc_id C ` set (au_new st) else dedup);
          st1 = st\<lparr>au_seen := au_seen st + 1, au_dedup := dedup'\<rparr>
      in if \<not> is_new then Some st1
         else do {
           contained \<leftarrow> bc_get C (au_store st) entry;
           Some (if wanted mode contained then st1\<lparr>au_new := au_new st @ [entry]\<rparr> else st1)
         })"

definition async_commit ::
  "('s, 'e) bulk_context \<Rightarrow> bulk_mode \<Rightarrow> ('s, 'e) async_updater \<Rightarrow> ('s, 'e) async_updater option" where
  "async_commit C mode st = do {
     s' \<leftarrow> (case mode of Insert_Mode \<Rightarrow> bc_insert C (au_store st) (au_new st)
             | Remove_Mode \<Rightarrow> bc_remove C (au_store st) (au_new st));
     n \<leftarrow> bc_size C s';
     Some (st\<lparr>au_store := s', au_stats := au_stats st @ [(au_seen st, length (au_new st), n)], au_new := [],
       au_flush := False, au_dedup := {}, au_seen := 0, au_pc := (if au_done st then Terminated else At_Loop)\<rparr>)
   }"

text \<open>The actions of the user and the worker. The user waits in \<open>flush\<close> until the flag is reset,
  and does nothing more once the destructor has requested the stop; the queue, which keeps one
  slot free, has to have room for a write.\<close>

datatype 'e async_action = Write 'e | Request_Flush | Request_Stop | Worker

definition async_step ::
  "('s, 'e) bulk_context \<Rightarrow> bulk_mode \<Rightarrow> nat \<Rightarrow> 'e async_action \<Rightarrow> ('s, 'e) async_updater \<Rightarrow> ('s, 'e) async_updater option" where
  "async_step C mode bulk a st = (case a of
       Write e \<Rightarrow>
         if au_stop st \<or> au_flush st \<or> bulk \<le> length (au_queue st) + 1 then None
         else Some (st\<lparr>au_queue := au_queue st @ [e]\<rparr>)
     | Request_Flush \<Rightarrow> if au_stop st \<or> au_flush st then None else Some (st\<lparr>au_flush := True\<rparr>)
     | Request_Stop \<Rightarrow> if au_stop st \<or> au_flush st then None else Some (st\<lparr>au_stop := True\<rparr>)
     | Worker \<Rightarrow> (case au_pc st of
           At_Loop \<Rightarrow>
             if length (au_new st) < bulk \<and> \<not> au_flush st then
               (case au_queue st of
                  [] \<Rightarrow> Some (st\<lparr>au_pc := Read_Failed\<rparr>)
                | e # es \<Rightarrow> async_process C mode bulk (st\<lparr>au_queue := es\<rparr>) e)
             else Some (st\<lparr>au_pc := At_Commit\<rparr>)
         | Read_Failed \<Rightarrow>
             if au_stop st then Some (st\<lparr>au_done := True, au_pc := At_Commit\<rparr>) else Some (st\<lparr>au_pc := At_Loop\<rparr>)
         | At_Commit \<Rightarrow> async_commit C mode st
         | Terminated \<Rightarrow> None))"

inductive async_run ::
  "('s, 'e) bulk_context \<Rightarrow> bulk_mode \<Rightarrow> nat \<Rightarrow> 's \<Rightarrow> 'e async_action list \<Rightarrow> ('s, 'e) async_updater \<Rightarrow> bool"
  for C mode bulk s where
  start: "async_run C mode bulk s [] (new_async_updater s)"
| step: "async_run C mode bulk s as st \<Longrightarrow> async_step C mode bulk a st = Some st' \<Longrightarrow>
    async_run C mode bulk s (as @ [a]) st'"

inductive_cases async_run_snocE: "async_run C mode bulk s (as @ [a]) st"

definition writes :: "'e async_action list \<Rightarrow> 'e list" where
  "writes as = List.map_filter (\<lambda>a. case a of Write e \<Rightarrow> Some e | _ \<Rightarrow> None) as"

lemma writes_simps [simp]:
  "writes [] = []"
  "writes (as @ [Write e]) = writes as @ [e]"
  "writes (as @ [Request_Flush]) = writes as"
  "writes (as @ [Request_Stop]) = writes as"
  "writes (as @ [Worker]) = writes as"
  by (simp_all add: writes_def map_filter_def)

text \<open>How many different entries a stream has up to the first occurrence of \<open>e\<close>. Clearing the set for
  de-duplication keeps the identifiers of the current bulk, but not that of the entry it happens at.
  An entry that comes after \<open>n\<close> different ones may be such an entry; \<open>repeats_early n\<close> says that only
  entries that come earlier are written again.\<close>

definition first_at :: "'e list \<Rightarrow> 'e \<Rightarrow> nat" where
  "first_at ws e = card (insert e (set (takeWhile (\<lambda>x. x \<noteq> e) ws)))"

definition repeats_early :: "nat \<Rightarrow> 'e list \<Rightarrow> bool" where
  "repeats_early n ws \<longleftrightarrow> (\<forall>e \<in> set ws. 1 < count_list ws e \<longrightarrow> first_at ws e < n)"

definition is_late :: "nat \<Rightarrow> 'e list \<Rightarrow> 'e \<Rightarrow> bool" where
  "is_late n ws e \<longleftrightarrow> e \<in> set ws \<and> n \<le> first_at ws e"

lemma first_at_append: "e \<in> set ws \<Longrightarrow> first_at (ws @ vs) e = first_at ws e"
  using takeWhile_append1[of e ws "\<lambda>x. x \<noteq> e" vs] by (simp add: first_at_def)

lemma first_at_new: "e \<notin> set ws \<Longrightarrow> first_at (ws @ e # vs) e = card (insert e (set ws))"
  by (subst first_at_def, subst takeWhile_append2) auto

lemma repeats_early_prefix: "repeats_early n (ws @ vs) \<Longrightarrow> repeats_early n ws"
  by (auto simp: repeats_early_def first_at_append dest: bspec[where x = e for e] intro: order.strict_trans2)

lemma repeats_early_few: "card (set ws) < n \<Longrightarrow> repeats_early n ws"
proof -
  assume few: "card (set ws) < n"
  have "first_at ws e \<le> card (set ws)" if "e \<in> set ws" for e
    unfolding first_at_def using that by (intro card_mono) (auto dest: set_takeWhileD)
  then show ?thesis using few by (fastforce simp: repeats_early_def)
qed

lemma repeats_early_distinct: "distinct ws \<Longrightarrow> repeats_early n ws"
proof -
  have "distinct ws \<Longrightarrow> count_list ws e \<le> 1" for e
    by (induction ws) (auto simp: count_list_0_iff)
  then have "distinct ws \<Longrightarrow> \<not> 1 < count_list ws e" for e by (simp add: not_less)
  then show "distinct ws \<Longrightarrow> repeats_early n ws" by (simp add: repeats_early_def)
qed

lemma late_append: "is_late n ws e \<Longrightarrow> is_late n (ws @ vs) e"
  by (simp add: is_late_def first_at_append)

lemma late_not_again: "is_late n ws e \<Longrightarrow> \<not> repeats_early n (ws @ e # vs)"
proof -
  assume late: "is_late n ws e"
  then have "1 \<le> count_list ws e" by (simp add: is_late_def Suc_le_eq count_list_0_iff flip: neq0_conv)
  then show ?thesis using late first_at_append[of e ws "e # vs"] by (auto simp: is_late_def repeats_early_def)
qed

text \<open>The entries written so far are those already read and those in the queue; \<open>E\<close> is stored, and
  the current bulk holds the entries that have been read and are not stored yet. The set for
  de-duplication knows each entry of the bulk, or the entry is late.\<close>

definition async_inv ::
  "('s, 'e) bulk_context \<Rightarrow> ('s \<Rightarrow> 'e set \<Rightarrow> bool) \<Rightarrow> 'e set \<Rightarrow> nat \<Rightarrow> 'e list \<Rightarrow> ('s, 'e) async_updater \<Rightarrow> bool" where
  "async_inv C rep E0 n written st \<longleftrightarrow> (\<exists>E taken. written = taken @ au_queue st \<and> rep (au_store st) E \<and> E0 \<subseteq> E \<and>
     E \<union> set (au_new st) = E0 \<union> set taken \<and> distinct (au_new st) \<and> set (au_new st) \<inter> E = {} \<and>
     (\<forall>e \<in> set (au_new st). bc_id C e \<in> au_dedup st \<or> is_late n taken e) \<and> au_dedup st \<subseteq> bc_id C ` set taken)"

lemma async_invE:
  assumes "async_inv C rep E0 n written st"
  obtains E taken where "written = taken @ au_queue st" "rep (au_store st) E" "E0 \<subseteq> E"
    "E \<union> set (au_new st) = E0 \<union> set taken" "distinct (au_new st)" "set (au_new st) \<inter> E = {}"
    "\<And>e. e \<in> set (au_new st) \<Longrightarrow> bc_id C e \<in> au_dedup st \<or> is_late n taken e" "au_dedup st \<subseteq> bc_id C ` set taken"
  using assms by (auto simp: async_inv_def)

context bulk_target
begin

lemma async_process_inv:
  assumes inv: "async_inv C rep E0 (4 * bulk) written (st\<lparr>au_queue := e # es\<rparr>)" and A: "E0 \<subseteq> A" "set written \<subseteq> A"
    and early: "repeats_early (4 * bulk) written"
  shows "\<exists>st'. async_process C Insert_Mode bulk (st\<lparr>au_queue := es\<rparr>) e = Some st' \<and> async_inv C rep E0 (4 * bulk) written st' \<and>
    au_queue st' = es \<and> au_flush st' = au_flush st \<and> au_stop st' = au_stop st \<and> au_done st' = au_done st \<and> au_pc st' = au_pc st"
proof -
  obtain E taken where i: "written = taken @ e # es" "rep (au_store st) E" "E0 \<subseteq> E"
    "E \<union> set (au_new st) = E0 \<union> set taken" "distinct (au_new st)" "set (au_new st) \<inter> E = {}"
    and known: "\<And>x. x \<in> set (au_new st) \<Longrightarrow> bc_id C x \<in> au_dedup st \<or> is_late (4 * bulk) taken x"
    and ids: "au_dedup st \<subseteq> bc_id C ` set taken"
    using inv by (elim async_invE) simp
  have eA: "e \<in> A" and split: "written = (taken @ [e]) @ es" using i(1) A by auto
  have new: "set (au_new st) \<subseteq> set taken" using i(3,4,6) by blast
  let ?dedup = "insert (bc_id C e) (au_dedup st)"
  define dedup where "dedup = (if card ?dedup = 4 * bulk then bc_id C ` set (au_new st) else ?dedup)"
  let ?st1 = "st\<lparr>au_queue := es, au_seen := au_seen st + 1, au_dedup := dedup\<rparr>"
  have run: "async_process C Insert_Mode bulk (st\<lparr>au_queue := es\<rparr>) e
      = (if bc_id C e \<in> au_dedup st then Some ?st1 else do {
           contained \<leftarrow> bc_get C (au_store st) e;
           Some (if contained then ?st1 else ?st1\<lparr>au_new := au_new st @ [e]\<rparr>)
         })"
    by (cases "bc_get C (au_store st) e") (simp_all add: async_process_def Let_def dedup_def wanted_def)
  have sub: "dedup \<subseteq> bc_id C ` set (taken @ [e])" using ids new by (auto simp: dedup_def)
  have knows: "bc_id C x \<in> dedup \<or> is_late (4 * bulk) (taken @ [e]) x" if "x \<in> set (au_new st)" for x
    using known[OF that] late_append[of "4 * bulk" taken x "[e]"] that by (auto simp: dedup_def)
  consider "bc_id C e \<in> au_dedup st" | "bc_id C e \<notin> au_dedup st" "e \<in> E" | "bc_id C e \<notin> au_dedup st" "e \<notin> E" by blast
  then show ?thesis
  proof cases
    case 1
    then obtain e' where e': "e' \<in> set taken" "bc_id C e = bc_id C e'" using ids by auto
    have "e' \<in> A" using e'(1) i(1) A by auto
    then have "e \<in> set taken" using id_law[OF i(2) eA _ e'(2)] e'(1) by blast
    then have "async_inv C rep E0 (4 * bulk) written ?st1"
      unfolding async_inv_def using i(2-6) split sub knows by (intro exI[of _ E] exI[of _ "taken @ [e]"]) auto
    then show ?thesis using 1 by (simp add: run)
  next
    case 2
    then have "async_inv C rep E0 (4 * bulk) written ?st1"
      unfolding async_inv_def using i(2-6) split sub knows by (intro exI[of _ E] exI[of _ "taken @ [e]"]) auto
    then show ?thesis using 2 get_law[OF i(2) eA] by (simp add: run)
  next
    case 3
    have "\<not> is_late (4 * bulk) taken e" using late_not_again[of "4 * bulk" taken e es] early i(1) by blast
    then have pend: "e \<notin> set (au_new st)" using known[of e] 3(1) by blast
    then have first: "e \<notin> set taken" using i(3,4) 3(2) by blast
    have "4 * bulk \<le> card (insert e (set taken))" if "card ?dedup = 4 * bulk"
    proof -
      have "?dedup \<subseteq> bc_id C ` insert e (set taken)" using ids by auto
      then have "card ?dedup \<le> card (insert e (set taken))"
        by (meson List.finite_set card_image_le card_mono finite.insertI finite_imageI le_trans)
      then show ?thesis using that by simp
    qed
    then have "bc_id C e \<in> dedup \<or> is_late (4 * bulk) (taken @ [e]) e"
      using first_at_new[OF first, of "[]"] by (auto simp: dedup_def is_late_def)
    then have "async_inv C rep E0 (4 * bulk) written (?st1\<lparr>au_new := au_new st @ [e]\<rparr>)"
      unfolding async_inv_def using i(2-6) split sub knows 3 pend by (intro exI[of _ E] exI[of _ "taken @ [e]"]) auto
    then show ?thesis using 3 get_law[OF i(2) eA] by (simp add: run)
  qed
qed

lemma async_commit_inv:
  assumes inv: "async_inv C rep E0 (4 * bulk) written st" and A: "E0 \<subseteq> A" "set written \<subseteq> A"
  shows "\<exists>st'. async_commit C Insert_Mode st = Some st' \<and> async_inv C rep E0 (4 * bulk) written st' \<and> au_new st' = [] \<and>
    au_queue st' = au_queue st \<and> \<not> au_flush st' \<and> au_stop st' = au_stop st \<and> au_done st' = au_done st \<and>
    au_pc st' = (if au_done st then Terminated else At_Loop)"
proof -
  obtain E taken where i: "written = taken @ au_queue st" "rep (au_store st) E" "E0 \<subseteq> E"
    "E \<union> set (au_new st) = E0 \<union> set taken" "distinct (au_new st)" "set (au_new st) \<inter> E = {}"
    using inv by (elim async_invE)
  have "set (au_new st) \<subseteq> A - E" using i(1,4,6) A by auto
  then obtain s' where s': "bc_insert C (au_store st) (au_new st) = Some s'" "rep s' (E \<union> set (au_new st))"
    using insert_law[OF i(2,5)] by blast
  have "async_inv C rep E0 (4 * bulk) written (st\<lparr>au_store := s', au_stats := au_stats st @ [(au_seen st, length (au_new st), n)], au_new := [],
       au_flush := False, au_dedup := {}, au_seen := 0, au_pc := pc\<rparr>)" for n pc
    unfolding async_inv_def using i s'(2) by (intro exI[of _ "E \<union> set (au_new st)"] exI[of _ taken]) auto
  then show ?thesis using s'(1) size_law[OF s'(2)] by (simp add: async_commit_def)
qed

lemma async_step_inv:
  assumes inv: "async_inv C rep E0 (4 * bulk) (writes as) st" and step: "async_step C Insert_Mode bulk a st = Some st'"
    and A: "E0 \<subseteq> A" "set (writes as) \<subseteq> A" and early: "repeats_early (4 * bulk) (writes as)"
  shows "async_inv C rep E0 (4 * bulk) (writes (as @ [a])) st'"
proof (cases a)
  case (Write e)
  obtain E taken where i: "writes as = taken @ au_queue st" "rep (au_store st) E" "E0 \<subseteq> E"
    "E \<union> set (au_new st) = E0 \<union> set taken" "distinct (au_new st)" "set (au_new st) \<inter> E = {}"
    "\<And>e. e \<in> set (au_new st) \<Longrightarrow> bc_id C e \<in> au_dedup st \<or> is_late (4 * bulk) taken e" "au_dedup st \<subseteq> bc_id C ` set taken"
    using inv by (elim async_invE) simp
  have "st' = st\<lparr>au_queue := au_queue st @ [e]\<rparr>" using step Write by (auto simp: async_step_def split: if_splits)
  then show ?thesis using i Write unfolding async_inv_def by (intro exI[of _ E] exI[of _ taken]) simp
next
  case Request_Flush
  then show ?thesis using inv step by (auto simp: async_step_def async_inv_def split: if_splits)
next
  case Request_Stop
  then show ?thesis using inv step by (auto simp: async_step_def async_inv_def split: if_splits)
next
  case Worker
  show ?thesis
  proof (cases "au_pc st")
    case At_Loop
    show ?thesis
    proof (cases "length (au_new st) < bulk \<and> \<not> au_flush st \<and> au_queue st \<noteq> []")
      case True
      then obtain e es where q: "au_queue st = e # es" by (cases "au_queue st") auto
      then have "async_inv C rep E0 (4 * bulk) (writes as) (st\<lparr>au_queue := e # es\<rparr>)" using inv by (simp add: async_inv_def)
      from async_process_inv[OF this A early] show ?thesis
        using step Worker At_Loop True q by (auto simp: async_step_def)
    next
      case False
      then show ?thesis using inv step Worker At_Loop
        by (auto simp: async_step_def async_inv_def split: if_splits list.splits)
    qed
  next
    case At_Commit
    then show ?thesis using async_commit_inv[OF inv A] step Worker by (auto simp: async_step_def)
  qed (use inv step Worker in \<open>auto simp: async_step_def async_inv_def split: if_splits\<close>)
qed

lemma async_run_inv:
  "async_run C Insert_Mode bulk s as st \<Longrightarrow> rep s E0 \<Longrightarrow> set (writes as) \<subseteq> A \<Longrightarrow> repeats_early (4 * bulk) (writes as) \<Longrightarrow>
    async_inv C rep E0 (4 * bulk) (writes as) st"
proof (induction rule: async_run.induct)
  case start
  then show ?case by (auto simp: async_inv_def new_async_updater_def intro!: exI[of _ E0])
next
  case (step as st a st')
  have "set (writes as) \<subseteq> set (writes (as @ [a]))" by (cases a) auto
  then have sub: "set (writes as) \<subseteq> A" "repeats_early (4 * bulk) (writes as)"
    using step.prems(2,3) repeats_early_prefix by (blast, cases a) auto
  show ?case by (rule async_step_inv[OF step.IH step.hyps(2)]) (use step.prems(1) sub rep_in in auto)
qed

text \<open>The worker never gets stuck.\<close>

lemma async_worker_progress:
  assumes inv: "async_inv C rep E0 (4 * bulk) (writes as) st" and A: "E0 \<subseteq> A" "set (writes as) \<subseteq> A"
    and early: "repeats_early (4 * bulk) (writes as)" and run: "au_pc st \<noteq> Terminated"
  shows "\<exists>st'. async_step C Insert_Mode bulk Worker st = Some st'"
proof (cases "au_pc st")
  case At_Loop
  show ?thesis
  proof (cases "au_queue st")
    case Nil
    then show ?thesis using At_Loop by (simp add: async_step_def)
  next
    case (Cons e es)
    then have "async_inv C rep E0 (4 * bulk) (writes as) (st\<lparr>au_queue := e # es\<rparr>)" using inv by (simp add: async_inv_def)
    from async_process_inv[OF this A early] show ?thesis using At_Loop Cons by (auto simp: async_step_def)
  qed
next
  case At_Commit
  then show ?thesis using async_commit_inv[OF inv A] by (auto simp: async_step_def)
qed (use run in \<open>auto simp: async_step_def\<close>)

end

text \<open>A terminated worker has committed its last bulk; a worker that is done is on its way out.\<close>

definition worker_inv :: "('s, 'e) async_updater \<Rightarrow> bool" where
  "worker_inv st \<longleftrightarrow> (au_pc st = Terminated \<longrightarrow> au_new st = []) \<and>
     (au_done st \<longrightarrow> au_stop st \<and> (au_pc st = At_Commit \<or> au_pc st = Terminated)) \<and>
     (au_pc st = Terminated \<longrightarrow> au_done st)"

lemma async_process_same:
  "async_process C mode bulk st e = Some st' \<Longrightarrow> au_queue st' = au_queue st \<and> au_pc st' = au_pc st \<and>
    au_done st' = au_done st \<and> au_stop st' = au_stop st \<and> au_flush st' = au_flush st"
  by (auto simp: async_process_def Let_def bind_eq_Some_conv split: if_splits)

lemma async_step_worker_inv: "worker_inv st \<Longrightarrow> async_step C mode bulk a st = Some st' \<Longrightarrow> worker_inv st'"
  by (auto simp: worker_inv_def async_step_def async_commit_def bind_eq_Some_conv dest!: async_process_same
      split: async_action.splits worker_pc.splits if_splits list.splits)

lemma async_run_worker_inv: "async_run C mode bulk s as st \<Longrightarrow> worker_inv st"
proof (induction rule: async_run.induct)
  case start
  then show ?case by (simp add: worker_inv_def new_async_updater_def)
next
  case (step as st a st')
  then show ?case by (blast intro: async_step_worker_inv)
qed

text \<open>After the stop was requested the worker terminates.\<close>

definition worker_measure :: "nat \<Rightarrow> ('s, 'e) async_updater \<Rightarrow> nat" where
  "worker_measure bulk st = (let q = 4 * length (au_queue st) in
     case au_pc st of
       Terminated \<Rightarrow> 0
     | At_Commit \<Rightarrow> if au_done st then 1 else q + 4
     | Read_Failed \<Rightarrow> q + 2
     | At_Loop \<Rightarrow> if length (au_new st) < bulk \<and> \<not> au_flush st then q + 3 else q + 5)"

lemma worker_measure_less:
  assumes "async_step C mode bulk Worker st = Some st'" "worker_inv st" "au_stop st" "2 \<le> bulk"
  shows "worker_measure bulk st' < worker_measure bulk st \<and> au_stop st'"
  using assms
  by (auto simp: worker_inv_def worker_measure_def async_step_def async_commit_def Let_def bind_eq_Some_conv
      dest!: async_process_same split: worker_pc.splits if_splits list.splits)

context bulk_target
begin

lemma async_terminates:
  assumes "async_run C Insert_Mode bulk s as st" "rep s E0" "set (writes as) \<subseteq> A" "repeats_early (4 * bulk) (writes as)"
    "au_stop st" "2 \<le> bulk"
  shows "\<exists>n st'. n \<le> worker_measure bulk st \<and> async_run C Insert_Mode bulk s (as @ replicate n Worker) st' \<and> au_pc st' = Terminated"
  using assms
proof (induction "worker_measure bulk st" arbitrary: as st rule: less_induct)
  case less
  note inv = async_run_inv[OF less.prems(1-4)]
  show ?case
  proof (cases "au_pc st = Terminated")
    case True
    then show ?thesis using less.prems(1) by (intro exI[of _ 0]) auto
  next
    case False
    obtain st1 where st1: "async_step C Insert_Mode bulk Worker st = Some st1"
      using async_worker_progress[OF inv rep_in[OF less.prems(2)] less.prems(3,4) False] by blast
    have run: "async_run C Insert_Mode bulk s (as @ [Worker]) st1" by (rule async_run.step[OF less.prems(1) st1])
    have dec: "worker_measure bulk st1 < worker_measure bulk st" "au_stop st1"
      using worker_measure_less[OF st1 async_run_worker_inv[OF less.prems(1)] less.prems(5,6)] by auto
    obtain n st' where n: "n \<le> worker_measure bulk st1" "async_run C Insert_Mode bulk s ((as @ [Worker]) @ replicate n Worker) st'"
      "au_pc st' = Terminated"
      using less.hyps[OF dec(1) run less.prems(2) _ _ dec(2) less.prems(6)] less.prems(3,4) by auto
    then show ?thesis using dec(1) by (intro exI[of _ "Suc n"]) auto
  qed
qed

text \<open>What is stored when the worker has terminated: everything but what is left in the queue.\<close>

lemma async_terminated:
  assumes "async_run C Insert_Mode bulk s as st" "rep s E0" "set (writes as) \<subseteq> A" "repeats_early (4 * bulk) (writes as)"
    "au_pc st = Terminated"
  shows "\<exists>E. rep (au_store st) E \<and> E0 \<subseteq> E \<and> E \<union> set (au_queue st) = E0 \<union> set (writes as)"
proof -
  have "au_new st = []" using async_run_worker_inv[OF assms(1)] assms(5) by (simp add: worker_inv_def)
  then show ?thesis using async_run_inv[OF assms(1-4)] by (fastforce simp: async_inv_def)
qed

text \<open>An entry that is written between the failed read and the look at the stop token is lost.\<close>

lemma async_lost_entry:
  assumes "rep s E" "2 \<le> bulk"
  shows "\<exists>st. async_run C Insert_Mode bulk s [Worker, Write e, Request_Stop, Worker, Worker] st \<and>
    au_pc st = Terminated \<and> rep (au_store st) E"
proof -
  obtain s' where s': "bc_insert C s [] = Some s'" "rep s' E" using insert_law[OF assms(1), of "[]"] by auto
  let ?st = "(new_async_updater s :: ('s, 'e) async_updater)\<lparr>au_queue := [e], au_stop := True, au_done := True, au_pc := At_Commit\<rparr>"
  have r1: "async_run C Insert_Mode bulk s ([] @ [Worker]) ((new_async_updater s)\<lparr>au_pc := Read_Failed\<rparr>)"
    by (rule async_run.step[OF async_run.start]) (use assms(2) in \<open>simp add: async_step_def new_async_updater_def\<close>)
  have r2: "async_run C Insert_Mode bulk s (([] @ [Worker]) @ [Write e]) ((new_async_updater s)\<lparr>au_pc := Read_Failed, au_queue := [e]\<rparr>)"
    by (rule async_run.step[OF r1]) (use assms(2) in \<open>simp add: async_step_def new_async_updater_def\<close>)
  have r3: "async_run C Insert_Mode bulk s ((([] @ [Worker]) @ [Write e]) @ [Request_Stop])
      ((new_async_updater s)\<lparr>au_pc := Read_Failed, au_queue := [e], au_stop := True\<rparr>)"
    by (rule async_run.step[OF r2]) (simp add: async_step_def new_async_updater_def)
  have r4: "async_run C Insert_Mode bulk s (((([] @ [Worker]) @ [Write e]) @ [Request_Stop]) @ [Worker]) ?st"
    by (rule async_run.step[OF r3]) (simp add: async_step_def new_async_updater_def)
  have "\<exists>st. async_step C Insert_Mode bulk Worker ?st = Some st \<and> au_pc st = Terminated \<and> au_store st = s'"
    using s'(1) size_law[OF s'(2)] by (simp add: async_step_def async_commit_def new_async_updater_def)
  then show ?thesis using async_run.step[OF r4] s'(2) by auto
qed

text \<open>\<open>flush\<close> may return while entries that were added before are still in the queue.\<close>

lemma async_flush_early:
  assumes "rep s E" "2 \<le> bulk"
  shows "\<exists>st. async_run C Insert_Mode bulk s [Write e, Request_Flush, Worker, Worker] st \<and>
    \<not> au_flush st \<and> au_queue st = [e] \<and> rep (au_store st) E"
proof -
  obtain s' where s': "bc_insert C s [] = Some s'" "rep s' E" using insert_law[OF assms(1), of "[]"] by auto
  let ?st = "(new_async_updater s :: ('s, 'e) async_updater)\<lparr>au_queue := [e], au_flush := True, au_pc := At_Commit\<rparr>"
  have r1: "async_run C Insert_Mode bulk s ([] @ [Write e]) ((new_async_updater s)\<lparr>au_queue := [e]\<rparr>)"
    by (rule async_run.step[OF async_run.start]) (use assms(2) in \<open>simp add: async_step_def new_async_updater_def\<close>)
  have r2: "async_run C Insert_Mode bulk s (([] @ [Write e]) @ [Request_Flush]) ((new_async_updater s)\<lparr>au_queue := [e], au_flush := True\<rparr>)"
    by (rule async_run.step[OF r1]) (simp add: async_step_def new_async_updater_def)
  have r3: "async_run C Insert_Mode bulk s ((([] @ [Write e]) @ [Request_Flush]) @ [Worker]) ?st"
    by (rule async_run.step[OF r2]) (simp add: async_step_def new_async_updater_def)
  have "\<exists>st. async_step C Insert_Mode bulk Worker ?st = Some st \<and> \<not> au_flush st \<and> au_queue st = [e] \<and> au_store st = s'"
    using s'(1) size_law[OF s'(2)] by (simp add: async_step_def async_commit_def new_async_updater_def)
  then show ?thesis using async_run.step[OF r3] s'(2) by auto
qed

end

text \<open>Past the limit the asynchronous updater can take an entry twice, too: the entry at which the set for
  de-duplication is cleared is not among the entries that are put back.\<close>

definition written_and_read :: "'e list \<Rightarrow> 'e async_action list" where
  "written_and_read es = concat (map (\<lambda>e. [Write e, Worker]) es)"

lemma written_and_read_snoc: "written_and_read (es @ [e]) = written_and_read es @ [Write e] @ [Worker]"
  by (simp add: written_and_read_def)

lemma async_write_read:
  assumes run: "async_run C m 2 s as st" and idle: "au_queue st = []" "\<not> au_stop st" "\<not> au_flush st" "au_pc st = At_Loop"
    and room: "length (au_new st) < 2" and proc: "async_process C m 2 st e = Some st'"
  shows "async_run C m 2 s (as @ [Write e] @ [Worker]) st'"
proof -
  have w: "async_run C m 2 s (as @ [Write e]) (st\<lparr>au_queue := [e]\<rparr>)"
    by (rule async_run.step[OF run]) (simp add: async_step_def idle)
  have same: "st\<lparr>au_queue := []\<rparr> = st" using idle(1) by simp
  have "async_run C m 2 s ((as @ [Write e]) @ [Worker]) st'"
    by (rule async_run.step[OF w]) (simp add: async_step_def idle room proc same)
  then show ?thesis by simp
qed

lemma async_stored_entries:
  assumes "\<forall>e \<in> set es. bc_get C s e = Some True" "distinct (map (bc_id C) es)" "length es < 8"
  shows "async_run C Insert_Mode 2 s (written_and_read es)
    ((new_async_updater s)\<lparr>au_dedup := bc_id C ` set es, au_seen := length es\<rparr>)"
  using assms
proof (induction es rule: rev_induct)
  case Nil
  show ?case using async_run.start[of C Insert_Mode 2 s] by (simp add: written_and_read_def new_async_updater_def)
next
  case (snoc e es)
  let ?st = "(new_async_updater s)\<lparr>au_dedup := bc_id C ` set es, au_seen := length es\<rparr>"
  have run: "async_run C Insert_Mode 2 s (written_and_read es) ?st" using snoc by simp
  have "card (insert (bc_id C e) (bc_id C ` set es)) \<le> length (e # es)"
    using card_length[of "map (bc_id C) (e # es)"] by simp
  then have "async_process C Insert_Mode 2 ?st e
      = Some ((new_async_updater s)\<lparr>au_dedup := bc_id C ` set (es @ [e]), au_seen := length (es @ [e])\<rparr>)"
    using snoc.prems by (simp add: async_process_def Let_def wanted_def new_async_updater_def)
  from async_write_read[OF run _ _ _ _ _ this] show ?case
    by (simp add: written_and_read_snoc new_async_updater_def)
qed

lemma async_duplicate_bulk:
  assumes stored: "\<forall>e \<in> set es. bc_get C s e = Some True" and new: "bc_get C s b = Some False"
    and ids: "distinct (map (bc_id C) (es @ [b]))" and len: "length es = 7"
  shows "\<exists>st. async_run C Insert_Mode 2 s (written_and_read (es @ [b, b])) st \<and> au_new st = [b, b]"
proof -
  let ?st = "(new_async_updater s)\<lparr>au_dedup := bc_id C ` set es, au_seen := 7\<rparr>"
  let ?st1 = "(new_async_updater s)\<lparr>au_dedup := {}, au_seen := 8, au_new := [b]\<rparr>"
  let ?st2 = "(new_async_updater s)\<lparr>au_dedup := {bc_id C b}, au_seen := 9, au_new := [b, b]\<rparr>"
  have run: "async_run C Insert_Mode 2 s (written_and_read es) ?st"
    using async_stored_entries[OF stored, of] ids len by simp
  have "card (bc_id C ` set es) = 7" using distinct_card[of "map (bc_id C) es"] ids len by simp
  then have "async_process C Insert_Mode 2 ?st b = Some ?st1"
    using new ids by (simp add: async_process_def Let_def wanted_def new_async_updater_def card_insert_if)
  from async_write_read[OF run _ _ _ _ _ this]
  have run1: "async_run C Insert_Mode 2 s (written_and_read (es @ [b])) ?st1"
    by (simp add: written_and_read_snoc new_async_updater_def)
  have "async_process C Insert_Mode 2 ?st1 b = Some ?st2"
    using new by (simp add: async_process_def Let_def wanted_def new_async_updater_def)
  from async_write_read[OF run1 _ _ _ _ _ this]
  have "async_run C Insert_Mode 2 s (written_and_read ((es @ [b]) @ [b])) ?st2"
    by (simp only: written_and_read_snoc) (simp add: new_async_updater_def)
  then show ?thesis by (intro exI[of _ ?st2]) simp
qed

subsection \<open>The raw context as the target of the updaters\<close>

text \<open>\<open>R\<close> are the other handles; \<open>A\<close> are the entries in play, every set of which has to be in the
  universe.\<close>

definition bulk_rep ::
  "'v::zero_neq_one htt \<Rightarrow> 'v entry set set \<Rightarrow> nat \<Rightarrow> nat \<Rightarrow> (nat \<Rightarrow> node_id \<Rightarrow> int) \<Rightarrow> 'v entry set
     \<Rightarrow> 'v node_storage \<times> node_container \<Rightarrow> 'v entry set \<Rightarrow> bool" where
  "bulk_rep T U D d R A s E \<longleftrightarrow> storage_inv T U D (shift_handle R d (ident T d E) 1) (fst s) \<and> (\<forall>d i. 0 \<le> R d i) \<and>
     container_ok T d E (snd s) \<and> 1 \<le> d \<and> d \<le> D \<and> bool_valued T \<and> (\<forall>X \<subseteq> A. entries_ok U d X) \<and> E \<subseteq> A"

lemma move_shift_handle: "move_handle (shift_handle R d i 1) d i j = shift_handle R d j 1"
  by (auto simp: move_handle_def shift_handle_def fun_eq_iff)

lemma bulk_repD:
  assumes "bulk_rep T U D d R A s E"
  shows "storage_inv T U D (shift_handle R d (ident T d E) 1) (fst s)" "container_ok T d E (snd s)"
    "1 \<le> d" "d \<le> D" "bool_valued T" "X \<subseteq> A \<Longrightarrow> entries_ok U d X" "E \<subseteq> A"
    "0 < shift_handle R d (ident T d E) 1 d (ident T d E)" "universe_ok T U"
proof -
  show inv: "storage_inv T U D (shift_handle R d (ident T d E) 1) (fst s)" and "container_ok T d E (snd s)"
    "1 \<le> d" "d \<le> D" "bool_valued T" "X \<subseteq> A \<Longrightarrow> entries_ok U d X" "E \<subseteq> A"
    using assms by (auto simp: bulk_rep_def)
  have "0 \<le> R d (ident T d E)" using assms by (simp add: bulk_rep_def)
  then show "0 < shift_handle R d (ident T d E) 1 d (ident T d E)" by (simp add: shift_handle_def)
  show "universe_ok T U" using inv by (simp add: storage_inv_def)
qed

interpretation raw_bulk: bulk_target "raw_bulk_context T d" "bulk_rep T U D d R A" A
  for T U D d R A
proof
  fix s :: "'a node_storage \<times> node_container" and E assume rep: "bulk_rep T U D d R A s E"
  obtain \<sigma> c where s: "s = (\<sigma>, c)" by (cases s)
  note r = bulk_repD[OF rep, unfolded s fst_conv snd_conv]
  note U = r(9) and E = r(6)[OF r(7)]
  show "E \<subseteq> A" by (rule r(7))
  show "bc_size (raw_bulk_context T d) s = Some (card E)"
    using node_size_spec[OF _ E handle_present[OF r(1,3,4,8)] r(2)] below_okD(1)[OF storage_inv_below[OF r(1,4)] r(3)] s
    by (simp add: raw_bulk_context_def)
  fix e assume e: "e \<in> A"
  then have eok: "entries_ok U d {e}" using r(6) by simp
  then have key: "length (fst e) = d" and one: "snd e = 1"
    using entries_okD(3)[OF eok] entries_ok_bool[OF U eok r(5)] by simp_all
  have "node_get T \<sigma> d c (fst e) = Some (value_at E (fst e))" by (rule handle_get[OF r(1,3,4) E r(8,2) key])
  moreover have "value_at E (fst e) \<noteq> 0 \<longleftrightarrow> e \<in> E"
    using value_at_bool[OF U E r(5), of "fst e"] one by (cases e) auto
  ultimately show "bc_get (raw_bulk_context T d) s e = Some (e \<in> E)" using s by (simp add: raw_bulk_context_def)
  fix e' assume e': "e' \<in> A" "bc_id (raw_bulk_context T d) e = bc_id (raw_bulk_context T d) e'"
  then have "ident T d {e} = ident T d {e'}"
    using encode_single_entry_ident[OF universe_okD(1)[OF U]] by (simp add: raw_bulk_context_def)
  then show "e = e'" using ident_inj[OF U eok, of "{e'}"] r(6)[of "{e'}"] e' by simp
next
  fix s :: "'a node_storage \<times> node_container" and E es
  assume rep: "bulk_rep T U D d R A s E" and es: "distinct es" "set es \<subseteq> A - E"
  obtain \<sigma> c where s: "s = (\<sigma>, c)" by (cases s)
  note r = bulk_repD[OF rep, unfolded s fst_conv snd_conv]
  have "ins_ok U d E es" using r(6)[of E] r(6)[of "set es"] r(6)[of "E \<union> set es"] r(7) es(2) by (simp add: ins_ok_def subset_iff)
  from insert_entries_spec[OF r(1,3,4) this es(1) _ r(8,2)] es(2)
  obtain \<sigma>' c' where x: "insert_entries_into_node T d \<sigma> c es = Some (\<sigma>', c')" "container_ok T d (E \<union> set es) c'"
    "storage_inv T U D (shift_handle R d (ident T d (E \<union> set es)) 1) \<sigma>'"
    unfolding move_shift_handle by blast
  have "bulk_rep T U D d R A (\<sigma>', c') (E \<union> set es)" using rep x(2,3) es(2) by (auto simp: bulk_rep_def)
  then show "\<exists>s'. bc_insert (raw_bulk_context T d) s es = Some s' \<and> bulk_rep T U D d R A s' (E \<union> set es)"
    using x(1) s by (simp add: raw_bulk_context_def context_insert_def)
next
  fix s :: "'a node_storage \<times> node_container" and E es
  assume rep: "bulk_rep T U D d R A s E" and es: "distinct es" "set es \<subseteq> E"
  obtain \<sigma> c where s: "s = (\<sigma>, c)" by (cases s)
  note r = bulk_repD[OF rep, unfolded s fst_conv snd_conv]
  have "del_ok U d E es" using r(6)[of E] r(6)[of "set es"] r(6)[of "E - set es"] r(7) es(2) by (auto simp: del_ok_def)
  from erase_entries_spec[OF r(1,3,4) this es _ ] r(8,2)
  obtain \<sigma>' c' where x: "erase_entries_from_node T d \<sigma> c es = Some (\<sigma>', c')" "container_ok T d (E - set es) c'"
    "storage_inv T U D (shift_handle R d (ident T d (E - set es)) 1) \<sigma>'"
    unfolding move_shift_handle by blast
  have "bulk_rep T U D d R A (\<sigma>', c') (E - set es)" using rep x(2,3) by (auto simp: bulk_rep_def)
  then show "\<exists>s'. bc_remove (raw_bulk_context T d) s es = Some s' \<and> bulk_rep T U D d R A s' (E - set es)"
    using x(1) s by (simp add: raw_bulk_context_def context_remove_def)
qed

end
