(* ===== verification/Hypertrie_Handle.thy ===== *)
theory Hypertrie_Handle
  imports Context_Handles
begin

text \<open>
  The handles of the users: \<open>const_Hypertrie\<close> and \<open>Hypertrie\<close> (Hypertrie.hpp). A handle is a node
  container with its depth, and either refers to the storage of its context or, without a context,
  owns a single-entry node; at depth 0 the pointer holds the bits of the scalar. This theory has the
  reading operations: lookup, slices, sizes, cardinalities, comparison.
\<close>

subsection \<open>Handles\<close>

definition hypertrie_max_depth :: nat where
  "hypertrie_max_depth = 5"

text \<open>A pointer to a node of the context carries nothing, because the node is found by its identifier. A pointer
  to a node on the heap that a handle owns is an address, together with the node there, which is never
  written to while it is owned. A slice makes a new node; the program that takes the handle of the slice
  gives the node its address (Hypertrie\_Lifecycle), \<open>unplaced\<close> until then.\<close>

datatype 'v handle_ptr = Null_Ptr | Store_Ptr | Own_Node nat "'v sen_node" | Scalar_Bits 'v

definition unplaced :: nat where
  "unplaced = 0"

record 'v hypertrie =
  ht_id :: node_id
  ht_ptr :: "'v handle_ptr"
  ht_contextless :: bool
  ht_managed :: bool
  ht_depth :: nat

definition make_const_hypertrie :: "'v htt \<Rightarrow> nat \<Rightarrow> bool \<Rightarrow> bool \<Rightarrow> node_id \<Rightarrow> 'v handle_ptr \<Rightarrow> 'v hypertrie" where
  "make_const_hypertrie T depth contextless managed i p =
     \<lparr>ht_id = (if depth = 0 \<and> id_empty T i then 0 else i), ht_ptr = (if depth = 0 \<and> id_empty T i then Null_Ptr else p),
      ht_contextless = contextless, ht_managed = managed, ht_depth = depth\<rparr>"

text \<open>\<open>const_Hypertrie()\<close>, \<open>const_Hypertrie(depth)\<close> and \<open>Hypertrie(depth, context)\<close>.\<close>

definition default_const_hypertrie :: "'v hypertrie" where
  "default_const_hypertrie = \<lparr>ht_id = 0, ht_ptr = Null_Ptr, ht_contextless = True, ht_managed = True, ht_depth = 0\<rparr>"

definition empty_const_hypertrie :: "nat \<Rightarrow> 'v hypertrie" where
  "empty_const_hypertrie depth = default_const_hypertrie\<lparr>ht_depth := depth\<rparr>"

definition new_hypertrie :: "'v htt \<Rightarrow> nat \<Rightarrow> 'v hypertrie" where
  "new_hypertrie T depth = make_const_hypertrie T depth False True 0 Null_Ptr"

definition ht_container :: "'v hypertrie \<Rightarrow> node_container" where
  "ht_container h = \<lparr>nc_id = ht_id h, nc_ptr = (case ht_ptr h of Store_Ptr \<Rightarrow> True | _ \<Rightarrow> False)\<rparr>"

definition own_node :: "'v hypertrie \<Rightarrow> 'v sen_node option" where
  "own_node h = (case ht_ptr h of Own_Node a s \<Rightarrow> Some s | _ \<Rightarrow> None)"

definition container_ptr :: "node_container \<Rightarrow> 'v handle_ptr" where
  "container_ptr c = (if nc_ptr c then Store_Ptr else Null_Ptr)"

definition unmanaged :: "'v hypertrie \<Rightarrow> bool" where
  "unmanaged h = (\<not> ht_managed h)"

definition ht_empty :: "'v htt \<Rightarrow> 'v hypertrie \<Rightarrow> bool" where
  "ht_empty T h = id_empty T (ht_id h)"

definition ht_size :: "'v htt \<Rightarrow> 'v node_storage \<Rightarrow> 'v hypertrie \<Rightarrow> nat option" where
  "ht_size T \<sigma> h =
     (if ht_empty T h then Some 0
      else if ht_depth h = 0 \<or> is_sen T (ht_id h) then Some 1
      else if ht_contextless h then None
      else map_option (fn_size (ht_depth h)) (fn_deref \<sigma> (ht_depth h) (ht_container h)))"

definition decode_depth_0_value :: "'v::zero_neq_one handle_ptr \<Rightarrow> 'v option" where
  "decode_depth_0_value p = (case p of Null_Ptr \<Rightarrow> Some 0 | Scalar_Bits v \<Rightarrow> Some v | _ \<Rightarrow> None)"

definition encode_depth_0_value :: "'v \<Rightarrow> 'v handle_ptr" where
  "encode_depth_0_value v = Scalar_Bits v"

subsection \<open>Reading\<close>

definition get_depth_n_value ::
  "'v::zero_neq_one htt \<Rightarrow> 'v node_storage \<Rightarrow> 'v hypertrie \<Rightarrow> raw_key \<Rightarrow> 'v option" where
  "get_depth_n_value T \<sigma> h key =
     (if ht_contextless h then sen_node_get T (ht_depth h) (ht_id h) (own_node h) key
      else node_get T \<sigma> (ht_depth h) (ht_container h) key)"

definition get_raw_key ::
  "'v::zero_neq_one htt \<Rightarrow> 'v node_storage \<Rightarrow> 'v hypertrie \<Rightarrow> raw_key \<Rightarrow> 'v option" where
  "get_raw_key T \<sigma> h key = do {
     check (length key = ht_depth h);
     if ht_depth h = 0 then decode_depth_0_value (ht_ptr h) else get_depth_n_value T \<sigma> h key
   }"

text \<open>\<open>operator[](Key)\<close> hands the value through a lambda that returns \<open>size_t\<close>; \<open>through\<close> is the
  conversion of a value to \<open>size_t\<close> and back.\<close>

definition get_key ::
  "('v \<Rightarrow> 'v) \<Rightarrow> 'v::zero_neq_one htt \<Rightarrow> 'v node_storage \<Rightarrow> 'v hypertrie \<Rightarrow> raw_key \<Rightarrow> 'v option" where
  "get_key through T \<sigma> h key = do {
     check (length key = ht_depth h);
     if ht_depth h = 0 then decode_depth_0_value (ht_ptr h)
     else map_option through (get_depth_n_value T \<sigma> h key)
   }"

datatype 'v slice_value = Scalar_Value 'v | Sub_Hypertrie "'v hypertrie"

definition slice_hypertrie :: "'v htt \<Rightarrow> nat \<Rightarrow> 'v slice_result \<Rightarrow> 'v hypertrie" where
  "slice_hypertrie T depth r =
     (case sr_container r of
        SEN_Of c \<Rightarrow> make_const_hypertrie T depth False True (nc_id c) (container_ptr c)
      | FN_Of c \<Rightarrow> make_const_hypertrie T depth False True (nc_id c) (container_ptr c)
      | STL_SEN i node \<Rightarrow>
          make_const_hypertrie T depth True False i (case node of None \<Rightarrow> Null_Ptr | Some s \<Rightarrow> Own_Node unplaced s))"

text \<open>For a handle without a context every node is the handle's own, whatever allocator the result
  names.\<close>

definition own_slice_hypertrie :: "'v htt \<Rightarrow> nat \<Rightarrow> 'v slice_result \<Rightarrow> 'v hypertrie" where
  "own_slice_hypertrie T depth r =
     make_const_hypertrie T depth True False (slice_result_id r)
       (case sr_container r of STL_SEN i (Some s) \<Rightarrow> Own_Node unplaced s | _ \<Rightarrow> Null_Ptr)"

definition ht_slice ::
  "('v \<Rightarrow> 'v) \<Rightarrow> 'v::zero_neq_one htt \<Rightarrow> 'v node_storage \<Rightarrow> 'v hypertrie \<Rightarrow> key_part slice_key \<Rightarrow> 'v slice_value option" where
  "ht_slice through T \<sigma> h sk = do {
     check (length sk = ht_depth h);
     let fixed = get_fixed_depth sk; depth = ht_depth h in
     if fixed = 0 then
       (if depth = 0 then map_option Scalar_Value (decode_depth_0_value (ht_ptr h)) else Some (Sub_Hypertrie h))
     else if fixed = depth then map_option Scalar_Value (get_key through T \<sigma> h (map the sk))
     else if ht_empty T h then Some (Sub_Hypertrie (empty_const_hypertrie (depth - fixed)))
     else
       let fs = raw_slice_key_of sk in
       if ht_contextless h then do {
         r \<leftarrow> sen_node_slice T depth (ht_id h) (own_node h) fs;
         Some (Sub_Hypertrie (if slice_result_empty T r then empty_const_hypertrie (depth - fixed)
                              else own_slice_hypertrie T (depth - fixed) r))
       } else do {
         out \<leftarrow> node_slice T \<sigma> depth (ht_container h) fs;
         (case out of
            Scalar v \<Rightarrow> None
          | Slice r \<Rightarrow> Some (Sub_Hypertrie (if slice_result_empty T r then empty_const_hypertrie (depth - fixed)
                                           else slice_hypertrie T (depth - fixed) r)))
       }
   }"

definition ht_get_cards :: "'v htt \<Rightarrow> 'v node_storage \<Rightarrow> 'v hypertrie \<Rightarrow> nat list \<Rightarrow> nat list option" where
  "ht_get_cards T \<sigma> h positions = do {
     check (length positions \<le> ht_depth h);
     if positions = [] then Some []
     else if ht_empty T h then Some (replicate (length positions) 0)
     else do {
       n \<leftarrow> ht_size T \<sigma> h;
       if ht_depth h = 1 then Some [n]
       else if n = 1 then Some (replicate (length positions) 1)
       else do {
         check (is_fn T (ht_id h));
         fn \<leftarrow> fn_deref \<sigma> (ht_depth h) (ht_container h);
         Some (get_cards_at (ht_depth h) fn positions)
       }
     }
   }"

definition ht_hash :: "'v htt \<Rightarrow> 'v hypertrie \<Rightarrow> node_id" where
  "ht_hash T h = ht_id h"

definition ht_equal :: "'v htt \<Rightarrow> 'v hypertrie \<Rightarrow> 'v hypertrie \<Rightarrow> bool" where
  "ht_equal T h h' = (ht_hash T h = ht_hash T h' \<and> ht_depth h = ht_depth h')"

subsection \<open>What a handle stands for\<close>

definition handle_denotes ::
  "'v::zero_neq_one htt \<Rightarrow> 'v entry set set \<Rightarrow> 'v node_storage \<Rightarrow> nat \<Rightarrow> 'v entry set \<Rightarrow> 'v hypertrie \<Rightarrow> bool" where
  "handle_denotes T U \<sigma> d E h \<longleftrightarrow> ht_depth h = d \<and> 1 \<le> d \<and> entries_ok U d E \<and> ht_id h = ident T d E \<and>
     (if ht_contextless h then card E \<le> 1 \<and> (\<forall>e. E = {e} \<longrightarrow> in_place_node T d \<or> (\<exists>s. own_node h = Some s \<and> sn_entry s = e))
      else container_ok T d E (ht_container h) \<and> present T \<sigma> d (ident T d E))"

lemma handle_denotesD:
  assumes "handle_denotes T U \<sigma> d E h"
  shows "ht_depth h = d" "1 \<le> d" "entries_ok U d E" "ht_id h = ident T d E"
    "\<not> ht_contextless h \<Longrightarrow> container_ok T d E (ht_container h)"
    "\<not> ht_contextless h \<Longrightarrow> present T \<sigma> d (ident T d E)"
    "ht_contextless h \<Longrightarrow> card E \<le> 1"
    "ht_contextless h \<Longrightarrow> E = {e} \<Longrightarrow> \<not> in_place_node T d \<Longrightarrow> \<exists>s. own_node h = Some s \<and> sn_entry s = e"
  using assms by (auto simp: handle_denotes_def)

lemma sen_node_get_spec:
  assumes U: "universe_ok T U" and e: "entries_ok U d {e}" and len: "length key = d"
    and node: "\<not> in_place_node T d \<Longrightarrow> \<exists>s. node = Some s \<and> sn_entry s = e"
  shows "sen_node_get T d (ident T d {e}) node key = Some (value_at {e} key)"
proof -
  have val: "value_at {e} key = (if fst e = key then snd e else 0)"
    using value_at_in[of "{e}" key "snd e"] value_at_out[of key "{e}"] by (cases e) auto
  have nz: "ident T d {e} \<noteq> 0" using ident_nonzero[OF U e] by simp
  show ?thesis
  proof (cases "in_place_node T d")
    case True
    then have d1: "d = 1" "in_place_depth1 T" by (simp_all add: in_place_node_def)
    obtain k where k: "e = ([k], 1)" using in_place_singleton[OF U] e d1 by blast
    obtain x where x: "key = [x]" using len d1 by (cases key) auto
    show ?thesis using get_entry_ident[OF U] e d1 k x nz True val by (simp add: sen_node_get_def)
  next
    case False
    then obtain s where "node = Some s" "sn_entry s = e" using node by blast
    then show ?thesis using nz False val by (auto simp: sen_node_get_def sn_entry_def)
  qed
qed

lemma get_depth_n_value_spec:
  assumes below: "below_ok T U \<sigma> (Suc d)" and h: "handle_denotes T U \<sigma> d E h" and key: "length key = d"
  shows "get_depth_n_value T \<sigma> h key = Some (value_at E key)"
proof -
  note h' = handle_denotesD[OF h]
  have U: "universe_ok T U" using level_okD(1)[OF below_okD(1)[OF below h'(2)]] by simp
  show ?thesis
  proof (cases "ht_contextless h")
    case False
    then show ?thesis using node_get_spec[OF h'(2) below h'(3) h'(6,5) key] h'(1) by (simp add: get_depth_n_value_def)
  next
    case True
    show ?thesis
    proof (cases rule: card_cases[OF entries_okD(1)[OF h'(3)]])
      case 1
      then show ?thesis using True h'(4) by (simp add: get_depth_n_value_def sen_node_get_def)
    next
      case (2 e)
      have "sen_node_get T d (ident T d {e}) (own_node h) key = Some (value_at {e} key)"
        by (rule sen_node_get_spec[OF U _ key]) (use h'(3) h'(8)[OF True] 2 in auto)
      then show ?thesis using True 2 h'(1,4) by (simp add: get_depth_n_value_def)
    qed (use h'(7) True in simp)
  qed
qed

lemma get_raw_key_spec:
  assumes below: "below_ok T U \<sigma> (Suc d)" and h: "handle_denotes T U \<sigma> d E h" and key: "length key = d"
  shows "get_raw_key T \<sigma> h key = Some (value_at E key)"
  using get_depth_n_value_spec[OF assms] handle_denotesD(1,2)[OF h] key by (simp add: get_raw_key_def)

lemma get_key_spec:
  assumes below: "below_ok T U \<sigma> (Suc d)" and h: "handle_denotes T U \<sigma> d E h" and key: "length key = d"
  shows "get_key through T \<sigma> h key = Some (through (value_at E key))"
  using get_depth_n_value_spec[OF assms] handle_denotesD(1,2)[OF h] key by (simp add: get_key_def)

lemma ht_size_spec:
  assumes below: "below_ok T U \<sigma> (Suc d)" and h: "handle_denotes T U \<sigma> d E h"
  shows "ht_size T \<sigma> h = Some (card E)"
proof -
  note h' = handle_denotesD[OF h]
  have lvl: "level_ok T U \<sigma> d" using below_okD(1)[OF below h'(2)] by simp
  note U = level_okD(1)[OF lvl]
  have zero: "ht_empty T h \<longleftrightarrow> E = {}" using ident_nonzero[OF U h'(3)] h'(4) by (simp add: ht_empty_def)
  show ?thesis
  proof (cases rule: card_cases[OF entries_okD(1)[OF h'(3)]])
    case 1
    then show ?thesis using zero by (simp add: ht_size_def)
  next
    case (2 e)
    then show ?thesis using zero is_sen_ident[OF U h'(3)] h'(4) by (simp add: ht_size_def)
  next
    case 3
    then have c: "\<not> ht_contextless h" using h'(7) by auto
    obtain fn where fn: "fn_deref \<sigma> d (ht_container h) = Some fn" "fn_repr T d E fn"
      using fn_deref_repr[OF lvl h'(3) 3 h'(6)[OF c] h'(5)[OF c]] by blast
    have "\<not> is_sen T (ht_id h)" using is_sen_ident[OF U h'(3)] h'(4) 3 by simp
    then show ?thesis using zero 3 c fn fn_size_repr[OF h'(3) fn(2)] h'(1,2) by (auto simp: ht_size_def)
  qed
qed

text \<open>Two handles compare equal exactly when they have the same depth and the same entries.\<close>

lemma ht_equal_spec:
  assumes "universe_ok T U" "handle_denotes T U \<sigma> d E h" "handle_denotes T U \<sigma> d' E' h'"
  shows "ht_equal T h h' \<longleftrightarrow> d = d' \<and> E = E'"
  using handle_denotesD(1,3,4)[OF assms(2)] handle_denotesD(1,3,4)[OF assms(3)] ident_inj[OF assms(1), of d E E']
  by (auto simp: ht_equal_def ht_hash_def)

subsection \<open>Slices through a handle\<close>

lemma slice_hypertrie_denotes:
  assumes U: "universe_ok T U" and E: "entries_ok U d E" and d: "1 \<le> d" and r: "slice_denotes T \<sigma> d E r"
  shows "handle_denotes T U \<sigma> d E (slice_hypertrie T d r)"
proof (cases "sr_container r")
  case (STL_SEN i node)
  with r obtain e where e: "E = {e}" "i = ident T d E" "if node = None then in_place_node T d else sn_entry (the node) = e"
    by (auto simp: slice_denotes_def)
  then show ?thesis using E d STL_SEN
    by (auto simp: handle_denotes_def slice_hypertrie_def make_const_hypertrie_def own_node_def split: option.splits)
qed (use E d r in \<open>auto simp: slice_denotes_def handle_denotes_def slice_hypertrie_def make_const_hypertrie_def
      ht_container_def container_ptr_def container_ok_def\<close>)

lemma empty_handle_denotes: "universe_ok T U \<Longrightarrow> 1 \<le> d \<Longrightarrow> handle_denotes T U \<sigma> d {} (empty_const_hypertrie d)"
  using entries_ok_empty[of T U d]
  by (simp add: handle_denotes_def empty_const_hypertrie_def default_const_hypertrie_def)

text \<open>A slice of a single-entry node refers to no stored node.\<close>

lemma sen_node_slice_own:
  assumes "sen_node_slice T d i node_ptr fs = Some r" "sr_container r = SEN_Of c" "\<not> slice_result_empty T r"
  shows "in_place_node T (d - length fs)"
  using assms
  by (auto simp: sen_node_slice_def Let_def make_with_provided_alloc_def make_sen_with_stl_alloc_def empty_slice_result_def
      slice_result_empty_def slice_result_id_def empty_container_def bind_eq_Some_conv split: if_splits option.splits)

lemma own_slice_denotes:
  assumes r: "sen_node_slice T d i node_ptr fs = Some r" "\<not> slice_result_empty T r"
    "slice_denotes T \<sigma> (d - length fs) (slice_entries fs {a}) r"
    and ok: "entries_ok U (d - length fs) (slice_entries fs {a})" "1 \<le> d - length fs"
  shows "handle_denotes T U \<sigma> (d - length fs) (slice_entries fs {a}) (own_slice_hypertrie T (d - length fs) r)"
proof (cases "sr_container r")
  case (SEN_Of c)
  then have "in_place_node T (d - length fs)" using sen_node_slice_own[OF r(1) _ r(2)] by blast
  then show ?thesis using SEN_Of r(3) ok
    by (auto simp: handle_denotes_def own_slice_hypertrie_def make_const_hypertrie_def slice_denotes_def
        slice_result_id_def container_ok_def)
next
  case (FN_Of c)
  have "card (slice_entries fs {a}) \<le> 1" by (cases a) (auto simp: slice_entries_single split: option.splits)
  then show ?thesis using FN_Of r(3) by (simp add: slice_denotes_def)
next
  case (STL_SEN j node)
  then show ?thesis using r(3) ok
    by (auto simp: handle_denotes_def own_slice_hypertrie_def make_const_hypertrie_def slice_denotes_def own_node_def
        slice_result_id_def split: option.splits)
qed

lemma ht_slice_denotes:
  assumes below: "below_ok T U \<sigma> (Suc d)" and h: "handle_denotes T U \<sigma> d E h" and len: "length sk = d"
    and part: "get_fixed_depth sk < d"
  shows "\<exists>h'. ht_slice through T \<sigma> h sk = Some (Sub_Hypertrie h') \<and>
    handle_denotes T U \<sigma> (d - get_fixed_depth sk) (slice_entries (raw_slice_key_of sk) E) h'"
proof -
  note hd = handle_denotesD[OF h]
  have lvl: "level_ok T U \<sigma> d" using below_okD(1)[OF below, of d] hd(2) by simp
  note U = level_okD(1)[OF lvl]
  let ?fs = "raw_slice_key_of sk" and ?r = "d - get_fixed_depth sk"
  have fs: "raw_slice_key_ok d ?fs" "length ?fs = get_fixed_depth sk"
    using raw_slice_key_of_ok[of sk] len length_raw_slice_key_of[of sk] by simp_all
  have lt: "length ?fs < d" and r: "1 \<le> ?r" using fs(2) part by simp_all
  have ok: "entries_ok U ?r (slice_entries ?fs E)" using slice_entries_ok[OF U hd(3) fs(1)] fs(2) part by simp
  have e: "ht_empty T h \<longleftrightarrow> E = {}" using ident_nonzero[OF U hd(3)] hd(4) by (auto simp: ht_empty_def)
  consider "get_fixed_depth sk = 0" | "get_fixed_depth sk \<noteq> 0" "E = {}" | "get_fixed_depth sk \<noteq> 0" "E \<noteq> {}" by blast
  then show ?thesis
  proof cases
    case 1
    then show ?thesis using h hd(1,2) len fs(2) by (simp add: ht_slice_def)
  next
    case 2
    then show ?thesis using hd(1,2) len part e empty_handle_denotes[OF U r] by (auto simp: ht_slice_def)
  next
    case 3
    note e = e[THEN iffD1]
    have res: "handle_denotes T U \<sigma> ?r (slice_entries ?fs E)
        (if slice_result_empty T x then empty_const_hypertrie ?r else slice_hypertrie T ?r x)"
      if "slice_denotes T \<sigma> ?r (slice_entries ?fs E) x" for x
      using slice_hypertrie_denotes[OF U ok r that] empty_handle_denotes[OF U r] slice_denotes_empty[OF U ok that] by auto
    show ?thesis
    proof (cases "ht_contextless h")
      case False
      obtain x where x: "node_slice T \<sigma> d (ht_container h) ?fs = Some (Slice x)" "slice_denotes T \<sigma> ?r (slice_entries ?fs E) x"
        using node_slice_spec(2)[OF below hd(2,3) hd(6,5)[OF False] fs(1) lt] fs(2) by auto
      show ?thesis using 3 e hd(1) len part False x(1) res[OF x(2)] by (auto simp: ht_slice_def Let_def)
    next
      case True
      obtain a where a: "E = {a}" using hd(7)[OF True] 3 entries_okD(1)[OF hd(3)] by (metis card_1_singletonE card_gt_0_iff le_antisym Suc_leI One_nat_def)
      have "1 < d" using 3 part by linarith
      then have "\<not> in_place_node T d" by (simp add: in_place_node_def)
      then obtain s where s: "own_node h = Some s" "sn_entry s = a" using hd(8)[OF True a] by blast
      obtain x where x: "sen_node_slice T d (ht_id h) (own_node h) ?fs = Some x" "slice_denotes T \<sigma> ?r (slice_entries ?fs E) x"
        using sen_node_slice_spec[OF U _ fs(1) lt s, of "ht_id h"] hd(3,4) a fs(2) by auto
      have "handle_denotes T U \<sigma> ?r (slice_entries ?fs E) (own_slice_hypertrie T ?r x)" if "\<not> slice_result_empty T x"
        using own_slice_denotes[OF x(1) that] x(2) ok r fs(2) a by simp
      then show ?thesis using 3 e hd(1) len part True x res[OF x(2)] by (auto simp: ht_slice_def Let_def)
    qed
  qed
qed

end
