(* ===== verification/Hypertrie_Lifecycle.thy ===== *)
theory Hypertrie_Lifecycle
  imports Hypertrie_Handle
begin

text \<open>
  The lifetime of handles (Hypertrie.hpp): construction, copy, move, assignment and destruction of
  \<open>const_Hypertrie\<close>, whose handles without a context own a heap-allocated single-entry node, and of
  \<open>Hypertrie\<close>, whose handles hold a counted reference to a node of their context and can be written
  to. A program is a sequence of such operations on variables; it refines a program on sets of
  entries.
\<close>

subsection \<open>Handles without a context\<close>

definition sen_min_depth :: "'v htt \<Rightarrow> nat" where
  "sen_min_depth T = (if in_place_depth1 T then 2 else 1)"

definition owns_node :: "'v hypertrie \<Rightarrow> bool" where
  "owns_node h = (ht_contextless h \<and> unmanaged h \<and> ht_ptr h \<noteq> Null_Ptr \<and> ht_depth h \<noteq> 0)"

text \<open>The heap of the single-entry nodes that handles own: \<open>new\<close> takes an address that was never used,
  \<open>delete\<close> fails at an address where nothing is allocated.\<close>

record 'v node_heap =
  nh_next :: nat
  nh_cells :: "nat \<rightharpoonup> 'v sen_node"

definition empty_heap :: "'v node_heap" where
  "empty_heap = \<lparr>nh_next = Suc unplaced, nh_cells = Map.empty\<rparr>"

definition heap_new :: "'v node_heap \<Rightarrow> 'v sen_node \<Rightarrow> nat \<times> 'v node_heap" where
  "heap_new H s = (nh_next H, \<lparr>nh_next = Suc (nh_next H), nh_cells = (nh_cells H)(nh_next H \<mapsto> s)\<rparr>)"

definition heap_delete :: "'v node_heap \<Rightarrow> nat \<Rightarrow> 'v node_heap option" where
  "heap_delete H a = (if nh_cells H a = None then None else Some (H\<lparr>nh_cells := (nh_cells H)(a := None)\<rparr>))"

definition node_address :: "'v hypertrie \<Rightarrow> nat option" where
  "node_address h = (case ht_ptr h of Own_Node a s \<Rightarrow> Some a | _ \<Rightarrow> None)"

definition destruct_contextless_node :: "'v htt \<Rightarrow> 'v node_heap \<Rightarrow> 'v hypertrie \<Rightarrow> 'v node_heap option" where
  "destruct_contextless_node T H h =
     (if owns_node h then do {
        check (sen_min_depth T \<le> ht_depth h \<and> ht_depth h \<le> hypertrie_max_depth);
        check (is_sen T (ht_id h) \<and> \<not> ht_empty T h);
        a \<leftarrow> node_address h;
        heap_delete H a
      } else Some H)"

definition copy_contextless_node :: "'v htt \<Rightarrow> 'v node_heap \<Rightarrow> 'v hypertrie \<Rightarrow> ('v node_heap \<times> 'v hypertrie) option" where
  "copy_contextless_node T H h =
     (if owns_node h then do {
        check (sen_min_depth T \<le> ht_depth h \<and> ht_depth h \<le> hypertrie_max_depth);
        check (is_sen T (ht_id h));
        a \<leftarrow> node_address h;
        s \<leftarrow> nh_cells H a;
        let (b, H') = heap_new H s in Some (H', h\<lparr>ht_ptr := Own_Node b s\<rparr>)
      } else Some (H, h))"

definition const_copy :: "'v htt \<Rightarrow> 'v node_heap \<Rightarrow> 'v hypertrie \<Rightarrow> ('v node_heap \<times> 'v hypertrie) option" where
  "const_copy T H other = copy_contextless_node T H other"

text \<open>The moved-to and the moved-from handle.\<close>

definition const_move :: "'v hypertrie \<Rightarrow> 'v hypertrie \<times> 'v hypertrie" where
  "const_move other = (other, default_const_hypertrie)"

definition const_assign ::
  "'v htt \<Rightarrow> 'v node_heap \<Rightarrow> 'v hypertrie \<Rightarrow> 'v hypertrie \<Rightarrow> ('v node_heap \<times> 'v hypertrie) option" where
  "const_assign T H this other = do {
     H' \<leftarrow> destruct_contextless_node T H this;
     copy_contextless_node T H' other
   }"

definition const_move_assign :: "'v hypertrie \<Rightarrow> 'v hypertrie \<Rightarrow> 'v hypertrie \<times> 'v hypertrie" where
  "const_move_assign this other = (other, default_const_hypertrie)"

text \<open>\<open>Take\<close> is a slice whose handle the program keeps: its node is allocated.\<close>

definition place_node :: "'v node_heap \<Rightarrow> 'v hypertrie \<Rightarrow> 'v node_heap \<times> 'v hypertrie" where
  "place_node H h =
     (case own_node h of
        Some s \<Rightarrow> if owns_node h then (let (a, H') = heap_new H s in (H', h\<lparr>ht_ptr := Own_Node a s\<rparr>)) else (H, h)
      | None \<Rightarrow> (H, h))"

datatype 'v const_op = Take "'v hypertrie" | Const_Copy nat | Const_Move nat | Const_Assign nat nat
  | Const_Move_Assign nat nat | Const_Destroy nat

text \<open>A variable of a program: alive with its handle, or destroyed.\<close>

definition var :: "'a option list \<Rightarrow> nat \<Rightarrow> 'a option" where
  "var vs x = (if x < length vs then vs ! x else None)"

type_synonym 'v const_world = "'v node_heap \<times> 'v hypertrie option list"

definition const_step :: "'v htt \<Rightarrow> 'v const_world \<Rightarrow> 'v const_op \<Rightarrow> 'v const_world option" where
  "const_step T s c = (case s of (H, vs) \<Rightarrow> (case c of
       Take h \<Rightarrow> let (H', h') = place_node H h in Some (H', vs @ [Some h'])
     | Const_Copy x \<Rightarrow> do { h \<leftarrow> var vs x; (H', h') \<leftarrow> const_copy T H h; Some (H', vs @ [Some h']) }
     | Const_Move x \<Rightarrow> do { h \<leftarrow> var vs x; let (to, from) = const_move h in Some (H, vs[x := Some from] @ [Some to]) }
     | Const_Assign x y \<Rightarrow> do {
         h \<leftarrow> var vs x; g \<leftarrow> var vs y;
         if x = y then Some (H, vs)
         else do { (H', h') \<leftarrow> const_assign T H h g; Some (H', vs[x := Some h']) }
       }
     | Const_Move_Assign x y \<Rightarrow> do {
         h \<leftarrow> var vs x; g \<leftarrow> var vs y;
         check (x \<noteq> y);
         let (to, from) = const_move_assign h g in Some (H, vs[x := Some to, y := Some from])
       }
     | Const_Destroy x \<Rightarrow> do { h \<leftarrow> var vs x; H' \<leftarrow> destruct_contextless_node T H h; Some (H', vs[x := None]) }))"

subsection \<open>Handles with a context\<close>

text \<open>\<open>Hypertrie::set\<close>. The old value is returned; the handle and the storage are updated.\<close>

definition hypertrie_set ::
  "'v::zero_neq_one htt \<Rightarrow> 'v node_storage \<Rightarrow> 'v hypertrie \<Rightarrow> raw_key \<Rightarrow> 'v \<Rightarrow> ('v node_storage \<times> 'v hypertrie \<times> 'v) option" where
  "hypertrie_set T \<sigma> h key v =
     (if ht_depth h = 0 then do {
        check (key = []);
        old \<leftarrow> decode_depth_0_value (ht_ptr h);
        Some (\<sigma>, h\<lparr>ht_id := (if v = 0 then 0 else encode_single_entry T 0 ([], v)), ht_ptr := encode_depth_0_value v\<rparr>, old)
      } else do {
        check (ht_depth h \<le> length key);
        check (\<not> ht_contextless h);
        (\<sigma>', c, old) \<leftarrow> node_set T \<sigma> (ht_depth h) (ht_container h) (take (ht_depth h) key) v;
        Some (\<sigma>', h\<lparr>ht_id := nc_id c, ht_ptr := container_ptr c\<rparr>, old)
      })"

definition held_in_place :: "'v htt \<Rightarrow> 'v hypertrie \<Rightarrow> bool" where
  "held_in_place T h = (in_place_node T (ht_depth h) \<and> is_sen T (ht_id h))"

text \<open>The copy constructor, from a \<open>Hypertrie\<close> and from a \<open>const_Hypertrie\<close>; the latter throws for a
  handle without a context, which ends the program because it is \<open>noexcept\<close>.\<close>

definition copy_hypertrie ::
  "'v htt \<Rightarrow> 'v node_storage \<times> 'v node_heap \<Rightarrow> 'v hypertrie \<Rightarrow> (('v node_storage \<times> 'v node_heap) \<times> 'v hypertrie) option" where
  "copy_hypertrie T w other = (case w of (\<sigma>, H) \<Rightarrow> do {
     (H', h) \<leftarrow> const_copy T H other;
     if ht_empty T h \<or> ht_depth h = 0 then Some ((\<sigma>, H'), h)
     else if held_in_place T h then Some ((\<sigma>, H'), h)
     else do {
       check (\<not> ht_contextless h);
       \<sigma>' \<leftarrow> inc_ref_count T \<sigma> (ht_depth h) (ht_container h);
       Some ((\<sigma>', H'), h)
     }
   })"

definition hypertrie_of_const ::
  "'v htt \<Rightarrow> 'v node_storage \<times> 'v node_heap \<Rightarrow> 'v hypertrie \<Rightarrow> (('v node_storage \<times> 'v node_heap) \<times> 'v hypertrie) option" where
  "hypertrie_of_const T w other = (case w of (\<sigma>, H) \<Rightarrow> do {
     (H', h) \<leftarrow> const_copy T H other;
     if ht_empty T h \<or> ht_depth h = 0 then Some ((\<sigma>, H'), h)
     else if ht_contextless other then None
     else if held_in_place T h then Some ((\<sigma>, H'), h)
     else do {
       \<sigma>' \<leftarrow> inc_ref_count T \<sigma> (ht_depth h) (ht_container h);
       Some ((\<sigma>', H'), h)
     }
   })"

text \<open>The copy assignment: the reference to the node of the handle that is overwritten stays counted.\<close>

definition assign_hypertrie ::
  "'v htt \<Rightarrow> 'v node_storage \<Rightarrow> 'v hypertrie \<Rightarrow> 'v hypertrie \<Rightarrow> ('v node_storage \<times> 'v hypertrie) option" where
  "assign_hypertrie T \<sigma> this other =
     (let h = this\<lparr>ht_id := ht_id other, ht_ptr := ht_ptr other, ht_contextless := ht_contextless other,
                    ht_depth := ht_depth other\<rparr> in
      if ht_empty T h \<or> ht_depth h = 0 then Some (\<sigma>, h)
      else if ht_contextless h then None
      else if held_in_place T h then Some (\<sigma>, h)
      else do {
        \<sigma>' \<leftarrow> inc_ref_count T \<sigma> (ht_depth h) (ht_container h);
        Some (\<sigma>', h)
      })"

text \<open>The move constructor copies its base class from \<open>other\<close>, an lvalue there.\<close>

definition move_hypertrie :: "'v htt \<Rightarrow> 'v node_heap \<Rightarrow> 'v hypertrie \<Rightarrow> ('v node_heap \<times> 'v hypertrie \<times> 'v hypertrie) option" where
  "move_hypertrie T H other = do {
     (H', h) \<leftarrow> const_copy T H other;
     Some (H', h, default_const_hypertrie)
   }"

definition move_assign_hypertrie :: "'v hypertrie \<Rightarrow> 'v hypertrie \<Rightarrow> 'v hypertrie \<times> 'v hypertrie" where
  "move_assign_hypertrie this other = (other, default_const_hypertrie)"

definition destroy_hypertrie :: "'v::zero_neq_one htt \<Rightarrow> 'v node_storage \<times> 'v node_heap \<Rightarrow> 'v hypertrie \<Rightarrow> ('v node_storage \<times> 'v node_heap) option" where
  "destroy_hypertrie T w h = (case w of (\<sigma>, H) \<Rightarrow> do {
     \<sigma>' \<leftarrow> (if ht_empty T h \<or> ht_depth h = 0 then Some \<sigma>
            else do {
              check (\<not> ht_contextless h);
              if held_in_place T h then Some \<sigma> else decr_ref_count T \<sigma> (ht_depth h) (ht_container h)
            });
     H' \<leftarrow> destruct_contextless_node T H h;
     Some (\<sigma>', H')
   })"

subsection \<open>Programs on handles\<close>

datatype 'v ht_op = New nat | Set_Value nat raw_key 'v | Copy nat | Assign nat nat | Move nat | Move_Assign nat nat | Destroy nat

type_synonym 'v ht_world = "('v node_storage \<times> 'v node_heap) \<times> 'v hypertrie option list"

definition ht_step :: "'v::zero_neq_one htt \<Rightarrow> 'v ht_world \<Rightarrow> 'v ht_op \<Rightarrow> 'v ht_world option" where
  "ht_step T s c = (case s of ((\<sigma>, H), vs) \<Rightarrow> (case c of
       New d \<Rightarrow> Some ((\<sigma>, H), vs @ [Some (new_hypertrie T d)])
     | Set_Value x key v \<Rightarrow> do {
         h \<leftarrow> var vs x;
         (\<sigma>', h', old) \<leftarrow> hypertrie_set T \<sigma> h key v;
         Some ((\<sigma>', H), vs[x := Some h'])
       }
     | Copy x \<Rightarrow> do { h \<leftarrow> var vs x; (w, h') \<leftarrow> copy_hypertrie T (\<sigma>, H) h; Some (w, vs @ [Some h']) }
     | Assign x y \<Rightarrow> do {
         h \<leftarrow> var vs x; g \<leftarrow> var vs y;
         (\<sigma>', h') \<leftarrow> assign_hypertrie T \<sigma> h g;
         Some ((\<sigma>', H), vs[x := Some h'])
       }
     | Move x \<Rightarrow> do {
         h \<leftarrow> var vs x;
         (H', to, from) \<leftarrow> move_hypertrie T H h;
         Some ((\<sigma>, H'), vs[x := Some from] @ [Some to])
       }
     | Move_Assign x y \<Rightarrow> do {
         h \<leftarrow> var vs x; g \<leftarrow> var vs y;
         let (to, from) = move_assign_hypertrie h g in Some ((\<sigma>, H), vs[x := Some to, y := Some from])
       }
     | Destroy x \<Rightarrow> do { h \<leftarrow> var vs x; w \<leftarrow> destroy_hypertrie T (\<sigma>, H) h; Some (w, vs[x := None]) }))"

definition ht_run :: "'v::zero_neq_one htt \<Rightarrow> 'v ht_world \<Rightarrow> 'v ht_op list \<Rightarrow> 'v ht_world option" where
  "ht_run T s cs = foldM (ht_step T) cs s"

subsection \<open>The abstract program\<close>

text \<open>A variable of the abstract program is a set of entries with its depth. The sets are independent of
  each other: no operation on one variable changes another one, except a move, which empties its
  source.\<close>

type_synonym 'v abs_vars = "(nat \<times> 'v entry set) option list"

definition abs_set :: "nat \<Rightarrow> 'v::zero_neq_one entry set \<Rightarrow> raw_key \<Rightarrow> 'v \<Rightarrow> 'v entry set" where
  "abs_set d E key v =
     (if d = 0 then (if v = 0 then {} else {([], v)}) else entries_set E (take d key) v)"

definition abs_step :: "'v::zero_neq_one abs_vars \<Rightarrow> 'v ht_op \<Rightarrow> 'v abs_vars" where
  "abs_step as c = (case c of
       New d \<Rightarrow> as @ [Some (d, {})]
     | Set_Value x key v \<Rightarrow> as[x := map_option (\<lambda>(d, E). (d, abs_set d E key v)) (as ! x)]
     | Copy x \<Rightarrow> as @ [as ! x]
     | Assign x y \<Rightarrow> as[x := as ! y]
     | Move x \<Rightarrow> as[x := Some (0, {})] @ [as ! x]
     | Move_Assign x y \<Rightarrow> as[x := as ! y, y := Some (0, {})]
     | Destroy x \<Rightarrow> as[x := None])"

definition live :: "'a option list \<Rightarrow> nat \<Rightarrow> bool" where
  "live vs x \<longleftrightarrow> x < length vs \<and> vs ! x \<noteq> None"

text \<open>What the operations expect of their arguments: live variables, keys of the right length, values and
  entries of the universe.\<close>

definition op_ok :: "'v::zero_neq_one entry set set \<Rightarrow> nat \<Rightarrow> 'v abs_vars \<Rightarrow> 'v ht_op \<Rightarrow> bool" where
  "op_ok U D as c \<longleftrightarrow> (case c of
       New d \<Rightarrow> d \<le> D
     | Set_Value x key v \<Rightarrow> (\<exists>d E. var as x = Some (d, E) \<and>
         (if d = 0 then key = [] else d \<le> length key \<and> (v = 0 \<or> v = 1) \<and>
            entries_ok U d {(take d key, 1)} \<and> entries_ok U d (entries_set E (take d key) v)))
     | Copy x \<Rightarrow> live as x | Move x \<Rightarrow> live as x | Destroy x \<Rightarrow> live as x
     | Assign x y \<Rightarrow> live as x \<and> live as y
     | Move_Assign x y \<Rightarrow> live as x \<and> live as y)"

text \<open>The handle of a variable of depth \<open>d\<close> with the entries \<open>E\<close>, and the handles that a program holds
  to the nodes of one depth.\<close>

definition var_denotes :: "'v::zero_neq_one htt \<Rightarrow> 'v entry set set \<Rightarrow> nat \<Rightarrow> nat \<times> 'v entry set \<Rightarrow> 'v hypertrie \<Rightarrow> bool" where
  "var_denotes T U D a h \<longleftrightarrow> (case a of (d, E) \<Rightarrow> ht_depth h = d \<and> d \<le> D \<and> ht_managed h \<and>
     (if d = 0 then \<exists>v. decode_depth_0_value (ht_ptr h) = Some v \<and> E = (if v = 0 then {} else {([], v)})
      else entries_ok U d E \<and> container_ok T d E (ht_container h) \<and> (\<not> ht_contextless h)))"

definition held :: "'v hypertrie option \<Rightarrow> nat \<Rightarrow> node_id \<Rightarrow> int" where
  "held slot d i = (case slot of None \<Rightarrow> 0 | Some h \<Rightarrow> of_bool (ht_depth h = d \<and> ht_id h = i))"

definition handle_count :: "'v hypertrie option list \<Rightarrow> nat \<Rightarrow> node_id \<Rightarrow> int" where
  "handle_count vs d i = (\<Sum>slot\<leftarrow>vs. held slot d i)"

text \<open>A program state: every reference is one of the variables' or one of \<open>L\<close>, the references that
  nothing will give back.\<close>

definition life_inv ::
  "'v::zero_neq_one htt \<Rightarrow> 'v entry set set \<Rightarrow> nat \<Rightarrow> (nat \<Rightarrow> node_id \<Rightarrow> int) \<Rightarrow> 'v abs_vars \<Rightarrow> 'v ht_world \<Rightarrow> bool" where
  "life_inv T U D L as s \<longleftrightarrow> (case s of ((\<sigma>, H), vs) \<Rightarrow>
     storage_inv T U D (\<lambda>d i. handle_count vs d i + L d i) \<sigma> \<and> (\<forall>d i. 0 \<le> L d i) \<and>
     list_all2 (rel_option (var_denotes T U D)) as vs)"

text \<open>The references that an assignment to \<open>x\<close> leaves behind.\<close>

definition left_behind :: "'v htt \<Rightarrow> 'v abs_vars \<Rightarrow> 'v ht_op \<Rightarrow> nat \<Rightarrow> node_id \<Rightarrow> int" where
  "left_behind T as c d i = (case c of
       Assign x y \<Rightarrow> (case as ! x of None \<Rightarrow> 0 | Some (d', E) \<Rightarrow> of_bool (d' = d \<and> ident T d' E = i))
     | Move_Assign x y \<Rightarrow> (case as ! x of None \<Rightarrow> 0 | Some (d', E) \<Rightarrow> of_bool (d' = d \<and> ident T d' E = i))
     | _ \<Rightarrow> 0)"

subsection \<open>The reference counts of the handles\<close>

text \<open>Only the handles to tracked nodes matter to the invariant of the storage.\<close>

lemma storage_inv_change:
  assumes "storage_inv T U D R \<sigma>" "\<And>d i. 0 \<le> R' d i"
    "\<And>d i. 1 \<le> d \<Longrightarrow> d \<le> D \<Longrightarrow> tracked T d i \<Longrightarrow> R' d i = R d i"
  shows "storage_inv T U D R' \<sigma>"
  using assms by (auto simp: storage_inv_def refs_ok_def)

lemma handle_count_snoc: "handle_count (vs @ [slot]) d i = handle_count vs d i + held slot d i"
  by (simp add: handle_count_def)

lemma handle_count_update:
  "x < length vs \<Longrightarrow> handle_count (vs[x := slot]) d i = handle_count vs d i - held (vs ! x) d i + held slot d i"
proof (induction vs arbitrary: x)
  case (Cons v vs)
  then show ?case by (cases x) (simp_all add: handle_count_def)
qed simp

lemma held_nonneg: "0 \<le> held slot d i"
  by (simp add: held_def split: option.splits)

lemma handle_count_nonneg: "0 \<le> handle_count vs d i"
  by (induction vs) (simp_all add: handle_count_def held_nonneg)

lemma held_le_count: "x < length vs \<Longrightarrow> held (vs ! x) d i \<le> handle_count vs d i"
proof (induction vs arbitrary: x)
  case (Cons v vs)
  have "0 \<le> handle_count vs d i" "0 \<le> held v d i" by (rule handle_count_nonneg held_nonneg)+
  then show ?case using Cons by (cases x) (force simp: handle_count_def)+
qed simp

lemma held_at: "ht_depth h = d \<Longrightarrow> ht_id h = i \<Longrightarrow> held (Some h) d i = 1" and held_None [simp]: "held None d i = 0"
  by (simp_all add: held_def)

lemma shift_handle_held: "shift_handle R (ht_depth h) (ht_id h) n = (\<lambda>d i. R d i + n * held (Some h) d i)"
  by (auto simp: shift_handle_def held_def fun_eq_iff)

lemma move_handle_held:
  assumes "ht_depth h = d" "ht_id h = i" "ht_depth h' = d" "ht_id h' = j"
  shows "move_handle R d i j = (\<lambda>d' k. R d' k - held (Some h) d' k + held (Some h') d' k)"
  using assms by (auto simp: move_handle_def held_def fun_eq_iff)

subsection \<open>Each operation on a variable\<close>

lemma var_denotesD:
  assumes "var_denotes T U D (d, E) h"
  shows "ht_depth h = d" "d \<le> D" "ht_managed h" "d \<noteq> 0 \<Longrightarrow> entries_ok U d E"
    "d \<noteq> 0 \<Longrightarrow> container_ok T d E (ht_container h)" "d \<noteq> 0 \<Longrightarrow> \<not> ht_contextless h" "d \<noteq> 0 \<Longrightarrow> ht_id h = ident T d E"
  using assms container_okD(1)[of T d E "ht_container h"] by (auto simp: var_denotes_def ht_container_def split: if_splits)

lemma const_copy_managed: "ht_managed h \<Longrightarrow> const_copy T H h = Some (H, h)"
  by (simp add: const_copy_def copy_contextless_node_def owns_node_def unmanaged_def)

lemma destruct_managed: "ht_managed h \<Longrightarrow> destruct_contextless_node T H h = Some H"
  by (simp add: destruct_contextless_node_def owns_node_def unmanaged_def)

text \<open>The node of a variable is counted exactly when its handle is neither empty, nor a scalar, nor in
  place.\<close>

lemma untracked_handle:
  assumes "universe_ok T U" "var_denotes T U D (d, E) h" "d \<noteq> 0"
  shows "ht_empty T h \<longleftrightarrow> E = {}" "held_in_place T h \<longleftrightarrow> in_place_node T d \<and> card E = 1"
    "E = {} \<or> in_place_node T d \<and> card E = 1 \<Longrightarrow> \<not> tracked T d (ht_id h)"
proof -
  note v = var_denotesD[OF assms(2)]
  note E = v(4)[OF assms(3)] and i = v(7)[OF assms(3)]
  show "ht_empty T h \<longleftrightarrow> E = {}" using ident_nonzero[OF assms(1) E] i by (auto simp: ht_empty_def)
  show "held_in_place T h \<longleftrightarrow> in_place_node T d \<and> card E = 1"
    using is_sen_ident[OF assms(1) E] v(1) i by (auto simp: held_in_place_def)
  show "\<not> tracked T d (ht_id h)" if "E = {} \<or> in_place_node T d \<and> card E = 1"
    using that i is_fn_ident[OF assms(1) E] by (auto simp: tracked_def)
qed

text \<open>Counting the reference of a handle, and giving it back.\<close>

lemma storage_inv_untracked:
  assumes inv: "storage_inv T U D R \<sigma>" and un: "\<not> tracked T (ht_depth h) (ht_id h) \<or> ht_depth h = 0"
    and nn: "\<And>d i. 0 \<le> R d i + n * held (Some h) d i"
  shows "storage_inv T U D (\<lambda>d i. R d i + n * held (Some h) d i) \<sigma>"
  by (rule storage_inv_change[OF inv nn]) (use un in \<open>auto simp: held_def\<close>)

lemma acquire_spec:
  assumes inv: "storage_inv T U D R \<sigma>" and v: "var_denotes T U D (d, E) h" and h: "d \<noteq> 0 \<Longrightarrow> present T \<sigma> d (ht_id h)"
  shows "\<exists>\<sigma>'. (if ht_empty T h \<or> ht_depth h = 0 then Some \<sigma>
      else if held_in_place T h then Some \<sigma> else inc_ref_count T \<sigma> (ht_depth h) (ht_container h)) = Some \<sigma>' \<and>
    storage_inv T U D (\<lambda>d i. R d i + held (Some h) d i) \<sigma>'"
proof (cases "d = 0 \<or> E = {} \<or> in_place_node T d \<and> card E = 1")
  case True
  note U = storage_invD(1)[OF inv]
  have nn: "0 \<le> R d' i + 1 * held (Some h) d' i" for d' i
    using storage_invD(3)[OF inv, of d' i] held_nonneg[of "Some h" d' i] by simp
  have "\<not> tracked T (ht_depth h) (ht_id h) \<or> ht_depth h = 0"
    using True untracked_handle(3)[OF U v] var_denotesD(1)[OF v] by auto
  with storage_inv_untracked[OF inv _ nn] show ?thesis
    using True untracked_handle(1,2)[OF U v] var_denotesD(1)[OF v] by (cases "d = 0") auto
next
  case False
  note U = storage_invD(1)[OF inv]
  note vd = var_denotesD[OF v] and ut = untracked_handle[OF U v]
  have d: "d \<noteq> 0" "1 \<le> d" using False by auto
  have p: "present T \<sigma> d (ident T d E)" using h[OF d(1)] vd(7)[OF d(1)] by simp
  obtain \<sigma>' where "inc_ref_count T \<sigma> d (ht_container h) = Some \<sigma>'"
      "storage_inv T U D (shift_handle R d (ident T d E) 1) \<sigma>'"
    using inc_ref_count_spec[OF inv d(2) vd(2) vd(4)[OF d(1)] _ p vd(5)[OF d(1)]] False by blast
  then show ?thesis
    using False ut(1,2)[OF d(1)] vd(1,7) d(1) shift_handle_held[of R h 1] by auto
qed

lemma release_spec:
  assumes inv: "storage_inv T U D R \<sigma>" and v: "var_denotes T U D (d, E) h" and h: "\<And>d i. held (Some h) d i \<le> R d i"
  shows "\<exists>\<sigma>'. (if ht_empty T h \<or> ht_depth h = 0 then Some \<sigma>
      else if held_in_place T h then Some \<sigma> else decr_ref_count T \<sigma> (ht_depth h) (ht_container h)) = Some \<sigma>' \<and>
    storage_inv T U D (\<lambda>d i. R d i - held (Some h) d i) \<sigma>'"
proof (cases "d = 0 \<or> E = {} \<or> in_place_node T d \<and> card E = 1")
  case True
  note U = storage_invD(1)[OF inv]
  have nn: "0 \<le> R d' i + (- 1) * held (Some h) d' i" for d' i using h[of d' i] by simp
  have "\<not> tracked T (ht_depth h) (ht_id h) \<or> ht_depth h = 0"
    using True untracked_handle(3)[OF U v] var_denotesD(1)[OF v] by auto
  with storage_inv_untracked[OF inv _ nn] show ?thesis
    using True untracked_handle(1,2)[OF U v] var_denotesD(1)[OF v] by (cases "d = 0") auto
next
  case False
  note U = storage_invD(1)[OF inv]
  note vd = var_denotesD[OF v] and ut = untracked_handle[OF U v]
  have d: "d \<noteq> 0" "1 \<le> d" using False by auto
  have "0 < R d (ident T d E)" using h[of d "ident T d E"] held_at[OF vd(1) vd(7)[OF d(1)]] by simp
  then obtain \<sigma>' where "decr_ref_count T \<sigma> d (ht_container h) = Some \<sigma>'"
      "storage_inv T U D (shift_handle R d (ident T d E) (- 1)) \<sigma>'"
    using decr_ref_count_spec[OF inv d(2) vd(2) vd(4)[OF d(1)] _ _ vd(5)[OF d(1)]] False by blast
  then show ?thesis
    using False ut(1,2)[OF d(1)] vd(1,7) d(1) shift_handle_held[of R h "- 1"] by auto
qed

lemma copy_hypertrie_spec:
  assumes "storage_inv T U D R \<sigma>" "var_denotes T U D (d, E) h" "d \<noteq> 0 \<Longrightarrow> present T \<sigma> d (ht_id h)"
  shows "\<exists>\<sigma>'. copy_hypertrie T (\<sigma>, H) h = Some ((\<sigma>', H), h) \<and> storage_inv T U D (\<lambda>d i. R d i + held (Some h) d i) \<sigma>'"
  using acquire_spec[OF assms] const_copy_managed[of h T H] var_denotesD(1,3,6)[OF assms(2)]
  by (cases "d = 0") (auto simp: copy_hypertrie_def split: if_splits)

lemma hypertrie_of_const_spec:
  assumes "storage_inv T U D R \<sigma>" "var_denotes T U D (d, E) h" "d \<noteq> 0 \<Longrightarrow> present T \<sigma> d (ht_id h)"
  shows "\<exists>\<sigma>'. hypertrie_of_const T (\<sigma>, H) h = Some ((\<sigma>', H), h) \<and> storage_inv T U D (\<lambda>d i. R d i + held (Some h) d i) \<sigma>'"
  using acquire_spec[OF assms] const_copy_managed[of h T H] var_denotesD(1,3,6)[OF assms(2)]
  by (cases "d = 0") (auto simp: hypertrie_of_const_def split: if_splits)

lemma destroy_hypertrie_spec:
  assumes "storage_inv T U D R \<sigma>" "var_denotes T U D (d, E) h" "\<And>d i. held (Some h) d i \<le> R d i"
  shows "\<exists>\<sigma>'. destroy_hypertrie T (\<sigma>, H) h = Some (\<sigma>', H) \<and> storage_inv T U D (\<lambda>d i. R d i - held (Some h) d i) \<sigma>'"
  using release_spec[OF assms] destruct_managed[of h T H] var_denotesD(1,3,6)[OF assms(2)]
  by (cases "d = 0") (auto simp: destroy_hypertrie_def split: if_splits)

lemma assign_hypertrie_spec:
  assumes "storage_inv T U D R \<sigma>" "var_denotes T U D (d, E) h" "d \<noteq> 0 \<Longrightarrow> present T \<sigma> d (ht_id h)" "ht_managed this"
  shows "\<exists>\<sigma>' h'. assign_hypertrie T \<sigma> this h = Some (\<sigma>', h') \<and> var_denotes T U D (d, E) h' \<and>
    storage_inv T U D (\<lambda>d i. R d i + held (Some h') d i) \<sigma>'"
proof -
  let ?h = "this\<lparr>ht_id := ht_id h, ht_ptr := ht_ptr h, ht_contextless := ht_contextless h, ht_depth := ht_depth h\<rparr>"
  have v: "var_denotes T U D (d, E) ?h"
    using assms(2,4) by (auto simp: var_denotes_def ht_container_def)
  have "\<exists>\<sigma>'. (if ht_empty T ?h \<or> ht_depth ?h = 0 then Some \<sigma>
      else if held_in_place T ?h then Some \<sigma> else inc_ref_count T \<sigma> (ht_depth ?h) (ht_container ?h)) = Some \<sigma>' \<and>
    storage_inv T U D (\<lambda>d i. R d i + held (Some ?h) d i) \<sigma>'"
    by (rule acquire_spec[OF assms(1) v]) (use assms(3) in simp)
  then show ?thesis
    using v var_denotesD(1,6)[OF v] unfolding assign_hypertrie_def Let_def
    by (cases "d = 0") (auto split: if_splits)
qed

text \<open>Setting a value turns the reference to the old node into one to the new node.\<close>

lemma node_set_storage:
  assumes inv: "storage_inv T U D R \<sigma>" and d: "1 \<le> d" "d \<le> D" and E: "entries_ok U d E"
    and h: "0 < R d (ident T d E)" and c: "container_ok T d E c" and key: "length key = d"
    and bool: "bool_valued T" and v: "v = 0 \<or> v = 1"
    and ok: "entries_ok U d {(key, 1)}" "entries_ok U d (entries_set E key v)"
  shows "\<exists>\<sigma>' c' old. node_set T \<sigma> d c key v = Some (\<sigma>', c', old) \<and> container_ok T d (entries_set E key v) c' \<and>
    storage_inv T U D (move_handle R d (ident T d E) (ident T d (entries_set E key v))) \<sigma>'"
proof (cases "in_place_node T d \<and> E = {}")
  case True
  then have "1 \<le> D" "0 < R d (ident T d {})" "container_ok T d {} c" using d h c by auto
  from node_set_in_place_empty[OF inv conjunct1[OF True] this key v ok(1)] show ?thesis using True by blast
next
  case False
  then show ?thesis using node_set_spec[OF assms] by blast
qed

lemma ht_container_of: "ht_container (h\<lparr>ht_id := nc_id c, ht_ptr := container_ptr c\<rparr>) = c"
  by (simp add: ht_container_def container_ptr_def)

lemma hypertrie_set_spec:
  assumes inv: "storage_inv T U D R \<sigma>" and h: "var_denotes T U D (d, E) h" and R: "\<And>d i. held (Some h) d i \<le> R d i"
    and bool: "bool_valued T" and ok: "op_ok U D as (Set_Value x key v)" and x: "var as x = Some (d, E)"
  shows "\<exists>\<sigma>' h' old. hypertrie_set T \<sigma> h key v = Some (\<sigma>', h', old) \<and> var_denotes T U D (d, abs_set d E key v) h' \<and>
    storage_inv T U D (\<lambda>d i. R d i - held (Some h) d i + held (Some h') d i) \<sigma>'"
proof (cases "d = 0")
  case True
  note vd = var_denotesD[OF h]
  obtain old where old: "decode_depth_0_value (ht_ptr h) = Some old" using h True by (auto simp: var_denotes_def)
  let ?h = "h\<lparr>ht_id := (if v = 0 then 0 else encode_single_entry T 0 ([], v)), ht_ptr := encode_depth_0_value v\<rparr>"
  have nn: "0 \<le> R d i - held (Some h) d i + held (Some ?h) d i" for d i
    using R[of d i] held_nonneg[of "Some ?h" d i] by simp
  have "storage_inv T U D (\<lambda>d i. R d i - held (Some h) d i + held (Some ?h) d i) \<sigma>"
    by (rule storage_inv_change[OF inv nn]) (use vd(1) True in \<open>simp add: held_def\<close>)
  moreover have "var_denotes T U D (d, abs_set d E key v) ?h"
    using vd True by (simp add: var_denotes_def abs_set_def encode_depth_0_value_def decode_depth_0_value_def)
  moreover have "key = []" using ok x True by (simp add: op_ok_def)
  ultimately show ?thesis using vd(1) True old by (auto simp: hypertrie_set_def)
next
  case False
  note vd = var_denotesD[OF h]
  let ?k = "take d key"
  have o: "d \<le> length key" "v = 0 \<or> v = 1" "entries_ok U d {(?k, 1)}" "entries_ok U d (entries_set E ?k v)"
    using ok x False by (auto simp: op_ok_def)
  have r: "0 < R d (ident T d E)" using R[of d "ident T d E"] held_at[OF vd(1) vd(7)[OF False]] by simp
  have k: "length ?k = d" using o(1) by simp
  obtain \<sigma>' c' old where s: "node_set T \<sigma> d (ht_container h) ?k v = Some (\<sigma>', c', old)"
      "container_ok T d (entries_set E ?k v) c'"
      "storage_inv T U D (move_handle R d (ident T d E) (ident T d (entries_set E ?k v))) \<sigma>'"
    using node_set_storage[OF inv _ vd(2) vd(4)[OF False] r vd(5)[OF False] k bool o(2-4)] False by auto
  let ?h = "h\<lparr>ht_id := nc_id c', ht_ptr := container_ptr c'\<rparr>"
  have "hypertrie_set T \<sigma> h key v = Some (\<sigma>', ?h, old)"
    using s(1) vd(1) vd(6)[OF False] False o(1) by (simp add: hypertrie_set_def)
  moreover have "var_denotes T U D (d, abs_set d E key v) ?h"
    using vd(1-3) vd(6)[OF False] False o(4) s(2) ht_container_of[of c' h] by (simp add: var_denotes_def abs_set_def)
  moreover have "move_handle R d (ident T d E) (ident T d (entries_set E ?k v))
      = (\<lambda>d i. R d i - held (Some h) d i + held (Some ?h) d i)"
    by (rule move_handle_held) (use vd(1) vd(7)[OF False] container_okD(1)[OF s(2)] in simp_all)
  ultimately show ?thesis using s(3) by auto
qed

subsection \<open>Every step refines the abstract program\<close>

lemma life_invD:
  assumes "life_inv T U D L as ((\<sigma>, H), vs)"
  shows "storage_inv T U D (\<lambda>d i. handle_count vs d i + L d i) \<sigma>" "\<And>d i. 0 \<le> L d i" "length vs = length as"
    "list_all2 (rel_option (var_denotes T U D)) as vs"
  using assms by (auto simp: life_inv_def dest: list_all2_lengthD)

lemma life_var:
  assumes inv: "life_inv T U D L as ((\<sigma>, H), vs)" and x: "live as x"
  obtains d E h where "as ! x = Some (d, E)" "var as x = Some (d, E)" "vs ! x = Some h" "var vs x = Some h"
    "x < length vs" "var_denotes T U D (d, E) h" "\<And>d i. held (Some h) d i \<le> handle_count vs d i"
    "d \<noteq> 0 \<Longrightarrow> present T \<sigma> d (ht_id h)"
proof -
  note l = life_invD[OF inv]
  have xl: "x < length as" "as ! x \<noteq> None" using x by (auto simp: live_def)
  then have r: "rel_option (var_denotes T U D) (as ! x) (vs ! x)" using l(4) by (auto simp: list_all2_conv_all_nth)
  then obtain a h where a: "as ! x = Some a" "vs ! x = Some h" "var_denotes T U D a h"
    using xl(2) by (cases "as ! x") (auto simp: option_rel_Some1)
  obtain d E where dE: "a = (d, E)" by (cases a)
  have le: "held (Some h) d i \<le> handle_count vs d i" for d i
    using held_le_count[of x vs d i] xl(1) l(3) a(2) by simp
  have "present T \<sigma> d (ht_id h)" if "d \<noteq> 0"
  proof (rule handle_present[OF l(1)])
    note v = var_denotesD[OF a(3)[unfolded dE]]
    show "1 \<le> d" "d \<le> D" using that v(2) by simp_all
    show "0 < handle_count vs d (ht_id h) + L d (ht_id h)"
      using le[of d "ht_id h"] held_at[OF v(1) refl] l(2)[of d "ht_id h"] by simp
  qed
  with that[OF _ _ a(2)] show thesis using a dE xl(1) l(3) le by (simp add: var_def)
qed

lemma life_inv_update:
  assumes "list_all2 (rel_option (var_denotes T U D)) as vs" "rel_option (var_denotes T U D) a slot"
  shows "list_all2 (rel_option (var_denotes T U D)) (as[x := a]) (vs[x := slot])"
  using assms by (rule list_all2_update_cong)

lemma life_inv_snoc:
  assumes "list_all2 (rel_option (var_denotes T U D)) as vs" "rel_option (var_denotes T U D) a slot"
  shows "list_all2 (rel_option (var_denotes T U D)) (as @ [a]) (vs @ [slot])"
  using assms by (simp add: list_all2_appendI)

lemma new_denotes: "universe_ok T U \<Longrightarrow> d \<le> D \<Longrightarrow> var_denotes T U D (d, {}) (new_hypertrie T d)"
  using entries_ok_empty[of T U d] container_ok_empty[of T d]
  by (simp add: var_denotes_def new_hypertrie_def make_const_hypertrie_def decode_depth_0_value_def ht_container_def
      empty_container_def)

lemma moved_denotes: "var_denotes T U D (0, {}) default_const_hypertrie"
  by (simp add: var_denotes_def default_const_hypertrie_def decode_depth_0_value_def)

lemma held_moved: "tracked T d i \<Longrightarrow> 1 \<le> d \<Longrightarrow> held (Some default_const_hypertrie) d i = 0"
  by (simp add: held_def default_const_hypertrie_def)

lemma held_new: "tracked T d i \<Longrightarrow> held (Some (new_hypertrie T d')) d i = 0"
  by (auto simp: held_def new_hypertrie_def make_const_hypertrie_def)

text \<open>What a variable is counted for at a tracked identifier.\<close>

lemma held_var:
  assumes "var_denotes T U D (d', E) h" "1 \<le> d"
  shows "held (Some h) d i = of_bool (d' = d \<and> ident T d' E = i)"
  using var_denotesD(1)[OF assms(1)] var_denotesD(7)[OF assms(1)] assms(2) by (auto simp: held_def)

lemma life_invI:
  assumes "storage_inv T U D R \<sigma>" "\<And>d i. 0 \<le> L d i" "list_all2 (rel_option (var_denotes T U D)) as vs"
    "\<And>d i. 1 \<le> d \<Longrightarrow> d \<le> D \<Longrightarrow> tracked T d i \<Longrightarrow> handle_count vs d i + L d i = R d i"
  shows "life_inv T U D L as ((\<sigma>, H), vs)"
proof -
  have nn: "0 \<le> handle_count vs d i + L d i" for d i using assms(2)[of d i] handle_count_nonneg[of vs d i] by simp
  have "storage_inv T U D (\<lambda>d i. handle_count vs d i + L d i) \<sigma>"
    by (rule storage_inv_change[OF assms(1) nn assms(4)])
  then show ?thesis using assms(2,3) by (simp add: life_inv_def)
qed

lemma left_behind_nonneg: "0 \<le> left_behind T as c d i"
  by (simp add: left_behind_def split: ht_op.splits option.splits prod.splits)

lemma left_behind_other:
  "(\<And>x y. c \<noteq> Assign x y \<and> c \<noteq> Move_Assign x y) \<Longrightarrow> left_behind T as c = (\<lambda>_ _. 0)"
  by (cases c) (auto simp: left_behind_def fun_eq_iff)

lemma step_New:
  assumes inv: "life_inv T U D L as ((\<sigma>, H), vs)" and d: "d \<le> D"
  shows "\<exists>s'. ht_step T ((\<sigma>, H), vs) (New d) = Some s' \<and> life_inv T U D L (as @ [Some (d, {})]) s'"
proof -
  note l = life_invD[OF inv]
  have "life_inv T U D L (as @ [Some (d, {})]) ((\<sigma>, H), vs @ [Some (new_hypertrie T d)])"
    by (rule life_invI[OF l(1,2)]) (use life_inv_snoc[OF l(4)] new_denotes[OF storage_invD(1)[OF l(1)] d] in
      \<open>simp_all add: handle_count_snoc held_new\<close>)
  then show ?thesis by (simp add: ht_step_def)
qed

lemma step_Set:
  assumes inv: "life_inv T U D L as ((\<sigma>, H), vs)" and ok: "op_ok U D as (Set_Value x key v)" and bool: "bool_valued T"
  shows "\<exists>s'. ht_step T ((\<sigma>, H), vs) (Set_Value x key v) = Some s' \<and> life_inv T U D L (abs_step as (Set_Value x key v)) s'"
proof -
  note l = life_invD[OF inv]
  have "live as x" using ok by (auto simp: op_ok_def live_def var_def split: if_splits)
  with inv obtain d E h where x: "as ! x = Some (d, E)" "var as x = Some (d, E)" "vs ! x = Some h" "var vs x = Some h"
    "x < length vs" "var_denotes T U D (d, E) h" "\<And>d i. held (Some h) d i \<le> handle_count vs d i"
    "d \<noteq> 0 \<Longrightarrow> present T \<sigma> d (ht_id h)" by (rule life_var) blast
  have "held (Some h) d i \<le> handle_count vs d i + L d i" for d i using x(7)[of d i] l(2)[of d i] by simp
  from hypertrie_set_spec[OF l(1) x(6) this bool ok x(2)] obtain \<sigma>' h' old where
    s: "hypertrie_set T \<sigma> h key v = Some (\<sigma>', h', old)" "var_denotes T U D (d, abs_set d E key v) h'"
      "storage_inv T U D (\<lambda>d i. handle_count vs d i + L d i - held (Some h) d i + held (Some h') d i) \<sigma>'" by blast
  have "life_inv T U D L (as[x := Some (d, abs_set d E key v)]) ((\<sigma>', H), vs[x := Some h'])"
    by (rule life_invI[OF s(3) l(2)]) (use life_inv_update[OF l(4)] s(2) x(3,5) in \<open>simp_all add: handle_count_update\<close>)
  then show ?thesis using s(1) x(1,4) by (simp add: ht_step_def abs_step_def)
qed

lemma step_Copy:
  assumes inv: "life_inv T U D L as ((\<sigma>, H), vs)" and x: "live as x"
  shows "\<exists>s'. ht_step T ((\<sigma>, H), vs) (Copy x) = Some s' \<and> life_inv T U D L (abs_step as (Copy x)) s'"
proof -
  note l = life_invD[OF inv]
  from inv x obtain d E h where x: "as ! x = Some (d, E)" "var as x = Some (d, E)" "vs ! x = Some h" "var vs x = Some h"
    "x < length vs" "var_denotes T U D (d, E) h" "\<And>d i. held (Some h) d i \<le> handle_count vs d i"
    "d \<noteq> 0 \<Longrightarrow> present T \<sigma> d (ht_id h)" by (rule life_var) blast
  from copy_hypertrie_spec[OF l(1) x(6,8), of H] obtain \<sigma>' where s: "copy_hypertrie T (\<sigma>, H) h = Some ((\<sigma>', H), h)"
    "storage_inv T U D (\<lambda>d i. handle_count vs d i + L d i + held (Some h) d i) \<sigma>'" by blast
  have "life_inv T U D L (as @ [Some (d, E)]) ((\<sigma>', H), vs @ [Some h])"
    by (rule life_invI[OF s(2) l(2)]) (use life_inv_snoc[OF l(4)] x(6) in \<open>simp_all add: handle_count_snoc\<close>)
  then show ?thesis using s(1) x(1,4) by (simp add: ht_step_def abs_step_def)
qed

lemma step_Destroy:
  assumes inv: "life_inv T U D L as ((\<sigma>, H), vs)" and x: "live as x"
  shows "\<exists>s'. ht_step T ((\<sigma>, H), vs) (Destroy x) = Some s' \<and> life_inv T U D L (abs_step as (Destroy x)) s'"
proof -
  note l = life_invD[OF inv]
  from inv x obtain d E h where x: "as ! x = Some (d, E)" "var as x = Some (d, E)" "vs ! x = Some h" "var vs x = Some h"
    "x < length vs" "var_denotes T U D (d, E) h" "\<And>d i. held (Some h) d i \<le> handle_count vs d i"
    "d \<noteq> 0 \<Longrightarrow> present T \<sigma> d (ht_id h)" by (rule life_var) blast
  have "held (Some h) d i \<le> handle_count vs d i + L d i" for d i using x(7)[of d i] l(2)[of d i] by simp
  from destroy_hypertrie_spec[OF l(1) x(6) this, of H] obtain \<sigma>' where s: "destroy_hypertrie T (\<sigma>, H) h = Some (\<sigma>', H)"
    "storage_inv T U D (\<lambda>d i. handle_count vs d i + L d i - held (Some h) d i) \<sigma>'" by blast
  have "life_inv T U D L (as[x := None]) ((\<sigma>', H), vs[x := None])"
    by (rule life_invI[OF s(2) l(2)]) (use life_inv_update[OF l(4)] x(3,5) in \<open>simp_all add: handle_count_update\<close>)
  then show ?thesis using s(1) x(1,4) by (simp add: ht_step_def abs_step_def)
qed

lemma step_Assign:
  assumes inv: "life_inv T U D L as ((\<sigma>, H), vs)" and x: "live as x" and y: "live as y"
  shows "\<exists>s'. ht_step T ((\<sigma>, H), vs) (Assign x y) = Some s' \<and>
    life_inv T U D (\<lambda>d i. L d i + left_behind T as (Assign x y) d i) (abs_step as (Assign x y)) s'"
proof -
  note l = life_invD[OF inv]
  from inv x obtain d E h where x: "as ! x = Some (d, E)" "var as x = Some (d, E)" "vs ! x = Some h" "var vs x = Some h"
    "x < length vs" "var_denotes T U D (d, E) h" "\<And>d i. held (Some h) d i \<le> handle_count vs d i"
    "d \<noteq> 0 \<Longrightarrow> present T \<sigma> d (ht_id h)" by (rule life_var) blast
  from inv y obtain e F g where y: "as ! y = Some (e, F)" "var as y = Some (e, F)" "vs ! y = Some g" "var vs y = Some g"
    "y < length vs" "var_denotes T U D (e, F) g" "\<And>d i. held (Some g) d i \<le> handle_count vs d i"
    "e \<noteq> 0 \<Longrightarrow> present T \<sigma> e (ht_id g)" by (rule life_var) blast
  from assign_hypertrie_spec[OF l(1) y(6,8) var_denotesD(3)[OF x(6)]] obtain \<sigma>' h' where
    s: "assign_hypertrie T \<sigma> h g = Some (\<sigma>', h')" "var_denotes T U D (e, F) h'"
      "storage_inv T U D (\<lambda>d i. handle_count vs d i + L d i + held (Some h') d i) \<sigma>'" by blast
  have nn: "0 \<le> L d i + left_behind T as (Assign x y) d i" for d i
    using l(2)[of d i] left_behind_nonneg[of T as "Assign x y" d i] by simp
  have "life_inv T U D (\<lambda>d i. L d i + left_behind T as (Assign x y) d i) (as[x := Some (e, F)]) ((\<sigma>', H), vs[x := Some h'])"
    by (rule life_invI[OF s(3) nn]) (use life_inv_update[OF l(4)] s(2) x(1,3,5) held_var[OF x(6)] in
      \<open>simp_all add: handle_count_update left_behind_def\<close>)
  then show ?thesis using s(1) x(1,4) y(1,4) by (simp add: ht_step_def abs_step_def)
qed

lemma step_Move:
  assumes inv: "life_inv T U D L as ((\<sigma>, H), vs)" and x: "live as x"
  shows "\<exists>s'. ht_step T ((\<sigma>, H), vs) (Move x) = Some s' \<and> life_inv T U D L (abs_step as (Move x)) s'"
proof -
  note l = life_invD[OF inv]
  from inv x obtain d E h where x: "as ! x = Some (d, E)" "var as x = Some (d, E)" "vs ! x = Some h" "var vs x = Some h"
    "x < length vs" "var_denotes T U D (d, E) h" "\<And>d i. held (Some h) d i \<le> handle_count vs d i"
    "d \<noteq> 0 \<Longrightarrow> present T \<sigma> d (ht_id h)" by (rule life_var) blast
  have "list_all2 (rel_option (var_denotes T U D)) (as[x := Some (0, {})] @ [Some (d, E)]) (vs[x := Some default_const_hypertrie] @ [Some h])"
    by (intro life_inv_snoc life_inv_update l(4)) (simp_all add: moved_denotes x(6))
  then have "life_inv T U D L (as[x := Some (0, {})] @ [Some (d, E)]) ((\<sigma>, H), vs[x := Some default_const_hypertrie] @ [Some h])"
    by (rule life_invI[OF l(1,2)]) (use x(3,5) in \<open>simp add: handle_count_snoc handle_count_update held_moved\<close>)
  then show ?thesis using const_copy_managed[OF var_denotesD(3)[OF x(6)], of T H] x(1,4)
    by (simp add: ht_step_def abs_step_def move_hypertrie_def)
qed

lemma step_Move_Assign:
  assumes inv: "life_inv T U D L as ((\<sigma>, H), vs)" and x: "live as x" and y: "live as y"
  shows "\<exists>s'. ht_step T ((\<sigma>, H), vs) (Move_Assign x y) = Some s' \<and>
    life_inv T U D (\<lambda>d i. L d i + left_behind T as (Move_Assign x y) d i) (abs_step as (Move_Assign x y)) s'"
proof -
  note l = life_invD[OF inv]
  from inv x obtain d E h where x: "as ! x = Some (d, E)" "var as x = Some (d, E)" "vs ! x = Some h" "var vs x = Some h"
    "x < length vs" "var_denotes T U D (d, E) h" "\<And>d i. held (Some h) d i \<le> handle_count vs d i"
    "d \<noteq> 0 \<Longrightarrow> present T \<sigma> d (ht_id h)" by (rule life_var) blast
  from inv y obtain e F g where y: "as ! y = Some (e, F)" "var as y = Some (e, F)" "vs ! y = Some g" "var vs y = Some g"
    "y < length vs" "var_denotes T U D (e, F) g" "\<And>d i. held (Some g) d i \<le> handle_count vs d i"
    "e \<noteq> 0 \<Longrightarrow> present T \<sigma> e (ht_id g)" by (rule life_var) blast
  let ?as = "as[x := Some (e, F), y := Some (0, {})]" and ?vs = "vs[x := Some g, y := Some default_const_hypertrie]"
  have nn: "0 \<le> L d i + left_behind T as (Move_Assign x y) d i" for d i
    using l(2)[of d i] left_behind_nonneg[of T as "Move_Assign x y" d i] by simp
  have all: "list_all2 (rel_option (var_denotes T U D)) ?as ?vs"
    by (intro life_inv_update l(4)) (simp_all add: moved_denotes y(6))
  have count: "handle_count ?vs d' i = handle_count vs d' i - held (Some h) d' i" if "1 \<le> d'" "tracked T d' i" for d' i
    using x(3,5) y(3,5) held_moved[OF that(2,1)] by (cases "x = y") (simp_all add: handle_count_update nth_list_update)
  have "life_inv T U D (\<lambda>d i. L d i + left_behind T as (Move_Assign x y) d i) ?as ((\<sigma>, H), ?vs)"
    by (rule life_invI[OF l(1) nn all]) (use x(1) held_var[OF x(6)] count in \<open>simp add: left_behind_def\<close>)
  then show ?thesis using x(1,4) y(1,4) by (simp add: ht_step_def abs_step_def move_assign_hypertrie_def)
qed

theorem ht_step_refines:
  assumes inv: "life_inv T U D L as s" and ok: "op_ok U D as c" and bool: "bool_valued T"
  shows "\<exists>s'. ht_step T s c = Some s' \<and> life_inv T U D (\<lambda>d i. L d i + left_behind T as c d i) (abs_step as c) s'"
proof -
  obtain \<sigma> H vs where s: "s = ((\<sigma>, H), vs)" by (metis prod.exhaust)
  note inv = inv[unfolded s]
  have "\<exists>s'. ht_step T ((\<sigma>, H), vs) c = Some s' \<and> life_inv T U D (\<lambda>d i. L d i + left_behind T as c d i) (abs_step as c) s'"
  proof (cases c)
    case (New d)
    then show ?thesis using step_New[OF inv, of d] ok by (simp add: op_ok_def abs_step_def left_behind_def)
  qed (use step_Set[OF inv _ bool] step_Copy[OF inv] step_Assign[OF inv] step_Move[OF inv] step_Move_Assign[OF inv]
        step_Destroy[OF inv] ok in \<open>simp_all add: op_ok_def left_behind_def\<close>)
  then show ?thesis using s by simp
qed

subsection \<open>Whole programs\<close>

fun ops_ok :: "'v::zero_neq_one entry set set \<Rightarrow> nat \<Rightarrow> 'v abs_vars \<Rightarrow> 'v ht_op list \<Rightarrow> bool" where
  "ops_ok U D as [] = True"
| "ops_ok U D as (c # cs) = (op_ok U D as c \<and> ops_ok U D (abs_step as c) cs)"

definition no_assign :: "'v ht_op \<Rightarrow> bool" where
  "no_assign c = (case c of Assign x y \<Rightarrow> False | Move_Assign x y \<Rightarrow> False | _ \<Rightarrow> True)"

lemma left_behind_no_assign: "no_assign c \<Longrightarrow> left_behind T as c = (\<lambda>_ _. 0)"
  by (rule left_behind_other) (auto simp: no_assign_def)

theorem ht_run_refines:
  assumes "life_inv T U D L as s" "ops_ok U D as cs" "bool_valued T"
  shows "\<exists>s' L'. ht_run T s cs = Some s' \<and> life_inv T U D L' (foldl abs_step as cs) s' \<and> (\<forall>d i. L d i \<le> L' d i) \<and>
    (list_all no_assign cs \<longrightarrow> L' = L)"
  using assms
proof (induction cs arbitrary: L as s)
  case Nil
  then show ?case by (auto simp: ht_run_def)
next
  case (Cons c cs)
  from ht_step_refines[OF Cons.prems(1) _ Cons.prems(3), of c] Cons.prems(2) obtain s1 where
    s1: "ht_step T s c = Some s1" "life_inv T U D (\<lambda>d i. L d i + left_behind T as c d i) (abs_step as c) s1" by auto
  from Cons.IH[OF s1(2) _ Cons.prems(3)] Cons.prems(2) obtain s' L' where
    s': "ht_run T s1 cs = Some s'" "life_inv T U D L' (foldl abs_step (abs_step as c) cs) s'"
      "\<And>d i. L d i + left_behind T as c d i \<le> L' d i"
      "list_all no_assign cs \<longrightarrow> L' = (\<lambda>d i. L d i + left_behind T as c d i)" by auto
  have "L d i \<le> L' d i" for d i using s'(3)[of d i] left_behind_nonneg[of T as c d i] by simp
  then show ?case using s1(1) s'(1,2,4) left_behind_no_assign[of c T as] by (auto simp: ht_run_def)
qed

lemma life_inv_start: "universe_ok T U \<Longrightarrow> life_inv T U D (\<lambda>_ _. 0) [] ((empty_storage, H), [])"
  by (auto simp: life_inv_def handle_count_def storage_inv_def content_ok_def fns_ok_def sens_ok_def refs_ok_def
      ref_of_def find_fn_def find_sen_def)

text \<open>Without assignments, destroying every variable frees every node.\<close>

theorem ht_run_no_leak:
  assumes U: "universe_ok T U" and ok: "ops_ok U D [] cs" and bool: "bool_valued T"
    and na: "list_all no_assign cs" and dead: "\<forall>x. \<not> live (foldl abs_step [] cs) x"
  shows "\<exists>\<sigma> H vs. ht_run T ((empty_storage, empty_heap), []) cs = Some ((\<sigma>, H), vs) \<and>
    (\<forall>d. 1 \<le> d \<and> d \<le> D \<longrightarrow> fns \<sigma> d = [] \<and> sens \<sigma> d = [])"
proof -
  from ht_run_refines[OF life_inv_start[OF U] ok bool] na obtain \<sigma> H vs where
    s: "ht_run T ((empty_storage, empty_heap), []) cs = Some ((\<sigma>, H), vs)"
      "life_inv T U D (\<lambda>_ _. 0) (foldl abs_step [] cs) ((\<sigma>, H), vs)" by (metis prod.exhaust)
  note l = life_invD[OF s(2)]
  have "vs ! x = None" if "x < length vs" for x
  proof -
    have "rel_option (var_denotes T U D) (foldl abs_step [] cs ! x) (vs ! x)" "foldl abs_step [] cs ! x = None"
      using list_all2_nthD2[OF l(4) that] dead l(3) that unfolding live_def by (simp, metis)
    then show ?thesis by simp
  qed
  then have "\<forall>slot \<in> set vs. slot = None" by (auto simp: in_set_conv_nth)
  then have "handle_count vs d i = 0" for d i
    by (induction vs) (simp_all add: handle_count_def)
  then show ?thesis using s(1) storage_inv_no_handles[OF l(1)] by (intro exI conjI) auto
qed

text \<open>An assignment to a variable that holds a tracked node leaves a reference that nothing gives back: the
  node stays in the storage whatever the program does afterwards.\<close>

theorem assign_leaks:
  assumes inv: "life_inv T U D L as s" and ok: "ops_ok U D as (c # cs)" and bool: "bool_valued T"
    and c: "c = Assign x y \<or> c = Move_Assign x y" and x: "as ! x = Some (d, E)" "1 \<le> d" "d \<le> D"
    and tr: "tracked T d (ident T d E)"
  shows "\<exists>\<sigma> H vs. ht_run T s (c # cs) = Some ((\<sigma>, H), vs) \<and>
    (find_fn \<sigma> d (ident T d E) \<noteq> None \<or> find_sen \<sigma> d (ident T d E) \<noteq> None)"
proof -
  from ht_step_refines[OF inv _ bool, of c] ok obtain s1 where
    s1: "ht_step T s c = Some s1" "life_inv T U D (\<lambda>d i. L d i + left_behind T as c d i) (abs_step as c) s1" by auto
  from ht_run_refines[OF s1(2) _ bool, of cs] ok obtain \<sigma> H vs L' where
    s': "ht_run T s1 cs = Some ((\<sigma>, H), vs)" "life_inv T U D L' (foldl abs_step (abs_step as c) cs) ((\<sigma>, H), vs)"
      "\<And>d i. L d i + left_behind T as c d i \<le> L' d i" by (metis (no_types, lifting) ops_ok.simps(2) prod.exhaust)
  obtain \<tau> own0 vs0 where s: "s = ((\<tau>, own0), vs0)" by (metis prod.exhaust)
  note l = life_invD[OF s'(2)]
  have "left_behind T as c d (ident T d E) = 1" using c x(1) by (auto simp: left_behind_def)
  then have "0 < L' d (ident T d E)"
    using s'(3)[of d "ident T d E"] life_invD(2)[OF inv[unfolded s], of d "ident T d E"] by simp
  then have "0 < handle_count vs d (ident T d E) + L' d (ident T d E)"
    using handle_count_nonneg[of vs d "ident T d E"] by simp
  from handle_present[OF l(1) x(2,3) this] tr have "0 < ref_of T \<sigma> d (ident T d E)" by (simp add: present_def)
  then have "find_fn \<sigma> d (ident T d E) \<noteq> None \<or> find_sen \<sigma> d (ident T d E) \<noteq> None"
    by (auto simp: ref_of_def find_sen_def split: if_splits option.splits)
  then show ?thesis using s1(1) s'(1) by (auto simp: ht_run_def)
qed

subsection \<open>Programs on handles without a context\<close>

definition const_run :: "'v htt \<Rightarrow> 'v const_world \<Rightarrow> 'v const_op list \<Rightarrow> 'v const_world option" where
  "const_run T s cs = foldM (const_step T) cs s"

text \<open>A variable of the abstract program is a value: the depth, the identifier and the only entry of its
  handle. The values of different variables are independent of each other.\<close>

type_synonym 'v const_value = "nat \<times> node_id \<times> 'v sen_node option"

definition const_value :: "'v hypertrie \<Rightarrow> 'v const_value" where
  "const_value h = (ht_depth h, ht_id h, own_node h)"

definition const_values :: "'v hypertrie option list \<Rightarrow> 'v const_value option list" where
  "const_values vs = map (map_option const_value) vs"

definition const_abs_step :: "'v const_value option list \<Rightarrow> 'v const_op \<Rightarrow> 'v const_value option list" where
  "const_abs_step as c = (case c of
       Take h \<Rightarrow> as @ [Some (const_value h)]
     | Const_Copy x \<Rightarrow> as @ [as ! x]
     | Const_Move x \<Rightarrow> as[x := Some (0, 0, None)] @ [as ! x]
     | Const_Assign x y \<Rightarrow> as[x := as ! y]
     | Const_Move_Assign x y \<Rightarrow> as[x := as ! y, y := Some (0, 0, None)]
     | Const_Destroy x \<Rightarrow> as[x := None])"

text \<open>A handle that owns a node, as the assertions of the code demand it, and the address it holds.\<close>

definition owner_ok :: "'v htt \<Rightarrow> 'v hypertrie \<Rightarrow> bool" where
  "owner_ok T h \<longleftrightarrow> (owns_node h \<longrightarrow> sen_min_depth T \<le> ht_depth h \<and> ht_depth h \<le> hypertrie_max_depth \<and>
     is_sen T (ht_id h) \<and> \<not> ht_empty T h \<and> own_node h \<noteq> None)"

definition node_of :: "'v hypertrie option \<Rightarrow> (nat \<times> 'v sen_node) option" where
  "node_of slot = (case slot of None \<Rightarrow> None
     | Some h \<Rightarrow> if owns_node h then (case ht_ptr h of Own_Node a s \<Rightarrow> Some (a, s) | _ \<Rightarrow> None) else None)"

definition owned_at :: "'v hypertrie option list \<Rightarrow> nat \<Rightarrow> (nat \<times> 'v sen_node) option" where
  "owned_at vs x = (if x < length vs then node_of (vs ! x) else None)"

text \<open>Ownership is exclusive: a node that a variable owns is on the heap at the address the variable holds, no
  two variables hold the same address, and every other node on the heap is one of the lost ones.\<close>

definition exclusive :: "(nat \<Rightarrow> (nat \<times> 'v sen_node) option) \<Rightarrow> 'v node_heap \<Rightarrow> nat set \<Rightarrow> bool" where
  "exclusive ow H lost \<longleftrightarrow> (\<forall>x a s. ow x = Some (a, s) \<longrightarrow> nh_cells H a = Some s \<and> a \<notin> lost) \<and>
     (\<forall>x y a s t. ow x = Some (a, s) \<longrightarrow> ow y = Some (a, t) \<longrightarrow> x = y) \<and>
     (\<forall>a. nh_cells H a \<noteq> None \<longleftrightarrow> a \<in> lost \<or> (\<exists>x s. ow x = Some (a, s))) \<and>
     (\<forall>a. nh_cells H a \<noteq> None \<longrightarrow> a < nh_next H)"

definition const_inv :: "'v htt \<Rightarrow> nat set \<Rightarrow> 'v const_world \<Rightarrow> bool" where
  "const_inv T lost w \<longleftrightarrow> (case w of (H, vs) \<Rightarrow>
     (\<forall>h. Some h \<in> set vs \<longrightarrow> owner_ok T h) \<and> exclusive (owned_at vs) H lost)"

definition const_op_ok :: "'v htt \<Rightarrow> 'v const_value option list \<Rightarrow> 'v const_op \<Rightarrow> bool" where
  "const_op_ok T as c \<longleftrightarrow> (case c of
       Take h \<Rightarrow> owner_ok T h
     | Const_Copy x \<Rightarrow> live as x | Const_Move x \<Rightarrow> live as x | Const_Destroy x \<Rightarrow> live as x
     | Const_Assign x y \<Rightarrow> live as x \<and> live as y
     | Const_Move_Assign x y \<Rightarrow> live as x \<and> live as y \<and> x \<noteq> y)"

text \<open>The move assignment drops the node that the overwritten handle owned.\<close>

definition dropped :: "'v hypertrie option list \<Rightarrow> 'v const_op \<Rightarrow> nat set" where
  "dropped vs c = (case c of
       Const_Move_Assign x y \<Rightarrow> (case owned_at vs x of None \<Rightarrow> {} | Some (a, s) \<Rightarrow> {a})
     | _ \<Rightarrow> {})"

lemma owned_at_simps [simp]:
  "owned_at (vs @ [slot]) = (owned_at vs)(length vs := node_of slot)"
  "x < length vs \<Longrightarrow> owned_at (vs[x := slot]) = (owned_at vs)(x := node_of slot)"
  by (auto simp: owned_at_def fun_eq_iff nth_append nth_list_update)

lemma owned_at_length [simp]: "owned_at vs (length vs) = None"
  by (simp add: owned_at_def)

lemma node_of_None [simp]: "node_of None = None"
  by (simp add: node_of_def)

lemma not_owner_default [simp]:
  "\<not> owns_node default_const_hypertrie" "owner_ok T default_const_hypertrie" "node_of (Some default_const_hypertrie) = None"
  "const_value default_const_hypertrie = (0, 0, None)"
  by (simp_all add: owns_node_def owner_ok_def node_of_def default_const_hypertrie_def const_value_def own_node_def)

lemma exclusiveI:
  assumes "\<And>x a s. ow x = Some (a, s) \<Longrightarrow> nh_cells H a = Some s \<and> a \<notin> lost"
    and "\<And>x y a s t. ow x = Some (a, s) \<Longrightarrow> ow y = Some (a, t) \<Longrightarrow> x = y"
    and "\<And>a. a \<in> lost \<Longrightarrow> nh_cells H a \<noteq> None"
    and "\<And>a s. nh_cells H a = Some s \<Longrightarrow> a < nh_next H \<and> (a \<in> lost \<or> (\<exists>x s. ow x = Some (a, s)))"
  shows "exclusive ow H lost"
  unfolding exclusive_def
proof (intro conjI allI impI iffI)
  fix a assume "a \<in> lost \<or> (\<exists>x s. ow x = Some (a, s))"
  then show "nh_cells H a \<noteq> None" using assms(1,3) by fastforce
qed (use assms in \<open>fastforce+\<close>)

lemma exclusiveD:
  assumes "exclusive ow H lost"
  shows "ow x = Some (a, s) \<Longrightarrow> nh_cells H a = Some s" "ow x = Some (a, s) \<Longrightarrow> a \<notin> lost"
    "ow x = Some (a, s) \<Longrightarrow> ow y = Some (a, t) \<Longrightarrow> x = y"
    "a \<in> lost \<Longrightarrow> nh_cells H a \<noteq> None"
    "nh_cells H a = Some s \<Longrightarrow> a < nh_next H"
    "nh_cells H a = Some s \<Longrightarrow> a \<notin> lost \<Longrightarrow> \<exists>x s. ow x = Some (a, s)"
  using assms unfolding exclusive_def by blast+

lemma owner_else:
  "\<exists>y t. ow y = Some (b, t) \<Longrightarrow> \<forall>u. ow x = Some u \<longrightarrow> fst u \<noteq> b \<Longrightarrow> \<exists>y t. (ow(x := z)) y = Some (b, t)"
  by (metis fst_conv fun_upd_other)

lemma exclusive_new:
  assumes ex: "exclusive ow H lost" and x: "ow x = None" and b: "heap_new H s = (b, H')"
  shows "exclusive (ow(x := Some (b, s))) H' lost"
proof -
  note D = exclusiveD[OF ex]
  have fresh: "nh_cells H (nh_next H) = None" using D(5)[of "nh_next H"] by fastforce
  then have kept: "nh_next H \<notin> lost" using D(4)[of "nh_next H"] by auto
  have old: "a \<noteq> nh_next H" if "ow y = Some (a, t)" for y a t using D(1)[OF that] fresh by auto
  have new: "b = nh_next H" "nh_cells H' = (nh_cells H)(nh_next H \<mapsto> s)" "nh_next H' = Suc (nh_next H)"
    using b by (auto simp: heap_new_def)
  show ?thesis
  proof (rule exclusiveI)
    fix y z a t t' assume "(ow(x := Some (b, s))) y = Some (a, t)" "(ow(x := Some (b, s))) z = Some (a, t')"
    then show "y = z" using old new(1) D(3)[of y a t z t'] by (auto split: if_splits)
  next
    fix a t assume a: "nh_cells H' a = Some t"
    show "a < nh_next H' \<and> (a \<in> lost \<or> (\<exists>x' s'. (ow(x := Some (b, s))) x' = Some (a, s')))"
    proof (cases "a = nh_next H")
      case False
      then have "nh_cells H a = Some t" using a new(2) by simp
      then have "a < nh_next H" "a \<notin> lost \<Longrightarrow> \<exists>x s. ow x = Some (a, s)" using D(5,6) by blast+
      moreover have "\<exists>y t. (ow(x := Some (b, s))) y = Some (a, t)" if "a \<notin> lost"
        by (rule owner_else) (use calculation(2)[OF that] x in auto)
      ultimately show ?thesis using new(3) by (metis less_Suc_eq)
    qed (use new in auto)
  qed (use D(1,2,4) new old fresh kept in \<open>auto split: if_splits\<close>)
qed

lemma exclusive_delete:
  assumes ex: "exclusive ow H lost" and x: "ow x = Some (a, s)"
  shows "\<exists>H'. heap_delete H a = Some H' \<and> exclusive (ow(x := None)) H' lost"
proof -
  note D = exclusiveD[OF ex]
  let ?H = "H\<lparr>nh_cells := (nh_cells H)(a := None)\<rparr>"
  have "exclusive (ow(x := None)) ?H lost"
  proof (rule exclusiveI)
    fix y b t assume y: "(ow(x := None)) y = Some (b, t)"
    then have "b \<noteq> a" using D(3)[of y b t x s] x by (auto split: if_splits)
    then show "nh_cells ?H b = Some t \<and> b \<notin> lost" using D(1,2) y by (auto split: if_splits)
  next
    fix b t assume b: "nh_cells ?H b = Some t"
    then have "b \<noteq> a" "nh_cells H b = Some t" by (auto split: if_splits)
    moreover have "\<exists>y s. (ow(x := None)) y = Some (b, s)" if na: "b \<notin> lost"
      by (rule owner_else) (use D(6)[OF calculation(2) na] x calculation(1) in auto)
    ultimately show "b < nh_next ?H \<and> (b \<in> lost \<or> (\<exists>y s. (ow(x := None)) y = Some (b, s)))"
      using D(5)[of b t] by (simp del: fun_upd_apply) blast
  qed (use D(2,3,4) x in \<open>auto split: if_splits\<close>)
  then show ?thesis using D(1)[OF x] by (simp add: heap_delete_def)
qed

lemma exclusive_move:
  assumes ex: "exclusive ow H lost" and y: "ow y = None" "x \<noteq> y"
  shows "exclusive (ow(x := None, y := ow x)) H lost"
proof -
  note D = exclusiveD[OF ex]
  show ?thesis
  proof (rule exclusiveI)
    fix u v a s t assume "(ow(x := None, y := ow x)) u = Some (a, s)" "(ow(x := None, y := ow x)) v = Some (a, t)"
    then show "u = v" using D(3)[of _ a s _ t] by (auto split: if_splits)
  next
    fix a s assume a: "nh_cells H a = Some s"
    have "\<exists>u s. (ow(x := None, y := ow x)) u = Some (a, s)" if na: "a \<notin> lost"
    proof -
      obtain u t where u: "ow u = Some (a, t)" using D(6)[OF a na] by blast
      then show ?thesis using y by (intro exI[of _ "if u = x then y else u"] exI[of _ t]) auto
    qed
    then show "a < nh_next H \<and> (a \<in> lost \<or> (\<exists>u s. (ow(x := None, y := ow x)) u = Some (a, s)))" using D(5)[OF a] by blast
  qed (use D(1,2,4) in \<open>auto split: if_splits\<close>)
qed

lemma exclusive_drop:
  assumes ex: "exclusive ow H lost" and x: "ow x = Some (a, s)"
  shows "exclusive (ow(x := None)) H (insert a lost)"
proof -
  note D = exclusiveD[OF ex]
  show ?thesis
  proof (rule exclusiveI)
    fix y b t assume "(ow(x := None)) y = Some (b, t)"
    then show "nh_cells H b = Some t \<and> b \<notin> insert a lost" using D(1,2) D(3)[of y b t x s] x by (auto split: if_splits)
  next
    fix b t assume b: "nh_cells H b = Some t"
    have "\<exists>y s. (ow(x := None)) y = Some (b, s)" if na: "b \<notin> lost" "b \<noteq> a"
      by (rule owner_else) (use D(6)[OF b na(1)] x na(2) in auto)
    then show "b < nh_next H \<and> (b \<in> insert a lost \<or> (\<exists>y s. (ow(x := None)) y = Some (b, s)))"
      using D(5)[OF b] by blast
  next
    fix y z b t t' assume "(ow(x := None)) y = Some (b, t)" "(ow(x := None)) z = Some (b, t')"
    then show "y = z" using D(3)[of y b t z t'] by (auto split: if_splits)
  qed (use D(1)[OF x] D(4) in auto)
qed

text \<open>The operations on a heap that the variables own exclusively.\<close>

lemma owner_node:
  assumes "owner_ok T h" "owns_node h"
  obtains a s where "ht_ptr h = Own_Node a s" "node_of (Some h) = Some (a, s)" "node_address h = Some a" "own_node h = Some s"
  using assms by (auto simp: owner_ok_def own_node_def node_of_def node_address_def split: handle_ptr.splits)

lemma const_copy_spec:
  assumes h: "owner_ok T h" "owned_at vs x = node_of (Some h)" and ex: "exclusive ow H lost" "ow y = None"
    and cells: "\<And>a s. node_of (Some h) = Some (a, s) \<Longrightarrow> nh_cells H a = Some s"
  shows "\<exists>H' h'. copy_contextless_node T H h = Some (H', h') \<and> owner_ok T h' \<and> const_value h' = const_value h \<and>
    exclusive (ow(y := node_of (Some h'))) H' lost"
proof (cases "owns_node h")
  case True
  with h(1) obtain a s where a: "ht_ptr h = Own_Node a s" "node_of (Some h) = Some (a, s)" "node_address h = Some a"
    "own_node h = Some s" by (rule owner_node)
  obtain b H' where b: "heap_new H s = (b, H')" by (cases "heap_new H s")
  let ?h = "h\<lparr>ht_ptr := Own_Node b s\<rparr>"
  have "copy_contextless_node T H h = Some (H', ?h)"
    using True h(1) a(3) b cells[OF a(2)] by (simp add: copy_contextless_node_def owner_ok_def)
  moreover have "owner_ok T ?h" "const_value ?h = const_value h" "node_of (Some ?h) = Some (b, s)"
    using True h(1) a(4) by (auto simp: owner_ok_def owns_node_def unmanaged_def ht_empty_def const_value_def own_node_def node_of_def)
  ultimately show ?thesis using exclusive_new[OF ex b] by auto
next
  case False
  then have "node_of (Some h) = None" by (simp add: node_of_def)
  then show ?thesis using False h(1) ex by (simp add: copy_contextless_node_def fun_upd_idem)
qed

lemma const_destruct_spec:
  assumes h: "owner_ok T h" and ex: "exclusive ow H lost" "ow x = node_of (Some h)"
  shows "\<exists>H'. destruct_contextless_node T H h = Some H' \<and> exclusive (ow(x := None)) H' lost"
proof (cases "owns_node h")
  case True
  with h obtain a s where a: "node_of (Some h) = Some (a, s)" "node_address h = Some a" by (rule owner_node)
  from exclusive_delete[OF ex(1), of x a s] ex(2) a(1) obtain H' where
    "heap_delete H a = Some H'" "exclusive (ow(x := None)) H' lost" by auto
  then show ?thesis using True h a(2) by (simp add: destruct_contextless_node_def owner_ok_def)
next
  case False
  then have "node_of (Some h) = None" by (simp add: node_of_def)
  then show ?thesis using False ex by (simp add: destruct_contextless_node_def fun_upd_idem)
qed

lemma place_node_spec:
  assumes h: "owner_ok T h" and ex: "exclusive ow H lost" "ow y = None"
  shows "\<exists>H' h'. place_node H h = (H', h') \<and> owner_ok T h' \<and> const_value h' = const_value h \<and>
    exclusive (ow(y := node_of (Some h'))) H' lost"
proof (cases "owns_node h")
  case True
  with h obtain a s where a: "own_node h = Some s" by (rule owner_node)
  obtain b H' where b: "heap_new H s = (b, H')" by (cases "heap_new H s")
  let ?h = "h\<lparr>ht_ptr := Own_Node b s\<rparr>"
  have "owner_ok T ?h" "const_value ?h = const_value h" "node_of (Some ?h) = Some (b, s)"
    using True h a by (auto simp: owner_ok_def owns_node_def unmanaged_def ht_empty_def const_value_def own_node_def node_of_def)
  then show ?thesis using exclusive_new[OF ex b] True a b by (auto simp: place_node_def)
next
  case False
  then have "place_node H h = (H, h)" "node_of (Some h) = None"
    by (simp_all add: place_node_def node_of_def split: option.splits)
  then show ?thesis using h ex by (simp add: fun_upd_idem)
qed

lemma live_var:
  assumes "live (const_values vs) x"
  obtains h where "var vs x = Some h" "vs ! x = Some h" "x < length vs" "Some h \<in> set vs"
    "owned_at vs x = node_of (Some h)" "const_values vs ! x = Some (const_value h)"
proof -
  obtain h where "vs ! x = Some h" "x < length vs" using assms by (auto simp: live_def const_values_def)
  then show thesis using that[of h] nth_mem[of x vs] by (simp add: var_def owned_at_def const_values_def)
qed

lemma set_update_owner:
  "Some h \<in> set (vs[x := slot]) \<Longrightarrow> slot = Some h \<or> Some h \<in> set vs"
  using set_update_subset_insert[of vs x slot] by auto

lemma const_values_simps [simp]:
  "const_values (vs @ [slot]) = const_values vs @ [map_option const_value slot]"
  "const_values (vs[x := slot]) = (const_values vs)[x := map_option const_value slot]"
  "length (const_values vs) = length vs"
  by (simp_all add: const_values_def map_update)

theorem const_step_refines:
  assumes inv: "const_inv T lost (H, vs)" and ok: "const_op_ok T (const_values vs) c"
  shows "\<exists>H' vs'. const_step T (H, vs) c = Some (H', vs') \<and> const_inv T (lost \<union> dropped vs c) (H', vs') \<and>
    const_values vs' = const_abs_step (const_values vs) c"
proof -
  have ex: "exclusive (owned_at vs) H lost" and wf: "\<And>h. Some h \<in> set vs \<Longrightarrow> owner_ok T h"
    using inv by (auto simp: const_inv_def)
  have new: "owned_at vs (length vs) = None" by simp
  have cells: "nh_cells H a = Some s" if "owned_at vs x = Some (a, s)" for x a s using exclusiveD(1)[OF ex that] .
  show ?thesis
  proof (cases c)
    case (Take h)
    with ok have "owner_ok T h" by (simp add: const_op_ok_def)
    from place_node_spec[OF this ex new] obtain H' h' where "place_node H h = (H', h')" "owner_ok T h'"
      "const_value h' = const_value h" "exclusive ((owned_at vs)(length vs := node_of (Some h'))) H' lost" by blast
    then show ?thesis using Take wf by (auto simp: const_step_def const_inv_def dropped_def const_abs_step_def)
  next
    case (Const_Copy x)
    with ok have "live (const_values vs) x" by (simp add: const_op_ok_def)
    then obtain h where h: "var vs x = Some h" "Some h \<in> set vs" "owned_at vs x = node_of (Some h)"
      "const_values vs ! x = Some (const_value h)" by (rule live_var)
    from const_copy_spec[OF wf[OF h(2)] h(3) ex new] cells h(3) obtain H' h' where
      "copy_contextless_node T H h = Some (H', h')" "owner_ok T h'" "const_value h' = const_value h"
      "exclusive ((owned_at vs)(length vs := node_of (Some h'))) H' lost" by metis
    then show ?thesis using Const_Copy wf h by (auto simp: const_step_def const_copy_def const_inv_def dropped_def const_abs_step_def)
  next
    case (Const_Move x)
    with ok have "live (const_values vs) x" by (simp add: const_op_ok_def)
    then obtain h where h: "var vs x = Some h" "x < length vs" "Some h \<in> set vs" "owned_at vs x = node_of (Some h)"
      "const_values vs ! x = Some (const_value h)" by (rule live_var)
    have "exclusive ((owned_at vs)(x := None, length vs := node_of (Some h))) H lost"
      using exclusive_move[OF ex new, of x] h(2,4) by simp
    then show ?thesis using Const_Move wf h
      by (auto simp: const_step_def const_inv_def dropped_def const_move_def const_abs_step_def dest!: set_update_owner)
  next
    case (Const_Assign x y)
    with ok have "live (const_values vs) x" "live (const_values vs) y" by (simp_all add: const_op_ok_def)
    then obtain h g where h: "var vs x = Some h" "x < length vs" "Some h \<in> set vs" "owned_at vs x = node_of (Some h)"
      "const_values vs ! x = Some (const_value h)"
      and g: "var vs y = Some g" "Some g \<in> set vs" "owned_at vs y = node_of (Some g)" "const_values vs ! y = Some (const_value g)"
      by (metis live_var)
    show ?thesis
    proof (cases "x = y")
      case True
      then show ?thesis using Const_Assign inv h g list_update_id[of "const_values vs" x]
        by (simp add: const_step_def dropped_def const_abs_step_def)
    next
      case False
      from const_destruct_spec[OF wf[OF h(3)] ex h(4)] obtain H1 where
        H1: "destruct_contextless_node T H h = Some H1" "exclusive ((owned_at vs)(x := None)) H1 lost" by blast
      have "nh_cells H1 a = Some s" if "node_of (Some g) = Some (a, s)" for a s
        using exclusiveD(1)[OF H1(2), of y a s] that g(3) False by simp
      with const_copy_spec[OF wf[OF g(2)] g(3) H1(2), of x] obtain H' h' where
        "copy_contextless_node T H1 g = Some (H', h')" "owner_ok T h'" "const_value h' = const_value g"
        "exclusive ((owned_at vs)(x := None, x := node_of (Some h'))) H' lost" by (metis fun_upd_same)
      then show ?thesis using Const_Assign False wf h g H1(1)
        by (auto simp: const_step_def const_assign_def const_inv_def dropped_def const_abs_step_def dest!: set_update_owner)
    qed
  next
    case (Const_Move_Assign x y)
    with ok have l: "live (const_values vs) x" "live (const_values vs) y" and xy: "x \<noteq> y" by (simp_all add: const_op_ok_def)
    from l obtain h g where h: "var vs x = Some h" "x < length vs" "Some h \<in> set vs" "owned_at vs x = node_of (Some h)"
      "const_values vs ! x = Some (const_value h)"
      and g: "var vs y = Some g" "y < length vs" "Some g \<in> set vs" "owned_at vs y = node_of (Some g)" "const_values vs ! y = Some (const_value g)"
      by (metis live_var)
    have "exclusive ((owned_at vs)(x := None)) H (lost \<union> dropped vs c)"
    proof (cases "owned_at vs x")
      case None
      then show ?thesis using ex Const_Move_Assign by (simp add: dropped_def fun_upd_idem)
    next
      case (Some u)
      then show ?thesis using exclusive_drop[OF ex, of x "fst u" "snd u"] Const_Move_Assign by (cases u) (simp add: dropped_def)
    qed
    from exclusive_move[OF this, of x y] have "exclusive ((owned_at vs)(x := node_of (Some g), y := None)) H (lost \<union> dropped vs c)"
      using xy g(4) by (simp add: fun_upd_twist)
    then show ?thesis using Const_Move_Assign wf h g xy
      by (auto simp: const_step_def const_inv_def const_move_assign_def const_abs_step_def dest!: set_update_owner)
  next
    case (Const_Destroy x)
    with ok have "live (const_values vs) x" by (simp add: const_op_ok_def)
    then obtain h where h: "var vs x = Some h" "x < length vs" "Some h \<in> set vs" "owned_at vs x = node_of (Some h)"
      by (rule live_var)
    from const_destruct_spec[OF wf[OF h(3)] ex h(4)] obtain H1 where
      "destruct_contextless_node T H h = Some H1" "exclusive ((owned_at vs)(x := None)) H1 lost" by blast
    then show ?thesis using Const_Destroy wf h
      by (auto simp: const_step_def const_inv_def dropped_def const_abs_step_def dest!: set_update_owner)
  qed
qed

fun const_ops_ok :: "'v htt \<Rightarrow> 'v const_value option list \<Rightarrow> 'v const_op list \<Rightarrow> bool" where
  "const_ops_ok T as [] = True"
| "const_ops_ok T as (c # cs) = (const_op_ok T as c \<and> const_ops_ok T (const_abs_step as c) cs)"

definition no_move_assign :: "'v const_op \<Rightarrow> bool" where
  "no_move_assign c = (case c of Const_Move_Assign x y \<Rightarrow> False | _ \<Rightarrow> True)"

text \<open>Every program runs without a failure, its variables are independent values and own their nodes
  exclusively; without move assignments nothing is lost.\<close>

theorem const_run_refines:
  assumes "const_inv T lost (H, vs)" "const_ops_ok T (const_values vs) cs"
  shows "\<exists>H' vs' lost'. const_run T (H, vs) cs = Some (H', vs') \<and> const_inv T lost' (H', vs') \<and>
    const_values vs' = foldl const_abs_step (const_values vs) cs \<and> (list_all no_move_assign cs \<longrightarrow> lost' = lost)"
  using assms
proof (induction cs arbitrary: H vs lost)
  case Nil
  then show ?case by (auto simp: const_run_def)
next
  case (Cons c cs)
  from const_step_refines[OF Cons.prems(1), of c] Cons.prems(2) obtain H1 vs1 where
    s1: "const_step T (H, vs) c = Some (H1, vs1)" "const_inv T (lost \<union> dropped vs c) (H1, vs1)"
      "const_values vs1 = const_abs_step (const_values vs) c" by auto
  from Cons.IH[OF s1(2)] Cons.prems(2) s1(3) obtain H' vs' lost' where
    s': "const_run T (H1, vs1) cs = Some (H', vs')" "const_inv T lost' (H', vs')"
      "const_values vs' = foldl const_abs_step (const_values vs) (c # cs)"
      "list_all no_move_assign cs \<longrightarrow> lost' = lost \<union> dropped vs c" by auto
  have "no_move_assign c \<Longrightarrow> dropped vs c = {}" by (auto simp: no_move_assign_def dropped_def split: const_op.splits)
  then show ?case using s1(1) s' by (auto simp: const_run_def)
qed

lemma const_inv_start: "const_inv T {} (empty_heap, [])"
  by (auto simp: const_inv_def exclusive_def owned_at_def empty_heap_def)

theorem const_run_exclusive:
  assumes ok: "const_ops_ok T [] cs"
  shows "\<exists>H vs lost. const_run T (empty_heap, []) cs = Some (H, vs) \<and> const_inv T lost (H, vs) \<and>
    const_values vs = foldl const_abs_step [] cs \<and>
    (list_all no_move_assign cs \<longrightarrow> lost = {} \<and>
      ((\<forall>x. \<not> live (foldl const_abs_step [] cs) x) \<longrightarrow> nh_cells H = Map.empty))"
proof -
  have "const_values ([] :: 'a hypertrie option list) = []" by (simp add: const_values_def)
  with const_run_refines[OF const_inv_start, where T = T and cs = cs] ok obtain H vs lost where
    r: "const_run T (empty_heap, []) cs = Some (H, vs)" "const_inv T lost (H, vs)"
      "const_values vs = foldl const_abs_step [] cs" "list_all no_move_assign cs \<longrightarrow> lost = {}" by metis
  have "nh_cells H = Map.empty" if "lost = {}" "\<forall>x. \<not> live (const_values vs) x"
  proof -
    have "vs ! x = None" if "x < length vs" for x
      using \<open>\<forall>x. \<not> live (const_values vs) x\<close> that by (cases "vs ! x") (auto simp: live_def const_values_def const_value_def)
    then have "owned_at vs x = None" for x by (simp add: owned_at_def)
    then have "nh_cells H a = None" for a
      using r(2) that(1) exclusiveD(6)[of "owned_at vs" H lost a] by (fastforce simp: const_inv_def)
    then show ?thesis by auto
  qed
  then show ?thesis using r by auto
qed

end
