(* ===== verification/Raw_Diagonal.thy ===== *)
theory Raw_Diagonal
  imports Raw_Context Cursor "HOL-Library.Sublist"
begin

text \<open>
  Iterating over the diagonal of a node (internal/raw/iteration/RawHashDiagonal.hpp), for a full
  node and for a single-entry node. A mask names the positions that must carry the same key part;
  the iterator runs over the key parts for which the diagonal slice is not empty. As in the raw
  iterator, a hash map iterator is the part of the edge list that is left. The pointer to the
  cached single-entry result is elided: the result holds the node itself.
\<close>

subsection \<open>Diagonals of full nodes\<close>

record 'v hash_diagonal =
  hd_nodec :: node_container
  hd_poss :: raw_key_positions
  hd_sub_poss :: raw_key_positions
  hd_edges :: "(key_part \<times> node_id) list"
  hd_values :: "(key_part \<times> 'v) list"
  hd_value :: "'v slice_out"

definition slice_found :: "'v::zero_neq_one htt \<Rightarrow> 'v slice_out \<Rightarrow> bool" where
  "slice_found T out = (case out of Scalar v \<Rightarrow> v \<noteq> 0 | Slice r \<Rightarrow> \<not> slice_result_empty T r)"

definition new_hash_diagonal :: "nat \<Rightarrow> nat \<Rightarrow> node_container \<Rightarrow> raw_key_positions \<Rightarrow> 'v::zero_neq_one hash_diagonal" where
  "new_hash_diagonal depth diag c m = \<lparr>hd_nodec = c, hd_poss = m, hd_sub_poss = kp_empty (depth - 1), hd_edges = [],
     hd_values = [], hd_value = (if diag < depth then Slice empty_slice_result else Scalar 0)\<rparr>"

definition hd_ended :: "nat \<Rightarrow> 'v hash_diagonal \<Rightarrow> bool" where
  "hd_ended depth h = (if depth = 1 then hd_values h = [] else hd_edges h = [])"

definition hd_empty :: "'v htt \<Rightarrow> 'v hash_diagonal \<Rightarrow> bool" where
  "hd_empty T h = id_empty T (nc_id (hd_nodec h))"

definition retrieve_subdiagonal_value ::
  "'v::zero_neq_one htt \<Rightarrow> 'v node_storage \<Rightarrow> nat \<Rightarrow> nat \<Rightarrow> raw_key_positions \<Rightarrow> key_part \<Rightarrow> node_id \<Rightarrow> 'v slice_out option" where
  "retrieve_subdiagonal_value T \<sigma> depth diag sub_poss kp child =
     (if in_place_node T (depth - 1) then
        if is_sen T child then map_option (\<lambda>e. Scalar (if fst e ! 0 = kp then 1 else 0)) (get_entry T child)
        else map_option Scalar (node_get T \<sigma> 1 \<lparr>nc_id = child, nc_ptr = (find_fn \<sigma> 1 child \<noteq> None)\<rparr> [kp])
      else diagonal_slice T \<sigma> (depth - 1) (diag - 1) (lookup T \<sigma> (depth - 1) child) sub_poss kp (diag < depth))"

text \<open>The loop \<open>while (not ended() and not retrieve_subdiagonal_value()) ++iter_\<close>.\<close>

fun skip_edges ::
  "'v::zero_neq_one htt \<Rightarrow> 'v node_storage \<Rightarrow> nat \<Rightarrow> nat \<Rightarrow> raw_key_positions \<Rightarrow> (key_part \<times> node_id) list \<Rightarrow> 'v slice_out
     \<Rightarrow> ((key_part \<times> node_id) list \<times> 'v slice_out) option" where
  "skip_edges T \<sigma> depth diag sub_poss [] v = Some ([], v)"
| "skip_edges T \<sigma> depth diag sub_poss ((kp, child) # es) v = do {
     v' \<leftarrow> retrieve_subdiagonal_value T \<sigma> depth diag sub_poss kp child;
     if slice_found T v' then Some ((kp, child) # es, v') else skip_edges T \<sigma> depth diag sub_poss es v'
   }"

definition edge_value :: "'v::zero_neq_one htt \<Rightarrow> 'v node_storage \<Rightarrow> nat \<Rightarrow> node_id \<Rightarrow> 'v slice_out" where
  "edge_value T \<sigma> result_depth child =
     (if in_place_node T result_depth then
        if is_sen T child then Slice (make_with_provided_alloc T \<lparr>nc_id = child, nc_ptr = False\<rparr>)
        else Slice (make_with_provided_alloc T \<lparr>nc_id = child, nc_ptr = (find_fn \<sigma> result_depth child \<noteq> None)\<rparr>)
      else Slice (make_with_provided_alloc T (lookup T \<sigma> result_depth child)))"

definition forward_until_result ::
  "'v::zero_neq_one htt \<Rightarrow> 'v node_storage \<Rightarrow> nat \<Rightarrow> nat \<Rightarrow> bool \<Rightarrow> 'v hash_diagonal \<Rightarrow> 'v hash_diagonal option" where
  "forward_until_result T \<sigma> depth diag ignore_current h = do {
     let h1 = (if \<not> ignore_current then h
               else if depth = 1 then h\<lparr>hd_values := tl (hd_values h)\<rparr> else h\<lparr>hd_edges := tl (hd_edges h)\<rparr>);
     if 2 \<le> diag then do {
       check (\<not> hd_empty T h1);
       (es, v) \<leftarrow> skip_edges T \<sigma> depth diag (hd_sub_poss h1) (hd_edges h1) (hd_value h1);
       Some (h1\<lparr>hd_edges := es, hd_value := v\<rparr>)
     }
     else if hd_ended depth h1 then Some h1
     else if diag = depth then Some (h1\<lparr>hd_value := Scalar (snd (hd (hd_values h1)))\<rparr>)
     else Some (h1\<lparr>hd_value := edge_value T \<sigma> (depth - 1) (snd (hd (hd_edges h1)))\<rparr>)
   }"

definition hd_begin :: "'v::zero_neq_one htt \<Rightarrow> 'v node_storage \<Rightarrow> nat \<Rightarrow> nat \<Rightarrow> 'v hash_diagonal \<Rightarrow> 'v hash_diagonal option" where
  "hd_begin T \<sigma> depth diag h = do {
     fn \<leftarrow> fn_deref \<sigma> depth (hd_nodec h);
     if 1 < depth then do {
       let pos = min_card_pos_mask depth fn (hd_poss h);
       sub_poss \<leftarrow> (if 1 < diag then kp_sub depth (hd_poss h) pos else Some (hd_sub_poss h));
       forward_until_result T \<sigma> depth diag False (h\<lparr>hd_sub_poss := sub_poss, hd_edges := fn_edges fn ! pos\<rparr>)
     } else forward_until_result T \<sigma> depth diag False (h\<lparr>hd_values := fn_values fn\<rparr>)
   }"

definition hd_find ::
  "'v::zero_neq_one htt \<Rightarrow> 'v node_storage \<Rightarrow> nat \<Rightarrow> nat \<Rightarrow> 'v hash_diagonal \<Rightarrow> key_part \<Rightarrow> ('v hash_diagonal \<times> bool) option" where
  "hd_find T \<sigma> depth diag h kp = do {
     v \<leftarrow> diagonal_slice T \<sigma> depth diag (hd_nodec h) (hd_poss h) kp (diag < depth);
     Some (h\<lparr>hd_value := v\<rparr>, slice_found T v)
   }"

definition hd_current_key_part :: "nat \<Rightarrow> 'v hash_diagonal \<Rightarrow> key_part option" where
  "hd_current_key_part depth h =
     (if hd_ended depth h then None
      else if depth = 1 then Some (fst (hd (hd_values h))) else Some (fst (hd (hd_edges h))))"

definition hd_deref :: "nat \<Rightarrow> 'v hash_diagonal \<Rightarrow> (key_part \<times> 'v slice_out) option" where
  "hd_deref depth h = map_option (\<lambda>kp. (kp, hd_value h)) (hd_current_key_part depth h)"

definition hd_inc :: "'v::zero_neq_one htt \<Rightarrow> 'v node_storage \<Rightarrow> nat \<Rightarrow> nat \<Rightarrow> 'v hash_diagonal \<Rightarrow> 'v hash_diagonal option" where
  "hd_inc T \<sigma> depth diag h = forward_until_result T \<sigma> depth diag True h"

definition hd_size :: "'v htt \<Rightarrow> 'v node_storage \<Rightarrow> nat \<Rightarrow> 'v hash_diagonal \<Rightarrow> nat option" where
  "hd_size T \<sigma> depth h =
     (if hd_empty T h then Some 0
      else map_option (\<lambda>fn. if 1 < depth then length (fn_edges fn ! min_card_pos_mask depth fn (hd_poss h)) else fn_size depth fn)
             (fn_deref \<sigma> depth (hd_nodec h)))"

subsection \<open>Diagonals of single-entry nodes\<close>

record 'v sen_diagonal =
  sd_nodec :: node_container
  sd_value :: "key_part \<times> 'v slice_out"
  sd_ended :: bool
  sd_is_diagonal :: bool
  sd_poss :: raw_key_positions

text \<open>The constructor, given the node the container points to: a stored one, or one that a handle
  without a context owns.\<close>

definition sen_diagonal_of ::
  "'v::zero_neq_one htt \<Rightarrow> nat \<Rightarrow> nat \<Rightarrow> node_container \<Rightarrow> 'v sen_node option \<Rightarrow> raw_key_positions \<Rightarrow> 'v sen_diagonal option" where
  "sen_diagonal_of T depth diag c node_ptr m =
     (if in_place_node T depth then
        map_option (\<lambda>e. \<lparr>sd_nodec = c, sd_value = (fst e ! 0, Scalar 1), sd_ended = True, sd_is_diagonal = True, sd_poss = m\<rparr>)
          (get_entry T (nc_id c))
      else do {
        node \<leftarrow> node_ptr;
        pos \<leftarrow> kp_first_pos depth m;
        let kp = sn_key node ! pos;
        Some (case kp_slice diag m (sn_key node) kp of
            None \<Rightarrow> \<lparr>sd_nodec = c, sd_value = (kp, if diag = depth then Scalar 0 else Slice empty_slice_result),
              sd_ended = True, sd_is_diagonal = False, sd_poss = m\<rparr>
          | Some key \<Rightarrow>
              \<lparr>sd_nodec = c,
                sd_value = (kp,
                  if diag = depth then Scalar (sn_value node)
                  else let e = (key, sn_value node)
                       in Slice (make_sen_with_stl_alloc True (encode_single_entry T (depth - diag) e) (Some (new_sen e 0)))),
                sd_ended = True, sd_is_diagonal = True, sd_poss = m\<rparr>)
      })"

definition new_sen_diagonal ::
  "'v::zero_neq_one htt \<Rightarrow> 'v node_storage \<Rightarrow> nat \<Rightarrow> nat \<Rightarrow> node_container \<Rightarrow> raw_key_positions \<Rightarrow> 'v sen_diagonal option" where
  "new_sen_diagonal T \<sigma> depth diag c m = sen_diagonal_of T depth diag c (sen_deref \<sigma> depth c) m"

definition sd_begin :: "'v sen_diagonal \<Rightarrow> 'v sen_diagonal" where
  "sd_begin s = (if sd_is_diagonal s then s\<lparr>sd_ended := False\<rparr> else s)"

definition sd_find :: "'v sen_diagonal \<Rightarrow> key_part \<Rightarrow> bool" where
  "sd_find s kp = (sd_is_diagonal s \<and> kp = fst (sd_value s))"

definition sd_deref :: "'v sen_diagonal \<Rightarrow> (key_part \<times> 'v slice_out) option" where
  "sd_deref s = (if sd_ended s then None else Some (sd_value s))"

definition sd_inc :: "'v sen_diagonal \<Rightarrow> 'v sen_diagonal" where
  "sd_inc s = s\<lparr>sd_ended := True\<rparr>"

definition sd_empty :: "'v sen_diagonal \<Rightarrow> bool" where
  "sd_empty s = (\<not> sd_is_diagonal s)"

definition sd_size :: "'v sen_diagonal \<Rightarrow> nat" where
  "sd_size s = of_bool (sd_is_diagonal s)"

subsection \<open>What a diagonal stands for\<close>

text \<open>The value of a key part: the value of the key that repeats it, or a slice that stands for the
  entries of the diagonal.\<close>

definition diag_denotes ::
  "'v::zero_neq_one htt \<Rightarrow> 'v node_storage \<Rightarrow> nat \<Rightarrow> raw_key_positions \<Rightarrow> key_part \<Rightarrow> 'v entry set \<Rightarrow> 'v slice_out \<Rightarrow> bool" where
  "diag_denotes T \<sigma> d m kp E out \<longleftrightarrow>
     (case out of
        Scalar v \<Rightarrow> card (kp_set d m) = d \<and> v = value_at E (replicate d kp)
      | Slice r \<Rightarrow> card (kp_set d m) < d \<and> slice_denotes T \<sigma> (d - card (kp_set d m)) (diag_entries d m kp E) r)"

definition on_diagonal :: "nat \<Rightarrow> raw_key_positions \<Rightarrow> 'v entry set \<Rightarrow> key_part \<Rightarrow> bool" where
  "on_diagonal d m E kp \<longleftrightarrow> (\<exists>e \<in> E. \<forall>p \<in> kp_set d m. fst e ! p = kp)"

lemma on_diagonal_entries:
  assumes "all_depth d E"
  shows "on_diagonal d m E kp \<longleftrightarrow> diag_entries d m kp E \<noteq> {}"
proof -
  have "kp_slice (card (kp_set d m)) m key kp \<noteq> None \<longleftrightarrow> (\<forall>p \<in> kp_set d m. key ! p = kp)" if "(key, v) \<in> E" for key v
  proof -
    have "length key = d" using assms that by (force simp: all_depth_def)
    then show ?thesis using kp_slice_closed[of key m "card (kp_set d m)" kp] by simp
  qed
  then show ?thesis by (fastforce simp: on_diagonal_def diag_entries_def)
qed

lemma full_mask: "card (kp_set d m) = d \<longleftrightarrow> kp_set d m = {..<d}"
proof
  assume "card (kp_set d m) = d"
  moreover have "kp_set d m \<subseteq> {..<d}" by (auto simp: kp_set_def)
  ultimately show "kp_set d m = {..<d}" by (intro card_subset_eq) simp_all
qed simp

lemma on_full_diagonal:
  assumes U: "universe_ok T U" and E: "entries_ok U d E" and m: "card (kp_set d m) = d"
  shows "on_diagonal d m E kp \<longleftrightarrow> value_at E (replicate d kp) \<noteq> 0"
proof -
  have eq: "(\<forall>p \<in> kp_set d m. fst e ! p = kp) \<longleftrightarrow> fst e = replicate d kp" if "e \<in> E" for e
    using entries_okD(3)[OF E that] m by (auto simp: full_mask list_eq_iff_nth_eq)
  show ?thesis
  proof
    assume "on_diagonal d m E kp"
    then obtain e where e: "e \<in> E" "fst e = replicate d kp" using eq by (auto simp: on_diagonal_def)
    then have "(replicate d kp, snd e) \<in> E" by (metis prod.collapse)
    then have "value_at E (replicate d kp) = snd e" by (rule value_at_in[OF entries_okD(4)[OF E]])
    then show "value_at E (replicate d kp) \<noteq> 0"
      using universe_okD(2)[OF U entries_okD(2)[OF E] e(1)] by (simp add: entry_ok_def)
  next
    assume "value_at E (replicate d kp) \<noteq> 0"
    then obtain v where "(replicate d kp, v) \<in> E" using value_at_out[of "replicate d kp" E] by blast
    then show "on_diagonal d m E kp" using eq by (force simp: on_diagonal_def)
  qed
qed

lemma diag_denotes_found:
  assumes U: "universe_ok T U" and E: "entries_ok U d E" and out: "diag_denotes T \<sigma> d m kp E out"
  shows "slice_found T out \<longleftrightarrow> on_diagonal d m E kp"
proof (cases out)
  case (Scalar v)
  then show ?thesis using out on_full_diagonal[OF U E] by (simp add: diag_denotes_def slice_found_def)
next
  case (Slice r)
  then have r: "card (kp_set d m) < d" "slice_denotes T \<sigma> (d - card (kp_set d m)) (diag_entries d m kp E) r"
    using out by (simp_all add: diag_denotes_def)
  have "all_depth d E" using E by (simp add: entries_ok_def)
  then show ?thesis
    using slice_denotes_empty[OF U diag_entries_ok[OF U E r(1)] r(2)] on_diagonal_entries[of d E m kp] Slice
    by (simp add: slice_found_def)
qed

lemma diagonal_slice_denotes:
  assumes "below_ok T U \<sigma> (Suc d)" "1 \<le> d" "entries_ok U d E" "present T \<sigma> d (ident T d E)" "container_ok T d E c"
  shows "\<exists>out. diagonal_slice T \<sigma> d (card (kp_set d m)) c m kp cached = Some out \<and> diag_denotes T \<sigma> d m kp E out"
proof (cases "card (kp_set d m) = d")
  case True
  then show ?thesis using diagonal_slice_spec(1)[OF assms refl] by (simp add: diag_denotes_def)
next
  case False
  moreover have "card (kp_set d m) \<le> d"
    using card_mono[of "{..<d}" "kp_set d m"] by (auto simp: kp_set_def)
  ultimately have lt: "card (kp_set d m) < d" by simp
  then show ?thesis using diagonal_slice_spec(2)[OF assms refl lt, of kp cached] by (auto simp: diag_denotes_def)
qed

subsection \<open>Iterating over the diagonal of a full node\<close>

text \<open>The node, the set it stands for and a mask that is not empty.\<close>

definition diag_node where
  "diag_node T U \<sigma> d E m c \<longleftrightarrow> below_ok T U \<sigma> (Suc d) \<and> 1 \<le> d \<and> entries_ok U d E \<and> 2 \<le> card E \<and>
     present T \<sigma> d (ident T d E) \<and> container_ok T d E c \<and> kp_set d m \<noteq> {}"

definition hd_keys :: "nat \<Rightarrow> 'v hash_diagonal \<Rightarrow> key_part list" where
  "hd_keys d h = (if d = 1 then map fst (hd_values h) else map fst (hd_edges h))"

definition hd_rest :: "nat \<Rightarrow> raw_key_positions \<Rightarrow> 'v entry set \<Rightarrow> 'v hash_diagonal \<Rightarrow> key_part list" where
  "hd_rest d m E h = filter (on_diagonal d m E) (hd_keys d h)"

definition hd_lists where
  "hd_lists T \<sigma> d m E h \<longleftrightarrow> (\<exists>fn. find_fn \<sigma> d (ident T d E) = Some fn \<and> fn_repr T d E fn \<and>
     (if d = 1 then suffix (hd_values h) (fn_values fn)
      else suffix (hd_edges h) (fn_edges fn ! min_card_pos_mask d fn m) \<and>
        (1 < card (kp_set d m) \<longrightarrow> hd_sub_poss h = sub_mask d m (min_card_pos_mask d fn m))))"

definition hd_ok where
  "hd_ok T U \<sigma> d m E h \<longleftrightarrow> diag_node T U \<sigma> d E m (hd_nodec h) \<and> hd_poss h = m \<and> hd_lists T \<sigma> d m E h \<and>
     (case hd_keys d h of [] \<Rightarrow> True | kp # kps \<Rightarrow> on_diagonal d m E kp \<and> diag_denotes T \<sigma> d m kp E (hd_value h))"

lemma edge_child:
  assumes U: "universe_ok T U" and E: "entries_ok U (Suc d) E" and d: "1 \<le> d" "p < Suc d"
    and repr: "fn_repr T (Suc d) E g" and kids: "kids_present T \<sigma> d g" and k: "(k, c) \<in> set (fn_edges g ! p)"
  shows "c = ident T d (sub_entries p k E)" "sub_entries p k E \<noteq> {}" "entries_ok U d (sub_entries p k E)"
    "present T \<sigma> d c"
proof -
  note er = edges_reprD[OF fn_reprD(3)[OF repr d(1), of p, OF d(2)]]
  show c: "c = ident T d (sub_entries p k E)" and ne: "sub_entries p k E \<noteq> {}"
    using k er(2)[of k] al_mem_iff[OF er(1), of k c] by (simp_all split: if_splits)
  show "entries_ok U d (sub_entries p k E)" by (rule entries_ok_sub[OF U E d])
  show "present T \<sigma> d c" using kids_presentD[OF kids repr d ne] c by simp
qed

lemma diag_edge:
  assumes below: "below_ok T U \<sigma> (Suc d)" and E: "entries_ok U d E" and d: "d = Suc d'" "1 \<le> d'" and p: "p < d"
    and fn: "fn_repr T d E g" "find_fn \<sigma> d i = Some g" and k: "(k, c) \<in> set (fn_edges g ! p)"
  shows "c = ident T d' (sub_entries p k E)" "sub_entries p k E \<noteq> {}" "entries_ok U d' (sub_entries p k E)"
    "present T \<sigma> d' c" "below_ok T U \<sigma> (Suc d')"
proof -
  have U: "universe_ok T U" using level_okD(1)[OF below_okD(1)[OF below, of d]] d by simp
  have "kids_present T \<sigma> d' g" using below_okD(2)[OF below, of d' i g] d fn(2) by simp
  then show "c = ident T d' (sub_entries p k E)" "sub_entries p k E \<noteq> {}" "entries_ok U d' (sub_entries p k E)"
    "present T \<sigma> d' c"
    using edge_child[of T U d' E p g \<sigma> k c] U E d p fn k by auto
  show "below_ok T U \<sigma> (Suc d')" using below_okD(3)[OF below] d by simp
qed

lemma diag_denotes_sub:
  assumes U: "universe_ok T U" and E: "entries_ok U (Suc d) E" and d: "1 \<le> d"
    and p: "p \<in> kp_set (Suc d) m"
    and out: "diag_denotes T \<sigma> d (sub_mask (Suc d) m p) kp (sub_entries p kp E) out"
  shows "diag_denotes T \<sigma> (Suc d) m kp E out"
proof -
  have pd: "p < Suc d" using p by (simp add: kp_set_def)
  have "0 < card (kp_set (Suc d) m)" using p by (auto simp: card_gt_0_iff)
  then obtain n where n: "card (kp_set (Suc d) m) = Suc n" by (cases "card (kp_set (Suc d) m)") auto
  then have c: "card (kp_set d (sub_mask (Suc d) m p)) = n"
    using kp_set_sub(2)[of p "Suc d" m] card_shifted[OF finite_kp_set p] pd by simp
  have "subkey (replicate (Suc d) kp) p = replicate d kp"
    using pd by (simp add: subkey_take_drop del: replicate_Suc) (simp add: replicate_add[symmetric])
  then have "value_at (sub_entries p kp E) (replicate d kp) = value_at E (replicate (Suc d) kp)"
    using value_at_sub[OF E U d pd, of "replicate (Suc d) kp"] pd by (simp add: nth_replicate del: replicate_Suc)
  moreover have "diag_entries d (sub_mask (Suc d) m p) kp (sub_entries p kp E) = diag_entries (Suc d) m kp E"
    using E by (intro diag_entries_sub[OF _ p]) (simp add: entries_ok_def)
  ultimately show ?thesis using out n c by (auto simp: diag_denotes_def split: slice_out.splits)
qed

lemma retrieve_subdiagonal_spec:
  assumes below: "below_ok T U \<sigma> (Suc d)" and d: "1 \<le> d" and F: "entries_ok U d F" "F \<noteq> {}"
    and pres: "present T \<sigma> d (ident T d F)" and diag: "card (kp_set d m) = diag - 1" "2 \<le> diag"
  shows "\<exists>out. retrieve_subdiagonal_value T \<sigma> (Suc d) diag m kp (ident T d F) = Some out \<and> diag_denotes T \<sigma> d m kp F out"
proof -
  have lvl: "level_ok T U \<sigma> d" using below_okD(1)[OF below d] by simp
  note U = level_okD(1)[OF lvl] and T = level_okD(2)[OF lvl]
  note child = child_container_ok[OF U F(1) pres]
  have nz: "\<not> id_empty T (ident T d F)" using ident_nonzero[OF U F(1)] F(2) by simp
  show ?thesis
  proof (cases "in_place_node T d")
    case True
    then have d1: "d = 1" "in_place_depth1 T" by (auto simp: in_place_node_def)
    have "card (kp_set d m) \<le> 1" using card_mono[of "{..<d}" "kp_set d m"] d1 by (auto simp: kp_set_def)
    then have m1: "card (kp_set d m) = d" using diag d1 by simp
    show ?thesis
    proof (cases rule: card_cases[OF entries_okD(1)[OF F(1)]])
      case (2 e)
      then have sen: "is_sen T (ident T d F)" using is_sen_ident[OF U F(1)] by simp
      obtain k where k: "e = ([k], 1)" using in_place_singleton[OF U] F(1) d1 2 by blast
      then have "get_entry T (ident T d F) = Some e" using get_entry_ident[OF U] F(1) d1 2 by simp
      moreover have "value_at F [kp] = (if k = kp then 1 else 0)"
        using value_at_in[of F "[kp]" 1] value_at_out[of "[kp]" F] 2 k by auto
      ultimately show ?thesis using True sen k d1 m1 by (simp add: retrieve_subdiagonal_value_def diag_denotes_def)
    next
      case 3
      then have fn: "\<not> is_sen T (ident T d F)" using is_sen_ident[OF U F(1)] by simp
      have c: "child_container T \<sigma> d (ident T d F) = \<lparr>nc_id = ident T d F, nc_ptr = (find_fn \<sigma> d (ident T d F) \<noteq> None)\<rparr>"
        using True fn by (simp add: child_container_def)
      have "node_get T \<sigma> d (child_container T \<sigma> d (ident T d F)) [kp] = Some (value_at F [kp])"
        by (rule node_get_spec[OF d below F(1) pres child]) (simp add: d1)
      then show ?thesis using True fn d1 m1 unfolding c
        by (simp add: retrieve_subdiagonal_value_def diag_denotes_def del: node_get.simps)
    qed (use F(2) in simp)
  next
    case False
    then have "child_container T \<sigma> d (ident T d F) = lookup T \<sigma> d (ident T d F)"
      using nz by (simp add: child_container_def)
    then show ?thesis
      using diagonal_slice_denotes[OF below d F(1) pres child, of m kp "diag < Suc d"] False diag(1)
      by (simp add: retrieve_subdiagonal_value_def)
  qed
qed

text \<open>Skipping the edges that are not on the diagonal.\<close>

lemma skip_edges_spec:
  assumes U: "universe_ok T U" and E: "entries_ok U d E"
    and get: "\<And>kp c. (kp, c) \<in> set es \<Longrightarrow> \<exists>out. retrieve_subdiagonal_value T \<sigma> d diag sub kp c = Some out \<and> diag_denotes T \<sigma> d m kp E out"
  shows "\<exists>out. skip_edges T \<sigma> d diag sub es v = Some (dropWhile (\<lambda>e. \<not> on_diagonal d m E (fst e)) es, out) \<and>
    (case dropWhile (\<lambda>e. \<not> on_diagonal d m E (fst e)) es of [] \<Rightarrow> True | e # _ \<Rightarrow> diag_denotes T \<sigma> d m (fst e) E out)"
  using get
proof (induction es arbitrary: v)
  case (Cons e es)
  obtain kp c where e: "e = (kp, c)" by (cases e)
  obtain out where out: "retrieve_subdiagonal_value T \<sigma> d diag sub kp c = Some out" "diag_denotes T \<sigma> d m kp E out"
    using Cons.prems[of kp c] e by auto
  have found: "slice_found T out \<longleftrightarrow> on_diagonal d m E kp" by (rule diag_denotes_found[OF U E out(2)])
  show ?case
  proof (cases "on_diagonal d m E kp")
    case True
    then show ?thesis using e out found by simp
  next
    case False
    obtain out' where "skip_edges T \<sigma> d diag sub es out = Some (dropWhile (\<lambda>e. \<not> on_diagonal d m E (fst e)) es, out')"
      "case dropWhile (\<lambda>e. \<not> on_diagonal d m E (fst e)) es of [] \<Rightarrow> True | e # _ \<Rightarrow> diag_denotes T \<sigma> d m (fst e) E out'"
      using Cons.IH[of out] Cons.prems by auto
    then show ?thesis using e out found False by simp
  qed
qed simp

lemma dropWhile_filter: "filter P (map f (dropWhile (\<lambda>x. \<not> P (f x)) xs)) = filter P (map f xs)"
  by (induction xs) auto

lemma suffix_dropWhile_trans: "suffix xs ys \<Longrightarrow> suffix (dropWhile P xs) ys"
  using suffix_dropWhile suffix_order.trans by blast

lemma edge_value_denotes:
  assumes U: "universe_ok T U" and F: "entries_ok U d F" "F \<noteq> {}" and pres: "present T \<sigma> d (ident T d F)"
  shows "\<exists>r. edge_value T \<sigma> d (ident T d F) = Slice r \<and> slice_denotes T \<sigma> d F r"
proof -
  have "\<not> id_empty T (ident T d F)" using ident_nonzero[OF U F(1)] F(2) by simp
  then have "edge_value T \<sigma> d (ident T d F) = Slice (make_with_provided_alloc T (child_container T \<sigma> d (ident T d F)))"
    by (simp add: edge_value_def child_container_def)
  then show ?thesis using provided_slice_denotes[OF U F(1) child_container_ok[OF U F(1) pres] pres] by blast
qed

text \<open>With a single position every edge is on the diagonal.\<close>

lemma one_position:
  assumes E: "entries_ok U (Suc d) E" and U: "universe_ok T U" and d: "1 \<le> d" and m: "kp_set (Suc d) m = {p}"
    and F: "sub_entries p k E \<noteq> {}" and out: "slice_denotes T \<sigma> d (sub_entries p k E) r"
  shows "on_diagonal (Suc d) m E k" "diag_denotes T \<sigma> (Suc d) m k E (Slice r)"
proof -
  have p: "p \<in> kp_set (Suc d) m" "p < Suc d" using m by (auto simp: kp_set_def)
  show on: "on_diagonal (Suc d) m E k" using F m by (force simp: on_diagonal_def sub_entries_def)
  have c: "card (kp_set d (sub_mask (Suc d) m p)) = 0"
    using kp_set_sub(2)[of p "Suc d" m] card_shifted[OF finite_kp_set p(1)] p m by simp
  then have none: "kp_set d (sub_mask (Suc d) m p) = {}" by simp
  have "diag_denotes T \<sigma> d (sub_mask (Suc d) m p) k (sub_entries p k E) (Slice r)"
    using out none d by (simp add: diag_denotes_def diag_entries_none)
  then show "diag_denotes T \<sigma> (Suc d) m k E (Slice r)" by (rule diag_denotes_sub[OF U E d p(1)])
qed

lemma forward_spec:
  assumes node: "diag_node T U \<sigma> d E m (hd_nodec h)" and m: "hd_poss h = m" and lists: "hd_lists T \<sigma> d m E h"
  shows "\<exists>h'. forward_until_result T \<sigma> d (card (kp_set d m)) False h = Some h' \<and> hd_ok T U \<sigma> d m E h' \<and>
    hd_rest d m E h' = hd_rest d m E h"
proof -
  have below: "below_ok T U \<sigma> (Suc d)" and d: "1 \<le> d" and E: "entries_ok U d E" "2 \<le> card E"
    and pres: "present T \<sigma> d (ident T d E)" and c: "container_ok T d E (hd_nodec h)" and ne: "kp_set d m \<noteq> {}"
    using node by (auto simp: diag_node_def)
  have U: "universe_ok T U" using level_okD(1)[OF below_okD(1)[OF below d]] by simp
  obtain fn where fn: "find_fn \<sigma> d (ident T d E) = Some fn" "fn_repr T d E fn"
    "d = 1 \<Longrightarrow> suffix (hd_values h) (fn_values fn)"
    "d \<noteq> 1 \<Longrightarrow> suffix (hd_edges h) (fn_edges fn ! min_card_pos_mask d fn m)"
    "d \<noteq> 1 \<Longrightarrow> 1 < card (kp_set d m) \<Longrightarrow> hd_sub_poss h = sub_mask d m (min_card_pos_mask d fn m)"
    using lists by (auto simp: hd_lists_def split: if_splits)
  let ?p = "min_card_pos_mask d fn m"
  have p: "?p \<in> kp_set d m" by (rule min_card_pos_mask_mem[OF E(1) fn(2) d ne])
  have pd: "?p < d" using p by (simp add: kp_set_def)
  have sub: "kp_set d m \<subseteq> {..<d}" by (auto simp: kp_set_def)
  have cd: "card (kp_set d m) \<le> d" "0 < card (kp_set d m)"
    using card_mono[OF _ sub] ne by (simp_all add: card_gt_0_iff)
  show ?thesis
  proof (cases "2 \<le> card (kp_set d m)")
    case True
    then obtain d' where d': "d = Suc d'" "1 \<le> d'" using cd by (cases d) auto
    have child: "\<exists>out. retrieve_subdiagonal_value T \<sigma> d (card (kp_set d m)) (hd_sub_poss h) kp ch = Some out \<and> diag_denotes T \<sigma> d m kp E out"
      if "(kp, ch) \<in> set (hd_edges h)" for kp ch
    proof -
      have "(kp, ch) \<in> set (fn_edges fn ! ?p)" using that fn(4) d' set_mono_suffix by fastforce
      note e = diag_edge[OF below E(1) d' pd fn(2,1) this]
      have "card (kp_set d' (sub_mask d m ?p)) = card (kp_set d m) - 1"
        using kp_set_sub(2)[OF pd, of m] card_shifted[OF finite_kp_set p] d' by simp
      from retrieve_subdiagonal_spec[OF e(5) d'(2) e(3,2) e(4)[unfolded e(1)] this True, of kp]
      obtain out where "retrieve_subdiagonal_value T \<sigma> d (card (kp_set d m)) (sub_mask d m ?p) kp ch = Some out"
        "diag_denotes T \<sigma> d' (sub_mask d m ?p) kp (sub_entries ?p kp E) out"
        using e(1) d' by auto
      then show ?thesis
        using diag_denotes_sub[OF U _ d'(2), of E ?p m \<sigma> kp out] E(1) p d' fn(5) True by auto
    qed
    define es where "es = dropWhile (\<lambda>e. \<not> on_diagonal d m E (fst e)) (hd_edges h)"
    obtain out where out: "skip_edges T \<sigma> d (card (kp_set d m)) (hd_sub_poss h) (hd_edges h) (hd_value h) = Some (es, out)"
      "case es of [] \<Rightarrow> True | e # _ \<Rightarrow> diag_denotes T \<sigma> d m (fst e) E out"
      using skip_edges_spec[OF U E(1), of "hd_edges h" \<sigma> "card (kp_set d m)" "hd_sub_poss h" m] child
      unfolding es_def by blast
    have "\<not> hd_empty T h" using ident_nonzero[OF U E(1)] E(2) container_okD(1)[OF c] by (auto simp: hd_empty_def)
    then have run: "forward_until_result T \<sigma> d (card (kp_set d m)) False h = Some (h\<lparr>hd_edges := es, hd_value := out\<rparr>)"
      using True out(1) by (simp add: forward_until_result_def)
    have head: "on_diagonal d m E (fst (hd es))" if "es \<noteq> []"
      using hd_dropWhile[of "\<lambda>e. \<not> on_diagonal d m E (fst e)" "hd_edges h"] that unfolding es_def by blast
    have "hd_lists T \<sigma> d m E (h\<lparr>hd_edges := es, hd_value := out\<rparr>)"
      using fn d' suffix_dropWhile_trans unfolding es_def by (auto simp: hd_lists_def)
    then have "hd_ok T U \<sigma> d m E (h\<lparr>hd_edges := es, hd_value := out\<rparr>)"
      using node m out(2) d'(2) head unfolding d'(1) by (cases es) (simp_all add: hd_ok_def hd_keys_def)
    moreover have "hd_rest d m E (h\<lparr>hd_edges := es, hd_value := out\<rparr>) = hd_rest d m E h"
      using d' dropWhile_filter[of "on_diagonal d m E" fst "hd_edges h"] unfolding es_def by (simp add: hd_rest_def hd_keys_def)
    ultimately show ?thesis using run by blast
  next
    case False
    then have one: "card (kp_set d m) = 1" using cd by simp
    then have mp: "kp_set d m = {?p}" using p by (auto simp: card_1_singleton_iff)
    show ?thesis
    proof (cases "hd_ended d h")
      case True
      then have "hd_keys d h = []" by (auto simp: hd_ended_def hd_keys_def split: if_splits)
      moreover have "forward_until_result T \<sigma> d (card (kp_set d m)) False h = Some h"
        using one True by (simp add: forward_until_result_def)
      ultimately show ?thesis using node m lists by (auto simp: hd_ok_def)
    next
      case more: False
      show ?thesis
      proof (cases "d = 1")
        case True
        then obtain kp v vs where vs: "hd_values h = (kp, v) # vs" using more by (cases "hd_values h") (auto simp: hd_ended_def)
        then have "(kp, v) \<in> set (fn_values fn)" using fn(3)[OF True] set_mono_suffix by fastforce
        then have kv: "([kp], v) \<in> E" using fn_repr1D[of T E fn] fn(2) True al_mem_iff by auto
        let ?h = "h\<lparr>hd_value := Scalar v\<rparr>"
        have "forward_until_result T \<sigma> d (card (kp_set d m)) False h = Some ?h"
          using one True vs more by (simp add: forward_until_result_def)
        moreover have "on_diagonal d m E kp" using kv mp pd True by (force simp: on_diagonal_def)
        moreover have "value_at E [kp] = v" by (rule value_at_in[OF entries_okD(4)[OF E(1)] kv])
        then have "diag_denotes T \<sigma> d m kp E (Scalar v)" using one True by (simp add: diag_denotes_def)
        moreover have "hd_lists T \<sigma> d m E ?h" using fn True by (auto simp: hd_lists_def)
        ultimately show ?thesis using node m vs True by (auto simp: hd_ok_def hd_keys_def hd_rest_def)
      next
        case d1: False
        then obtain d' where d': "d = Suc d'" "1 \<le> d'" using d by (cases d) auto
        obtain kp ch es where es: "hd_edges h = (kp, ch) # es" using more d1 by (cases "hd_edges h") (auto simp: hd_ended_def)
        then have "(kp, ch) \<in> set (fn_edges fn ! ?p)" using fn(4)[OF d1] set_mono_suffix by fastforce
        note e = diag_edge[OF below E(1) d' pd fn(2,1) this]
        obtain r where r: "edge_value T \<sigma> d' ch = Slice r" "slice_denotes T \<sigma> d' (sub_entries ?p kp E) r"
          using edge_value_denotes[OF U e(3,2), of \<sigma>] e(4) e(1) by auto
        let ?h = "h\<lparr>hd_value := Slice r\<rparr>"
        have "forward_until_result T \<sigma> d (card (kp_set d m)) False h = Some ?h"
          using one d1 d' es more r(1) by (simp add: forward_until_result_def)
        moreover have "on_diagonal d m E kp" "diag_denotes T \<sigma> d m kp E (Slice r)"
          using one_position[of U d' E T m ?p kp \<sigma> r] E(1) U d' mp e(2) r(2) by auto
        moreover have "hd_lists T \<sigma> d m E ?h" using fn d1 by (auto simp: hd_lists_def)
        ultimately show ?thesis using node m es d1 by (auto simp: hd_ok_def hd_keys_def hd_rest_def)
      qed
    qed
  qed
qed

lemma forward_ignore:
  "forward_until_result T \<sigma> d diag True h =
     forward_until_result T \<sigma> d diag False
       (if d = 1 then h\<lparr>hd_values := tl (hd_values h)\<rparr> else h\<lparr>hd_edges := tl (hd_edges h)\<rparr>)"
  by (simp add: forward_until_result_def)

lemma hd_lists_distinct:
  assumes "diag_node T U \<sigma> d E m c" "hd_lists T \<sigma> d m E h"
  shows "distinct (hd_keys d h)"
proof -
  have below: "below_ok T U \<sigma> (Suc d)" and d: "1 \<le> d" and E: "entries_ok U d E" and ne: "kp_set d m \<noteq> {}"
    using assms(1) by (auto simp: diag_node_def)
  obtain fn where fn: "fn_repr T d E fn" "d = 1 \<Longrightarrow> suffix (hd_values h) (fn_values fn)"
    "d \<noteq> 1 \<Longrightarrow> suffix (hd_edges h) (fn_edges fn ! min_card_pos_mask d fn m)"
    using assms(2) by (auto simp: hd_lists_def split: if_splits)
  show ?thesis
  proof (cases "d = 1")
    case True
    then have "al_ok (fn_values fn)" using fn_repr1D(1)[of T E fn] fn(1) by simp
    then show ?thesis using fn(2) True by (auto simp: hd_keys_def suffix_def)
  next
    case False
    then obtain d' where d': "d = Suc d'" "1 \<le> d'" using d by (cases d) auto
    have "min_card_pos_mask d fn m \<in> kp_set d m" by (rule min_card_pos_mask_mem[OF E fn(1) d ne])
    then have "min_card_pos_mask d fn m < Suc d'" using d' by (simp add: kp_set_def)
    from edges_reprD(1)[OF fn_reprD(3)[OF fn(1)[unfolded d'(1)] d'(2), of "min_card_pos_mask d fn m"]] this
    have "al_ok (fn_edges fn ! min_card_pos_mask d fn m)" .
    then show ?thesis using fn(3) False by (auto simp: hd_keys_def suffix_def)
  qed
qed

interpretation hd: keyed_cursor "hd_ended d" "hd_deref d" "hd_inc T \<sigma> d (card (kp_set d m))"
  "hd_ok T U \<sigma> d m E" "hd_rest d m E" "\<lambda>kp y. fst y = kp \<and> diag_denotes T \<sigma> d m kp E (snd y)"
  for T U \<sigma> d m E
proof
  fix h :: "'a hash_diagonal" assume h: "hd_ok T U \<sigma> d m E h"
  note ok = h[unfolded hd_ok_def]
  show "hd_ended d h \<longleftrightarrow> hd_rest d m E h = []"
    using h by (cases "hd_keys d h") (auto simp: hd_ended_def hd_rest_def hd_ok_def hd_keys_def split: if_splits)
  show "distinct (hd_rest d m E h)" using hd_lists_distinct[of T U \<sigma> d E m "hd_nodec h" h] ok by (simp add: hd_rest_def)
  fix x xs assume rest: "hd_rest d m E h = x # xs"
  then obtain k ks where keys: "hd_keys d h = k # ks" by (cases "hd_keys d h") (auto simp: hd_rest_def)
  then have k: "on_diagonal d m E k" "diag_denotes T \<sigma> d m k E (hd_value h)" using ok by auto
  then have x: "x = k" "xs = filter (on_diagonal d m E) ks" using rest keys by (auto simp: hd_rest_def)
  let ?h = "if d = 1 then h\<lparr>hd_values := tl (hd_values h)\<rparr> else h\<lparr>hd_edges := tl (hd_edges h)\<rparr>"
  have "hd_deref d h = Some (k, hd_value h)"
    using keys by (auto simp: hd_deref_def hd_current_key_part_def hd_ended_def hd_keys_def)
  moreover have "hd_lists T \<sigma> d m E ?h"
    using ok suffix_tl suffix_order.trans unfolding hd_lists_def by (auto split: if_splits; blast)
  then obtain h' where "hd_inc T \<sigma> d (card (kp_set d m)) h = Some h'" "hd_ok T U \<sigma> d m E h'" "hd_rest d m E h' = hd_rest d m E ?h"
    using forward_spec[of T U \<sigma> d E m ?h] ok by (auto simp: hd_inc_def forward_ignore split: if_splits)
  moreover have "hd_rest d m E ?h = xs" using x keys by (auto simp: hd_rest_def hd_keys_def map_tl)
  ultimately show "\<exists>y s'. hd_deref d h = Some y \<and> (fst y = x \<and> diag_denotes T \<sigma> d m x E (snd y)) \<and>
      hd_inc T \<sigma> d (card (kp_set d m)) h = Some s' \<and> hd_ok T U \<sigma> d m E s' \<and> hd_rest d m E s' = xs"
    using x k by auto
qed simp

lemma hd_begin_spec:
  assumes node: "diag_node T U \<sigma> d E m (hd_nodec h)" and m: "hd_poss h = m"
  shows "\<exists>h'. hd_begin T \<sigma> d (card (kp_set d m)) h = Some h' \<and> hd_ok T U \<sigma> d m E h' \<and>
    set (hd_rest d m E h') = {kp. on_diagonal d m E kp} \<and> length (hd_rest d m E h') \<le> card E"
proof -
  have below: "below_ok T U \<sigma> (Suc d)" and d: "1 \<le> d" and E: "entries_ok U d E" "2 \<le> card E"
    and pres: "present T \<sigma> d (ident T d E)" and c: "container_ok T d E (hd_nodec h)" and ne: "kp_set d m \<noteq> {}"
    using node by (auto simp: diag_node_def)
  have lvl: "level_ok T U \<sigma> d" using below_okD(1)[OF below d] by simp
  note U = level_okD(1)[OF lvl]
  obtain fn where fn: "fn_deref \<sigma> d (hd_nodec h) = Some fn" "find_fn \<sigma> d (ident T d E) = Some fn" "fn_repr T d E fn"
    using fn_deref_repr[OF lvl E pres c] by blast
  let ?p = "min_card_pos_mask d fn m"
  have p: "?p \<in> kp_set d m" by (rule min_card_pos_mask_mem[OF E(1) fn(3) d ne])
  then have pd: "?p < d" by (simp add: kp_set_def)
  define h1 where "h1 = (if d = 1 then h\<lparr>hd_values := fn_values fn\<rparr>
    else h\<lparr>hd_sub_poss := (if 1 < card (kp_set d m) then sub_mask d m ?p else hd_sub_poss h), hd_edges := fn_edges fn ! ?p\<rparr>)"
  have same: "hd_nodec h1 = hd_nodec h" "hd_poss h1 = m" using m by (simp_all add: h1_def)
  have lists: "hd_lists T \<sigma> d m E h1" using fn by (auto simp: hd_lists_def h1_def)
  then obtain h' where h': "forward_until_result T \<sigma> d (card (kp_set d m)) False h1 = Some h'" "hd_ok T U \<sigma> d m E h'"
    "hd_rest d m E h' = hd_rest d m E h1"
    using forward_spec[OF node[folded same(1)] same(2)] by blast
  have "hd_begin T \<sigma> d (card (kp_set d m)) h = Some h'"
    using h'(1) fn(1) m d kp_sub_eq[OF pd, of m] by (auto simp: hd_begin_def Let_def h1_def split: if_splits)
  moreover have keys: "set (hd_keys d h1) = (\<lambda>e. fst e ! ?p) ` E"
  proof (cases "d = 1")
    case True
    then have r: "al_ok (fn_values fn)" "\<And>k v. map_of (fn_values fn) k = Some v \<longleftrightarrow> ([k], v) \<in> E" and p0: "?p = 0"
      using fn_repr1D[of T E fn] fn(3) pd by auto
    have mem: "(k, v) \<in> set (fn_values fn) \<longleftrightarrow> ([k], v) \<in> E" for k v using al_mem_iff[OF r(1)] r(2) by simp
    have one: "\<exists>k. fst e = [k]" if "e \<in> E" for e
      using entries_okD(3)[OF E(1) that] True by (auto simp: length_Suc_conv)
    have "k \<in> fst ` set (fn_values fn) \<longleftrightarrow> k \<in> (\<lambda>e. fst e ! 0) ` E" for k
    proof
      assume "k \<in> fst ` set (fn_values fn)"
      then obtain v where "(k, v) \<in> set (fn_values fn)" by auto
      then show "k \<in> (\<lambda>e. fst e ! 0) ` E" using mem by force
    next
      assume "k \<in> (\<lambda>e. fst e ! 0) ` E"
      then obtain e where e: "e \<in> E" "k = fst e ! 0" by auto
      then have "([k], snd e) \<in> E" using one[OF e(1)] by (cases e) auto
      then show "k \<in> fst ` set (fn_values fn)" using mem by force
    qed
    then show ?thesis using True p0 by (auto simp: hd_keys_def h1_def)
  next
    case False
    then obtain d' where d': "d = Suc d'" "1 \<le> d'" using d by (cases d) auto
    note er = edges_reprD[OF fn_reprD(3)[OF fn(3)[unfolded d'(1)] d'(2) pd[unfolded d'(1)]], folded d'(1)]
    have "k \<in> set (keys_of (fn_edges fn ! ?p)) \<longleftrightarrow> sub_entries ?p k E \<noteq> {}" for k
      using er(2)[of k] al_find_None_iff[of "fn_edges fn ! ?p" k] by (simp split: if_splits)
    then show ?thesis using False by (force simp: hd_keys_def h1_def sub_entries_def)
  qed
  then have "set (hd_rest d m E h1) = {kp. on_diagonal d m E kp}"
    using p by (auto simp: hd_rest_def on_diagonal_def)
  moreover have "length (hd_rest d m E h1) \<le> card E"
  proof -
    have "length (hd_rest d m E h1) \<le> length (hd_keys d h1)" by (simp add: hd_rest_def)
    also have "\<dots> = card (set (hd_keys d h1))"
      using distinct_card[OF hd_lists_distinct[OF node lists]] by simp
    also have "\<dots> \<le> card E" unfolding keys by (rule card_image_le[OF entries_okD(1)[OF E(1)]])
    finally show ?thesis .
  qed
  ultimately show ?thesis using h' by auto
qed

text \<open>Iterating yields every key part of the diagonal once, with its value; \<open>find\<close> agrees.\<close>

lemma hash_diagonal_spec:
  assumes node: "diag_node T U \<sigma> d E m c" and diag: "card (kp_set d m) = diag" and fuel: "card E \<le> fuel"
  shows "\<exists>h ys. hd_begin T \<sigma> d diag (new_hash_diagonal d diag c m) = Some h \<and>
    run_cursor (hd_ended d) (hd_deref d) (hd_inc T \<sigma> d diag) fuel h = Some ys \<and>
    distinct (map fst ys) \<and> fst ` set ys = {kp. on_diagonal d m E kp} \<and>
    (\<forall>(kp, out) \<in> set ys. diag_denotes T \<sigma> d m kp E out)"
proof -
  let ?h0 = "new_hash_diagonal d diag c m"
  obtain h where h: "hd_begin T \<sigma> d diag ?h0 = Some h" "hd_ok T U \<sigma> d m E h"
    "set (hd_rest d m E h) = {kp. on_diagonal d m E kp}" "length (hd_rest d m E h) \<le> card E"
    using hd_begin_spec[of T U \<sigma> d E m ?h0] node diag by (auto simp: new_hash_diagonal_def)
  then obtain ys where ys: "run_cursor (hd_ended d) (hd_deref d) (hd_inc T \<sigma> d diag) fuel h = Some ys"
    "map fst ys = hd_rest d m E h" "distinct (map fst ys)" "\<forall>y \<in> set ys. fst y = fst y \<and> diag_denotes T \<sigma> d m (fst y) E (snd y)"
    using hd.run_keys[OF h(2), of fuel] fuel diag by auto
  have "fst ` set ys = {kp. on_diagonal d m E kp}" using ys(2) h(3) by (metis list.set_map)
  moreover have "\<forall>(kp, out) \<in> set ys. diag_denotes T \<sigma> d m kp E out" using ys(4) by auto
  ultimately show ?thesis using h(1) ys(1,3) by blast
qed

lemma hash_diagonal_find_spec:
  assumes node: "diag_node T U \<sigma> d E m (hd_nodec h)" and m: "hd_poss h = m" and diag: "card (kp_set d m) = diag"
  shows "\<exists>h'. hd_find T \<sigma> d diag h kp = Some (h', on_diagonal d m E kp) \<and> diag_denotes T \<sigma> d m kp E (hd_value h') \<and>
    hd_nodec h' = hd_nodec h \<and> hd_poss h' = m"
proof -
  have ctx: "below_ok T U \<sigma> (Suc d)" "1 \<le> d" "entries_ok U d E" "present T \<sigma> d (ident T d E)" "container_ok T d E (hd_nodec h)"
    using node by (auto simp: diag_node_def)
  have U: "universe_ok T U" using level_okD(1)[OF below_okD(1)[OF ctx(1,2)]] by simp
  obtain out where out: "diagonal_slice T \<sigma> d (card (kp_set d m)) (hd_nodec h) m kp (diag < d) = Some out" "diag_denotes T \<sigma> d m kp E out"
    using diagonal_slice_denotes[OF ctx, of m kp "diag < d"] by blast
  then show ?thesis using diag_denotes_found[OF U ctx(3) out(2)] m diag by (simp add: hd_find_def)
qed

subsection \<open>Iterating over the diagonal of a single-entry node\<close>

definition sd_ok where
  "sd_ok T \<sigma> d m E s \<longleftrightarrow> (\<not> sd_ended s \<longrightarrow> diag_denotes T \<sigma> d m (fst (sd_value s)) E (snd (sd_value s)))"

definition sd_rest :: "'v sen_diagonal \<Rightarrow> key_part list" where
  "sd_rest s = (if sd_ended s then [] else [fst (sd_value s)])"

interpretation sd: keyed_cursor sd_ended sd_deref "\<lambda>s. Some (sd_inc s)" "sd_ok T \<sigma> d m E" sd_rest
  "\<lambda>kp y. fst y = kp \<and> diag_denotes T \<sigma> d m kp E (snd y)"
  for T \<sigma> d m E
proof
  fix s :: "'a sen_diagonal" and x xs assume s: "sd_ok T \<sigma> d m E s" "sd_rest s = x # xs"
  then have "\<not> sd_ended s" "x = fst (sd_value s)" "xs = []" by (auto simp: sd_rest_def split: if_splits)
  then show "\<exists>y s'. sd_deref s = Some y \<and> (fst y = x \<and> diag_denotes T \<sigma> d m x E (snd y)) \<and>
      Some (sd_inc s) = Some s' \<and> sd_ok T \<sigma> d m E s' \<and> sd_rest s' = xs"
    using s(1) by (simp add: sd_rest_def sd_ok_def sd_deref_def sd_inc_def)
qed (simp_all add: sd_rest_def)

lemma on_diagonal_single: "on_diagonal d m {e} k \<longleftrightarrow> (\<forall>p \<in> kp_set d m. fst e ! p = k)"
  by (simp add: on_diagonal_def)

lemma new_sen_diagonal_run:
  assumes "\<not> in_place_node T d" "node_ptr = Some node" "kp_first_pos d m = Some p"
    "kp_slice diag m (sn_key node) (sn_key node ! p) = Some key"
  shows "sen_diagonal_of T d diag c node_ptr m = Some \<lparr>sd_nodec = c,
      sd_value = (sn_key node ! p,
        if diag = d then Scalar (sn_value node)
        else Slice (make_sen_with_stl_alloc True (encode_single_entry T (d - diag) (key, sn_value node)) (Some (new_sen (key, sn_value node) 0)))),
      sd_ended = True, sd_is_diagonal = True, sd_poss = m\<rparr>"
  using assms by (simp add: sen_diagonal_of_def Let_def)

lemma sen_diagonal_of_spec:
  assumes U: "universe_ok T U" and d: "1 \<le> d" and e: "entries_ok U d {e}"
    and node: "\<not> in_place_node T d \<Longrightarrow> \<exists>s. node_ptr = Some s \<and> sn_entry s = e"
    and c: "nc_id c = ident T d {e}" and m: "kp_set d m \<noteq> {}" "card (kp_set d m) = diag"
  shows "\<exists>s. sen_diagonal_of T d diag c node_ptr m = Some s \<and> sd_ended s \<and>
    (\<forall>k. sd_find s k \<longleftrightarrow> on_diagonal d m {e} k) \<and>
    (sd_is_diagonal s \<longrightarrow> diag_denotes T \<sigma> d m (fst (sd_value s)) {e} (snd (sd_value s)))"
proof -
  note T = universe_okD(1)[OF U]
  have key: "length (fst e) = d" using entries_okD(3)[OF e] by simp
  have val: "value_at {e} (fst e) = snd e" by (rule value_at_in) simp_all
  have sub: "kp_set d m \<subseteq> {..<d}" by (auto simp: kp_set_def)
  show ?thesis
  proof (cases "in_place_node T d")
    case True
    then have d1: "d = 1" "in_place_depth1 T" by (auto simp: in_place_node_def)
    obtain k where k: "e = ([k], 1)" using in_place_singleton[OF U] e d1 by blast
    have m0: "kp_set d m = {0}" using sub m(1) d1 by auto
    have "get_entry T (nc_id c) = Some e" using get_entry_ident[OF U] e d1 c by simp
    then show ?thesis
      using True k m0 d1 val by (auto simp: sen_diagonal_of_def sd_find_def on_diagonal_single diag_denotes_def)
  next
    case False
    obtain s where s: "node_ptr = Some s" "sn_entry s = e" using node[OF False] by blast
    then have skv: "sn_key s = fst e" "sn_value s = snd e" by (auto simp: sn_entry_def)
    obtain p where p: "kp_first_pos d m = Some p" "p \<in> kp_set d m" using kp_first_pos_Some[OF m(1)] by blast
    let ?k = "fst e ! p"
    have on: "on_diagonal d m {e} k \<longleftrightarrow> k = ?k \<and> (\<forall>q \<in> kp_set d m. fst e ! q = ?k)" for k
      using p(2) by (auto simp: on_diagonal_single)
    have closed: "kp_slice diag m (fst e) ?k =
        (if \<forall>q \<in> kp_set d m. fst e ! q = ?k then Some (free_parts (kp_set d m) (fst e)) else None)"
      using kp_slice_closed[of "fst e" m diag ?k] key m(2) by simp
    show ?thesis
    proof (cases "\<forall>q \<in> kp_set d m. fst e ! q = ?k")
      case False
      then have "kp_slice diag m (fst e) ?k = None" using closed by auto
      then show ?thesis using \<open>\<not> in_place_node T d\<close> s(1) skv p on False
        by (simp add: sen_diagonal_of_def sd_find_def Let_def)
    next
      case all: True
      let ?key = "free_parts (kp_set d m) (fst e)"
      have slice: "kp_slice diag m (fst e) ?k = Some ?key" using closed all by simp
      note run = new_sen_diagonal_run[OF \<open>\<not> in_place_node T d\<close> s(1) p(1), of diag, unfolded skv, OF slice]
      show ?thesis
      proof (cases "diag = d")
        case True
        then have "kp_set d m = {..<d}" using m(2) full_mask by blast
        then have "fst e = replicate d ?k" using all key by (auto simp: list_eq_iff_nth_eq)
        then have "value_at {e} (replicate d ?k) = snd e" using val by simp
        then show ?thesis unfolding run using on all True m(2) by (simp add: sd_find_def diag_denotes_def)
      next
        case part: False
        then have lt: "card (kp_set d m) < d" using card_mono[OF _ sub] m(2) by simp
        have "diag_entries d m ?k {e} = {(?key, snd e)}"
          using diag_entries_single[of d m ?k "fst e" "snd e"] slice m(2) by simp
        moreover have "encode_single_entry T (d - diag) (?key, snd e) = ident T (d - diag) {(?key, snd e)}"
          by (rule encode_single_entry_ident[OF T])
        ultimately have "diag_denotes T \<sigma> d m ?k {e}
            (Slice (make_sen_with_stl_alloc True (encode_single_entry T (d - diag) (?key, snd e)) (Some (new_sen (?key, snd e) 0))))"
          using lt m(2) by (simp add: diag_denotes_def slice_denotes_def make_sen_with_stl_alloc_def sn_entry_def new_sen_def)
        then show ?thesis unfolding run using on all part by (simp add: sd_find_def)
      qed
    qed
  qed
qed

lemma new_sen_diagonal_spec:
  assumes lvl: "level_ok T U \<sigma> d" and e: "entries_ok U d {e}" and pres: "present T \<sigma> d (ident T d {e})"
    and c: "container_ok T d {e} c" and m: "kp_set d m \<noteq> {}" "card (kp_set d m) = diag"
  shows "\<exists>s. new_sen_diagonal T \<sigma> d diag c m = Some s \<and> sd_ended s \<and>
    (\<forall>k. sd_find s k \<longleftrightarrow> on_diagonal d m {e} k) \<and>
    (sd_is_diagonal s \<longrightarrow> diag_denotes T \<sigma> d m (fst (sd_value s)) {e} (snd (sd_value s)))"
  unfolding new_sen_diagonal_def
  by (rule sen_diagonal_of_spec[OF level_okD(1,3)[OF lvl] e _ container_okD(1)[OF c] m])
    (rule sen_deref_entry[OF lvl e _ pres c])

lemma sen_diagonal_spec:
  assumes "level_ok T U \<sigma> d" "entries_ok U d {e}" "present T \<sigma> d (ident T d {e})"
    "container_ok T d {e} c" "kp_set d m \<noteq> {}" "card (kp_set d m) = diag"
  shows "\<exists>s ys. new_sen_diagonal T \<sigma> d diag c m = Some s \<and>
    run_cursor sd_ended sd_deref (\<lambda>s. Some (sd_inc s)) 1 (sd_begin s) = Some ys \<and>
    distinct (map fst ys) \<and> fst ` set ys = {kp. on_diagonal d m {e} kp} \<and>
    (\<forall>(kp, out) \<in> set ys. diag_denotes T \<sigma> d m kp {e} out)"
proof -
  obtain s where s: "new_sen_diagonal T \<sigma> d diag c m = Some s" "sd_ended s"
    "\<And>k. sd_find s k \<longleftrightarrow> on_diagonal d m {e} k"
    "sd_is_diagonal s \<Longrightarrow> diag_denotes T \<sigma> d m (fst (sd_value s)) {e} (snd (sd_value s))"
    using new_sen_diagonal_spec[OF assms] by blast
  have ok: "sd_ok T \<sigma> d m {e} (sd_begin s)" using s by (simp add: sd_ok_def sd_begin_def)
  have rest: "set (sd_rest (sd_begin s)) = {kp. on_diagonal d m {e} kp}"
    using s(2) by (auto simp: s(3)[symmetric] sd_rest_def sd_begin_def sd_find_def)
  have short: "length (sd_rest (sd_begin s)) \<le> 1" by (simp add: sd_rest_def)
  obtain ys where ys: "run_cursor sd_ended sd_deref (\<lambda>s. Some (sd_inc s)) 1 (sd_begin s) = Some ys"
    "map fst ys = sd_rest (sd_begin s)" "distinct (map fst ys)"
    "\<forall>y \<in> set ys. fst y = fst y \<and> diag_denotes T \<sigma> d m (fst y) {e} (snd y)"
    using sd.run_keys[OF ok, of 1] short by blast
  have "fst ` set ys = {kp. on_diagonal d m {e} kp}" using ys(2) rest by (metis list.set_map)
  moreover have "\<forall>(kp, out) \<in> set ys. diag_denotes T \<sigma> d m kp {e} out" using ys(4) by auto
  ultimately show ?thesis using s(1) ys(1,3) by blast
qed

end
