(* ===== verification/Hash_Diagonal.thy ===== *)
theory Hash_Diagonal
  imports Raw_Diagonal Hypertrie_Handle
begin

text \<open>
  The diagonal of a hypertrie (HashDiagonal.hpp): the handle decides which of the raw diagonals is
  used, for a full node, for a single-entry node of the context, or for a single-entry node that a
  handle without a context owns. The table of methods of the source is the case distinction.
\<close>

subsection \<open>The dispatch\<close>

datatype 'v raw_diagonal = FN_Diagonal "'v hash_diagonal" | SEN_Diagonal "'v sen_diagonal"

record 'v diagonal =
  dg_raw :: "'v raw_diagonal"
  dg_depth :: nat
  dg_diag :: nat
  dg_contextless :: bool

text \<open>The rows of the table of methods: for a full node, a single-entry node of the context, and a
  single-entry node allocated with the standard allocator.\<close>

datatype raw_methods = FN_Methods | SEN_Methods | STL_SEN_Methods

definition get_raw_methods :: "bool \<Rightarrow> bool \<Rightarrow> raw_methods option" where
  "get_raw_methods full_node tri_alloc = do {
     check (\<not> (full_node \<and> \<not> tri_alloc));
     Some (if full_node then FN_Methods else if tri_alloc then SEN_Methods else STL_SEN_Methods)
   }"

definition construct_diagonal ::
  "'v::zero_neq_one htt \<Rightarrow> 'v node_storage \<Rightarrow> raw_methods \<Rightarrow> nat \<Rightarrow> nat \<Rightarrow> 'v hypertrie \<Rightarrow> raw_key_positions \<Rightarrow> 'v raw_diagonal option" where
  "construct_diagonal T \<sigma> methods depth diag h m = (case methods of
       FN_Methods \<Rightarrow> Some (FN_Diagonal (new_hash_diagonal depth diag (ht_container h) m))
     | SEN_Methods \<Rightarrow> map_option SEN_Diagonal (sen_diagonal_of T depth diag (ht_container h) (sen_deref \<sigma> depth (ht_container h)) m)
     | STL_SEN_Methods \<Rightarrow> map_option SEN_Diagonal (sen_diagonal_of T depth diag (ht_container h) (own_node h) m))"

definition new_diagonal ::
  "'v::zero_neq_one htt \<Rightarrow> 'v node_storage \<Rightarrow> 'v hypertrie \<Rightarrow> raw_key_positions \<Rightarrow> 'v diagonal option" where
  "new_diagonal T \<sigma> h m = do {
     let depth = ht_depth h;
     let diag = kp_count hypertrie_max_depth m;
     n \<leftarrow> ht_size T \<sigma> h;
     methods \<leftarrow> get_raw_methods (1 < n) (\<not> ht_contextless h);
     raw \<leftarrow> construct_diagonal T \<sigma> methods depth diag h m;
     Some \<lparr>dg_raw = raw, dg_depth = depth, dg_diag = diag, dg_contextless = ht_contextless h\<rparr>
   }"

definition dg_begin :: "'v::zero_neq_one htt \<Rightarrow> 'v node_storage \<Rightarrow> 'v diagonal \<Rightarrow> 'v diagonal option" where
  "dg_begin T \<sigma> g = (case dg_raw g of
       FN_Diagonal h \<Rightarrow> map_option (\<lambda>h'. g\<lparr>dg_raw := FN_Diagonal h'\<rparr>) (hd_begin T \<sigma> (dg_depth g) (dg_diag g) h)
     | SEN_Diagonal s \<Rightarrow> Some (g\<lparr>dg_raw := SEN_Diagonal (sd_begin s)\<rparr>))"

definition dg_ended :: "'v diagonal \<Rightarrow> bool" where
  "dg_ended g = (case dg_raw g of FN_Diagonal h \<Rightarrow> hd_ended (dg_depth g) h | SEN_Diagonal s \<Rightarrow> sd_ended s)"

definition dg_current_key_part :: "'v diagonal \<Rightarrow> key_part option" where
  "dg_current_key_part g =
     (if dg_ended g then None
      else case dg_raw g of
        FN_Diagonal h \<Rightarrow> hd_current_key_part (dg_depth g) h
      | SEN_Diagonal s \<Rightarrow> Some (fst (sd_value s)))"

definition dg_value :: "'v diagonal \<Rightarrow> 'v slice_out" where
  "dg_value g = (case dg_raw g of FN_Diagonal h \<Rightarrow> hd_value h | SEN_Diagonal s \<Rightarrow> snd (sd_value s))"

definition dg_current_hypertrie :: "'v htt \<Rightarrow> 'v diagonal \<Rightarrow> 'v hypertrie option" where
  "dg_current_hypertrie T g =
     (let depth = dg_depth g - dg_diag g in
      case dg_value g of
        Scalar v \<Rightarrow> None
      | Slice r \<Rightarrow> Some (
          if sr_provided_alloc r then
            make_const_hypertrie T depth (dg_contextless g) True (slice_result_id r)
              (case sr_container r of SEN_Of c \<Rightarrow> container_ptr c | FN_Of c \<Rightarrow> container_ptr c | STL_SEN i n \<Rightarrow> Null_Ptr)
          else make_const_hypertrie T depth True True (slice_result_id r)
            (case sr_container r of STL_SEN i (Some s) \<Rightarrow> Own_Node unplaced s | _ \<Rightarrow> Null_Ptr)))"

definition dg_current_scalar :: "'v diagonal \<Rightarrow> 'v option" where
  "dg_current_scalar g = (case dg_value g of Scalar v \<Rightarrow> Some v | Slice r \<Rightarrow> None)"

definition dg_find ::
  "'v::zero_neq_one htt \<Rightarrow> 'v node_storage \<Rightarrow> 'v diagonal \<Rightarrow> key_part \<Rightarrow> ('v diagonal \<times> bool) option" where
  "dg_find T \<sigma> g kp = (case dg_raw g of
       FN_Diagonal h \<Rightarrow> map_option (\<lambda>(h', found). (g\<lparr>dg_raw := FN_Diagonal h'\<rparr>, found))
         (hd_find T \<sigma> (dg_depth g) (dg_diag g) h kp)
     | SEN_Diagonal s \<Rightarrow> Some (g, sd_find s kp))"

definition dg_inc :: "'v::zero_neq_one htt \<Rightarrow> 'v node_storage \<Rightarrow> 'v diagonal \<Rightarrow> 'v diagonal option" where
  "dg_inc T \<sigma> g = (case dg_raw g of
       FN_Diagonal h \<Rightarrow> map_option (\<lambda>h'. g\<lparr>dg_raw := FN_Diagonal h'\<rparr>) (hd_inc T \<sigma> (dg_depth g) (dg_diag g) h)
     | SEN_Diagonal s \<Rightarrow> Some (g\<lparr>dg_raw := SEN_Diagonal (sd_inc s)\<rparr>))"

definition dg_size :: "'v htt \<Rightarrow> 'v node_storage \<Rightarrow> 'v diagonal \<Rightarrow> nat option" where
  "dg_size T \<sigma> g = (case dg_raw g of
       FN_Diagonal h \<Rightarrow> hd_size T \<sigma> (dg_depth g) h
     | SEN_Diagonal s \<Rightarrow> Some (sd_size s))"

definition dg_deref :: "'v diagonal \<Rightarrow> (key_part \<times> 'v slice_out) option" where
  "dg_deref g = map_option (\<lambda>kp. (kp, dg_value g)) (dg_current_key_part g)"

subsection \<open>What a diagonal stands for\<close>

text \<open>A diagonal that can be probed, and one over which the iteration has begun.\<close>

definition sen_probe where
  "sen_probe T \<sigma> d m E s \<longleftrightarrow> (\<exists>e. E = {e}) \<and> (sd_is_diagonal s \<or> sd_ended s) \<and> (\<forall>k. sd_find s k \<longleftrightarrow> on_diagonal d m E k) \<and>
     (sd_is_diagonal s \<longrightarrow> diag_denotes T \<sigma> d m (fst (sd_value s)) E (snd (sd_value s)) \<and>
       (\<forall>r. snd (sd_value s) = Slice r \<longrightarrow> \<not> sr_provided_alloc r))"

definition dg_ok where
  "dg_ok T U \<sigma> d m E g \<longleftrightarrow> dg_depth g = d \<and> dg_diag g = card (kp_set d m) \<and> kp_set d m \<noteq> {} \<and> 1 \<le> d \<and>
     universe_ok T U \<and> entries_ok U d E \<and>
     (case dg_raw g of
        FN_Diagonal h \<Rightarrow> diag_node T U \<sigma> d E m (hd_nodec h) \<and> hd_poss h = m \<and> \<not> dg_contextless g
      | SEN_Diagonal s \<Rightarrow> sen_probe T \<sigma> d m E s)"

definition dg_iter where
  "dg_iter T U \<sigma> d m E g \<longleftrightarrow> dg_ok T U \<sigma> d m E g \<and>
     (case dg_raw g of FN_Diagonal h \<Rightarrow> hd_ok T U \<sigma> d m E h | SEN_Diagonal s \<Rightarrow> sd_ok T \<sigma> d m E s)"

definition dg_rest :: "nat \<Rightarrow> raw_key_positions \<Rightarrow> 'v entry set \<Rightarrow> 'v diagonal \<Rightarrow> key_part list" where
  "dg_rest d m E g = (case dg_raw g of FN_Diagonal h \<Rightarrow> hd_rest d m E h | SEN_Diagonal s \<Rightarrow> sd_rest s)"

lemma sen_diagonal_of_alloc:
  "sen_diagonal_of T d diag c node_ptr m = Some s \<Longrightarrow> sd_is_diagonal s \<Longrightarrow> snd (sd_value s) = Slice r \<Longrightarrow> \<not> sr_provided_alloc r"
  by (auto simp: sen_diagonal_of_def Let_def make_sen_with_stl_alloc_def bind_eq_Some_conv split: if_splits option.splits)

lemma new_diagonal_spec:
  assumes below: "below_ok T U \<sigma> (Suc d)" and h: "handle_denotes T U \<sigma> d E h" and E: "E \<noteq> {}"
    and m: "kp_set d m \<noteq> {}" "kp_set hypertrie_max_depth m = kp_set d m"
  shows "\<exists>g. new_diagonal T \<sigma> h m = Some g \<and> dg_ok T U \<sigma> d m E g"
proof -
  note hd = handle_denotesD[OF h]
  have lvl: "level_ok T U \<sigma> d" using below_okD(1)[OF below, of d] hd(2) by simp
  note U = level_okD(1)[OF lvl] and n = ht_size_spec[OF below h]
  have diag: "kp_count hypertrie_max_depth m = card (kp_set d m)" using m(2) by (simp add: kp_count_card)
  have fin: "finite E" by (rule entries_okD(1)[OF hd(3)])
  show ?thesis
  proof (cases "2 \<le> card E")
    case True
    then have nc: "\<not> ht_contextless h" using hd(7) by fastforce
    have "diag_node T U \<sigma> d E m (ht_container h)"
      using below hd(2,3) hd(5,6)[OF nc] True m(1) by (simp add: diag_node_def)
    then show ?thesis using n diag hd(1-3) nc True m(1) U
      by (simp add: new_diagonal_def get_raw_methods_def construct_diagonal_def dg_ok_def new_hash_diagonal_def Let_def)
  next
    case False
    then have "card E = 1" using E fin by (metis One_nat_def Suc_1 Suc_leI card_gt_0_iff le_antisym not_less_eq_eq)
    then obtain e where e: "E = {e}" by (auto simp: card_1_singleton_iff)
    let ?node = "if ht_contextless h then own_node h else sen_deref \<sigma> d (ht_container h)"
    have node: "\<exists>s. ?node = Some s \<and> sn_entry s = e" if "\<not> in_place_node T d"
      using hd(8)[OF _ e that] sen_deref_entry[OF lvl hd(3)[unfolded e] that _ _] hd(5,6) e by (cases "ht_contextless h") auto
    have id: "nc_id (ht_container h) = ident T d {e}" using hd(4) e by (simp add: ht_container_def)
    obtain s where s: "sen_diagonal_of T d (card (kp_set d m)) (ht_container h) ?node m = Some s" "sd_ended s"
        "\<forall>k. sd_find s k \<longleftrightarrow> on_diagonal d m {e} k"
        "sd_is_diagonal s \<longrightarrow> diag_denotes T \<sigma> d m (fst (sd_value s)) {e} (snd (sd_value s))"
      using sen_diagonal_of_spec[OF U hd(2) hd(3)[unfolded e] node id m(1) refl] by blast
    have "sen_probe T \<sigma> d m E s" using s(2-4) sen_diagonal_of_alloc[OF s(1)] e by (simp add: sen_probe_def)
    then show ?thesis using n diag hd(1-3) s(1) m(1) U \<open>card E = 1\<close>
      by (cases "ht_contextless h") (simp_all add: new_diagonal_def get_raw_methods_def construct_diagonal_def dg_ok_def Let_def)
  qed
qed

lemma dg_begin_spec:
  assumes ok: "dg_ok T U \<sigma> d m E g"
  shows "\<exists>g'. dg_begin T \<sigma> g = Some g' \<and> dg_iter T U \<sigma> d m E g' \<and>
    set (dg_rest d m E g') = {kp. on_diagonal d m E kp}"
proof (cases "dg_raw g")
  case (FN_Diagonal h)
  then have h: "diag_node T U \<sigma> d E m (hd_nodec h)" "hd_poss h = m" using ok by (auto simp: dg_ok_def)
  from hd_begin_spec[OF this] obtain h' where h': "hd_begin T \<sigma> d (card (kp_set d m)) h = Some h'" "hd_ok T U \<sigma> d m E h'"
    "set (hd_rest d m E h') = {kp. on_diagonal d m E kp}" by blast
  then show ?thesis using ok FN_Diagonal by (auto simp: dg_begin_def dg_ok_def dg_iter_def dg_rest_def hd_ok_def)
next
  case (SEN_Diagonal s)
  then have s: "sen_probe T \<sigma> d m E s" using ok by (simp add: dg_ok_def)
  then have "sen_probe T \<sigma> d m E (sd_begin s)" by (cases "sd_is_diagonal s") (simp_all add: sen_probe_def sd_begin_def sd_find_def)
  moreover have "sd_ok T \<sigma> d m E (sd_begin s)" using s by (auto simp: sd_ok_def sd_begin_def sen_probe_def)
  moreover have "set (sd_rest (sd_begin s)) = {kp. on_diagonal d m E kp}"
    using s by (auto simp: sd_rest_def sd_begin_def sen_probe_def sd_find_def)
  ultimately show ?thesis using ok SEN_Diagonal by (auto simp: dg_begin_def dg_ok_def dg_iter_def dg_rest_def)
qed

interpretation dg: keyed_cursor dg_ended dg_deref "dg_inc T \<sigma>"
  "dg_iter T U \<sigma> d m E" "dg_rest d m E" "\<lambda>kp y. fst y = kp \<and> diag_denotes T \<sigma> d m kp E (snd y)"
  for T U \<sigma> d m E
proof
  fix g :: "'a diagonal" assume g: "dg_iter T U \<sigma> d m E g"
  show "dg_ended g \<longleftrightarrow> dg_rest d m E g = []"
    using g hd.end_iff[of T U \<sigma> d m E] by (auto simp: dg_iter_def dg_ok_def dg_ended_def dg_rest_def sd_rest_def split: raw_diagonal.splits)
  show "distinct (dg_rest d m E g)"
    using g hd.distinct_rest[of T U \<sigma> d m E] by (auto simp: dg_iter_def dg_rest_def sd_rest_def split: raw_diagonal.splits)
  fix x xs assume rest: "dg_rest d m E g = x # xs"
  show "\<exists>y g'. dg_deref g = Some y \<and> (fst y = x \<and> diag_denotes T \<sigma> d m x E (snd y)) \<and>
      dg_inc T \<sigma> g = Some g' \<and> dg_iter T U \<sigma> d m E g' \<and> dg_rest d m E g' = xs"
  proof (cases "dg_raw g")
    case (FN_Diagonal h)
    then have h: "hd_ok T U \<sigma> d m E h" "hd_rest d m E h = x # xs" using g rest by (auto simp: dg_iter_def dg_rest_def)
    from hd.step[OF this] obtain y h' where h': "hd_deref d h = Some y" "fst y = x" "diag_denotes T \<sigma> d m x E (snd y)"
      "hd_inc T \<sigma> d (card (kp_set d m)) h = Some h'" "hd_ok T U \<sigma> d m E h'" "hd_rest d m E h' = xs" by blast
    have "dg_deref g = Some y"
      using h'(1) g FN_Diagonal
      by (auto simp: dg_deref_def dg_current_key_part_def dg_ended_def dg_value_def hd_deref_def hd_current_key_part_def
          dg_iter_def dg_ok_def)
    then show ?thesis using h' g FN_Diagonal
      by (auto simp: dg_inc_def dg_iter_def dg_ok_def dg_rest_def hd_ok_def)
  next
    case (SEN_Diagonal s)
    then have s: "sd_ok T \<sigma> d m E s" "sd_rest s = x # xs" using g rest by (auto simp: dg_iter_def dg_rest_def)
    then have "\<not> sd_ended s" "x = fst (sd_value s)" "xs = []" by (auto simp: sd_rest_def split: if_splits)
    then show ?thesis using s(1) g SEN_Diagonal
      by (auto simp: dg_deref_def dg_current_key_part_def dg_ended_def dg_value_def dg_inc_def dg_iter_def dg_ok_def
          dg_rest_def sd_rest_def sd_inc_def sd_ok_def sen_probe_def sd_find_def)
  qed
qed simp

lemma dg_find_spec:
  assumes ok: "dg_ok T U \<sigma> d m E g"
  shows "\<exists>g'. dg_find T \<sigma> g kp = Some (g', on_diagonal d m E kp) \<and> dg_ok T U \<sigma> d m E g' \<and>
    (on_diagonal d m E kp \<longrightarrow> diag_denotes T \<sigma> d m kp E (dg_value g'))"
proof (cases "dg_raw g")
  case (FN_Diagonal h)
  then have h: "diag_node T U \<sigma> d E m (hd_nodec h)" "hd_poss h = m" using ok by (auto simp: dg_ok_def)
  obtain h' where h': "hd_find T \<sigma> d (card (kp_set d m)) h kp = Some (h', on_diagonal d m E kp)"
    "diag_denotes T \<sigma> d m kp E (hd_value h')" "hd_nodec h' = hd_nodec h" "hd_poss h' = m"
    using hash_diagonal_find_spec[OF h refl] by blast
  have "dg_find T \<sigma> g kp = Some (g\<lparr>dg_raw := FN_Diagonal h'\<rparr>, on_diagonal d m E kp)"
    using ok FN_Diagonal h'(1) by (simp add: dg_find_def dg_ok_def)
  moreover have "dg_ok T U \<sigma> d m E (g\<lparr>dg_raw := FN_Diagonal h'\<rparr>)" using ok FN_Diagonal h'(3,4) by (simp add: dg_ok_def)
  moreover have "diag_denotes T \<sigma> d m kp E (dg_value (g\<lparr>dg_raw := FN_Diagonal h'\<rparr>))" using h'(2) by (simp add: dg_value_def)
  ultimately show ?thesis by blast
next
  case (SEN_Diagonal s)
  then have p: "sen_probe T \<sigma> d m E s" using ok by (simp add: dg_ok_def)
  have "diag_denotes T \<sigma> d m kp E (snd (sd_value s))" if "on_diagonal d m E kp"
  proof -
    have "sd_is_diagonal s" "kp = fst (sd_value s)" using that p by (auto simp: sen_probe_def sd_find_def)
    then show ?thesis using p by (simp add: sen_probe_def)
  qed
  moreover have "sd_find s kp \<longleftrightarrow> on_diagonal d m E kp" using p by (simp add: sen_probe_def)
  ultimately show ?thesis using ok SEN_Diagonal by (simp add: dg_find_def dg_value_def)
qed

text \<open>The result of a partial diagonal is a handle to the entries of the slice.\<close>

lemma dg_current_hypertrie_spec:
  assumes ok: "dg_ok T U \<sigma> d m E g" and kp: "on_diagonal d m E kp" and v: "diag_denotes T \<sigma> d m kp E (dg_value g)"
    and part: "card (kp_set d m) < d"
  shows "\<exists>h. dg_current_hypertrie T g = Some h \<and>
    handle_denotes T U \<sigma> (d - card (kp_set d m)) (diag_entries d m kp E) h"
proof -
  let ?r = "d - card (kp_set d m)" and ?F = "diag_entries d m kp E"
  have g: "dg_depth g = d" "dg_diag g = card (kp_set d m)" "universe_ok T U" "entries_ok U d E" using ok by (auto simp: dg_ok_def)
  have F: "entries_ok U ?r ?F" by (rule diag_entries_ok[OF g(3,4) part])
  have r: "1 \<le> ?r" using part by simp
  obtain x where x: "dg_value g = Slice x" "slice_denotes T \<sigma> ?r ?F x"
    using v part by (auto simp: diag_denotes_def split: slice_out.splits)
  have alloc: "dg_contextless g \<longrightarrow> \<not> sr_provided_alloc x"
    using ok kp x(1) by (auto simp: dg_ok_def dg_value_def sen_probe_def sd_find_def split: raw_diagonal.splits)
  have "handle_denotes T U \<sigma> ?r ?F (the (dg_current_hypertrie T g))"
    using x alloc F r g(1,2)
    by (auto simp: dg_current_hypertrie_def slice_denotes_def handle_denotes_def make_const_hypertrie_def slice_result_id_def
        ht_container_def container_ptr_def container_ok_def own_node_def Let_def split: slice_container.splits option.splits)
  then show ?thesis using x(1) by (simp add: dg_current_hypertrie_def Let_def)
qed

end
