(* ===== verification/Permutation_Sort.thy ===== *)
theory Permutation_Sort
  imports Prelude
begin

text \<open>
  Sorting several vectors by one of them (internal/util/PermutationSort.hpp): a permutation that sorts
  the first vector is computed, and applied to each of the vectors in place, cycle by cycle.
\<close>

subsection \<open>The permutation\<close>

definition default_permutation :: "nat \<Rightarrow> nat list" where
  "default_permutation n = [0..<n]"

text \<open>\<open>std::sort\<close> orders the positions by the keys of their elements; the order of equal ones, which it
  leaves open, is that of the positions here.\<close>

definition sort_permutation :: "nat list \<Rightarrow> nat list" where
  "sort_permutation keys = sort_key (\<lambda>i. keys ! i) (default_permutation (length keys))"

definition is_permutation :: "nat \<Rightarrow> nat list \<Rightarrow> bool" where
  "is_permutation n p \<longleftrightarrow> distinct p \<and> set p = {..<n}"

lemma sort_permutation_ok: "is_permutation (length keys) (sort_permutation keys)"
  by (auto simp: is_permutation_def sort_permutation_def default_permutation_def)

lemma sort_permutation_sorted: "sorted (map (nth keys) (sort_permutation keys))"
  by (simp add: sort_permutation_def)

lemma is_permutation_length: "is_permutation n p \<Longrightarrow> length p = n"
  using distinct_card[of p] by (simp add: is_permutation_def)

lemma is_permutation_nth: "is_permutation n p \<Longrightarrow> k < n \<Longrightarrow> p ! k < n"
  using is_permutation_length[of n p] nth_mem[of k p] by (auto simp: is_permutation_def)

lemma is_permutation_inj: "is_permutation n p \<Longrightarrow> k < n \<Longrightarrow> l < n \<Longrightarrow> p ! k = p ! l \<Longrightarrow> k = l"
  using is_permutation_length[of n p] nth_eq_iff_index_eq[of p k l] by (simp add: is_permutation_def)

subsection \<open>Applying it in place\<close>

definition swap_at :: "'a list \<Rightarrow> nat \<Rightarrow> nat \<Rightarrow> 'a list" where
  "swap_at vec a b = vec[a := vec ! b, b := vec ! a]"

text \<open>The inner loop follows the cycle of \<open>i\<close>; it would not end for a vector that is no permutation.\<close>

partial_function (option) apply_cycle ::
  "nat list \<Rightarrow> nat \<Rightarrow> 'a list \<Rightarrow> bool list \<Rightarrow> nat \<Rightarrow> nat \<Rightarrow> ('a list \<times> bool list) option" where
  "apply_cycle p i vec done0 prev_j j =
     (if i = j then Some (vec, done0)
      else if j < length vec \<and> j < length p then
        apply_cycle p i (swap_at vec prev_j j) (done0[j := True]) j (p ! j)
      else None)"

definition apply_step :: "nat list \<Rightarrow> 'a list \<times> bool list \<Rightarrow> nat \<Rightarrow> ('a list \<times> bool list) option" where
  "apply_step p st i = (case st of (vec, done0) \<Rightarrow>
     if done0 ! i then Some (vec, done0) else apply_cycle p i vec (done0[i := True]) i (p ! i))"

definition apply_permutation :: "'a list \<Rightarrow> nat list \<Rightarrow> 'a list option" where
  "apply_permutation vec p =
     map_option fst (foldM (apply_step p) [0..<length vec] (vec, replicate (length vec) False))"

subsection \<open>What applying does\<close>

text \<open>The elements that are done have their final value, the others their first one; a done position is
  reached from a done position.\<close>

definition cycles_done :: "'a list \<Rightarrow> nat list \<Rightarrow> 'a list \<Rightarrow> bool list \<Rightarrow> bool" where
  "cycles_done old p vec done0 \<longleftrightarrow> length vec = length old \<and> length done0 = length old \<and>
     (\<forall>k < length old. vec ! k = (if done0 ! k then old ! (p ! k) else old ! k)) \<and>
     (\<forall>k < length old. done0 ! k \<longrightarrow> (\<exists>l < length old. done0 ! l \<and> p ! l = k))"

definition on_cycle :: "'a list \<Rightarrow> nat list \<Rightarrow> nat \<Rightarrow> 'a list \<Rightarrow> bool list \<Rightarrow> nat \<Rightarrow> bool" where
  "on_cycle old p i vec done0 prev \<longleftrightarrow> length vec = length old \<and> length done0 = length old \<and>
     i < length old \<and> prev < length old \<and> done0 ! i \<and> done0 ! prev \<and> vec ! prev = old ! i \<and>
     (\<forall>k < length old. k \<noteq> prev \<longrightarrow> vec ! k = (if done0 ! k then old ! (p ! k) else old ! k)) \<and>
     (\<forall>k < length old. done0 ! k \<longrightarrow> k = i \<or> (\<exists>l < length old. done0 ! l \<and> l \<noteq> prev \<and> p ! l = k))"

definition undone :: "bool list \<Rightarrow> nat set" where
  "undone done0 = {k. k < length done0 \<and> \<not> done0 ! k}"

lemma undone_update: "j < length done0 \<Longrightarrow> \<not> done0 ! j \<Longrightarrow> card (undone (done0[j := True])) < card (undone done0)"
  by (rule psubset_card_mono) (auto simp: undone_def nth_list_update split: if_splits)

lemma on_cycle_step:
  assumes p: "is_permutation (length old) p" and c: "on_cycle old p i vec done0 prev" and j: "p ! prev \<noteq> i"
  shows "\<not> done0 ! (p ! prev)" "on_cycle old p i (swap_at vec prev (p ! prev)) (done0[p ! prev := True]) (p ! prev)"
proof -
  let ?j = "p ! prev"
  note c' = c[unfolded on_cycle_def]
  have pr: "done0 ! prev" "prev < length old" "length done0 = length old" "length vec = length old" "done0 ! i" "i < length old"
    using c' by blast+
  have jl: "?j < length old" by (rule is_permutation_nth[OF p pr(2)])
  show nd: "\<not> done0 ! ?j"
  proof
    assume "done0 ! ?j"
    then obtain l where "l < length old" "l \<noteq> prev" "p ! l = ?j" using c' jl j by blast
    then show False using is_permutation_inj[OF p] c' by blast
  qed
  then have ne: "?j \<noteq> prev" "i \<noteq> ?j" using c' by auto
  have reached: "\<exists>l < length old. (done0[?j := True]) ! l \<and> l \<noteq> ?j \<and> p ! l = k"
    if k: "k < length old" "(done0[?j := True]) ! k" "k \<noteq> i" for k
  proof (cases "k = ?j")
    case True
    have "(done0[?j := True]) ! prev" using pr(1) by (simp only: nth_list_update_neq[OF ne(1)])
    then show ?thesis using True pr(2) ne(1) by (intro exI[of _ prev] conjI) (simp_all only: not_sym)
  next
    case False
    then have "done0 ! k" using k(2) by simp
    then obtain l where l: "l < length old" "done0 ! l" "p ! l = k" using c' k(1,3) by blast
    then have "l \<noteq> ?j" using nd by blast
    then show ?thesis using l by (intro exI[of _ l]) simp
  qed
  then have "\<forall>k < length old. (done0[?j := True]) ! k \<longrightarrow> k = i \<or> (\<exists>l < length old. (done0[?j := True]) ! l \<and> l \<noteq> ?j \<and> p ! l = k)"
    by blast
  moreover have "swap_at vec prev ?j ! k = (if (done0[?j := True]) ! k then old ! (p ! k) else old ! k)"
    if "k < length old" "k \<noteq> ?j" for k
  proof (cases "k = prev")
    case True
    have "vec ! ?j = old ! ?j" using c' jl nd ne(1) by metis
    then show ?thesis using True pr jl ne(1) by (simp add: swap_at_def)
  next
    case False
    then have "vec ! k = (if done0 ! k then old ! (p ! k) else old ! k)" using c' that(1) by blast
    then show ?thesis using False that by (simp add: swap_at_def)
  qed
  moreover have "vec ! prev = old ! i" using c' by blast
  then have "swap_at vec prev ?j ! ?j = old ! i" using jl ne pr by (simp add: swap_at_def)
  moreover have "length (swap_at vec prev ?j) = length old" using pr by (simp add: swap_at_def)
  ultimately show "on_cycle old p i (swap_at vec prev ?j) (done0[?j := True]) ?j"
    using pr jl ne unfolding on_cycle_def by simp
qed

lemma apply_cycle_spec:
  assumes p: "is_permutation (length old) p"
  shows "on_cycle old p i vec done0 prev \<Longrightarrow> \<exists>vec' done'. apply_cycle p i vec done0 prev (p ! prev) = Some (vec', done') \<and>
    cycles_done old p vec' done' \<and> (\<forall>k < length old. done0 ! k \<longrightarrow> done' ! k)"
proof (induction "card (undone done0)" arbitrary: vec done0 prev rule: less_induct)
  case less
  note c = less.prems[unfolded on_cycle_def]
  show ?case
  proof (cases "p ! prev = i")
    case True
    have "\<exists>l < length old. done0 ! l \<and> p ! l = k" if "k < length old" "done0 ! k" for k
      using c that True by blast
    then have "cycles_done old p vec done0" using c True unfolding cycles_done_def by metis
    then show ?thesis using True apply_cycle.simps[of p i vec done0 prev i] by simp
  next
    case False
    note s = on_cycle_step[OF p less.prems False]
    have jl: "p ! prev < length old" using is_permutation_nth[OF p] c by simp
    have "card (undone (done0[p ! prev := True])) < card (undone done0)"
      by (rule undone_update[OF _ s(1)]) (use c jl in simp)
    from less.hyps[OF this s(2)] obtain vec' done' where r:
      "apply_cycle p i (swap_at vec prev (p ! prev)) (done0[p ! prev := True]) (p ! prev) (p ! (p ! prev)) = Some (vec', done')"
      "cycles_done old p vec' done'" "\<forall>k < length old. done0[p ! prev := True] ! k \<longrightarrow> done' ! k" by blast
    have "apply_cycle p i vec done0 prev (p ! prev) = Some (vec', done')"
      using r(1) False c jl is_permutation_length[OF p] by (subst apply_cycle.simps) simp
    moreover have "done' ! k" if "k < length old" "done0 ! k" for k
      using r(3) that c by (cases "k = p ! prev") auto
    ultimately show ?thesis using r(2) by blast
  qed
qed

lemma apply_step_spec:
  assumes p: "is_permutation (length old) p" and c: "cycles_done old p vec done0" and i: "i < length old"
  shows "\<exists>vec' done'. apply_step p (vec, done0) i = Some (vec', done') \<and> cycles_done old p vec' done' \<and>
    done' ! i \<and> (\<forall>k < length old. done0 ! k \<longrightarrow> done' ! k)"
proof (cases "done0 ! i")
  case True
  then show ?thesis using c by (simp add: apply_step_def)
next
  case False
  have reached: "\<exists>l < length old. done0[i := True] ! l \<and> l \<noteq> i \<and> p ! l = k"
    if k: "k < length old" "done0[i := True] ! k" "k \<noteq> i" for k
  proof -
    have "done0 ! k" using k(2,3) by simp
    then obtain l where "l < length old" "done0 ! l" "p ! l = k" using c k(1) unfolding cycles_done_def by blast
    moreover from this have "l \<noteq> i" using False by blast
    ultimately show ?thesis by (intro exI[of _ l]) simp
  qed
  then have "\<forall>k < length old. done0[i := True] ! k \<longrightarrow> k = i \<or> (\<exists>l < length old. done0[i := True] ! l \<and> l \<noteq> i \<and> p ! l = k)"
    by blast
  moreover have "vec ! i = old ! i" "length vec = length old" "length done0 = length old"
    "\<forall>k < length old. k \<noteq> i \<longrightarrow> vec ! k = (if (done0[i := True]) ! k then old ! (p ! k) else old ! k)"
    using c i False by (auto simp: cycles_done_def)
  ultimately have "on_cycle old p i vec (done0[i := True]) i" using i unfolding on_cycle_def by simp
  from apply_cycle_spec[OF p this] obtain vec' done' where r:
    "apply_cycle p i vec (done0[i := True]) i (p ! i) = Some (vec', done')" "cycles_done old p vec' done'"
    "\<forall>k < length old. done0[i := True] ! k \<longrightarrow> done' ! k" by blast
  have "done' ! k" if "k < length old" "done0 ! k \<or> k = i" for k
    using r(3) that c i by (cases "k = i") (auto simp: cycles_done_def)
  then show ?thesis using r(1,2) False i by (auto simp: apply_step_def)
qed

theorem apply_permutation_spec:
  assumes p: "is_permutation (length vec) p"
  shows "apply_permutation vec p = Some (map (nth vec) p)"
proof -
  have "\<exists>vec' done'. foldM (apply_step p) [0..<n] (vec, replicate (length vec) False) = Some (vec', done') \<and>
      cycles_done vec p vec' done' \<and> (\<forall>k < n. done' ! k)" if "n \<le> length vec" for n
    using that
  proof (induction n)
    case 0
    then show ?case by (simp add: cycles_done_def)
  next
    case (Suc n)
    then obtain vec' done' where s: "foldM (apply_step p) [0..<n] (vec, replicate (length vec) False) = Some (vec', done')"
      "cycles_done vec p vec' done'" "\<forall>k < n. done' ! k" by auto
    from apply_step_spec[OF p s(2), of n] Suc.prems obtain vec'' done'' where t:
      "apply_step p (vec', done') n = Some (vec'', done'')" "cycles_done vec p vec'' done''" "done'' ! n"
      "\<forall>k < length vec. done' ! k \<longrightarrow> done'' ! k" by auto
    have "\<forall>k < Suc n. done'' ! k" using t(3,4) s(3) Suc.prems less_Suc_eq by auto
    then show ?case using s(1) t(1,2) by (simp add: foldM_append)
  qed
  from this[OF order_refl] obtain vec' done' where r:
    "foldM (apply_step p) [0..<length vec] (vec, replicate (length vec) False) = Some (vec', done')"
    "cycles_done vec p vec' done'" "\<forall>k < length vec. done' ! k" by auto
  have "vec' = map (nth vec) p"
    using r(2,3) is_permutation_length[OF p] by (intro nth_equalityI) (auto simp: cycles_done_def)
  then show ?thesis using r(1) by (simp add: apply_permutation_def)
qed

end
