(* ===== verification/Hash_Join.thy ===== *)
theory Hash_Join
  imports Hash_Diagonal Permutation_Sort "HOL-Library.Multiset"
begin

text \<open>
  The join of several hypertries at chosen positions (HashJoin.hpp, without optional operands). The
  iterator runs over the diagonal of the smallest operand and probes the diagonals of the others. It
  yields each key part that is on all diagonals, with the slices of the operands for it; an operand
  without join positions is handed through, one without remaining positions contributes nothing.
\<close>

subsection \<open>The iterator\<close>

record 'v join_iterator =
  ji_pos_in_out :: "nat list"
  ji_result_depths :: "nat list"
  ji_ops :: "'v diagonal list"
  ji_ended :: bool
  ji_key :: key_part
  ji_value :: "'v hypertrie list"

definition empty_join_iterator :: "'v join_iterator" where
  "empty_join_iterator = \<lparr>ji_pos_in_out = [], ji_result_depths = [], ji_ops = [], ji_ended = False, ji_key = 0, ji_value = []\<rparr>"

text \<open>\<open>std::numeric_limits<pos_type>::max()\<close>.\<close>

definition no_pos :: nat where
  "no_pos = 255"

text \<open>Positions and depths are stored as \<open>pos_type\<close>, an unsigned integer of eight bits: a conversion to
  it, and an increment of it, wrap.\<close>

definition as_pos :: "int \<Rightarrow> nat" where
  "as_pos n = nat (n mod 256)"

text \<open>The loop of the constructor over the hypertries and their join positions.\<close>

fun join_setup ::
  "'v::zero_neq_one htt \<Rightarrow> 'v node_storage \<Rightarrow> nat \<Rightarrow> ('v hypertrie \<times> nat list) list \<Rightarrow> 'v join_iterator \<Rightarrow> 'v join_iterator option" where
  "join_setup T \<sigma> out_pos [] it = Some it"
| "join_setup T \<sigma> out_pos ((h, poss) # xs) it =
     (if poss \<noteq> [] then do {
        m \<leftarrow> kp_make hypertrie_max_depth poss;
        g \<leftarrow> new_diagonal T \<sigma> h m;
        let result_depth = as_pos (int (ht_depth h) - int (length poss));
        let it1 = it\<lparr>ji_ops := ji_ops it @ [g], ji_result_depths := ji_result_depths it @ [result_depth]\<rparr>;
        if result_depth \<noteq> 0 then
          join_setup T \<sigma> (as_pos (int out_pos + 1)) xs
            (it1\<lparr>ji_pos_in_out := ji_pos_in_out it @ [out_pos], ji_value := ji_value it @ [default_const_hypertrie]\<rparr>)
        else join_setup T \<sigma> out_pos xs (it1\<lparr>ji_pos_in_out := ji_pos_in_out it @ [no_pos]\<rparr>)
      } else do {
        check (ht_depth h \<noteq> 0);
        join_setup T \<sigma> (as_pos (int out_pos + 1)) xs (it\<lparr>ji_value := ji_value it @ [h]\<rparr>)
      })"

definition optimize_operand_order :: "'v::zero_neq_one htt \<Rightarrow> 'v node_storage \<Rightarrow> 'v join_iterator \<Rightarrow> 'v join_iterator option" where
  "optimize_operand_order T \<sigma> it = do {
     sizes \<leftarrow> option_list (map (dg_size T \<sigma>) (ji_ops it));
     let p = sort_permutation sizes;
     ops \<leftarrow> apply_permutation (ji_ops it) p;
     poss \<leftarrow> apply_permutation (ji_pos_in_out it) p;
     depths \<leftarrow> apply_permutation (ji_result_depths it) p;
     Some (it\<lparr>ji_ops := ops, ji_pos_in_out := poss, ji_result_depths := depths\<rparr>)
   }"

text \<open>Probing all operands but the first: the first that fails ends the probing.\<close>

fun find_all ::
  "'v::zero_neq_one htt \<Rightarrow> 'v node_storage \<Rightarrow> key_part \<Rightarrow> 'v diagonal list \<Rightarrow> ('v diagonal list \<times> bool) option" where
  "find_all T \<sigma> kp [] = Some ([], True)"
| "find_all T \<sigma> kp (g # gs) = do {
     (g', found) \<leftarrow> dg_find T \<sigma> g kp;
     if \<not> found then Some (g' # gs, False)
     else do { (gs', all) \<leftarrow> find_all T \<sigma> kp gs; Some (g' # gs', all) }
   }"

fun join_values ::
  "'v htt \<Rightarrow> nat list \<Rightarrow> nat list \<Rightarrow> 'v diagonal list \<Rightarrow> 'v hypertrie list \<Rightarrow> 'v hypertrie list option" where
  "join_values T (p # ps) (r # rs) (g # gs) vals =
     (if r = 0 then join_values T ps rs gs vals
      else do {
        h \<leftarrow> dg_current_hypertrie T g;
        check (p < length vals);
        join_values T ps rs gs (vals[p := h])
      })"
| "join_values T ps rs gs vals = Some vals"

text \<open>The loop of \<open>next\<close> over the candidates of the smallest operand.\<close>

partial_function (option) join_search ::
  "'v::zero_neq_one htt \<Rightarrow> 'v node_storage \<Rightarrow> 'v join_iterator \<Rightarrow> 'v join_iterator option" where
  "join_search T \<sigma> it =
     (if ji_ops it = [] then None
      else if dg_ended (hd (ji_ops it)) then Some (it\<lparr>ji_ended := True\<rparr>)
      else do {
        kp \<leftarrow> dg_current_key_part (hd (ji_ops it));
        (gs, found) \<leftarrow> find_all T \<sigma> kp (tl (ji_ops it));
        if found then do {
          vals \<leftarrow> join_values T (ji_pos_in_out it) (ji_result_depths it) (hd (ji_ops it) # gs) (ji_value it);
          Some (it\<lparr>ji_key := kp, ji_ops := hd (ji_ops it) # gs, ji_value := vals\<rparr>)
        } else do {
          g \<leftarrow> dg_inc T \<sigma> (hd (ji_ops it));
          join_search T \<sigma> (it\<lparr>ji_key := kp, ji_ops := g # gs\<rparr>)
        }
      })"

definition join_next :: "'v::zero_neq_one htt \<Rightarrow> 'v node_storage \<Rightarrow> bool \<Rightarrow> 'v join_iterator \<Rightarrow> 'v join_iterator option" where
  "join_next T \<sigma> init it = do {
     check (ji_ops it \<noteq> []);
     g \<leftarrow> (if \<not> init \<and> \<not> dg_ended (hd (ji_ops it)) then dg_inc T \<sigma> (hd (ji_ops it)) else Some (hd (ji_ops it)));
     join_search T \<sigma> (it\<lparr>ji_ops := g # tl (ji_ops it)\<rparr>)
   }"

definition join_begin :: "'v::zero_neq_one htt \<Rightarrow> 'v node_storage \<Rightarrow> ('v hypertrie \<times> nat list) list \<Rightarrow> 'v join_iterator option" where
  "join_begin T \<sigma> operands = do {
     it \<leftarrow> join_setup T \<sigma> 0 operands empty_join_iterator;
     it1 \<leftarrow> optimize_operand_order T \<sigma> it;
     check (ji_ops it1 \<noteq> []);
     g \<leftarrow> dg_begin T \<sigma> (hd (ji_ops it1));
     join_next T \<sigma> True (it1\<lparr>ji_ops := g # tl (ji_ops it1)\<rparr>)
   }"

definition join_inc :: "'v::zero_neq_one htt \<Rightarrow> 'v node_storage \<Rightarrow> 'v join_iterator \<Rightarrow> 'v join_iterator option" where
  "join_inc T \<sigma> it = (if ji_ended it then Some it else join_next T \<sigma> False it)"

definition join_deref :: "'v join_iterator \<Rightarrow> (key_part \<times> 'v hypertrie list) option" where
  "join_deref it = Some (ji_key it, ji_value it)"

subsection \<open>What the join stands for\<close>

text \<open>An operand is a set of entries of some depth with its join positions. The specification of a joined
  operand is its depth, its entries, its mask and its position in the output.\<close>

type_synonym 'v join_operand = "(nat \<times> 'v entry set) \<times> nat list"
type_synonym 'v join_spec = "nat \<times> 'v entry set \<times> raw_key_positions \<times> nat"

fun join_specs :: "nat \<Rightarrow> 'v join_operand list \<Rightarrow> 'v join_spec list" where
  "join_specs n [] = []"
| "join_specs n (((d, E), poss) # xs) =
     (if poss = [] then join_specs (Suc n) xs
      else if length poss < d then (d, E, kp_mask hypertrie_max_depth poss, n) # join_specs (Suc n) xs
      else (d, E, kp_mask hypertrie_max_depth poss, no_pos) # join_specs n xs)"

fun join_fixed :: "nat \<Rightarrow> 'v join_operand list \<Rightarrow> (nat \<times> nat \<times> 'v entry set) list" where
  "join_fixed n [] = []"
| "join_fixed n (((d, E), poss) # xs) =
     (if poss = [] then (n, d, E) # join_fixed (Suc n) xs
      else if length poss < d then join_fixed (Suc n) xs
      else join_fixed n xs)"

text \<open>The operands that remain for a key part.\<close>

fun join_outputs :: "key_part \<Rightarrow> 'v join_operand list \<Rightarrow> (nat \<times> 'v entry set) list" where
  "join_outputs kp [] = []"
| "join_outputs kp (((d, E), poss) # xs) =
     (if poss = [] then (d, E) # join_outputs kp xs
      else if length poss < d then
        (d - length poss, diag_entries d (kp_mask hypertrie_max_depth poss) kp E) # join_outputs kp xs
      else join_outputs kp xs)"

definition joined :: "key_part \<Rightarrow> 'v join_spec list \<Rightarrow> bool" where
  "joined kp js \<longleftrightarrow> (\<forall>(d, E, m, pos) \<in> set js. on_diagonal d m E kp)"

text \<open>The key parts on which all join positions of all operands agree.\<close>

definition join_keys :: "'v join_operand list \<Rightarrow> key_part set" where
  "join_keys xs = {kp. \<forall>((d, E), poss) \<in> set xs. poss \<noteq> [] \<longrightarrow> (\<exists>e \<in> E. \<forall>p \<in> set poss. fst e ! p = kp)}"

definition operand_ok :: "'v::zero_neq_one htt \<Rightarrow> 'v entry set set \<Rightarrow> 'v node_storage \<Rightarrow> 'v join_operand \<Rightarrow> 'v hypertrie \<times> nat list \<Rightarrow> bool" where
  "operand_ok T U \<sigma> x y \<longleftrightarrow> (case (x, y) of (((d, E), poss), (h, poss')) \<Rightarrow>
     poss' = poss \<and> handle_denotes T U \<sigma> d E h \<and> E \<noteq> {} \<and> below_ok T U \<sigma> (Suc d) \<and> d \<le> hypertrie_max_depth \<and>
     distinct poss \<and> (\<forall>p \<in> set poss. p < d))"

definition spec_ok :: "'v::zero_neq_one htt \<Rightarrow> 'v entry set set \<Rightarrow> 'v node_storage \<Rightarrow> 'v join_spec \<Rightarrow> 'v diagonal \<Rightarrow> bool" where
  "spec_ok T U \<sigma> j g \<longleftrightarrow> (case j of (d, E, m, pos) \<Rightarrow> dg_ok T U \<sigma> d m E g)"

definition spec_depth :: "'v join_spec \<Rightarrow> nat" where
  "spec_depth j = (case j of (d, E, m, pos) \<Rightarrow> d - card (kp_set d m))"

definition spec_pos :: "'v join_spec \<Rightarrow> nat" where
  "spec_pos j = (case j of (d, E, m, pos) \<Rightarrow> pos)"

definition spec_value :: "'v::zero_neq_one htt \<Rightarrow> 'v entry set set \<Rightarrow> 'v node_storage \<Rightarrow> key_part \<Rightarrow> 'v join_spec \<Rightarrow> 'v hypertrie \<Rightarrow> bool" where
  "spec_value T U \<sigma> kp j h \<longleftrightarrow> (case j of (d, E, m, pos) \<Rightarrow>
     handle_denotes T U \<sigma> (d - card (kp_set d m)) (diag_entries d m kp E) h)"

lemma operand_mask:
  assumes "operand_ok T U \<sigma> ((d, E), poss) y"
  shows "kp_set d (kp_mask hypertrie_max_depth poss) = set poss"
    "kp_set hypertrie_max_depth (kp_mask hypertrie_max_depth poss) = set poss"
    "card (kp_set d (kp_mask hypertrie_max_depth poss)) = length poss" "length poss \<le> d"
proof -
  have p: "\<forall>p \<in> set poss. p < d" "d \<le> hypertrie_max_depth" "distinct poss" using assms by (auto simp: operand_ok_def split: prod.splits)
  then have lt: "\<forall>p \<in> set poss. p < hypertrie_max_depth" by auto
  show m: "kp_set hypertrie_max_depth (kp_mask hypertrie_max_depth poss) = set poss" by (rule kp_set_make[OF lt])
  then have "kp_at (kp_mask hypertrie_max_depth poss) q \<longleftrightarrow> q \<in> set poss" if "q < hypertrie_max_depth" for q
    using that by (auto simp: kp_set_def)
  then show k: "kp_set d (kp_mask hypertrie_max_depth poss) = set poss" using p(1,2) by (auto simp: kp_set_def)
  show "card (kp_set d (kp_mask hypertrie_max_depth poss)) = length poss" using k p(3) by (simp add: distinct_card)
  have "card (set poss) \<le> card {..<d}" using p(1) by (intro card_mono) auto
  then show "length poss \<le> d" using p(3) by (simp add: distinct_card)
qed

subsection \<open>Setting the operands up\<close>

text \<open>The operands of the iterator match their specifications, and the handles that are handed through
  stand in the output at positions no joined operand writes to.\<close>

definition join_inv where
  "join_inv T U \<sigma> js fx it \<longleftrightarrow> list_all2 (spec_ok T U \<sigma>) js (ji_ops it) \<and>
     ji_result_depths it = map spec_depth js \<and> ji_pos_in_out it = map spec_pos js \<and> \<not> ji_ended it \<and>
     (\<forall>j \<in> set js. 0 < spec_depth j \<longrightarrow> spec_pos j < length (ji_value it)) \<and>
     distinct (map spec_pos (filter (\<lambda>j. 0 < spec_depth j) js)) \<and>
     (\<forall>(s, d, E) \<in> set fx. s < length (ji_value it) \<and> handle_denotes T U \<sigma> d E (ji_value it ! s) \<and>
        (\<forall>j \<in> set js. 0 < spec_depth j \<longrightarrow> spec_pos j \<noteq> s))"

lemma joined_operand:
  assumes "operand_ok T U \<sigma> ((d, E), poss) (h, poss)" "poss \<noteq> []"
  shows "\<exists>g. new_diagonal T \<sigma> h (kp_mask hypertrie_max_depth poss) = Some g \<and>
      dg_ok T U \<sigma> d (kp_mask hypertrie_max_depth poss) E g" "ht_depth h = d"
proof -
  note m = operand_mask[OF assms(1)]
  have o: "handle_denotes T U \<sigma> d E h" "E \<noteq> {}" "below_ok T U \<sigma> (Suc d)" using assms(1) by (auto simp: operand_ok_def)
  show "\<exists>g. new_diagonal T \<sigma> h (kp_mask hypertrie_max_depth poss) = Some g \<and>
      dg_ok T U \<sigma> d (kp_mask hypertrie_max_depth poss) E g"
    by (rule new_diagonal_spec[OF o(3,1,2)]) (use m(1,2) assms(2) in simp_all)
  show "ht_depth h = d" by (rule handle_denotesD(1)[OF o(1)])
qed

text \<open>With at most 256 operands no position in the output wraps before it is used.\<close>

lemma as_pos_simps [simp]:
  "as_pos (int n) = n mod 256"
  "as_pos (int (n mod 256) + 1) = Suc n mod 256"
  "as_pos (int n + 1) = Suc n mod 256"
proof -
  show wrap: "as_pos (int n) = n mod 256" for n by (simp add: as_pos_def nat_mod_distrib)
  show suc: "as_pos (int n + 1) = Suc n mod 256" for n using wrap[of "Suc n"] by (simp add: add.commute)
  show "as_pos (int (n mod 256) + 1) = Suc n mod 256" unfolding suc by (rule mod_Suc_eq)
qed

lemma as_pos_diff: "m \<le> n \<Longrightarrow> n \<le> hypertrie_max_depth \<Longrightarrow> as_pos (int n - int m) = n - m"
  by (simp add: as_pos_def hypertrie_max_depth_def)

lemma join_setup_spec:
  assumes "list_all2 (operand_ok T U \<sigma>) xs ys" "join_inv T U \<sigma> js fx it" "length (ji_value it) = n"
    "n + length xs \<le> 256"
  shows "\<exists>it'. join_setup T \<sigma> (n mod 256) ys it = Some it' \<and> join_inv T U \<sigma> (js @ join_specs n xs) (fx @ join_fixed n xs) it' \<and>
    length (ji_value it') = n + length (join_outputs kp xs)"
  using assms
proof (induction xs ys arbitrary: js fx it n rule: list_all2_induct)
  case Nil
  then show ?case by simp
next
  case (Cons x xs y ys)
  obtain d E poss h where xy: "x = ((d, E), poss)" "y = (h, poss)" "handle_denotes T U \<sigma> d E h"
    using Cons.hyps(1) by (cases x; cases y) (auto simp: operand_ok_def)
  note ok = Cons.hyps(1)[unfolded xy(1,2)] and inv = Cons.prems(1)[unfolded join_inv_def]
  note m = operand_mask[OF ok]
  have len: "length (ji_value it) = n" by (rule Cons.prems(2))
  have small: "n mod 256 = n" "n + length xs \<le> 255" using Cons.prems(3) by simp_all
  have mask: "kp_make hypertrie_max_depth poss = Some (kp_mask hypertrie_max_depth poss)"
    using ok by (intro kp_make_eq) (auto simp: operand_ok_def)
  have depth: "as_pos (int d - int (length poss)) = d - length poss"
    using m(4) ok by (intro as_pos_diff) (simp_all add: operand_ok_def)
  show ?case
  proof (cases "poss = []")
    case True
    let ?it = "it\<lparr>ji_value := ji_value it @ [h]\<rparr>"
    have old: "\<forall>j \<in> set js. 0 < spec_depth j \<longrightarrow> spec_pos j < n" using inv len by simp
    have "join_inv T U \<sigma> js (fx @ [(n, d, E)]) ?it"
      using inv len xy(3) old by (auto simp: join_inv_def nth_append)
    from Cons.IH[OF this, of "Suc n"] show ?thesis
      using True xy handle_denotesD(1,2)[OF xy(3)] len small by auto
  next
    case False
    let ?m = "kp_mask hypertrie_max_depth poss"
    from joined_operand[OF ok False] obtain g where g: "new_diagonal T \<sigma> h ?m = Some g" "dg_ok T U \<sigma> d ?m E g" "ht_depth h = d" by blast
    show ?thesis
    proof (cases "length poss < d")
      case part: True
      let ?j = "(d, E, ?m, n)"
      let ?it = "it\<lparr>ji_ops := ji_ops it @ [g], ji_result_depths := ji_result_depths it @ [d - length poss],
        ji_pos_in_out := ji_pos_in_out it @ [n], ji_value := ji_value it @ [default_const_hypertrie]\<rparr>"
      have "join_inv T U \<sigma> (js @ [?j]) fx ?it"
        unfolding join_inv_def
      proof (intro conjI)
        show "list_all2 (spec_ok T U \<sigma>) (js @ [?j]) (ji_ops ?it)" using inv g(2) by (simp add: list_all2_appendI spec_ok_def)
        show "distinct (map spec_pos (filter (\<lambda>j. 0 < spec_depth j) (js @ [?j])))"
          using inv len by (fastforce simp: spec_pos_def)
        show "\<forall>(s, d', E') \<in> set fx. s < length (ji_value ?it) \<and> handle_denotes T U \<sigma> d' E' (ji_value ?it ! s) \<and>
            (\<forall>j \<in> set (js @ [?j]). 0 < spec_depth j \<longrightarrow> spec_pos j \<noteq> s)"
          using inv len by (fastforce simp: nth_append spec_pos_def)
      qed (use inv len m(3) in \<open>auto simp: spec_depth_def spec_pos_def\<close>)
      from Cons.IH[OF this, of "Suc n"] show ?thesis
        using False part xy g(1,3) len small depth mask by (auto simp: Let_def)
    next
      case full: False
      let ?j = "(d, E, ?m, no_pos)"
      let ?it = "it\<lparr>ji_ops := ji_ops it @ [g], ji_result_depths := ji_result_depths it @ [0],
        ji_pos_in_out := ji_pos_in_out it @ [no_pos]\<rparr>"
      have "join_inv T U \<sigma> (js @ [?j]) fx ?it"
        using inv g(2) m(3,4) full by (auto simp: join_inv_def spec_ok_def spec_depth_def spec_pos_def intro!: list_all2_appendI)
      from Cons.IH[OF this, of n] show ?thesis
        using False full xy g(1,3) len m(4) small depth mask by (auto simp: Let_def)
    qed
  qed
qed

subsection \<open>Ordering the operands\<close>

lemma dg_size_defined:
  assumes ok: "dg_ok T U \<sigma> d m E g"
  shows "\<exists>n. dg_size T \<sigma> g = Some n"
proof (cases "dg_raw g")
  case (FN_Diagonal h)
  then have n: "diag_node T U \<sigma> d E m (hd_nodec h)" "dg_depth g = d" using ok by (auto simp: dg_ok_def)
  then have "level_ok T U \<sigma> d" using below_okD(1)[of T U \<sigma> "Suc d" d] by (simp add: diag_node_def)
  then obtain fn where "fn_deref \<sigma> d (hd_nodec h) = Some fn"
    using fn_deref_repr[of T U \<sigma> d E "hd_nodec h"] n(1) by (auto simp: diag_node_def)
  then show ?thesis using FN_Diagonal n(2) by (simp add: dg_size_def hd_size_def)
qed (simp add: dg_size_def)

lemma map_permute: "is_permutation (length js) p \<Longrightarrow> map (nth (map f js)) p = map f (map (nth js) p)"
  by (auto simp: is_permutation_def)

lemma list_all2_permute:
  assumes "list_all2 P js gs" "is_permutation (length js) p"
  shows "list_all2 P (map (nth js) p) (map (nth gs) p)"
  using assms by (auto simp: list_all2_conv_all_nth is_permutation_length is_permutation_nth)

lemma set_permute: "is_permutation (length js) p \<Longrightarrow> set (map (nth js) p) = set js"
proof -
  assume "is_permutation (length js) p"
  then have "set (map (nth js) p) = nth js ` {..<length js}" by (simp add: is_permutation_def)
  then show ?thesis by (auto simp: set_conv_nth)
qed

lemma permute_self: "map (nth js) [0..<length js] = js"
  by (rule map_nth)

lemma distinct_permute:
  assumes "is_permutation (length js) p" "distinct (map f (filter P js))"
  shows "distinct (map f (filter P (map (nth js) p)))"
proof -
  have "mset (map (nth js) p) = image_mset (nth js) (mset p)" by simp
  also have "mset p = mset [0..<length js]"
    using assms(1) set_eq_iff_mset_eq_distinct[of p "[0..<length js]"] by (simp add: is_permutation_def atLeast0LessThan)
  also have "image_mset (nth js) (mset [0..<length js]) = mset js" using permute_self[of js] by (metis mset_map)
  finally have "mset (map f (filter P (map (nth js) p))) = mset (map f (filter P js))"
    by (metis mset_filter mset_map)
  then show ?thesis using assms(2) mset_eq_imp_distinct_iff by blast
qed

lemma optimize_operand_order_spec:
  assumes inv: "join_inv T U \<sigma> js fx it"
  shows "\<exists>p it'. is_permutation (length js) p \<and> optimize_operand_order T \<sigma> it = Some it' \<and>
    join_inv T U \<sigma> (map (nth js) p) fx it' \<and> ji_value it' = ji_value it"
proof -
  note i = inv[unfolded join_inv_def]
  have all: "list_all2 (spec_ok T U \<sigma>) js (ji_ops it)" using i by blast
  then have len: "length (ji_ops it) = length js" by (simp add: list_all2_lengthD)
  have "\<exists>n. dg_size T \<sigma> g = Some n" if "g \<in> set (ji_ops it)" for g
  proof -
    from that obtain k where "k < length (ji_ops it)" "g = ji_ops it ! k" by (auto simp: in_set_conv_nth)
    then have "spec_ok T U \<sigma> (js ! k) g" using all by (simp add: list_all2_conv_all_nth)
    then show ?thesis using dg_size_defined by (auto simp: spec_ok_def split: prod.splits)
  qed
  then have "\<forall>x \<in> set (map (dg_size T \<sigma>) (ji_ops it)). \<exists>y. x = Some y" by simp
  from option_list_defined[OF this] obtain sizes where sizes: "option_list (map (dg_size T \<sigma>) (ji_ops it)) = Some sizes"
    "length sizes = length js" using len by auto
  define p where "p = sort_permutation sizes"
  have p: "is_permutation (length js) p" using sort_permutation_ok[of sizes] sizes(2) by (simp add: p_def)
  let ?it = "it\<lparr>ji_ops := map (nth (ji_ops it)) p, ji_pos_in_out := map (nth (ji_pos_in_out it)) p,
    ji_result_depths := map (nth (ji_result_depths it)) p\<rparr>"
  have run: "optimize_operand_order T \<sigma> it = Some ?it"
    using sizes(1) p len i by (simp add: optimize_operand_order_def p_def[symmetric] Let_def apply_permutation_spec)
  have "join_inv T U \<sigma> (map (nth js) p) fx ?it"
    unfolding join_inv_def
  proof (intro conjI)
    show "list_all2 (spec_ok T U \<sigma>) (map (nth js) p) (ji_ops ?it)" using list_all2_permute[OF all p] by simp
    show "ji_result_depths ?it = map spec_depth (map (nth js) p)" using i map_permute[OF p, of spec_depth] by simp
    show "ji_pos_in_out ?it = map spec_pos (map (nth js) p)" using i map_permute[OF p, of spec_pos] by simp
    show "distinct (map spec_pos (filter (\<lambda>j. 0 < spec_depth j) (map (nth js) p)))"
      using i by (intro distinct_permute[OF p]) blast
  qed (unfold set_permute[OF p], use i in simp_all)
  then show ?thesis using p run by (intro exI[of _ p] exI[of _ ?it]) simp
qed

subsection \<open>Searching for the next key part\<close>

lemma joined_permute: "is_permutation (length js) p \<Longrightarrow> joined kp (map (nth js) p) = joined kp js"
  by (simp only: joined_def set_permute)

lemma find_all_spec:
  assumes "list_all2 (spec_ok T U \<sigma>) js gs"
  shows "\<exists>gs'. find_all T \<sigma> kp gs = Some (gs', joined kp js) \<and> list_all2 (spec_ok T U \<sigma>) js gs' \<and>
    (joined kp js \<longrightarrow> list_all2 (\<lambda>(d, E, m, pos) g. diag_denotes T \<sigma> d m kp E (dg_value g)) js gs')"
  using assms
proof (induction js gs rule: list_all2_induct)
  case Nil
  then show ?case by (simp add: joined_def)
next
  case (Cons j js g gs)
  obtain d E m pos where j: "j = (d, E, m, pos)" by (cases j)
  with Cons.hyps(1) have "dg_ok T U \<sigma> d m E g" by (simp add: spec_ok_def)
  from dg_find_spec[OF this, of kp] obtain g' where g': "dg_find T \<sigma> g kp = Some (g', on_diagonal d m E kp)"
    "dg_ok T U \<sigma> d m E g'" "on_diagonal d m E kp \<longrightarrow> diag_denotes T \<sigma> d m kp E (dg_value g')" by blast
  show ?case
  proof (cases "on_diagonal d m E kp")
    case True
    from Cons.IH obtain gs' where gs': "find_all T \<sigma> kp gs = Some (gs', joined kp js)" "list_all2 (spec_ok T U \<sigma>) js gs'"
      "joined kp js \<longrightarrow> list_all2 (\<lambda>(d, E, m, pos) g. diag_denotes T \<sigma> d m kp E (dg_value g)) js gs'" by blast
    have "find_all T \<sigma> kp (g # gs) = Some (g' # gs', joined kp (j # js))"
      using True g'(1) gs'(1) j by (simp add: joined_def)
    moreover have "list_all2 (spec_ok T U \<sigma>) (j # js) (g' # gs')" using g'(2) gs'(2) j by (simp add: spec_ok_def)
    moreover have "joined kp (j # js) \<longrightarrow> joined kp js" by (simp add: joined_def)
    ultimately show ?thesis using gs'(3) g'(3) True j by auto
  next
    case False
    then have "find_all T \<sigma> kp (g # gs) = Some (g' # gs, joined kp (j # js))" using g'(1) j by (simp add: joined_def)
    moreover have "list_all2 (spec_ok T U \<sigma>) (j # js) (g' # gs)" using g'(2) j Cons.hyps(2) by (simp add: spec_ok_def)
    moreover have "\<not> joined kp (j # js)" using False j by (simp add: joined_def)
    ultimately show ?thesis by blast
  qed
qed

lemma join_values_spec:
  assumes "list_all2 (spec_ok T U \<sigma>) js gs" "list_all2 (\<lambda>(d, E, m, pos) g. diag_denotes T \<sigma> d m kp E (dg_value g)) js gs"
    "joined kp js" "\<forall>j \<in> set js. 0 < spec_depth j \<longrightarrow> spec_pos j < length vals"
    "distinct (map spec_pos (filter (\<lambda>j. 0 < spec_depth j) js))"
  shows "\<exists>vals'. join_values T (map spec_pos js) (map spec_depth js) gs vals = Some vals' \<and> length vals' = length vals \<and>
    (\<forall>j \<in> set js. 0 < spec_depth j \<longrightarrow> spec_value T U \<sigma> kp j (vals' ! spec_pos j)) \<and>
    (\<forall>s < length vals. (\<forall>j \<in> set js. 0 < spec_depth j \<longrightarrow> spec_pos j \<noteq> s) \<longrightarrow> vals' ! s = vals ! s)"
  using assms
proof (induction js gs arbitrary: vals rule: list_all2_induct)
  case Nil
  then show ?case by simp
next
  case (Cons j js g gs)
  obtain d E m pos where j: "j = (d, E, m, pos)" by (cases j)
  have rest: "list_all2 (\<lambda>(d, E, m, pos) g. diag_denotes T \<sigma> d m kp E (dg_value g)) js gs" "joined kp js"
    "distinct (map spec_pos (filter (\<lambda>j. 0 < spec_depth j) js))"
    using Cons.prems by (auto simp: joined_def split: if_splits)
  show ?case
  proof (cases "spec_depth j = 0")
    case True
    then show ?thesis using Cons.IH[OF rest(1,2) _ rest(3), of vals] Cons.prems(3) by auto
  next
    case False
    then have part: "card (kp_set d m) < d" using j by (simp add: spec_depth_def)
    have g: "dg_ok T U \<sigma> d m E g" "on_diagonal d m E kp" "diag_denotes T \<sigma> d m kp E (dg_value g)"
      using Cons.hyps(1) Cons.prems(1,2) j by (auto simp: spec_ok_def joined_def)
    from dg_current_hypertrie_spec[OF g part] obtain h where h: "dg_current_hypertrie T g = Some h"
      "spec_value T U \<sigma> kp j h" using j by (auto simp: spec_value_def)
    have pos: "spec_pos j < length vals" using Cons.prems(3) False by simp
    have "spec_pos j \<notin> spec_pos ` {i \<in> set js. 0 < spec_depth i}" using Cons.prems(4) False by simp
    then have new: "\<forall>i \<in> set js. 0 < spec_depth i \<longrightarrow> spec_pos i \<noteq> spec_pos j" by (metis (mono_tags) imageI mem_Collect_eq)
    from Cons.IH[OF rest(1,2) _ rest(3), of "vals[spec_pos j := h]"] Cons.prems(3) obtain vals' where v:
      "join_values T (map spec_pos js) (map spec_depth js) gs (vals[spec_pos j := h]) = Some vals'" "length vals' = length vals"
      "\<forall>i \<in> set js. 0 < spec_depth i \<longrightarrow> spec_value T U \<sigma> kp i (vals' ! spec_pos i)"
      "\<forall>s < length vals. (\<forall>i \<in> set js. 0 < spec_depth i \<longrightarrow> spec_pos i \<noteq> s) \<longrightarrow> vals' ! s = vals[spec_pos j := h] ! s" by auto
    have "vals' ! spec_pos j = h" using v(4) new pos by simp
    then show ?thesis using v h False pos by (auto simp: nth_list_update)
  qed
qed

text \<open>The first operand is iterated over; the key parts to come are those of its diagonal that are on all
  other diagonals.\<close>

definition first_rest :: "'v join_spec list \<Rightarrow> 'v join_iterator \<Rightarrow> key_part list" where
  "first_rest js it = (case hd js of (d, E, m, pos) \<Rightarrow> dg_rest d m E (hd (ji_ops it)))"

definition first_iter where
  "first_iter T U \<sigma> js it \<longleftrightarrow> js \<noteq> [] \<and> (case hd js of (d, E, m, pos) \<Rightarrow> dg_iter T U \<sigma> d m E (hd (ji_ops it)))"

definition join_rest :: "'v join_spec list \<Rightarrow> 'v join_iterator \<Rightarrow> key_part list" where
  "join_rest js it = (if ji_ended it then [] else filter (\<lambda>kp. joined kp (tl js)) (first_rest js it))"

text \<open>Between two increments: the iterator has ended, or it stands at a joined key part with its slices in
  the output.\<close>

definition join_ok where
  "join_ok T U \<sigma> js fx it \<longleftrightarrow> (if ji_ended it then True
     else join_inv T U \<sigma> js fx it \<and> first_iter T U \<sigma> js it \<and> first_rest js it \<noteq> [] \<and>
       ji_key it = hd (first_rest js it) \<and> joined (ji_key it) (tl js) \<and>
       (\<forall>j \<in> set js. 0 < spec_depth j \<longrightarrow> spec_value T U \<sigma> (ji_key it) j (ji_value it ! spec_pos j)))"

lemma first_cases:
  assumes inv: "join_inv T U \<sigma> js fx it" and first: "first_iter T U \<sigma> js it"
  obtains d E m pos js' g gs where "js = (d, E, m, pos) # js'" "ji_ops it = g # gs" "dg_iter T U \<sigma> d m E g"
    "list_all2 (spec_ok T U \<sigma>) js' gs" "first_rest js it = dg_rest d m E g"
proof -
  obtain j js' where js: "js = j # js'" using first by (cases js) (auto simp: first_iter_def)
  obtain d E m pos where j: "j = (d, E, m, pos)" by (cases j)
  obtain g gs where g: "ji_ops it = g # gs" "list_all2 (spec_ok T U \<sigma>) js' gs"
    using inv js by (auto simp: join_inv_def list_all2_Cons1)
  show thesis using that[of d E m pos js' g gs] js j g first by (simp add: first_iter_def first_rest_def)
qed

lemma sd_rest_on:
  assumes "sen_probe T \<sigma> d m E s" "sd_rest s = x # xs"
  shows "on_diagonal d m E x"
proof -
  have "\<not> sd_ended s" "x = fst (sd_value s)" using assms(2) by (auto simp: sd_rest_def split: if_splits)
  then have "sd_find s x" using assms(1) by (auto simp: sen_probe_def sd_find_def)
  then show ?thesis using assms(1) by (simp add: sen_probe_def)
qed

lemma dg_rest_on:
  assumes "dg_iter T U \<sigma> d m E g" "dg_rest d m E g = x # xs"
  shows "on_diagonal d m E x"
proof (cases "dg_raw g")
  case (FN_Diagonal h)
  then have "x \<in> set (hd_rest d m E h)" using assms(2) by (simp add: dg_rest_def)
  then show ?thesis by (simp add: hd_rest_def)
next
  case (SEN_Diagonal s)
  then show ?thesis using assms sd_rest_on[of T \<sigma> d m E s x xs] by (simp add: dg_rest_def dg_iter_def dg_ok_def)
qed

lemma join_inv_ops:
  assumes "join_inv T U \<sigma> js fx it" "list_all2 (spec_ok T U \<sigma>) js ops"
  shows "join_inv T U \<sigma> js fx (it\<lparr>ji_key := k, ji_ops := ops\<rparr>)" "join_inv T U \<sigma> js fx (it\<lparr>ji_ops := ops\<rparr>)"
  using assms by (simp_all add: join_inv_def)

lemma join_search_spec:
  "join_inv T U \<sigma> js fx it \<Longrightarrow> first_iter T U \<sigma> js it \<Longrightarrow>
    \<exists>it'. join_search T \<sigma> it = Some it' \<and> join_ok T U \<sigma> js fx it' \<and> length (ji_value it') = length (ji_value it) \<and>
      (\<forall>(s, d, E) \<in> set fx. ji_value it' ! s = ji_value it ! s) \<and>
      join_rest js it' = filter (\<lambda>kp. joined kp (tl js)) (first_rest js it)"
proof (induction "first_rest js it" arbitrary: it)
  case Nil
  from Nil.prems obtain d E m pos js' g gs where f: "js = (d, E, m, pos) # js'" "ji_ops it = g # gs" "dg_iter T U \<sigma> d m E g"
    "list_all2 (spec_ok T U \<sigma>) js' gs" "first_rest js it = dg_rest d m E g" by (rule first_cases)
  have "dg_ended g" using dg.end_iff[OF f(3)] f(5) Nil.hyps by simp
  then have "join_search T \<sigma> it = Some (it\<lparr>ji_ended := True\<rparr>)" using f(2) by (subst join_search.simps) simp
  then show ?case using Nil.hyps by (simp add: join_ok_def join_rest_def)
next
  case (Cons kp kps)
  from Cons.prems obtain d E m pos js' g gs where f: "js = (d, E, m, pos) # js'" "ji_ops it = g # gs" "dg_iter T U \<sigma> d m E g"
    "list_all2 (spec_ok T U \<sigma>) js' gs" "first_rest js it = dg_rest d m E g" by (rule first_cases)
  have rest: "dg_rest d m E g = kp # kps" using Cons.hyps(2) f(5) by simp
  from dg.step[OF f(3) rest] obtain y g' where y: "dg_deref g = Some y" "fst y = kp" "diag_denotes T \<sigma> d m kp E (snd y)"
    "dg_inc T \<sigma> g = Some g'" "dg_iter T U \<sigma> d m E g'" "dg_rest d m E g' = kps" by blast
  have cur: "dg_current_key_part g = Some kp" "diag_denotes T \<sigma> d m kp E (dg_value g)"
    using y(1-3) by (auto simp: dg_deref_def)
  have alive: "\<not> dg_ended g" using dg.end_iff[OF f(3)] rest by simp
  from find_all_spec[OF f(4), of kp] obtain gs' where gs': "find_all T \<sigma> kp gs = Some (gs', joined kp js')"
    "list_all2 (spec_ok T U \<sigma>) js' gs'"
    "joined kp js' \<longrightarrow> list_all2 (\<lambda>(d, E, m, pos) g. diag_denotes T \<sigma> d m kp E (dg_value g)) js' gs'" by blast
  have ok1: "spec_ok T U \<sigma> (d, E, m, pos) g" "spec_ok T U \<sigma> (d, E, m, pos) g'"
    using f(3) y(5) by (simp_all add: spec_ok_def dg_iter_def)
  show ?case
  proof (cases "joined kp js'")
    case False
    let ?it = "it\<lparr>ji_key := kp, ji_ops := g' # gs'\<rparr>"
    have "join_inv T U \<sigma> js fx ?it" using join_inv_ops(1)[OF Cons.prems(1), of "g' # gs'"] ok1(2) gs'(2) f(1) by simp
    moreover have "first_iter T U \<sigma> js ?it" "first_rest js ?it = kps"
      using f(1) y(5,6) by (simp_all add: first_iter_def first_rest_def)
    ultimately obtain it' where it': "join_search T \<sigma> ?it = Some it'" "join_ok T U \<sigma> js fx it'" "length (ji_value it') = length (ji_value it)"
      "\<forall>(s, d, E) \<in> set fx. ji_value it' ! s = ji_value it ! s" "join_rest js it' = filter (\<lambda>kp. joined kp (tl js)) kps"
      using Cons.hyps(1)[of ?it] by auto
    have "join_search T \<sigma> it = Some it'"
      using it'(1) f(2) alive cur(1) gs'(1) False y(4) by (subst join_search.simps) simp
    then show ?thesis using it'(2-5) f rest False by auto
  next
    case True
    have inv: "list_all2 (spec_ok T U \<sigma>) js (g # gs')" using ok1(1) gs'(2) f(1) by simp
    have on: "joined kp js" using True dg_rest_on[OF f(3) rest] f(1) by (simp add: joined_def)
    have den: "list_all2 (\<lambda>(d, E, m, pos) g. diag_denotes T \<sigma> d m kp E (dg_value g)) js (g # gs')"
      using gs'(3) True cur(2) f(1) by simp
    note i = Cons.prems(1)[unfolded join_inv_def]
    from join_values_spec[OF inv den on, of "ji_value it"] i obtain vals where v:
      "join_values T (map spec_pos js) (map spec_depth js) (g # gs') (ji_value it) = Some vals" "length vals = length (ji_value it)"
      "\<forall>j \<in> set js. 0 < spec_depth j \<longrightarrow> spec_value T U \<sigma> kp j (vals ! spec_pos j)"
      "\<forall>s < length (ji_value it). (\<forall>j \<in> set js. 0 < spec_depth j \<longrightarrow> spec_pos j \<noteq> s) \<longrightarrow> vals ! s = ji_value it ! s" by blast
    let ?it = "it\<lparr>ji_key := kp, ji_ops := g # gs', ji_value := vals\<rparr>"
    have run: "join_search T \<sigma> it = Some ?it"
      using v(1) f(2) alive cur(1) gs'(1) True i by (subst join_search.simps) simp
    have same: "\<forall>(s, d, E) \<in> set fx. vals ! s = ji_value it ! s" using i v(4) by fastforce
    have "join_inv T U \<sigma> js fx ?it"
      using i inv v(2) same by (fastforce simp: join_inv_def)
    moreover have "first_iter T U \<sigma> js ?it" "first_rest js ?it = kp # kps"
      using f(1,3) rest by (simp_all add: first_iter_def first_rest_def)
    ultimately have "join_ok T U \<sigma> js fx ?it" using v(3) True f(1) by (simp add: join_ok_def)
    moreover have "join_rest js ?it = filter (\<lambda>kp. joined kp (tl js)) (first_rest js it)"
      using f rest i \<open>first_rest js ?it = kp # kps\<close> by (simp add: join_rest_def)
    ultimately show ?thesis using run v(2) same by (intro exI[of _ ?it]) simp
  qed
qed

subsection \<open>The join as a keyed cursor\<close>

definition join_yields where
  "join_yields T U \<sigma> js fx n kp y \<longleftrightarrow> fst y = kp \<and> length (snd y) = n \<and>
     (\<forall>j \<in> set js. 0 < spec_depth j \<longrightarrow> spec_value T U \<sigma> kp j (snd y ! spec_pos j)) \<and>
     (\<forall>(s, d, E) \<in> set fx. handle_denotes T U \<sigma> d E (snd y ! s))"

lemma join_okD:
  assumes "join_ok T U \<sigma> js fx it" "\<not> ji_ended it"
  shows "join_inv T U \<sigma> js fx it" "first_iter T U \<sigma> js it" "first_rest js it \<noteq> []" "ji_key it = hd (first_rest js it)"
    "joined (ji_key it) (tl js)"
    "\<forall>j \<in> set js. 0 < spec_depth j \<longrightarrow> spec_value T U \<sigma> (ji_key it) j (ji_value it ! spec_pos j)"
  using assms unfolding join_ok_def by metis+

interpretation hj: keyed_cursor ji_ended join_deref "join_inc T \<sigma>"
  "\<lambda>it. join_ok T U \<sigma> js fx it \<and> length (ji_value it) = n" "join_rest js" "join_yields T U \<sigma> js fx n"
  for T U \<sigma> js fx n
proof
  fix it :: "'a join_iterator" assume it: "join_ok T U \<sigma> js fx it \<and> length (ji_value it) = n"
  then have ok: "join_ok T U \<sigma> js fx it" and n: "length (ji_value it) = n" by auto
  show "ji_ended it \<longleftrightarrow> join_rest js it = []"
  proof (cases "ji_ended it")
    case False
    note o = join_okD[OF ok False]
    obtain ks where "first_rest js it = ji_key it # ks" using o(3,4) by (cases "first_rest js it") auto
    then show ?thesis using o(5) False by (simp add: join_rest_def)
  qed (simp add: join_rest_def)
  show "distinct (join_rest js it)"
  proof (cases "ji_ended it")
    case False
    note o = join_okD[OF ok False]
    from o(1,2) obtain d E m pos js' g gs where f: "js = (d, E, m, pos) # js'" "ji_ops it = g # gs" "dg_iter T U \<sigma> d m E g"
      "list_all2 (spec_ok T U \<sigma>) js' gs" "first_rest js it = dg_rest d m E g" by (rule first_cases)
    then show ?thesis using dg.distinct_rest[OF f(3)] by (simp add: join_rest_def)
  qed (simp add: join_rest_def)
  fix x xs assume rest: "join_rest js it = x # xs"
  then have alive: "\<not> ji_ended it" by (auto simp: join_rest_def)
  note o = join_okD[OF ok alive]
  from o(1,2) obtain d E m pos js' g gs where f: "js = (d, E, m, pos) # js'" "ji_ops it = g # gs" "dg_iter T U \<sigma> d m E g"
    "list_all2 (spec_ok T U \<sigma>) js' gs" "first_rest js it = dg_rest d m E g" by (rule first_cases)
  obtain ks where ks: "dg_rest d m E g = ji_key it # ks" using o(3,4) f(5) by (cases "dg_rest d m E g") auto
  then have x: "x = ji_key it" "xs = filter (\<lambda>kp. joined kp (tl js)) ks" using rest alive f(5) o(5) by (simp_all add: join_rest_def)
  from dg.step[OF f(3) ks] obtain g' where g': "dg_inc T \<sigma> g = Some g'" "dg_iter T U \<sigma> d m E g'" "dg_rest d m E g' = ks" by blast
  let ?it = "it\<lparr>ji_ops := g' # gs\<rparr>"
  have inv: "join_inv T U \<sigma> js fx ?it"
    by (rule join_inv_ops(2)[OF o(1)]) (use f(1,4) g'(2) in \<open>simp add: spec_ok_def dg_iter_def\<close>)
  have first: "first_iter T U \<sigma> js ?it" "first_rest js ?it = ks" using f(1) g'(2,3) by (simp_all add: first_iter_def first_rest_def)
  from join_search_spec[OF inv first(1)] obtain it' where it': "join_search T \<sigma> ?it = Some it'" "join_ok T U \<sigma> js fx it'"
    "length (ji_value it') = n" "join_rest js it' = xs" using n x(2) first(2) by auto
  have "\<not> dg_ended g" using dg.end_iff[OF f(3)] ks by simp
  then have "join_inc T \<sigma> it = Some it'" using it'(1) f(2) g'(1) alive by (simp add: join_inc_def join_next_def)
  moreover have "join_yields T U \<sigma> js fx n x (ji_key it, ji_value it)"
    using o(1,6) n x(1) by (fastforce simp: join_yields_def join_inv_def)
  ultimately show "\<exists>y s'. join_deref it = Some y \<and> join_yields T U \<sigma> js fx n x y \<and> join_inc T \<sigma> it = Some s' \<and>
      (join_ok T U \<sigma> js fx s' \<and> length (ji_value s') = n) \<and> join_rest js s' = xs"
    using it' by (auto simp: join_deref_def)
qed (auto simp: join_yields_def)

lemma outputs_denote:
  assumes "list_all2 (operand_ok T U \<sigma>) xs ys"
    "\<forall>j \<in> set (join_specs n xs). 0 < spec_depth j \<longrightarrow> spec_value T U \<sigma> kp j (vals ! spec_pos j)"
    "\<forall>(s, d, E) \<in> set (join_fixed n xs). handle_denotes T U \<sigma> d E (vals ! s)"
    "length vals = n + length (join_outputs kp xs)"
  shows "list_all2 (\<lambda>(d, E) h. handle_denotes T U \<sigma> d E h) (join_outputs kp xs) (drop n vals)"
  using assms
proof (induction xs ys arbitrary: n rule: list_all2_induct)
  case (Cons x xs y ys)
  obtain d E poss where x: "x = ((d, E), poss)" by (metis prod.exhaust)
  note m = operand_mask[OF Cons.hyps(1)[unfolded x]]
  show ?case
  proof (cases "poss \<noteq> [] \<and> \<not> length poss < d")
    case True
    then show ?thesis using Cons.IH[of n] Cons.prems x by simp
  next
    case False
    then have "n < length vals" using Cons.prems(3) x by (auto split: if_splits)
    then have drop: "drop n vals = vals ! n # drop (Suc n) vals" by (simp add: Cons_nth_drop_Suc)
    show ?thesis
    proof (cases "poss = []")
      case True
      then show ?thesis unfolding drop using Cons.IH[of "Suc n"] Cons.prems x by simp
    next
      case part: False
      then have "length poss < d" using False by simp
      then show ?thesis unfolding drop using Cons.IH[of "Suc n"] Cons.prems x part m(3)
        by (auto simp: spec_value_def spec_depth_def spec_pos_def)
    qed
  qed
qed simp

lemma joined_Cons: "joined kp ((d, E, m, pos) # js) \<longleftrightarrow> on_diagonal d m E kp \<and> joined kp js"
  by (auto simp: joined_def)

lemma joined_keys:
  assumes "list_all2 (operand_ok T U \<sigma>) xs ys"
  shows "joined kp (join_specs n xs) \<longleftrightarrow> kp \<in> join_keys xs"
  using assms
proof (induction xs ys arbitrary: n rule: list_all2_induct)
  case (Cons x xs y ys)
  obtain d E poss where x: "x = ((d, E), poss)" by (metis prod.exhaust)
  note m = operand_mask[OF Cons.hyps(1)[unfolded x]]
  have "kp \<in> join_keys (x # xs) \<longleftrightarrow> (poss \<noteq> [] \<longrightarrow> on_diagonal d (kp_mask hypertrie_max_depth poss) E kp) \<and> kp \<in> join_keys xs"
    using x m(1) by (auto simp: join_keys_def on_diagonal_def)
  then show ?case using Cons.IH x by (simp add: joined_Cons)
qed (simp add: joined_def join_keys_def)

lemma join_inv_start: "join_inv T U \<sigma> [] [] empty_join_iterator"
  by (simp add: join_inv_def empty_join_iterator_def)

lemma join_specs_some: "\<exists>x \<in> set xs. snd x \<noteq> [] \<Longrightarrow> join_specs n xs \<noteq> []"
  by (induction n xs rule: join_specs.induct) auto

text \<open>The first step: the diagonal of the first operand begins, and the search runs.\<close>

lemma join_start_spec:
  assumes inv: "join_inv T U \<sigma> js fx it" and js: "js \<noteq> []"
  shows "\<exists>g it'. dg_begin T \<sigma> (hd (ji_ops it)) = Some g \<and> ji_ops it \<noteq> [] \<and>
    join_next T \<sigma> True (it\<lparr>ji_ops := g # tl (ji_ops it)\<rparr>) = Some it' \<and> join_ok T U \<sigma> js fx it' \<and>
    length (ji_value it') = length (ji_value it) \<and> set (join_rest js it') = {kp. joined kp js}"
proof -
  obtain d E m pos js' where j: "js = (d, E, m, pos) # js'" using js by (metis list.exhaust prod.exhaust)
  then obtain g gs where g: "ji_ops it = g # gs" "dg_ok T U \<sigma> d m E g" "list_all2 (spec_ok T U \<sigma>) js' gs"
    using inv by (auto simp: join_inv_def list_all2_Cons1 spec_ok_def)
  from dg_begin_spec[OF g(2)] obtain g' where g': "dg_begin T \<sigma> g = Some g'" "dg_iter T U \<sigma> d m E g'"
    "set (dg_rest d m E g') = {kp. on_diagonal d m E kp}" by blast
  let ?it = "it\<lparr>ji_ops := g' # gs\<rparr>"
  have i: "join_inv T U \<sigma> js fx ?it"
    by (rule join_inv_ops(2)[OF inv]) (use j g'(2) g(3) in \<open>simp add: spec_ok_def dg_iter_def\<close>)
  have f: "first_iter T U \<sigma> js ?it" "first_rest js ?it = dg_rest d m E g'" using j g'(2) by (simp_all add: first_iter_def first_rest_def)
  from join_search_spec[OF i f(1)] obtain it' where it': "join_search T \<sigma> ?it = Some it'" "join_ok T U \<sigma> js fx it'"
    "length (ji_value it') = length (ji_value it)" "join_rest js it' = filter (\<lambda>kp. joined kp (tl js)) (dg_rest d m E g')"
    using f(2) by auto
  have "set (join_rest js it') = {kp. joined kp js}" using it'(4) g'(3) j by (auto simp: joined_def)
  then show ?thesis using g(1) g'(1) it' by (auto simp: join_next_def)
qed

text \<open>The join of at most 256 operands ends, and yields every key part on which the join positions of all
  operands agree exactly once, together with the slices of the operands for it.\<close>

theorem hash_join_spec:
  assumes ops: "list_all2 (operand_ok T U \<sigma>) xs ys" and some: "\<exists>x \<in> set xs. snd x \<noteq> []"
    and few: "length xs \<le> 256"
  shows "\<exists>it fuel zs. join_begin T \<sigma> ys = Some it \<and> run_cursor ji_ended join_deref (join_inc T \<sigma>) fuel it = Some zs \<and>
    distinct (map fst zs) \<and> fst ` set zs = join_keys xs \<and>
    (\<forall>(kp, hs) \<in> set zs. list_all2 (\<lambda>(d, E) h. handle_denotes T U \<sigma> d E h) (join_outputs kp xs) hs)"
proof -
  let ?js = "join_specs 0 xs" and ?fx = "join_fixed 0 xs"
  have lens: "length (join_outputs kp xs) = length (join_outputs 0 xs)" for kp
    by (induction xs) (auto split: if_splits)
  define n where "n = length (join_outputs 0 xs)"
  have "length (ji_value (empty_join_iterator :: 'a join_iterator)) = 0" by (simp add: empty_join_iterator_def)
  from join_setup_spec[OF ops join_inv_start this] few obtain it1 where
    s1: "join_setup T \<sigma> 0 ys empty_join_iterator = Some it1" "join_inv T U \<sigma> ?js ?fx it1" "length (ji_value it1) = n"
    by (auto simp: n_def)
  from optimize_operand_order_spec[OF s1(2)] obtain p it2 where
    s2: "is_permutation (length ?js) p" "optimize_operand_order T \<sigma> it1 = Some it2"
      "join_inv T U \<sigma> (map (nth ?js) p) ?fx it2" "ji_value it2 = ji_value it1" by blast
  define js where "js = map (nth ?js) p"
  have ne: "js \<noteq> []" using join_specs_some[OF some, of 0] is_permutation_length[OF s2(1)] by (auto simp: js_def)
  from join_start_spec[OF s2(3)[folded js_def] ne] obtain g it where
    s3: "dg_begin T \<sigma> (hd (ji_ops it2)) = Some g" "ji_ops it2 \<noteq> []"
      "join_next T \<sigma> True (it2\<lparr>ji_ops := g # tl (ji_ops it2)\<rparr>) = Some it"
      "join_ok T U \<sigma> js ?fx it" "length (ji_value it) = n" "set (join_rest js it) = {kp. joined kp js}"
    using s1(3) s2(4) by auto
  have start: "join_begin T \<sigma> ys = Some it" using s1(1) s2(2) s3(1-3) by (simp add: join_begin_def)
  obtain zs where zs: "run_cursor ji_ended join_deref (join_inc T \<sigma>) (length (join_rest js it)) it = Some zs"
    "map fst zs = join_rest js it" "distinct (map fst zs)" "\<forall>z \<in> set zs. join_yields T U \<sigma> js ?fx n (fst z) z"
    using hj.run_keys[of T U \<sigma> js ?fx it n "length (join_rest js it)"] s3(4,5) by auto
  have "set js = set ?js" unfolding js_def by (rule set_permute[OF s2(1)])
  then have joined: "joined kp js \<longleftrightarrow> kp \<in> join_keys xs" for kp using joined_keys[OF ops, of kp 0] by (simp add: joined_def)
  have "list_all2 (\<lambda>(d, E) h. handle_denotes T U \<sigma> d E h) (join_outputs kp xs) hs" if "(kp, hs) \<in> set zs" for kp hs
  proof -
    have y: "join_yields T U \<sigma> js ?fx n kp (kp, hs)" using zs(4) that by fastforce
    then have "list_all2 (\<lambda>(d, E) h. handle_denotes T U \<sigma> d E h) (join_outputs kp xs) (drop 0 hs)"
      using \<open>set js = set ?js\<close> lens[of kp] by (intro outputs_denote[OF ops]) (auto simp: join_yields_def n_def)
    then show ?thesis by simp
  qed
  moreover have "fst ` set zs = join_keys xs"
  proof -
    have "fst ` set zs = set (join_rest js it)" by (simp only: zs(2)[symmetric] list.set_map)
    then show ?thesis using s3(6) joined by simp
  qed
  ultimately show ?thesis using start zs(1,3) by blast
qed

end
