(* ===== verification/Hypertrie_Iterator.thy ===== *)
theory Hypertrie_Iterator
  imports Hash_Diagonal Raw_Iterator
begin

text \<open>
  Iterating over a handle (Iterator.hpp, \<open>const_Hypertrie::begin\<close>) and the cardinalities of its
  dimensions (\<open>get_cards\<close>). The iterator is constructed for the kind of handle: empty, owning its node, or
  referring to the storage of a context. A loop over it yields each entry once.
\<close>

subsection \<open>The iterator\<close>

text \<open>\<open>construct\<close> of the table of methods, which is indexed by the depth.\<close>

definition construct_iterator :: "'v::zero_neq_one htt \<Rightarrow> 'v node_storage \<Rightarrow> 'v hypertrie \<Rightarrow> 'v raw_iterator option" where
  "construct_iterator T \<sigma> h =
     (if ht_empty T h then Some (new_iterator (ht_depth h))
      else if ht_contextless h then iterator_sen T (ht_depth h) (ht_container h) (own_node h)
      else iterator_begin T \<sigma> (ht_depth h) (ht_container h))"

definition new_ht_iterator :: "'v::zero_neq_one htt \<Rightarrow> 'v node_storage \<Rightarrow> 'v hypertrie \<Rightarrow> 'v raw_iterator option" where
  "new_ht_iterator T \<sigma> h = do {
     check (1 \<le> ht_depth h \<and> ht_depth h \<le> hypertrie_max_depth);
     construct_iterator T \<sigma> h
   }"

definition ht_begin :: "'v::zero_neq_one htt \<Rightarrow> 'v node_storage \<Rightarrow> 'v hypertrie \<Rightarrow> 'v raw_iterator option" where
  "ht_begin T \<sigma> h = (if ht_depth h \<noteq> 0 then new_ht_iterator T \<sigma> h else None)"

definition ht_iterate :: "'v::zero_neq_one htt \<Rightarrow> 'v node_storage \<Rightarrow> 'v hypertrie \<Rightarrow> 'v entry list option" where
  "ht_iterate T \<sigma> h = do {
     it \<leftarrow> ht_begin T \<sigma> h;
     drain ri_ended (\<lambda>it. Some (iterator_value it)) (iterator_inc T \<sigma> (ht_depth h)) it
   }"

lemma iterate_drain:
  "iterate T \<sigma> d fuel it = Some es \<Longrightarrow> drain ri_ended (\<lambda>it. Some (iterator_value it)) (iterator_inc T \<sigma> d) it = Some es"
  unfolding iterate_def by (rule drain_run)

lemma ht_iterate_spec:
  assumes below: "below_ok T U \<sigma> (Suc d)" and h: "handle_denotes T U \<sigma> d E h" and d: "d \<le> hypertrie_max_depth"
  shows "\<exists>es. ht_iterate T \<sigma> h = Some es \<and> set es = E \<and> distinct es"
proof -
  note hd = handle_denotesD[OF h]
  have U: "universe_ok T U" using level_okD(1)[OF below_okD(1)[OF below hd(2)]] by simp
  have start: "ht_begin T \<sigma> h = construct_iterator T \<sigma> h" using hd(1,2) d by (simp add: ht_begin_def new_ht_iterator_def)
  show ?thesis
  proof (cases "E = {}")
    case True
    then have "ht_empty T h" using hd(4) by (simp add: ht_empty_def)
    then have "ht_begin T \<sigma> h = Some (new_iterator d)" using start hd(1) by (simp add: construct_iterator_def)
    then show ?thesis using True by (simp add: ht_iterate_def new_iterator_def drain.simps)
  next
    case False
    then have ne: "\<not> ht_empty T h" using hd(4) ident_nonzero[OF U hd(3)] by (simp add: ht_empty_def id_empty_def)
    show ?thesis
    proof (cases "ht_contextless h")
      case True
      then have "card E = 1" using hd(7) False entries_okD(1)[OF hd(3)] by (simp add: le_Suc_eq)
      then obtain e where e: "E = {e}" by (auto simp: card_1_singleton_iff)
      have id: "nc_id (ht_container h) = ident T d {e}" using hd(4) e by (simp add: ht_container_def)
      from iterator_sen_spec[OF U hd(3)[unfolded e] id, of "own_node h"] hd(8)[OF True e] obtain it where
        it: "iterator_sen T d (ht_container h) (own_node h) = Some it" "ri_active it = 0" "\<not> ri_ended it" "(ri_key it, ri_value it) = e"
        by blast
      have "drain ri_ended (\<lambda>it. Some (iterator_value it)) (iterator_inc T \<sigma> d) it = Some [e]"
        using it(2-4) by (simp add: drain.simps iterator_inc_def iterator_value_def)
      then show ?thesis using it(1) start True ne hd(1) e by (simp add: ht_iterate_def construct_iterator_def)
    next
      case False
      from iterator_spec[OF hd(2) below hd(3) hd(6)[OF False] hd(5)[OF False] order_refl] iterate_drain obtain it es where
        "iterator_begin T \<sigma> d (ht_container h) = Some it" "set es = E" "distinct es"
        "drain ri_ended (\<lambda>it. Some (iterator_value it)) (iterator_inc T \<sigma> d) it = Some es" by metis
      then show ?thesis using start False ne hd(1) by (simp add: ht_iterate_def construct_iterator_def)
    qed
  qed
qed

subsection \<open>Cardinalities\<close>

text \<open>The number of different key parts at a position.\<close>

definition dim_card :: "'v entry set \<Rightarrow> nat \<Rightarrow> nat" where
  "dim_card E p = card ((\<lambda>e. fst e ! p) ` E)"

lemma dim_card_one: "dim_card {e} p = 1" and dim_card_empty: "dim_card {} p = 0"
  by (simp_all add: dim_card_def)

lemma dim_card_depth1:
  assumes "entries_ok U 1 E"
  shows "dim_card E 0 = card E"
  unfolding dim_card_def
proof (rule card_image, rule inj_onI)
  fix a b assume ab: "a \<in> E" "b \<in> E" "fst a ! 0 = fst b ! 0"
  have "length (fst a) = 1" "length (fst b) = 1" using ab(1,2) entries_okD(3)[OF assms] by auto
  then have "fst a = fst b" using ab(3) by (auto simp: length_Suc_conv)
  then show "a = b" using entries_okD(4)[OF assms] ab by (auto dest: inj_onD)
qed

lemma dim_card_edges:
  assumes "fn_repr T d E fn" "2 \<le> d" "p < d"
  shows "edge_count d fn p = dim_card E p"
proof -
  have r: "edges_repr T (d - 1) p E (fn_edges fn ! p)" using assms by (simp add: fn_repr_def)
  have "set (keys_of (fn_edges fn ! p)) = (\<lambda>e. fst e ! p) ` E"
  proof -
    have "k \<in> set (keys_of (fn_edges fn ! p)) \<longleftrightarrow> sub_entries p k E \<noteq> {}" for k
      using edges_reprD(2)[OF r, of k] al_find_None_iff[of "fn_edges fn ! p" k] by (auto split: if_splits)
    moreover have "sub_entries p k E \<noteq> {} \<longleftrightarrow> k \<in> (\<lambda>e. fst e ! p) ` E" for k
    proof -
      have "sub_entries p k E \<noteq> {} \<longleftrightarrow> (\<exists>e \<in> E. fst e ! p = k)" unfolding sub_entries_def by blast
      then show ?thesis unfolding image_iff by metis
    qed
    ultimately show ?thesis by blast
  qed
  then show ?thesis using distinct_card[OF edges_reprD(1)[OF r]] assms(2) by (simp add: edge_count_def dim_card_def)
qed

lemma ht_get_cards_spec:
  assumes below: "below_ok T U \<sigma> (Suc d)" and h: "handle_denotes T U \<sigma> d E h"
    and ps: "length ps \<le> d" "\<forall>p \<in> set ps. p < d"
  shows "ht_get_cards T \<sigma> h ps = Some (map (dim_card E) ps)"
proof -
  note hd = handle_denotesD[OF h]
  have lvl: "level_ok T U \<sigma> d" using below_okD(1)[OF below hd(2)] by simp
  note U = level_okD(1)[OF lvl] and n = ht_size_spec[OF below h]
  have fin: "finite E" by (rule entries_okD(1)[OF hd(3)])
  consider "ps = []" | "ps \<noteq> []" "E = {}" | "ps \<noteq> []" "E \<noteq> {}" "d = 1" | e where "ps \<noteq> []" "E = {e}" "2 \<le> d" | "ps \<noteq> []" "2 \<le> card E" "2 \<le> d"
  proof -
    have "card E = 0 \<or> card E = 1 \<or> 2 \<le> card E" by linarith
    moreover have "d = 1 \<or> 2 \<le> d" using hd(2) by linarith
    moreover have "card E = 0 \<longleftrightarrow> E = {}" using fin by simp
    moreover have "card E = 1 \<Longrightarrow> \<exists>e. E = {e}" by (simp add: card_1_singleton_iff)
    ultimately show thesis using that by blast
  qed
  then show ?thesis
  proof cases
    case 2
    then have "ht_empty T h" using hd(4) by (simp add: ht_empty_def)
    then show ?thesis using 2 ps(1) hd(1) by (simp add: ht_get_cards_def dim_card_empty map_replicate_const[symmetric])
  next
    case 3
    then have "ps = [0]" using ps by (cases ps) auto
    moreover have "\<not> ht_empty T h" using 3 hd(4) ident_nonzero[OF U hd(3)] by (simp add: ht_empty_def id_empty_def)
    ultimately show ?thesis using 3 hd(1) n dim_card_depth1[of U E] hd(3) by (simp add: ht_get_cards_def)
  next
    case 4
    then have "\<not> ht_empty T h" using hd(4) ident_nonzero[OF U hd(3)] by (simp add: ht_empty_def id_empty_def)
    then show ?thesis using 4 hd(1) n ps(1) by (simp add: ht_get_cards_def dim_card_one[simplified] map_replicate_const[symmetric])
  next
    case 5
    then have ne: "\<not> ht_empty T h" using hd(4) ident_nonzero[OF U hd(3)] by (auto simp: ht_empty_def id_empty_def)
    have nc: "\<not> ht_contextless h" using hd(7) 5(2) by fastforce
    obtain fn where fn: "fn_deref \<sigma> d (ht_container h) = Some fn" "fn_repr T d E fn"
      using fn_deref_repr[OF lvl hd(3) 5(2) hd(6)[OF nc] hd(5)[OF nc]] by auto
    have "is_fn T (ht_id h)" using is_fn_ident[OF U hd(3)] 5(2) hd(4) by simp
    then show ?thesis using fn 5 ne n hd(1) ps dim_card_edges[OF fn(2) 5(3)] by (simp add: ht_get_cards_def get_cards_at_def)
  qed (use hd(1) in \<open>simp add: ht_get_cards_def\<close>)
qed

end
