(* ===== verification/Label_Graph.thy ===== *)
theory Label_Graph
  imports Prelude
begin

text \<open>
  The undirected graph of the labels of a subscript (UndirectedGraph.hpp) and the search for its
  connected components. The hash sets of the program are distinct lists; the order in which the library
  runs over a set is a parameter \<open>ord\<close>, of which only \<open>set_order\<close> is known.
\<close>

subsection \<open>Sets of the library\<close>

type_synonym 'a set_iteration = "'a list \<Rightarrow> 'a list"

definition set_order :: "'a set_iteration \<Rightarrow> bool" where
  "set_order ord \<longleftrightarrow> (\<forall>xs. set (ord xs) = set xs \<and> (distinct xs \<longrightarrow> distinct (ord xs)))"

lemma set_orderD [simp]:
  "set_order ord \<Longrightarrow> set (ord xs) = set xs"
  "set_order ord \<Longrightarrow> distinct xs \<Longrightarrow> distinct (ord xs)"
  by (auto simp: set_order_def)

lemma set_order_hd: "set_order ord \<Longrightarrow> xs \<noteq> [] \<Longrightarrow> hd (ord xs) \<in> set xs"
  by (metis hd_in_set set_empty set_orderD(1))

lemma set_order_id: "set_order id" "set_order rev"
  by (auto simp: set_order_def)

lemma distinct_removeAll_set [simp]: "distinct xs \<Longrightarrow> distinct (removeAll x xs)"
  by (simp add: removeAll_filter_not_eq)

subsection \<open>The graph\<close>

record 'a undirected_graph =
  ug_nodes :: "'a list"
  ug_edges :: "('a \<times> 'a list) list"

definition empty_graph :: "'a undirected_graph" where
  "empty_graph = \<lparr>ug_nodes = [], ug_edges = []\<rparr>"

definition addEdge :: "'a \<Rightarrow> 'a \<Rightarrow> 'a undirected_graph \<Rightarrow> 'a undirected_graph" where
  "addEdge a b g =
     (let g1 = g\<lparr>ug_nodes := List.insert a (ug_nodes g), ug_edges := al_modify a [] (List.insert b) (ug_edges g)\<rparr>
      in g1\<lparr>ug_nodes := List.insert b (ug_nodes g1), ug_edges := al_modify b [] (List.insert a) (ug_edges g1)\<rparr>)"

definition addCompleteGraph :: "'a set_iteration \<Rightarrow> 'a list \<Rightarrow> 'a undirected_graph \<Rightarrow> 'a undirected_graph" where
  "addCompleteGraph ord new_nodes g =
     (let new_nodes_set = remdups new_nodes
      in fold (\<lambda>a. fold (addEdge a) (ord new_nodes_set)) (ord new_nodes_set) g)"

text \<open>\<open>edges.at(node)\<close> throws for a node without edges, which ends the program in a \<open>noexcept\<close>
  function.\<close>

definition neighbors :: "'a undirected_graph \<Rightarrow> 'a \<Rightarrow> 'a list option" where
  "neighbors g a = map_of (ug_edges g) a"

definition getNodes :: "'a undirected_graph \<Rightarrow> 'a list" where
  "getNodes g = ug_nodes g"

definition clear_graph :: "'a undirected_graph \<Rightarrow> 'a undirected_graph" where
  "clear_graph g = g\<lparr>ug_nodes := [], ug_edges := []\<rparr>"

text \<open>The loops of the breadth first search: over the neighbours of a node, over the open nodes, and
  over the unfinished nodes.\<close>

fun visit_neighbors :: "'a list \<Rightarrow> 'a list \<times> 'a list \<times> 'a list \<Rightarrow> 'a list \<times> 'a list \<times> 'a list" where
  "visit_neighbors [] s = s"
| "visit_neighbors (x # xs) (found, opn, unfinished) =
     (if x \<in> set unfinished then visit_neighbors xs (List.insert x found, List.insert x opn, removeAll x unfinished)
      else visit_neighbors xs (found, opn, unfinished))"

partial_function (option) search_component ::
  "'a set_iteration \<Rightarrow> 'a undirected_graph \<Rightarrow> 'a list \<Rightarrow> 'a list \<Rightarrow> 'a list \<Rightarrow> ('a list \<times> 'a list) option" where
  "search_component ord g found opn unfinished =
     (if opn = [] then Some (found, unfinished)
      else do {
        let node = hd (ord opn);
        adj \<leftarrow> map_of (ug_edges g) node;
        let (found', opn', unfinished') = visit_neighbors (ord adj) (found, removeAll node opn, unfinished);
        search_component ord g found' opn' unfinished'
      })"

partial_function (option) search_components ::
  "'a set_iteration \<Rightarrow> 'a undirected_graph \<Rightarrow> 'a list \<Rightarrow> 'a list list \<Rightarrow> 'a list list option" where
  "search_components ord g unfinished components =
     (if unfinished = [] then Some components
      else do {
        let first = hd (ord unfinished);
        (found, unfinished') \<leftarrow> search_component ord g [first] [first] (removeAll first unfinished);
        search_components ord g unfinished' (components @ [found])
      })"

definition getConnectedComponents :: "'a set_iteration \<Rightarrow> 'a undirected_graph \<Rightarrow> 'a list list option" where
  "getConnectedComponents ord g = search_components ord g (ug_nodes g) []"

subsection \<open>The edge relation\<close>

definition adjacent :: "'a undirected_graph \<Rightarrow> ('a \<times> 'a) set" where
  "adjacent g = {(a, b). \<exists>bs. map_of (ug_edges g) a = Some bs \<and> b \<in> set bs}"

definition graph_ok :: "'a undirected_graph \<Rightarrow> bool" where
  "graph_ok g \<longleftrightarrow> distinct (ug_nodes g) \<and> (\<forall>a \<in> set (ug_nodes g). map_of (ug_edges g) a \<noteq> None) \<and>
     (\<forall>a b. (a, b) \<in> adjacent g \<longrightarrow> (b, a) \<in> adjacent g \<and> a \<in> set (ug_nodes g) \<and> b \<in> set (ug_nodes g))"

lemma graph_ok_empty: "graph_ok empty_graph" "adjacent empty_graph = {}" "ug_nodes empty_graph = []"
  by (simp_all add: graph_ok_def adjacent_def empty_graph_def)

lemma addEdge_graph:
  "ug_nodes (addEdge a b g) = List.insert b (List.insert a (ug_nodes g))"
  "adjacent (addEdge a b g) = adjacent g \<union> {(a, b), (b, a)}"
  by (auto simp: addEdge_def adjacent_def al_simps Let_def split: if_splits option.splits)

lemma addEdge_ok: "graph_ok g \<Longrightarrow> graph_ok (addEdge a b g)"
  unfolding graph_ok_def addEdge_graph
  by (auto simp: addEdge_def al_simps Let_def split: option.splits)

lemma fold_addEdge:
  "graph_ok g \<Longrightarrow> graph_ok (fold (addEdge a) bs g)"
  "adjacent (fold (addEdge a) bs g) = adjacent g \<union> {(a, b) | b. b \<in> set bs} \<union> {(b, a) | b. b \<in> set bs}"
  "set (ug_nodes (fold (addEdge a) bs g)) = set (ug_nodes g) \<union> (if bs = [] then {} else insert a (set bs))"
  by (induction bs arbitrary: g) (auto simp: addEdge_ok addEdge_graph)

lemma addCompleteGraph_graph:
  assumes ord: "set_order ord"
  shows "graph_ok g \<Longrightarrow> graph_ok (addCompleteGraph ord ns g)"
    "adjacent (addCompleteGraph ord ns g) = adjacent g \<union> set ns \<times> set ns"
    "set (ug_nodes (addCompleteGraph ord ns g)) = set (ug_nodes g) \<union> set ns"
proof -
  let ?f = "\<lambda>as. fold (\<lambda>a. fold (addEdge a) (ord (remdups ns))) as"
  have ok: "graph_ok g \<Longrightarrow> graph_ok (?f as g)" for as g by (induction as arbitrary: g) (auto simp: fold_addEdge(1))
  have adj: "adjacent (?f as g) = adjacent g \<union> set as \<times> set ns \<union> set ns \<times> set as" for as g
    using ord by (induction as arbitrary: g) (auto simp: fold_addEdge(2))
  have empty: "ord (remdups ns) = [] \<longleftrightarrow> ns = []" using ord by (metis set_empty set_orderD(1) set_remdups)
  have nodes: "set (ug_nodes (?f as g)) = set (ug_nodes g) \<union> (if ns = [] then {} else set as \<union> (if as = [] then {} else set ns))" for as g
    using ord empty by (induction as arbitrary: g) (auto simp: fold_addEdge(3))
  show "graph_ok g \<Longrightarrow> graph_ok (addCompleteGraph ord ns g)" by (simp add: addCompleteGraph_def Let_def ok)
  show "adjacent (addCompleteGraph ord ns g) = adjacent g \<union> set ns \<times> set ns"
    using ord by (auto simp: addCompleteGraph_def Let_def adj)
  show "set (ug_nodes (addCompleteGraph ord ns g)) = set (ug_nodes g) \<union> set ns"
    using ord empty by (auto simp: addCompleteGraph_def Let_def nodes)
qed

subsection \<open>The components\<close>

definition visited where
  "visited xs s s' \<longleftrightarrow> (case (s, s') of ((found, opn, unf), (found', opn', unf')) \<Rightarrow>
     set found' = set found \<union> (set xs \<inter> set unf) \<and> set opn' = set opn \<union> (set xs \<inter> set unf) \<and>
     set unf' = set unf - set xs \<and> distinct opn' \<and> distinct unf' \<and> distinct found' \<and>
     length opn' + length unf' = length opn + length unf)"

lemma visit_neighbors_visited:
  assumes "distinct opn" "distinct unf" "distinct found" "set found \<inter> set unf = {}" "set opn \<subseteq> set found"
  shows "visited xs (found, opn, unf) (visit_neighbors xs (found, opn, unf))"
  using assms
proof (induction xs arbitrary: found opn unf)
  case Nil
  then show ?case by (simp add: visited_def)
next
  case (Cons x xs)
  show ?case
  proof (cases "x \<in> set unf")
    case True
    then have "x \<notin> set opn" using Cons.prems by auto
    have "length (removeAll x unf) = length unf - 1" "0 < length unf"
      using True Cons.prems(2) by (auto simp: distinct_remove1_removeAll[symmetric] length_remove1)
    then have len: "length (List.insert x opn) + length (removeAll x unf) = length opn + length unf"
      using \<open>x \<notin> set opn\<close> by simp
    have "visited xs (List.insert x found, List.insert x opn, removeAll x unf)
        (visit_neighbors xs (List.insert x found, List.insert x opn, removeAll x unf))"
      using Cons.prems by (intro Cons.IH) auto
    then show ?thesis using True len by (auto simp: visited_def split: prod.splits)
  next
    case False
    then show ?thesis using Cons.IH[OF Cons.prems] by (auto simp: visited_def split: prod.splits)
  qed
qed

lemma visit_neighbors_spec:
  assumes "visit_neighbors xs (found, opn, unf) = (found', opn', unf')" "distinct opn" "distinct unf" "distinct found"
    "set found \<inter> set unf = {}" "set opn \<subseteq> set found"
  shows "set found' = set found \<union> (set xs \<inter> set unf)" "set opn' = set opn \<union> (set xs \<inter> set unf)"
    "set unf' = set unf - set xs" "distinct opn'" "distinct unf'" "distinct found'"
    "length opn' + length unf' = length opn + length unf"
  using visit_neighbors_visited[OF assms(2-6), of xs] by (simp_all add: visited_def assms(1))

lemma visit_neighbors_ordered_ok:
  assumes "graph_ok g" "a \<in> set (ug_nodes g)"
  shows "\<exists>bs. map_of (ug_edges g) a = Some bs \<and> set bs = {b. (a, b) \<in> adjacent g}"
  using assms by (auto simp: graph_ok_def adjacent_def)

text \<open>The inner search: every node that has left the open set has all its neighbours in the component,
  and the component is what the first node reaches.\<close>

definition search_inv where
  "search_inv g first W found opn unf \<longleftrightarrow> distinct found \<and> distinct opn \<and> distinct unf \<and>
     set found \<inter> set unf = {} \<and> set found \<union> set unf = W \<and> set opn \<subseteq> set found \<and> first \<in> set found \<and>
     (\<forall>a \<in> set found. (first, a) \<in> (adjacent g)\<^sup>*) \<and>
     (\<forall>a \<in> set found - set opn. \<forall>b. (a, b) \<in> adjacent g \<longrightarrow> b \<in> set found)"

lemma search_component_spec:
  assumes ord: "set_order ord" and g: "graph_ok g" and W: "W \<subseteq> set (ug_nodes g)"
    "\<And>a b. a \<in> W \<Longrightarrow> (a, b) \<in> adjacent g \<Longrightarrow> b \<in> W"
  shows "search_inv g first W found opn unf \<Longrightarrow> \<exists>found' unf'. search_component ord g found opn unf = Some (found', unf') \<and>
    search_inv g first W found' [] unf' \<and> length unf' \<le> length unf"
proof (induction "length opn + length unf" arbitrary: found opn unf rule: less_induct)
  case less
  note i = less.prems[unfolded search_inv_def]
  show ?case
  proof (cases "opn = []")
    case True
    then show ?thesis using less.prems by (subst search_component.simps) auto
  next
    case False
    define node where "node = hd (ord opn)"
    have node: "node \<in> set opn" using set_order_hd[OF ord False] by (simp add: node_def)
    then have nodeW: "node \<in> set found" "node \<in> W" using i by auto
    from visit_neighbors_ordered_ok[OF g, of node] nodeW(2) W(1) obtain adj where
      adj: "map_of (ug_edges g) node = Some adj" "set adj = {b. (node, b) \<in> adjacent g}" by blast
    obtain found' opn' unf' where v: "visit_neighbors (ord adj) (found, removeAll node opn, unf) = (found', opn', unf')"
      by (metis prod_cases3)
    have d: "distinct (removeAll node opn)" "set (removeAll node opn) \<subseteq> set found" using i by auto
    have d': "distinct unf" "distinct found" "set found \<inter> set unf = {}" using i by auto
    note vs = visit_neighbors_spec[OF v d(1) d' d(2), unfolded set_orderD(1)[OF ord]]
    have len: "length (removeAll node opn) < length opn" using node by (rule length_removeAll_less)
    have adjW: "set adj \<subseteq> W" using adj(2) W(2)[OF nodeW(2)] by auto
    have inv: "search_inv g first W found' opn' unf'"
      unfolding search_inv_def
    proof (intro conjI)
      show "\<forall>a \<in> set found'. (first, a) \<in> (adjacent g)\<^sup>*"
        using i vs(1) adj(2) nodeW(1) by (auto intro: rtrancl_into_rtrancl)
      show "\<forall>a \<in> set found' - set opn'. \<forall>b. (a, b) \<in> adjacent g \<longrightarrow> b \<in> set found'"
      proof (intro ballI allI impI)
        fix a b assume a: "a \<in> set found' - set opn'" and b: "(a, b) \<in> adjacent g"
        show "b \<in> set found'"
        proof (cases "a = node")
          case True
          then have "b \<in> set adj" using b adj(2) by simp
          then show ?thesis using adjW i vs(1) by auto
        next
          case False
          then have "a \<in> set found - set opn" using a i vs(1,2) by auto
          then show ?thesis using b i vs(1) by auto
        qed
      qed
    qed (use i vs in auto)
    have "length opn' + length unf' < length opn + length unf" using vs(7) i len by simp
    from less.hyps[OF this inv] obtain found'' unf'' where
      r: "search_component ord g found' opn' unf' = Some (found'', unf'')" "search_inv g first W found'' [] unf''" "length unf'' \<le> length unf'"
      by blast
    have "card (set unf') \<le> card (set unf)" using vs(3) i by (intro card_mono) auto
    then have "length unf' \<le> length unf" using i vs(5) by (simp add: distinct_card)
    moreover have "search_component ord g found opn unf = Some (found'', unf'')"
      using False adj(1) v r(1) by (subst search_component.simps) (simp add: node_def[symmetric] Let_def)
    ultimately show ?thesis using r by auto
  qed
qed

text \<open>A list of components: pairwise disjoint, and each consists of exactly the nodes that any of its
  nodes reaches.\<close>

definition components_of :: "('a \<times> 'a) set \<Rightarrow> 'a set \<Rightarrow> 'a list list \<Rightarrow> bool" where
  "components_of R N cs \<longleftrightarrow> \<Union> (set ` set cs) = N \<and> distinct (concat cs) \<and> (\<forall>c \<in> set cs. c \<noteq> []) \<and>
     (\<forall>c \<in> set cs. \<forall>a \<in> set c. \<forall>b. (a, b) \<in> R\<^sup>* \<longleftrightarrow> b \<in> set c)"

lemma components_of_snoc:
  assumes "components_of R N cs" "c \<noteq> []" "distinct c" "set c \<inter> N = {}" "\<forall>a \<in> set c. \<forall>b. (a, b) \<in> R\<^sup>* \<longleftrightarrow> b \<in> set c"
  shows "components_of R (N \<union> set c) (cs @ [c])"
  using assms unfolding components_of_def by (intro conjI) (simp_all add: Int_commute, blast)

lemma closed_component:
  assumes inv: "search_inv g first W found [] unf" and g: "graph_ok g"
  shows "\<forall>a \<in> set found. \<forall>b. (a, b) \<in> (adjacent g)\<^sup>* \<longleftrightarrow> b \<in> set found"
proof (intro ballI allI)
  fix a b assume a: "a \<in> set found"
  have sym: "sym ((adjacent g)\<^sup>*)" using g by (intro sym_rtrancl) (auto simp: sym_def graph_ok_def)
  show "(a, b) \<in> (adjacent g)\<^sup>* \<longleftrightarrow> b \<in> set found"
  proof
    assume "(a, b) \<in> (adjacent g)\<^sup>*"
    then show "b \<in> set found" using a by induction (use inv in \<open>auto simp: search_inv_def\<close>)
  next
    assume "b \<in> set found"
    then have "(first, b) \<in> (adjacent g)\<^sup>*" "(first, a) \<in> (adjacent g)\<^sup>*" using inv a by (auto simp: search_inv_def)
    then show "(a, b) \<in> (adjacent g)\<^sup>*" using sym by (meson rtrancl_trans symD)
  qed
qed

lemma search_components_spec:
  assumes ord: "set_order ord" and g: "graph_ok g"
  shows "distinct unf \<Longrightarrow> set unf \<subseteq> set (ug_nodes g) \<Longrightarrow> (\<And>a b. a \<in> set unf \<Longrightarrow> (a, b) \<in> adjacent g \<Longrightarrow> b \<in> set unf) \<Longrightarrow>
    components_of (adjacent g) N cs \<Longrightarrow> N \<inter> set unf = {} \<Longrightarrow>
    \<exists>cs'. search_components ord g unf cs = Some cs' \<and> components_of (adjacent g) (N \<union> set unf) cs'"
proof (induction "length unf" arbitrary: unf cs N rule: less_induct)
  case less
  show ?case
  proof (cases "unf = []")
    case True
    then show ?thesis using less.prems by (subst search_components.simps) simp
  next
    case False
    define first where "first = hd (ord unf)"
    have f: "first \<in> set unf" using set_order_hd[OF ord False] by (simp add: first_def)
    have inv: "search_inv g first (set unf) [first] [first] (removeAll first unf)"
      using f less.prems(1) by (auto simp: search_inv_def)
    from search_component_spec[OF ord g less.prems(2) _ inv] less.prems(3) obtain found unf' where
      s: "search_component ord g [first] [first] (removeAll first unf) = Some (found, unf')"
        "search_inv g first (set unf) found [] unf'" "length unf' \<le> length (removeAll first unf)" by blast
    note i = s(2)[unfolded search_inv_def] and closed = closed_component[OF s(2) g]
    have "length (removeAll first unf) < length unf" using f by (rule length_removeAll_less)
    then have len: "length unf' < length unf" using s(3) by simp
    have closed': "b \<in> set unf'" if "a \<in> set unf'" "(a, b) \<in> adjacent g" for a b
    proof -
      have "(b, a) \<in> adjacent g" using that(2) g by (auto simp: graph_ok_def)
      then have "b \<notin> set found" using closed that(1) i by (auto dest: r_into_rtrancl)
      moreover have "b \<in> set unf" using less.prems(3)[OF _ that(2)] that(1) i by auto
      ultimately show ?thesis using i by auto
    qed
    have comps: "components_of (adjacent g) (N \<union> set found) (cs @ [found])"
      by (rule components_of_snoc[OF less.prems(4)]) (use less.prems(5) i closed in auto)
    have rest: "distinct unf'" "set unf' \<subseteq> set (ug_nodes g)" "(N \<union> set found) \<inter> set unf' = {}"
      using less.prems(2,5) i by auto
    obtain cs' where "search_components ord g unf' (cs @ [found]) = Some cs'"
      "components_of (adjacent g) (N \<union> set found \<union> set unf') cs'"
      using less.hyps[OF len rest(1,2) _ comps rest(3)] closed' by blast
    moreover have "N \<union> set found \<union> set unf' = N \<union> set unf" using i by auto
    ultimately show ?thesis using s(1) False by (subst search_components.simps) (simp add: first_def[symmetric] Let_def)
  qed
qed

lemma getConnectedComponents_spec:
  assumes ord: "set_order ord" and g: "graph_ok g"
  shows "\<exists>cs. getConnectedComponents ord g = Some cs \<and> components_of (adjacent g) (set (ug_nodes g)) cs"
  using search_components_spec[OF ord g, of "ug_nodes g" "{}" "[]"] g
  by (auto simp: getConnectedComponents_def graph_ok_def components_of_def)

end
