(* ===== verification/Raw_Subscript.thy ===== *)
theory Raw_Subscript
  imports Label_Graph
begin

text \<open>
  The subscript of an Einstein summation as it is stored (RawSubscript.hpp): the labels of the operands
  and of the result, their sets and positions, the removal of a label, and the comparison. Positions of
  operands and labels are kept in 8 bits, as in the source.
\<close>

subsection \<open>The data\<close>

type_synonym label = char
type_synonym operand_sc = "label list"
type_synonym label_pos = "8 word"

record raw_subscript =
  rs_operands :: "operand_sc list"
  rs_result :: "label list"
  rs_hash :: "64 word"

text \<open>What the subscripts use of the libraries: the order in which a hash set of labels is run over,
  and the hash of a subscript.\<close>

record sc_library =
  sl_order :: "label set_iteration"
  sl_hash :: "operand_sc list \<Rightarrow> label list \<Rightarrow> 64 word"

definition new_raw_subscript :: "sc_library \<Rightarrow> operand_sc list \<Rightarrow> label list \<Rightarrow> raw_subscript" where
  "new_raw_subscript L operands result = \<lparr>rs_operands = operands, rs_result = result, rs_hash = sl_hash L operands result\<rparr>"

definition rs_operandsCount :: "raw_subscript \<Rightarrow> nat" where
  "rs_operandsCount rs = length (rs_operands rs)"

text \<open>Indexing a vector outside its range is undefined.\<close>

definition at_index :: "'a list \<Rightarrow> nat \<Rightarrow> 'a option" where
  "at_index xs i = (if i < length xs then Some (xs ! i) else None)"

definition rs_labelCount :: "raw_subscript \<Rightarrow> label_pos \<Rightarrow> nat option" where
  "rs_labelCount rs operand_pos = map_option length (at_index (rs_operands rs) (unat operand_pos))"

definition rs_resultLabelCount :: "raw_subscript \<Rightarrow> nat" where
  "rs_resultLabelCount rs = length (rs_result rs)"

definition rs_operandsLabelSet :: "raw_subscript \<Rightarrow> label list" where
  "rs_operandsLabelSet rs = fold (fold List.insert) (rs_operands rs) []"

definition rs_resultLabelSet :: "raw_subscript \<Rightarrow> label list" where
  "rs_resultLabelSet rs = fold List.insert (rs_result rs) []"

fun label_poss_loop :: "label \<Rightarrow> operand_sc \<Rightarrow> nat \<Rightarrow> label_pos list" where
  "label_poss_loop label [] pos = []"
| "label_poss_loop label (l # ls) pos =
     (if l = label then of_nat pos # label_poss_loop label ls (Suc pos) else label_poss_loop label ls (Suc pos))"

definition rs_labelPossInOperands :: "raw_subscript \<Rightarrow> label \<Rightarrow> label_pos list list" where
  "rs_labelPossInOperands rs label = map (\<lambda>operand. label_poss_loop label operand 0) (rs_operands rs)"

text \<open>\<open>insert\<close> keeps the first position of a label that occurs twice.\<close>

fun result_poss_loop :: "label list \<Rightarrow> nat \<Rightarrow> (label \<times> label_pos) list \<Rightarrow> (label \<times> label_pos) list" where
  "result_poss_loop [] pos m = m"
| "result_poss_loop (l # ls) pos m = result_poss_loop ls (Suc pos) (al_emplace l (of_nat pos) m)"

definition rs_labelPossInResult :: "raw_subscript \<Rightarrow> (label \<times> label_pos) list" where
  "rs_labelPossInResult rs = result_poss_loop (rs_result rs) 0 []"

definition remaining_operands :: "label \<Rightarrow> operand_sc list \<Rightarrow> operand_sc list" where
  "remaining_operands label operands = filter (\<lambda>op. op \<noteq> []) (map (filter (\<lambda>l. l \<noteq> label)) operands)"

definition rs_removeLabel :: "sc_library \<Rightarrow> raw_subscript \<Rightarrow> label \<Rightarrow> raw_subscript option" where
  "rs_removeLabel L rs label = do {
     check (label \<in> set (rs_operandsLabelSet rs));
     Some (new_raw_subscript L (remaining_operands label (rs_operands rs)) (rs_result rs))
   }"

text \<open>The comparison of two label sequences of the same length, and of the operands.\<close>

fun labels_differ :: "label list \<Rightarrow> label list \<Rightarrow> bool" where
  "labels_differ (a # as) (b # bs) = (if a \<noteq> b then True else labels_differ as bs)"
| "labels_differ as bs = False"

fun operands_differ :: "operand_sc list \<Rightarrow> operand_sc list \<Rightarrow> bool" where
  "operands_differ (a # as) (b # bs) =
     (if length a \<noteq> length b then True else if labels_differ a b then True else operands_differ as bs)"
| "operands_differ as bs = False"

definition rs_differs :: "raw_subscript \<Rightarrow> raw_subscript \<Rightarrow> bool" where
  "rs_differs rs rs' =
     (if length (rs_operands rs) \<noteq> length (rs_operands rs') then True
      else if length (rs_result rs) \<noteq> length (rs_result rs') then True
      else if operands_differ (rs_operands rs) (rs_operands rs') then True
      else labels_differ (rs_result rs) (rs_result rs'))"

subsection \<open>Facts about the stored subscript\<close>

abbreviation labels_of :: "operand_sc list \<Rightarrow> label set" where
  "labels_of ops \<equiv> \<Union> (set ` set ops)"

lemma fold_insert_set: "set (fold List.insert xs ys) = set xs \<union> set ys" "distinct ys \<Longrightarrow> distinct (fold List.insert xs ys)"
  by (induction xs arbitrary: ys) auto

lemma fold_fold_insert: "set (fold (fold List.insert) ops ys) = labels_of ops \<union> set ys"
  "distinct ys \<Longrightarrow> distinct (fold (fold List.insert) ops ys)"
  by (induction ops arbitrary: ys) (auto simp: fold_insert_set)

lemma label_sets [simp]:
  "set (rs_operandsLabelSet rs) = labels_of (rs_operands rs)" "distinct (rs_operandsLabelSet rs)"
  "set (rs_resultLabelSet rs) = set (rs_result rs)" "distinct (rs_resultLabelSet rs)"
  by (simp_all add: rs_operandsLabelSet_def rs_resultLabelSet_def fold_fold_insert fold_insert_set)

lemma label_poss_loop_conv:
  "label_poss_loop l op n = map (of_nat \<circ> (+) n) (filter (\<lambda>i. op ! i = l) [0..<length op])"
proof (induction op arbitrary: n)
  case (Cons a op)
  have "[0..<length (a # op)] = 0 # map Suc [0..<length op]" by (simp add: upt_conv_Cons map_Suc_upt del: upt_Suc)
  then show ?case by (simp add: Cons.IH filter_map comp_def)
qed simp

lemma unat_pos: "i < 256 \<Longrightarrow> unat (of_nat i :: label_pos) = i"
  by (simp add: unat_of_nat take_bit_eq_mod)

lemma label_poss_unat:
  assumes "length op \<le> 256"
  shows "map unat (label_poss_loop l op 0) = filter (\<lambda>i. op ! i = l) [0..<length op]"
proof -
  have "map unat (label_poss_loop l op 0) = map (\<lambda>i. unat (of_nat i :: label_pos)) (filter (\<lambda>i. op ! i = l) [0..<length op])"
    by (simp add: label_poss_loop_conv comp_def)
  also have "\<dots> = filter (\<lambda>i. op ! i = l) [0..<length op]" using assms by (intro map_idI) (auto simp: unat_pos)
  finally show ?thesis .
qed

lemma result_poss_loop_find:
  "map_of (result_poss_loop ls n m) l = (case map_of m l of Some p \<Rightarrow> Some p
     | None \<Rightarrow> if l \<in> set ls then Some (of_nat (n + length (takeWhile (\<lambda>x. x \<noteq> l) ls))) else None)"
  by (induction ls arbitrary: n m) (auto simp: al_emplace_find split: option.splits)

lemma labelPossInResult_find:
  "map_of (rs_labelPossInResult rs) l =
     (if l \<in> set (rs_result rs) then Some (of_nat (length (takeWhile (\<lambda>x. x \<noteq> l) (rs_result rs)))) else None)"
  by (simp add: rs_labelPossInResult_def result_poss_loop_find)

lemma takeWhile_nth: "l \<in> set ls \<Longrightarrow> length (takeWhile (\<lambda>x. x \<noteq> l) ls) < length ls \<and> ls ! length (takeWhile (\<lambda>x. x \<noteq> l) ls) = l"
  by (induction ls) auto

lemma result_pos_unat:
  assumes "map_of (rs_labelPossInResult rs) l = Some p" "length (rs_result rs) \<le> 256"
  shows "unat p < length (rs_result rs)" "rs_result rs ! unat p = l"
proof -
  have "l \<in> set (rs_result rs)" "p = of_nat (length (takeWhile (\<lambda>x. x \<noteq> l) (rs_result rs)))"
    using assms(1) by (auto simp: labelPossInResult_find split: if_splits)
  then show "unat p < length (rs_result rs)" "rs_result rs ! unat p = l"
    using takeWhile_nth[of l "rs_result rs"] assms(2) by (auto simp: unat_pos)
qed

lemma remaining_operands_labels: "labels_of (remaining_operands l ops) = labels_of ops - {l}"
proof
  show "labels_of (remaining_operands l ops) \<subseteq> labels_of ops - {l}" by (auto simp: remaining_operands_def)
  show "labels_of ops - {l} \<subseteq> labels_of (remaining_operands l ops)"
  proof
    fix x assume "x \<in> labels_of ops - {l}"
    then obtain op where op: "op \<in> set ops" "x \<in> set (filter (\<lambda>y. y \<noteq> l) op)" by auto
    then have "filter (\<lambda>y. y \<noteq> l) op \<in> set (remaining_operands l ops)"
      by (auto simp: remaining_operands_def filter_empty_conv)
    then show "x \<in> labels_of (remaining_operands l ops)" using op(2) by blast
  qed
qed

lemma labels_differ_iff: "length as = length bs \<Longrightarrow> labels_differ as bs \<longleftrightarrow> as \<noteq> bs"
  by (induction as bs rule: list_induct2) auto

lemma operands_differ_iff: "length as = length bs \<Longrightarrow> operands_differ as bs \<longleftrightarrow> as \<noteq> bs"
  by (induction as bs rule: list_induct2) (auto simp: labels_differ_iff)

lemma rs_differs_iff: "rs_differs rs rs' \<longleftrightarrow> (rs_operands rs, rs_result rs) \<noteq> (rs_operands rs', rs_result rs')"
  by (auto simp: rs_differs_def operands_differ_iff labels_differ_iff)

text \<open>Positions are kept in 8 bits: in a longer operand they wrap. Of a label that is in the result twice only the first
  position is kept.\<close>

lemma label_position_wraps: "l \<noteq> l' \<Longrightarrow> label_poss_loop l (replicate 256 l' @ [l]) 0 = [0]"
proof -
  assume l: "l \<noteq> l'"
  have "[0..<length (replicate 256 l' @ [l])] = [0..<256] @ [256]" using upt_Suc_append[of 0 256] by simp
  moreover have "filter (\<lambda>i. (replicate 256 l' @ [l]) ! i = l) [0..<256] = []" using l by (auto simp: filter_empty_conv nth_append)
  ultimately show ?thesis by (simp add: label_poss_loop_conv nth_append del: upt_Suc)
qed

lemma repeated_result_label: "rs_labelPossInResult (new_raw_subscript L ops [l, l]) = [(l, 0)]"
  by (simp add: rs_labelPossInResult_def new_raw_subscript_def al_emplace_def)

end
