(* ===== verification/Subscripts.thy ===== *)
theory Subscripts
  imports Raw_Subscript
begin

text \<open>
  The subscript that drives the evaluation of an Einstein summation (Subscript.hpp): its constructor computes
  the label sets, the connected components of the labels, the kind of operation, the positions the
  operators use, and, for a Cartesian product, the subscripts of the independent parts, for which the
  constructor calls itself.
\<close>

subsection \<open>The data\<close>

datatype sc_type = Type_None | Type_Join | Type_Cartesian | Type_Resolve | Type_Count | Type_EntryGenerator | Type_CarthesianMapping

record subscript_data =
  su_raw :: raw_subscript
  su_operands_labels :: "label list"
  su_result_labels :: "label list"
  su_lonely :: "label list"
  su_graph :: "label undirected_graph"
  su_components :: "label list list"
  su_used_result_poss :: "label_pos list"
  su_poss_in_result :: "(label \<times> label_pos) list"
  su_operand2result :: "label_pos list"
  su_poss_of_operands :: "(label \<times> label_pos list) list"
  su_type :: sc_type
  su_all_result_done :: bool

datatype subscript = Subscript (sc_data: subscript_data) (sc_cart: cartesian_sub_subscripts)
  and cartesian_sub_subscripts = CartesianSubSubscripts
    (ca_subs: "subscript list") (ca_operand_poss: "label_pos list list")
    (ca_result_poss: "label_pos list list") (ca_subscript: "subscript option")

abbreviation no_sub_subscripts :: cartesian_sub_subscripts where
  "no_sub_subscripts \<equiv> CartesianSubSubscripts [] [] [] None"

subsection \<open>The parts of the constructor\<close>

definition calcDependencyGraph :: "sc_library \<Rightarrow> raw_subscript \<Rightarrow> label undirected_graph" where
  "calcDependencyGraph L rs = fold (addCompleteGraph (sl_order L)) (rs_operands rs) empty_graph"

definition used_result_poss :: "raw_subscript \<Rightarrow> label list \<Rightarrow> label_pos list" where
  "used_result_poss rs operands_labels =
     map of_nat (filter (\<lambda>i. rs_result rs ! i \<in> set operands_labels) [0..<rs_resultLabelCount rs])"

fun in_result_loop :: "label list \<Rightarrow> label list \<Rightarrow> bool \<times> bool \<Rightarrow> bool \<times> bool" where
  "in_result_loop [] result_labels r = r"
| "in_result_loop (l # ls) result_labels (all_in, none_in) =
     in_result_loop ls result_labels (if l \<in> set result_labels then (all_in, False) else (False, none_in))"

definition calcState :: "sc_library \<Rightarrow> raw_subscript \<Rightarrow> label list \<Rightarrow> label list \<Rightarrow> label list list \<Rightarrow> sc_type" where
  "calcState L rs operands_labels result_labels components =
     (case rs_operands rs of
        [] \<Rightarrow> Type_EntryGenerator
      | [op] \<Rightarrow>
          if length op = length operands_labels then
            (let (all_in, none_in) = in_result_loop (sl_order L operands_labels) result_labels (True, True)
             in if all_in then Type_Resolve else if none_in then Type_Count else Type_Join)
          else Type_Join
      | _ \<Rightarrow> if 1 < length components then Type_Cartesian else Type_Join)"

definition calcAllResultDone :: "label list \<Rightarrow> label list \<Rightarrow> bool" where
  "calcAllResultDone operand_labels result_labels = list_all (\<lambda>l. l \<notin> set operand_labels) result_labels"

text \<open>\<open>poss_of_operands_with_labels\<close>: one position per occurrence of the label.\<close>

fun operand_poss_loop :: "operand_sc list \<Rightarrow> nat \<Rightarrow> (label \<times> label_pos list) list \<Rightarrow> (label \<times> label_pos list) list" where
  "operand_poss_loop [] op_pos m = m"
| "operand_poss_loop (op # ops) op_pos m =
     operand_poss_loop ops (Suc op_pos) (fold (\<lambda>l. al_modify l [] (\<lambda>ps. ps @ [of_nat op_pos])) op m)"

definition is_lonely :: "raw_subscript \<Rightarrow> label list \<Rightarrow> (label \<times> label_pos list) list \<Rightarrow> label \<Rightarrow> bool option" where
  "is_lonely rs result_labels operand_poss l =
     (if l \<in> set result_labels then Some False
      else case map_of operand_poss l of
        Some [p] \<Rightarrow> do { op \<leftarrow> at_index (rs_operands rs) (unat p); Some (count_list op l = 1) }
      | _ \<Rightarrow> Some False)"

definition lonely_labels :: "sc_library \<Rightarrow> raw_subscript \<Rightarrow> label list \<Rightarrow> label list \<Rightarrow> (label \<times> label_pos list) list \<Rightarrow> label list option" where
  "lonely_labels L rs operands_labels result_labels operand_poss =
     foldM (\<lambda>ls l. do { b \<leftarrow> is_lonely rs result_labels operand_poss l; Some (if b then List.insert l ls else ls) })
       (sl_order L operands_labels) []"

text \<open>\<open>getLabelPosInResult\<close> throws for a label that is not in the result.\<close>

definition operand2result :: "raw_subscript \<Rightarrow> (label \<times> label_pos) list \<Rightarrow> label_pos list option" where
  "operand2result rs poss_in_result = do {
     op \<leftarrow> at_index (rs_operands rs) 0;
     option_list (map (map_of poss_in_result) op)
   }"

definition subscript_data_of :: "sc_library \<Rightarrow> raw_subscript \<Rightarrow> sc_type \<Rightarrow> subscript_data option" where
  "subscript_data_of L rs type = do {
     let operands_labels = rs_operandsLabelSet rs;
     let result_labels = rs_resultLabelSet rs;
     let graph = calcDependencyGraph L rs;
     components \<leftarrow> getConnectedComponents (sl_order L) graph;
     let type' = (if type = Type_CarthesianMapping then Type_CarthesianMapping
                  else calcState L rs operands_labels result_labels components);
     let operand_poss = operand_poss_loop (rs_operands rs) 0 [];
     lonely \<leftarrow> lonely_labels L rs operands_labels result_labels operand_poss;
     let poss_in_result = (if type' = Type_Join \<or> type' = Type_Resolve then rs_labelPossInResult rs else []);
     mapping \<leftarrow> (if type' = Type_Resolve then operand2result rs poss_in_result else Some []);
     Some \<lparr>su_raw = rs, su_operands_labels = operands_labels, su_result_labels = result_labels, su_lonely = lonely,
       su_graph = graph, su_components = components, su_used_result_poss = used_result_poss rs operands_labels,
       su_poss_in_result = poss_in_result, su_operand2result = mapping, su_poss_of_operands = operand_poss,
       su_type = type', su_all_result_done = calcAllResultDone operands_labels result_labels\<rparr>
   }"

text \<open>\<open>extractCartesianSubSubscript\<close>: the part of a subscript on a component of its labels, with the
  positions its operands and result labels come from.\<close>

fun extract_operands_loop :: "label list \<Rightarrow> operand_sc list \<Rightarrow> nat \<Rightarrow> operand_sc list \<times> label_pos list" where
  "extract_operands_loop label_subset [] pos = ([], [])"
| "extract_operands_loop label_subset (op # ops) pos =
     (let op_labels = filter (\<lambda>l. l \<in> set label_subset) op;
          (sub_ops, poss) = extract_operands_loop label_subset ops (Suc pos)
      in if op_labels \<noteq> [] then (op_labels # sub_ops, of_nat pos # poss) else (sub_ops, poss))"

fun extract_result_loop :: "label list \<Rightarrow> label list \<Rightarrow> nat \<Rightarrow> label list \<times> label_pos list" where
  "extract_result_loop label_subset [] pos = ([], [])"
| "extract_result_loop label_subset (l # ls) pos =
     (let (sub_result, poss) = extract_result_loop label_subset ls (Suc pos)
      in if l \<in> set label_subset then (l # sub_result, of_nat pos # poss) else (sub_result, poss))"

definition extractCartesianSubSubscript ::
  "sc_library \<Rightarrow> raw_subscript \<Rightarrow> label list \<Rightarrow> raw_subscript \<times> label_pos list \<times> label_pos list" where
  "extractCartesianSubSubscript L rs label_subset =
     (let (sub_ops, op_poss) = extract_operands_loop label_subset (rs_operands rs) 0;
          (sub_result, result_poss) = extract_result_loop label_subset (rs_result rs) 0
      in (new_raw_subscript L sub_ops sub_result, op_poss, result_poss))"

subsection \<open>The constructor\<close>

partial_function (option) new_subscript :: "sc_library \<Rightarrow> raw_subscript \<Rightarrow> sc_type \<Rightarrow> subscript option" where
  "new_subscript L rs type = do {
     d \<leftarrow> subscript_data_of L rs type;
     if su_type d = Type_Cartesian then do {
       parts \<leftarrow> foldM (\<lambda>parts c. do {
           s \<leftarrow> new_subscript L (fst (extractCartesianSubSubscript L rs c)) Type_None;
           Some (parts @ [(s, snd (extractCartesianSubSubscript L rs c))])
         }) (su_components d) [];
       mapping \<leftarrow> new_subscript L (new_raw_subscript L (map (\<lambda>(s, _). rs_result (su_raw (sc_data s))) parts) (rs_result rs))
         Type_CarthesianMapping;
       Some (Subscript d (CartesianSubSubscripts (map fst parts) (map (fst \<circ> snd) parts) (map (snd \<circ> snd) parts) (Some mapping)))
     } else Some (Subscript d no_sub_subscripts)
   }"

definition make_subscript :: "sc_library \<Rightarrow> operand_sc list \<Rightarrow> label list \<Rightarrow> subscript option" where
  "make_subscript L operands result = new_subscript L (new_raw_subscript L operands result) Type_None"

subsection \<open>Reading a subscript\<close>

abbreviation sc_raw :: "subscript \<Rightarrow> raw_subscript" where
  "sc_raw s \<equiv> su_raw (sc_data s)"

definition getPossOfOperandsWithLabel :: "subscript \<Rightarrow> label \<Rightarrow> label_pos list option" where
  "getPossOfOperandsWithLabel s l = map_of (su_poss_of_operands (sc_data s)) l"

definition isResultLabel :: "subscript \<Rightarrow> label \<Rightarrow> bool" where
  "isResultLabel s l \<longleftrightarrow> l \<in> set (su_result_labels (sc_data s))"

definition getLabelPosInResult :: "subscript \<Rightarrow> label \<Rightarrow> label_pos option" where
  "getLabelPosInResult s l = map_of (su_poss_in_result (sc_data s)) l"

definition sc_operandsCount :: "subscript \<Rightarrow> nat" where
  "sc_operandsCount s = rs_operandsCount (sc_raw s)"

definition sc_labelCount :: "subscript \<Rightarrow> label_pos \<Rightarrow> nat option" where
  "sc_labelCount s operand_pos = rs_labelCount (sc_raw s) operand_pos"

definition sc_resultLabelCount :: "subscript \<Rightarrow> nat" where
  "sc_resultLabelCount s = rs_resultLabelCount (sc_raw s)"

definition getOperandLabels :: "subscript \<Rightarrow> label_pos \<Rightarrow> operand_sc option" where
  "getOperandLabels s label_pos = do { check (unat label_pos < sc_operandsCount s); at_index (rs_operands (sc_raw s)) (unat label_pos) }"

definition operand2resultMapping_ResolveType :: "subscript \<Rightarrow> label_pos list option" where
  "operand2resultMapping_ResolveType s = do { check (su_type (sc_data s) = Type_Resolve); Some (su_operand2result (sc_data s)) }"

definition getUsedResultPoss :: "subscript \<Rightarrow> label_pos list" where
  "getUsedResultPoss s = su_used_result_poss (sc_data s)"

definition getOriginalOperandPoss :: "subscript \<Rightarrow> nat \<Rightarrow> label_pos list option" where
  "getOriginalOperandPoss s cart_op_pos = at_index (ca_operand_poss (sc_cart s)) cart_op_pos"

definition sc_valid :: "subscript \<Rightarrow> bool" where
  "sc_valid s \<longleftrightarrow> list_all (\<lambda>l. l \<in> set (su_operands_labels (sc_data s))) (rs_result (sc_raw s))"

definition sc_hash :: "subscript \<Rightarrow> 64 word" where
  "sc_hash s = rs_hash (sc_raw s)"

definition sc_differs :: "subscript \<Rightarrow> subscript \<Rightarrow> bool" where
  "sc_differs s s' \<longleftrightarrow> sc_hash s \<noteq> sc_hash s'"

text \<open>The two functions that keep what they computed in a map of the subscript.\<close>

definition sc_removeLabel :: "sc_library \<Rightarrow> subscript \<Rightarrow> label \<Rightarrow> (label \<times> subscript) list \<Rightarrow> (subscript \<times> (label \<times> subscript) list) option" where
  "sc_removeLabel L s l cache = (case map_of cache l of
       Some s' \<Rightarrow> Some (s', cache)
     | None \<Rightarrow> do {
         rs \<leftarrow> rs_removeLabel L (sc_raw s) l;
         s' \<leftarrow> new_subscript L rs Type_None;
         Some (s', al_emplace l s' cache)
       })"

definition sc_labelPossInOperands ::
  "subscript \<Rightarrow> label \<Rightarrow> (label \<times> label_pos list list) list \<Rightarrow> (label_pos list list \<times> (label \<times> label_pos list list) list) option" where
  "sc_labelPossInOperands s l cache = do {
     check (l \<in> set (su_operands_labels (sc_data s)));
     case map_of cache l of
       Some poss \<Rightarrow> Some (poss, cache)
     | None \<Rightarrow> (let poss = rs_labelPossInOperands (sc_raw s) l in Some (poss, al_emplace l poss cache))
   }"

end
