(* ===== verification/Subscript_Facts.thy ===== *)
theory Subscript_Facts
  imports Subscripts
begin

text \<open>
  What the constructor of a subscript establishes: it returns for every subscript, the label sets, kinds,
  positions and components are the intended ones, and the subscripts of a Cartesian product partition the
  operands and the result labels. The number of labels decreases from a subscript to the subscripts the
  operators go on with.
\<close>

subsection \<open>The components of the labels\<close>

definition label_rel :: "operand_sc list \<Rightarrow> (label \<times> label) set" where
  "label_rel ops = (\<Union>op \<in> set ops. set op \<times> set op)"

lemma fold_complete_graphs:
  assumes "set_order ord"
  shows "graph_ok g \<Longrightarrow> graph_ok (fold (addCompleteGraph ord) ops g)"
    "adjacent (fold (addCompleteGraph ord) ops g) = adjacent g \<union> label_rel ops"
    "set (ug_nodes (fold (addCompleteGraph ord) ops g)) = set (ug_nodes g) \<union> labels_of ops"
  using assms by (induction ops arbitrary: g) (auto simp: addCompleteGraph_graph label_rel_def)

lemma components_found:
  assumes "set_order (sl_order L)"
  shows "\<exists>cs. getConnectedComponents (sl_order L) (calcDependencyGraph L rs) = Some cs \<and>
    components_of (label_rel (rs_operands rs)) (labels_of (rs_operands rs)) cs"
  using getConnectedComponents_spec[OF assms, of "calcDependencyGraph L rs"] fold_complete_graphs[OF assms]
  by (simp add: calcDependencyGraph_def graph_ok_empty)

lemma component_operand:
  assumes "components_of (label_rel ops) N cs" "c \<in> set cs" "op \<in> set ops" "l \<in> set op" "l \<in> set c"
  shows "set op \<subseteq> set c"
proof
  fix l' assume "l' \<in> set op"
  then have "(l, l') \<in> (label_rel ops)\<^sup>*" using assms(3,4) by (auto simp: label_rel_def)
  then show "l' \<in> set c" using assms(1,2,5) by (auto simp: components_of_def)
qed

lemma components_disjoint:
  assumes "components_of R N cs" "i < length cs" "j < length cs" "i \<noteq> j"
  shows "set (cs ! i) \<inter> set (cs ! j) = {}"
proof -
  have "distinct (concat cs)" using assms(1) by (simp add: components_of_def)
  then show ?thesis using assms(2-4)
  proof (induction cs arbitrary: i j)
    case (Cons c cs)
    have out: "set c \<inter> set (cs ! k) = {}" if "k < length cs" for k using Cons.prems(1) that by (auto dest: nth_mem)
    then show ?case using Cons by (cases i; cases j) auto
  qed simp
qed

lemma component_smaller:
  assumes "components_of R N cs" "1 < length cs" "c \<in> set cs" "finite N"
  shows "card (set c) < card N"
proof -
  obtain i where i: "i < length cs" "c = cs ! i" using assms(3) by (auto simp: in_set_conv_nth)
  define j where "j = (if i = 0 then 1 else 0 :: nat)"
  have j: "j < length cs" "j \<noteq> i" using assms(2) by (auto simp: j_def)
  have "cs ! j \<noteq> []" "set (cs ! j) \<subseteq> N" "set c \<subseteq> N" using assms(1,3) j(1) by (auto simp: components_of_def)
  moreover have "set c \<inter> set (cs ! j) = {}" using components_disjoint[OF assms(1) i(1) j(1)] j(2) i(2) by auto
  ultimately have "set c \<subset> N" by (metis disjoint_iff inf.absorb_iff2 psubsetI set_empty2 inf.idem)
  then show ?thesis using assms(4) by (simp add: psubset_card_mono)
qed

subsection \<open>Positions\<close>

lemma fold_modify_find:
  "map_of (fold (\<lambda>l. al_modify l [] (\<lambda>ps. ps @ [p])) op m) l =
     (if count_list op l = 0 then map_of m l
      else Some ((case map_of m l of None \<Rightarrow> [] | Some ps \<Rightarrow> ps) @ replicate (count_list op l) p))"
proof (induction op arbitrary: m)
  case (Cons a op)
  show ?case
    by (simp add: Cons.IH al_simps replicate_append_same replicate_app_Cons_same split: option.splits)
qed simp

lemma operand_poss_loop_find:
  assumes "map_of (operand_poss_loop ops n m) l = r"
  shows "(\<forall>ps. map_of m l = Some ps \<longrightarrow> ps \<noteq> [] \<and> set ps \<subseteq> P) \<Longrightarrow> (\<And>i. i < length ops \<Longrightarrow> l \<in> set (ops ! i) \<Longrightarrow> of_nat (n + i) \<in> P) \<Longrightarrow>
    (\<forall>ps. r = Some ps \<longrightarrow> ps \<noteq> [] \<and> set ps \<subseteq> P) \<and> (l \<in> labels_of ops \<or> map_of m l \<noteq> None \<longrightarrow> r \<noteq> None)"
  using assms
proof (induction ops arbitrary: n m)
  case (Cons op ops)
  let ?m = "fold (\<lambda>l. al_modify l [] (\<lambda>ps. ps @ [of_nat n])) op m"
  have 1: "\<forall>ps. map_of ?m l = Some ps \<longrightarrow> ps \<noteq> [] \<and> set ps \<subseteq> P"
    using Cons.prems(1) Cons.prems(2)[of 0]
    by (cases "map_of m l") (auto simp: fold_modify_find count_list_0_iff split: if_splits)
  have 2: "of_nat (Suc n + i) \<in> P" if "i < length ops" "l \<in> set (ops ! i)" for i
    using Cons.prems(2)[of "Suc i"] that by simp
  have 3: "map_of (operand_poss_loop ops (Suc n) ?m) l = r" using Cons.prems(3) by simp
  note Cons.IH[OF 1 2 3]
  moreover have "l \<in> set op \<or> map_of m l \<noteq> None \<Longrightarrow> map_of ?m l \<noteq> None"
    by (auto simp: fold_modify_find count_list_0_iff)
  ultimately show ?case by auto
qed auto

definition operand_pos_set :: "operand_sc list \<Rightarrow> label \<Rightarrow> label_pos set" where
  "operand_pos_set ops l = {of_nat i | i. i < length ops \<and> l \<in> set (ops ! i)}"

lemma operand_poss_found:
  "map_of (operand_poss_loop ops 0 []) l = Some ps \<Longrightarrow> ps \<noteq> [] \<and> set ps \<subseteq> operand_pos_set ops l"
  "l \<in> labels_of ops \<Longrightarrow> map_of (operand_poss_loop ops 0 []) l \<noteq> None"
  using operand_poss_loop_find[OF refl, of "[]" l "operand_pos_set ops l" ops 0] by (auto simp: operand_pos_set_def)

lemma unat_of_nat_le: "unat (of_nat i :: 'a::len word) \<le> i"
  by (simp add: unat_of_nat take_bit_nat_less_eq_self)

lemma is_lonely_defined: "\<exists>b. is_lonely rs rl (operand_poss_loop (rs_operands rs) 0 []) l = Some b"
proof (cases "l \<in> set rl")
  case False
  show ?thesis
  proof (cases "map_of (operand_poss_loop (rs_operands rs) 0 []) l")
    case (Some ps)
    from operand_poss_found(1)[OF Some] have ps: "set ps \<subseteq> operand_pos_set (rs_operands rs) l" by simp
    have "unat p < length (rs_operands rs)" if "p \<in> set ps" for p
      using ps that by (force simp: operand_pos_set_def intro: le_less_trans[OF unat_of_nat_le])
    then show ?thesis using Some False by (auto simp: is_lonely_def at_index_def split: list.split)
  qed (use False in \<open>auto simp: is_lonely_def\<close>)
qed (auto simp: is_lonely_def intro: exI[of _ False])

lemma lonely_labels_defined: "\<exists>ls. lonely_labels L rs ol rl (operand_poss_loop (rs_operands rs) 0 []) = Some ls"
proof -
  let ?f = "\<lambda>ls l. do { b \<leftarrow> is_lonely rs rl (operand_poss_loop (rs_operands rs) 0 []) l; Some (if b then List.insert l ls else ls) }"
  have "\<exists>ls. foldM ?f (sl_order L ol) [] = Some ls \<and> True"
  proof (rule foldM_rule[where P = "\<lambda>_ _. True"])
    fix as l bs ls
    obtain b where "is_lonely rs rl (operand_poss_loop (rs_operands rs) 0 []) l = Some b" using is_lonely_defined by blast
    then show "\<exists>s'. ?f ls l = Some s' \<and> True" by simp
  qed simp
  then show ?thesis by (simp add: lonely_labels_def)
qed

subsection \<open>The kinds of subscripts\<close>

lemma in_result_loop_spec: "in_result_loop ls rl (a, n) = (a \<and> set ls \<subseteq> set rl, n \<and> set ls \<inter> set rl = {})"
  by (induction ls arbitrary: a n) auto

lemma calcState_cases:
  assumes "set_order (sl_order L)" "set ol = labels_of (rs_operands rs)" "distinct ol"
  shows "calcState L rs ol rl cs = Type_EntryGenerator \<longleftrightarrow> rs_operands rs = []"
    "calcState L rs ol rl cs = Type_Resolve \<longleftrightarrow> (\<exists>op. rs_operands rs = [op] \<and> distinct op \<and> set op \<subseteq> set rl)"
    "calcState L rs ol rl cs = Type_Count \<longleftrightarrow> (\<exists>op. rs_operands rs = [op] \<and> distinct op \<and> op \<noteq> [] \<and> set op \<inter> set rl = {})"
    "calcState L rs ol rl cs = Type_Cartesian \<longleftrightarrow> 2 \<le> length (rs_operands rs) \<and> 2 \<le> length cs"
    "calcState L rs ol rl cs \<noteq> Type_None" "calcState L rs ol rl cs \<noteq> Type_CarthesianMapping"
proof -
  let ?t = "calcState L rs ol rl cs" and ?ops = "rs_operands rs"
  have "(?t = Type_EntryGenerator \<longleftrightarrow> ?ops = []) \<and>
    (?t = Type_Resolve \<longleftrightarrow> (\<exists>op. ?ops = [op] \<and> distinct op \<and> set op \<subseteq> set rl)) \<and>
    (?t = Type_Count \<longleftrightarrow> (\<exists>op. ?ops = [op] \<and> distinct op \<and> op \<noteq> [] \<and> set op \<inter> set rl = {})) \<and>
    (?t = Type_Cartesian \<longleftrightarrow> 2 \<le> length ?ops \<and> 2 \<le> length cs) \<and> ?t \<noteq> Type_None \<and> ?t \<noteq> Type_CarthesianMapping"
  proof (cases ?ops rule: remdups_adj.cases)
    case (2 op)
    have "set ol = set op" using 2 assms(2) by simp
    then have "length op = length ol \<longleftrightarrow> distinct op" using assms(3) by (metis card_distinct distinct_card)
    then have "?t = (if distinct op \<and> set op \<subseteq> set rl then Type_Resolve
        else if distinct op \<and> set op \<inter> set rl = {} then Type_Count else Type_Join)"
      using 2 assms(1,2) by (simp add: calcState_def in_result_loop_spec)
    moreover have "op = [] \<longrightarrow> distinct op \<and> set op \<subseteq> set rl" by simp
    moreover have "op \<noteq> [] \<longrightarrow> \<not> (set op \<subseteq> set rl \<and> set op \<inter> set rl = {})" by (cases op) auto
    ultimately show ?thesis using 2 by (auto split: if_splits)
  qed (auto simp: calcState_def)
  then show "?t = Type_EntryGenerator \<longleftrightarrow> ?ops = []"
    "?t = Type_Resolve \<longleftrightarrow> (\<exists>op. ?ops = [op] \<and> distinct op \<and> set op \<subseteq> set rl)"
    "?t = Type_Count \<longleftrightarrow> (\<exists>op. ?ops = [op] \<and> distinct op \<and> op \<noteq> [] \<and> set op \<inter> set rl = {})"
    "?t = Type_Cartesian \<longleftrightarrow> 2 \<le> length ?ops \<and> 2 \<le> length cs"
    "?t \<noteq> Type_None" "?t \<noteq> Type_CarthesianMapping"
    by blast+
qed

lemma operand2result_spec:
  assumes "rs_operands rs = [op]" "set op \<subseteq> set (rs_result rs)"
  shows "\<exists>ps. operand2result rs (rs_labelPossInResult rs) = Some ps \<and> length ps = length op \<and>
    (\<forall>i < length op. map_of (rs_labelPossInResult rs) (op ! i) = Some (ps ! i))"
proof -
  define pos where "pos l = (of_nat (length (takeWhile (\<lambda>x. x \<noteq> l) (rs_result rs))) :: label_pos)" for l
  have find: "map_of (rs_labelPossInResult rs) l = Some (pos l)" if "l \<in> set op" for l
    using assms(2) that by (auto simp: labelPossInResult_find pos_def)
  then have "option_list (map (map_of (rs_labelPossInResult rs)) op) = Some (map pos op)" by (intro option_list_map) simp
  then show ?thesis using assms(1) find by (auto simp: operand2result_def at_index_def)
qed

text \<open>The fields of the data of a subscript.\<close>

definition data_ok :: "sc_library \<Rightarrow> raw_subscript \<Rightarrow> subscript_data \<Rightarrow> bool" where
  "data_ok L rs d \<longleftrightarrow> su_raw d = rs \<and> su_operands_labels d = rs_operandsLabelSet rs \<and> su_result_labels d = rs_resultLabelSet rs \<and>
     components_of (label_rel (rs_operands rs)) (labels_of (rs_operands rs)) (su_components d) \<and>
     su_used_result_poss d = used_result_poss rs (rs_operandsLabelSet rs) \<and>
     su_poss_of_operands d = operand_poss_loop (rs_operands rs) 0 [] \<and>
     su_type d = calcState L rs (rs_operandsLabelSet rs) (rs_resultLabelSet rs) (su_components d) \<and>
     (su_type d = Type_Join \<or> su_type d = Type_Resolve \<longrightarrow> su_poss_in_result d = rs_labelPossInResult rs) \<and>
     (su_type d = Type_Resolve \<longrightarrow> operand2result rs (su_poss_in_result d) = Some (su_operand2result d)) \<and>
     (su_all_result_done d \<longleftrightarrow> labels_of (rs_operands rs) \<inter> set (rs_result rs) = {})"

lemma subscript_data_total:
  assumes L: "set_order (sl_order L)"
  shows "\<exists>d. subscript_data_of L rs type = Some d \<and> (type \<noteq> Type_CarthesianMapping \<longrightarrow> data_ok L rs d) \<and>
    (type = Type_CarthesianMapping \<longrightarrow> su_type d = Type_CarthesianMapping) \<and> su_raw d = rs"
proof -
  let ?ol = "rs_operandsLabelSet rs" and ?rl = "rs_resultLabelSet rs"
  obtain cs where cs: "getConnectedComponents (sl_order L) (calcDependencyGraph L rs) = Some cs"
    "components_of (label_rel (rs_operands rs)) (labels_of (rs_operands rs)) cs" using components_found[OF L] by blast
  obtain ls where ls: "lonely_labels L rs ?ol ?rl (operand_poss_loop (rs_operands rs) 0 []) = Some ls"
    using lonely_labels_defined by blast
  have res: "\<exists>ps. operand2result rs (rs_labelPossInResult rs) = Some ps" if "calcState L rs ?ol ?rl cs = Type_Resolve"
  proof -
    from that obtain op where "rs_operands rs = [op]" "set op \<subseteq> set (rs_result rs)"
      using calcState_cases(2)[OF L, of ?ol rs ?rl cs] by auto
    then show ?thesis using operand2result_spec by blast
  qed
  have all_done: "calcAllResultDone ?ol ?rl \<longleftrightarrow> labels_of (rs_operands rs) \<inter> set (rs_result rs) = {}"
    by (auto simp: calcAllResultDone_def list_all_iff)
  show ?thesis
  proof (cases "type \<noteq> Type_CarthesianMapping \<and> calcState L rs ?ol ?rl cs = Type_Resolve")
    case True
    then obtain ps where "operand2result rs (rs_labelPossInResult rs) = Some ps" using res by blast
    then show ?thesis using True cs ls all_done by (simp add: subscript_data_of_def data_ok_def Let_def)
  next
    case False
    then show ?thesis using cs ls all_done by (auto simp: subscript_data_of_def data_ok_def Let_def)
  qed
qed

subsection \<open>The parts of a Cartesian product\<close>

lemma extract_operands_conv:
  "extract_operands_loop c ops n =
    (filter (\<lambda>op. op \<noteq> []) (map (filter (\<lambda>l. l \<in> set c)) ops),
     map (of_nat \<circ> (+) n) (filter (\<lambda>i. filter (\<lambda>l. l \<in> set c) (ops ! i) \<noteq> []) [0..<length ops]))"
proof (induction ops arbitrary: n)
  case (Cons op ops)
  have "[0..<length (op # ops)] = 0 # map Suc [0..<length ops]" by (simp add: upt_conv_Cons map_Suc_upt del: upt_Suc)
  then show ?case by (simp add: Cons.IH filter_map comp_def Let_def)
qed simp

lemma extract_result_conv:
  "extract_result_loop c ls n =
    (filter (\<lambda>l. l \<in> set c) ls, map (of_nat \<circ> (+) n) (filter (\<lambda>i. ls ! i \<in> set c) [0..<length ls]))"
proof (induction ls arbitrary: n)
  case (Cons l ls)
  have "[0..<length (l # ls)] = 0 # map Suc [0..<length ls]" by (simp add: upt_conv_Cons map_Suc_upt del: upt_Suc)
  then show ?case by (simp add: Cons.IH filter_map comp_def Let_def)
qed simp

lemma extracted_labels:
  assumes "set c \<subseteq> labels_of (rs_operands rs)"
  shows "labels_of (rs_operands (fst (extractCartesianSubSubscript L rs c))) = set c"
proof -
  have "rs_operands (fst (extractCartesianSubSubscript L rs c)) =
      filter (\<lambda>op. op \<noteq> []) (map (filter (\<lambda>l. l \<in> set c)) (rs_operands rs))"
    by (simp add: extractCartesianSubSubscript_def extract_operands_conv extract_result_conv new_raw_subscript_def)
  moreover have "labels_of (filter (\<lambda>op. op \<noteq> []) opss) = labels_of opss" for opss :: "operand_sc list" by auto
  moreover have "labels_of (map (filter (\<lambda>l. l \<in> set c)) opss) = labels_of opss \<inter> set c" for opss by auto
  ultimately show ?thesis using assms by (simp only: Int_absorb1)
qed

text \<open>What a subscript is, given the stored subscript it was built from.\<close>

definition parts_ok :: "sc_library \<Rightarrow> raw_subscript \<Rightarrow> subscript_data \<Rightarrow> cartesian_sub_subscripts \<Rightarrow> bool" where
  "parts_ok L rs d ca \<longleftrightarrow>
     list_all2 (\<lambda>c s. new_subscript L (fst (extractCartesianSubSubscript L rs c)) Type_None = Some s) (su_components d) (ca_subs ca) \<and>
     ca_operand_poss ca = map (\<lambda>c. fst (snd (extractCartesianSubSubscript L rs c))) (su_components d) \<and>
     ca_result_poss ca = map (\<lambda>c. snd (snd (extractCartesianSubSubscript L rs c))) (su_components d)"

definition built_from :: "sc_library \<Rightarrow> raw_subscript \<Rightarrow> subscript \<Rightarrow> bool" where
  "built_from L rs s \<longleftrightarrow> data_ok L rs (sc_data s) \<and> (su_type (sc_data s) = Type_Cartesian \<longrightarrow> parts_ok L rs (sc_data s) (sc_cart s))"

lemma mapping_total:
  assumes L: "set_order (sl_order L)"
  shows "\<exists>s. new_subscript L rs Type_CarthesianMapping = Some s"
  using subscript_data_total[OF L, of rs Type_CarthesianMapping] by (subst new_subscript.simps) auto

lemma build_parts:
  assumes "\<forall>c \<in> set cs. \<exists>s. new_subscript L (fst (extractCartesianSubSubscript L rs c)) Type_None = Some s"
  shows "\<exists>parts'. foldM (\<lambda>parts c. do {
        s \<leftarrow> new_subscript L (fst (extractCartesianSubSubscript L rs c)) Type_None;
        Some (parts @ [(s, snd (extractCartesianSubSubscript L rs c))])
      }) cs parts = Some (parts @ parts') \<and>
    list_all2 (\<lambda>c p. new_subscript L (fst (extractCartesianSubSubscript L rs c)) Type_None = Some (fst p) \<and>
      snd p = snd (extractCartesianSubSubscript L rs c)) cs parts'"
  using assms
proof (induction cs arbitrary: parts)
  case (Cons c cs)
  then obtain s where s: "new_subscript L (fst (extractCartesianSubSubscript L rs c)) Type_None = Some s" by auto
  obtain parts' where "foldM (\<lambda>parts c. do {
        s \<leftarrow> new_subscript L (fst (extractCartesianSubSubscript L rs c)) Type_None;
        Some (parts @ [(s, snd (extractCartesianSubSubscript L rs c))])
      }) cs (parts @ [(s, snd (extractCartesianSubSubscript L rs c))]) =
      Some (parts @ (s, snd (extractCartesianSubSubscript L rs c)) # parts')"
    "list_all2 (\<lambda>c p. new_subscript L (fst (extractCartesianSubSubscript L rs c)) Type_None = Some (fst p) \<and>
      snd p = snd (extractCartesianSubSubscript L rs c)) cs parts'"
    using Cons.IH[of "parts @ [(s, snd (extractCartesianSubSubscript L rs c))]"] Cons.prems by auto
  then show ?case using s by (intro exI[of _ "(s, snd (extractCartesianSubSubscript L rs c)) # parts'"]) simp
qed simp

lemma parts_lists:
  assumes "list_all2 (\<lambda>c p. new c = Some (fst p) \<and> snd p = (f c, g c)) cs parts"
  shows "list_all2 (\<lambda>c s. new c = Some s) cs (map fst parts)" "map (fst \<circ> snd) parts = map f cs" "map (snd \<circ> snd) parts = map g cs"
  using assms by (induction rule: list_all2_induct) auto

lemma new_subscript_total:
  assumes L: "set_order (sl_order L)"
  shows "\<exists>s. new_subscript L rs Type_None = Some s \<and> built_from L rs s"
proof (induction "card (labels_of (rs_operands rs))" arbitrary: rs rule: less_induct)
  case less
  obtain d where d: "subscript_data_of L rs Type_None = Some d" "data_ok L rs d" using subscript_data_total[OF L, of rs Type_None] by auto
  show ?case
  proof (cases "su_type d = Type_Cartesian")
    case True
    let ?cs = "su_components d"
    have cs: "components_of (label_rel (rs_operands rs)) (labels_of (rs_operands rs)) ?cs" using d(2) by (simp add: data_ok_def)
    have two: "1 < length ?cs"
    proof -
      have "calcState L rs (rs_operandsLabelSet rs) (rs_resultLabelSet rs) ?cs = Type_Cartesian" using d(2) True by (simp add: data_ok_def)
      then show ?thesis using calcState_cases(4)[OF L, of "rs_operandsLabelSet rs" rs "rs_resultLabelSet rs" ?cs] by simp
    qed
    have "\<exists>s. new_subscript L (fst (extractCartesianSubSubscript L rs c)) Type_None = Some s" if "c \<in> set ?cs" for c
    proof -
      have sub: "set c \<subseteq> labels_of (rs_operands rs)" using cs that by (auto simp: components_of_def)
      have "card (set c) < card (labels_of (rs_operands rs))" using component_smaller[OF cs two that] by simp
      then show ?thesis using less[of "fst (extractCartesianSubSubscript L rs c)"] extracted_labels[OF sub] by auto
    qed
    then obtain parts where parts: "foldM (\<lambda>parts c. do {
        s \<leftarrow> new_subscript L (fst (extractCartesianSubSubscript L rs c)) Type_None;
        Some (parts @ [(s, snd (extractCartesianSubSubscript L rs c))]) }) ?cs [] = Some parts"
      "list_all2 (\<lambda>c p. new_subscript L (fst (extractCartesianSubSubscript L rs c)) Type_None = Some (fst p) \<and>
        snd p = (fst (snd (extractCartesianSubSubscript L rs c)), snd (snd (extractCartesianSubSubscript L rs c)))) ?cs parts"
      using build_parts[of ?cs L rs "[]"] by auto
    obtain m where m: "new_subscript L (new_raw_subscript L (map (\<lambda>(s, _). rs_result (sc_raw s)) parts) (rs_result rs))
        Type_CarthesianMapping = Some m" using mapping_total[OF L] by blast
    show ?thesis
      using d True parts(1) m parts_lists[OF parts(2)]
      by (subst new_subscript.simps) (simp add: built_from_def parts_ok_def)
  next
    case False
    then show ?thesis using d by (subst new_subscript.simps) (simp add: built_from_def)
  qed
qed

lemma new_subscript_built:
  assumes "set_order (sl_order L)" "new_subscript L rs Type_None = Some s"
  shows "built_from L rs s"
  using new_subscript_total[OF assms(1), of rs] assms(2) by auto

end
