(* ===== verification/Einsum_Operators.thy ===== *)
theory Einsum_Operators
  imports Hash_Join Hypertrie_Iterator Subscript_Facts
begin

text \<open>
  The evaluation of an Einstein summation (CardinalityEstimation.hpp, the operators under
  einsum/internal/operators, EinsumOperator.hpp): operators for joins, Cartesian products, and the three base
  cases, which call each other along the subscripts. The value type of the results, the double
  arithmetic of the cardinality estimates and the libraries are parameters. A generator is the list of
  the entries it yields, each as its consumer sees it, with the entry argument it shares with its caller.
\<close>

subsection \<open>The parameters\<close>

text \<open>The value type of the results, with \<open>vo_bool\<close> for the tests \<open>if constexpr (bool_valued)\<close>.\<close>

record 'w value_ops =
  vo_bool :: bool
  vo_zero :: 'w
  vo_one :: 'w
  vo_true :: "'w \<Rightarrow> bool"
  vo_add :: "'w \<Rightarrow> 'w \<Rightarrow> 'w"
  vo_mult :: "'w \<Rightarrow> 'w \<Rightarrow> 'w"
  vo_div :: "'w \<Rightarrow> 'w \<Rightarrow> 'w"
  vo_of_size :: "nat \<Rightarrow> 'w"

record 'd double_ops =
  do_of_nat :: "nat \<Rightarrow> 'd"
  do_infinity :: 'd
  do_mult :: "'d \<Rightarrow> 'd \<Rightarrow> 'd"
  do_div :: "'d \<Rightarrow> 'd \<Rightarrow> 'd"
  do_less :: "'d \<Rightarrow> 'd \<Rightarrow> bool"

record ('v, 'w, 'd) einsum_env =
  ee_htt :: "'v htt"
  ee_storage :: "'v node_storage"
  ee_lib :: sc_library
  ee_double :: "'d double_ops"
  ee_value :: "'w value_ops"

text \<open>A run of an operator: the yielded entries, and the shared entry at the end. \<open>single_result\<close> yields
  nothing and returns the shared entry.\<close>

type_synonym 'w run = "'w user_entry list \<times> 'w user_entry"
type_synonym ('v, 'w) sub_operator = "bool \<Rightarrow> subscript \<Rightarrow> 'v hypertrie list \<Rightarrow> 'w user_entry \<Rightarrow> 'w run option"

subsection \<open>Cardinality estimation\<close>

fun min_from :: "nat list \<Rightarrow> nat \<Rightarrow> nat" where
  "min_from [] m = m"
| "min_from (x # xs) m = min_from xs (if x < m then x else m)"

fun max_from :: "nat list \<Rightarrow> nat \<Rightarrow> nat" where
  "max_from [] m = m"
| "max_from (x # xs) m = max_from xs (if m < x then x else m)"

definition calcCard :: "('v::zero_neq_one, 'w, 'd) einsum_env \<Rightarrow> 'v hypertrie list \<Rightarrow> label \<Rightarrow> subscript \<Rightarrow> 'd option" where
  "calcCard V operands label s = do {
     op_poss \<leftarrow> getPossOfOperandsWithLabel s label;
     (label_poss, _) \<leftarrow> sc_labelPossInOperands s label [];
     (min_dim_card, sizes, cards) \<leftarrow> foldM (\<lambda>(min_dim_card, sizes, cards) op_pos. do {
         operand \<leftarrow> at_index operands (unat op_pos);
         poss \<leftarrow> at_index label_poss (unat op_pos);
         op_dim_cards \<leftarrow> ht_get_cards (ee_htt V) (ee_storage V) operand (map unat poss);
         check (op_dim_cards \<noteq> []);
         let min_op = min_from (tl op_dim_cards) (hd op_dim_cards);
         let max_op = max_from (tl op_dim_cards) (hd op_dim_cards);
         Some (if min_op < min_dim_card then min_op else min_dim_card, fold List.insert op_dim_cards sizes,
           cards @ [do_of_nat (ee_double V) max_op])
       }) op_poss (size_max, [], []);
     Some (do_div (ee_double V)
       (foldl (\<lambda>a b. do_div (ee_double V) (do_mult (ee_double V) a (do_of_nat (ee_double V) min_dim_card)) b)
         (do_of_nat (ee_double V) 1) cards)
       (do_of_nat (ee_double V) (length sizes)))
   }"

definition getMinCardLabel :: "('v::zero_neq_one, 'w, 'd) einsum_env \<Rightarrow> 'v hypertrie list \<Rightarrow> subscript \<Rightarrow> label option" where
  "getMinCardLabel V operands s = do {
     let labels = sl_order (ee_lib V) (su_operands_labels (sc_data s));
     check (labels \<noteq> []);
     if length labels = 1 then Some (hd labels)
     else map_option fst (foldM (\<lambda>(min_label, min_card) l.
         if l \<in> set (su_lonely (sc_data s)) then Some (min_label, min_card)
         else map_option (\<lambda>c. if do_less (ee_double V) c min_card then (l, c) else (min_label, min_card)) (calcCard V operands l s))
       labels (hd labels, do_infinity (ee_double V)))
   }"

definition label_factors :: "('v::zero_neq_one, 'w, 'd) einsum_env \<Rightarrow> 'v hypertrie list \<Rightarrow> subscript \<Rightarrow> 'd list option" where
  "label_factors V operands s =
     option_list (map (\<lambda>l. calcCard V operands l s)
       (filter (\<lambda>l. l \<notin> set (su_lonely (sc_data s))) (sl_order (ee_lib V) (su_operands_labels (sc_data s)))))"

definition estimate :: "('v::zero_neq_one, 'w, 'd) einsum_env \<Rightarrow> 'v hypertrie list \<Rightarrow> subscript \<Rightarrow> 'd option" where
  "estimate V operands s = do {
     ns \<leftarrow> option_list (map (ht_size (ee_htt V) (ee_storage V)) operands);
     let operand_sizes = map (do_of_nat (ee_double V)) ns;
     factors \<leftarrow> label_factors V operands s;
     let (shorter, longer) = (if length operand_sizes < length factors then (operand_sizes, factors) else (factors, operand_sizes));
     let card1 = foldl (\<lambda>c (x, y). do_mult (ee_double V) c (do_mult (ee_double V) x y)) (do_of_nat (ee_double V) 1) (zip shorter longer);
     Some (foldl (do_mult (ee_double V)) card1 (drop (length shorter) longer))
   }"

subsection \<open>The shared entry\<close>

text \<open>Writing outside the key of the entry is undefined.\<close>

definition entry_write :: "'w user_entry \<Rightarrow> nat \<Rightarrow> key_part \<Rightarrow> 'w user_entry option" where
  "entry_write e pos kp = (if pos < length (ue_key e) then Some (e\<lparr>ue_key := (ue_key e)[pos := kp]\<rparr>) else None)"

definition clear_used_entry_poss :: "subscript \<Rightarrow> 'w user_entry \<Rightarrow> 'w user_entry option" where
  "clear_used_entry_poss s e = foldM (\<lambda>e p. entry_write e (unat p) 0) (getUsedResultPoss s) e"

text \<open>\<open>updateEntryKey\<close>, and the loop of the resolve operator, write a key to given positions.\<close>

fun write_parts :: "label_pos list \<Rightarrow> nat \<Rightarrow> key_part list \<Rightarrow> 'w user_entry \<Rightarrow> 'w user_entry option" where
  "write_parts poss i [] e = Some e"
| "write_parts poss i (kp # kps) e = do {
     p \<leftarrow> at_index poss i;
     e' \<leftarrow> entry_write e (unat p) kp;
     write_parts poss (Suc i) kps e'
   }"

fun updateEntryKey :: "label_pos list \<Rightarrow> nat \<Rightarrow> key_part list \<Rightarrow> 'w user_entry \<Rightarrow> 'w user_entry option" where
  "updateEntryKey [] i source_key e = Some e"
| "updateEntryKey (p # ps) i source_key e = do {
     kp \<leftarrow> at_index source_key i;
     e' \<leftarrow> entry_write e (unat p) kp;
     updateEntryKey ps (Suc i) source_key e'
   }"

subsection \<open>The join operator\<close>

definition join_items ::
  "('v::zero_neq_one, 'w, 'd) einsum_env \<Rightarrow> 'v hypertrie list \<Rightarrow> label_pos list list \<Rightarrow> (key_part \<times> 'v hypertrie list) list option" where
  "join_items V operands poss = do {
     check (length operands = length poss);
     it \<leftarrow> join_begin (ee_htt V) (ee_storage V) (zip operands (map (map unat) poss));
     drain ji_ended join_deref (join_inc (ee_htt V) (ee_storage V)) it
   }"

text \<open>What both functions of the operator begin with: the label, the next subscript and the join.\<close>

definition join_setup_operator ::
  "('v::zero_neq_one, 'w, 'd) einsum_env \<Rightarrow> subscript \<Rightarrow> 'v hypertrie list \<Rightarrow> (label \<times> subscript \<times> (key_part \<times> 'v hypertrie list) list) option" where
  "join_setup_operator V s operands = do {
     label \<leftarrow> getMinCardLabel V operands s;
     (next_s, _) \<leftarrow> sc_removeLabel (ee_lib V) s label [];
     (poss, _) \<leftarrow> sc_labelPossInOperands s label [];
     items \<leftarrow> join_items V operands poss;
     Some (label, next_s, items)
   }"

fun join_generator_loop ::
  "'w value_ops \<Rightarrow> ('v, 'w) sub_operator \<Rightarrow> label_pos option \<Rightarrow> subscript \<Rightarrow> (key_part \<times> 'v hypertrie list) list \<Rightarrow> 'w user_entry \<Rightarrow> 'w run option" where
  "join_generator_loop W sub pos next_s [] e = Some ([], e)"
| "join_generator_loop W sub pos next_s ((kp, sub_operands) # items) e = do {
     e1 \<leftarrow> (case pos of Some p \<Rightarrow> entry_write e (unat p) kp | None \<Rightarrow> Some e);
     (ys, e2) \<leftarrow> (if su_all_result_done (sc_data next_s)
       then map_option (\<lambda>(_, e2). (if vo_true W (ue_value e2) then [e2] else [], e2)) (sub True next_s sub_operands e1)
       else sub False next_s sub_operands e1);
     (zs, e3) \<leftarrow> join_generator_loop W sub pos next_s items e2;
     Some (ys @ zs, e3)
   }"

definition join_generator ::
  "('v::zero_neq_one, 'w, 'd) einsum_env \<Rightarrow> ('v, 'w) sub_operator \<Rightarrow> subscript \<Rightarrow> 'v hypertrie list \<Rightarrow> 'w user_entry \<Rightarrow> 'w run option" where
  "join_generator V sub s operands e = do {
     e1 \<leftarrow> clear_used_entry_poss s e;
     (label, next_s, items) \<leftarrow> join_setup_operator V s operands;
     pos \<leftarrow> (if isResultLabel s label then map_option Some (getLabelPosInResult s label) else Some None);
     join_generator_loop (ee_value V) sub pos next_s items e1
   }"

fun join_single_loop ::
  "'w value_ops \<Rightarrow> ('v, 'w) sub_operator \<Rightarrow> subscript \<Rightarrow> (key_part \<times> 'v hypertrie list) list \<Rightarrow> 'w \<Rightarrow> 'w user_entry \<Rightarrow> 'w user_entry option" where
  "join_single_loop W sub next_s [] v e = Some (e\<lparr>ue_value := v\<rparr>)"
| "join_single_loop W sub next_s ((kp, sub_operands) # items) v e = do {
     (_, e1) \<leftarrow> sub True next_s sub_operands e;
     if vo_true W (ue_value e1) then
       (if vo_bool W then Some e1 else join_single_loop W sub next_s items (vo_add W v (ue_value e1)) e1)
     else join_single_loop W sub next_s items v e1
   }"

definition join_single ::
  "('v::zero_neq_one, 'w, 'd) einsum_env \<Rightarrow> ('v, 'w) sub_operator \<Rightarrow> subscript \<Rightarrow> 'v hypertrie list \<Rightarrow> 'w user_entry \<Rightarrow> 'w run option" where
  "join_single V sub s operands e = do {
     e1 \<leftarrow> clear_used_entry_poss s e;
     (label, next_s, items) \<leftarrow> join_setup_operator V s operands;
     e2 \<leftarrow> join_single_loop (ee_value V) sub next_s items (vo_zero (ee_value V)) e1;
     Some ([], e2)
   }"

subsection \<open>The base operators\<close>

fun resolve_loop :: "'w value_ops \<Rightarrow> label_pos list \<Rightarrow> 'v entry list \<Rightarrow> 'w user_entry \<Rightarrow> 'w run option" where
  "resolve_loop W poss [] e = Some ([], e)"
| "resolve_loop W poss ((key, _) # es) e = do {
     e1 \<leftarrow> write_parts poss 0 key e;
     let e2 = e1\<lparr>ue_value := vo_one W\<rparr>;
     (zs, e3) \<leftarrow> resolve_loop W poss es e2;
     Some (e2 # zs, e3)
   }"

text \<open>The assertions that both \<open>resolve\<close> and \<open>count\<close> make of their operand.\<close>

definition only_operand :: "('v, 'w, 'd) einsum_env \<Rightarrow> 'v hypertrie list \<Rightarrow> 'v hypertrie option" where
  "only_operand V operands = (case operands of [h] \<Rightarrow> if ht_empty (ee_htt V) h then None else Some h | _ \<Rightarrow> None)"

definition resolve_generator ::
  "('v::zero_neq_one, 'w, 'd) einsum_env \<Rightarrow> subscript \<Rightarrow> 'v hypertrie list \<Rightarrow> 'w user_entry \<Rightarrow> 'w run option" where
  "resolve_generator V s operands e = do {
     h \<leftarrow> only_operand V operands;
     e1 \<leftarrow> clear_used_entry_poss s e;
     poss \<leftarrow> operand2resultMapping_ResolveType s;
     es \<leftarrow> ht_iterate (ee_htt V) (ee_storage V) h;
     resolve_loop (ee_value V) poss es e1
   }"

definition count_single :: "('v, 'w, 'd) einsum_env \<Rightarrow> 'v hypertrie list \<Rightarrow> 'w user_entry \<Rightarrow> 'w run option" where
  "count_single V operands e = do {
     h \<leftarrow> only_operand V operands;
     if vo_bool (ee_value V) then Some ([], e\<lparr>ue_value := vo_one (ee_value V)\<rparr>)
     else do {
       n \<leftarrow> ht_size (ee_htt V) (ee_storage V) h;
       Some ([], e\<lparr>ue_value := vo_of_size (ee_value V) n\<rparr>)
     }
   }"

definition entry_generator_single :: "'w value_ops \<Rightarrow> 'w user_entry \<Rightarrow> 'w run option" where
  "entry_generator_single W e = Some ([], e\<lparr>ue_value := vo_one W\<rparr>)"

subsection \<open>The Cartesian operator\<close>

text \<open>\<open>FullCartesianResult\<close>: for every part but the iterated one its results, the positions they are
  written to, and the current result.\<close>

type_synonym 'w part = "'w user_entry list \<times> label_pos list \<times> nat"

record 'w full_cartesian =
  fc_value :: 'w
  fc_parts :: "'w part list"
  fc_ended :: bool

definition part_current :: "'w part \<Rightarrow> 'w user_entry option" where
  "part_current p = (case p of (rs, _, i) \<Rightarrow> at_index rs i)"

definition part_write :: "'w user_entry \<Rightarrow> 'w part \<Rightarrow> 'w user_entry option" where
  "part_write e p = (case p of (rs, poss, i) \<Rightarrow> do { r \<leftarrow> at_index rs i; updateEntryKey poss 0 (ue_key r) e })"

definition new_full_cartesian ::
  "'w value_ops \<Rightarrow> (key_part list \<times> 'w) list list \<Rightarrow> label_pos list list \<Rightarrow> nat \<Rightarrow> 'w full_cartesian option" where
  "new_full_cartesian W sub_results result_poss excluded_pos = do {
     check (list_all (\<lambda>r. r \<noteq> []) sub_results);
     let sub_result_vecs = map (map (\<lambda>(key, v). \<lparr>ue_key = key, ue_value = v\<rparr>)) sub_results;
     let mapping = take excluded_pos result_poss @ drop (Suc excluded_pos) result_poss;
     Some \<lparr>fc_value = vo_one W, fc_parts = map (\<lambda>(rs, ps). (rs, ps, 0)) (zip sub_result_vecs mapping), fc_ended = True\<rparr>
   }"

fun restart_loop :: "'w value_ops \<Rightarrow> 'w part list \<Rightarrow> 'w \<Rightarrow> 'w user_entry \<Rightarrow> ('w \<times> 'w user_entry) option" where
  "restart_loop W [] v e = Some (v, e)"
| "restart_loop W ((rs, poss, i) # parts) v e = do {
     r \<leftarrow> at_index rs 0;
     check (vo_true W v);
     e1 \<leftarrow> updateEntryKey poss 0 (ue_key r) e;
     restart_loop W parts (if vo_bool W then v else vo_mult W v (ue_value r)) e1
   }"

definition fc_begin :: "'w value_ops \<Rightarrow> 'w full_cartesian \<Rightarrow> 'w user_entry \<Rightarrow> ('w full_cartesian \<times> 'w user_entry) option" where
  "fc_begin W fc e = do {
     (v, e1) \<leftarrow> restart_loop W (fc_parts fc) (vo_one W) e;
     Some (\<lparr>fc_value = v, fc_parts = map (\<lambda>(rs, poss, i). (rs, poss, 0)) (fc_parts fc), fc_ended = False\<rparr>, e1)
   }"

text \<open>\<open>operator++\<close>: like counting up, the first part that does not carry over ends the loop, after the
  results of the remaining parts have been written again. The flag says whether every part carried over.\<close>

fun inc_loop :: "'w value_ops \<Rightarrow> 'w part list \<Rightarrow> 'w \<Rightarrow> 'w user_entry \<Rightarrow> ('w part list \<times> 'w \<times> 'w user_entry \<times> bool) option" where
  "inc_loop W [] v e = do { check (vo_true W v); Some ([], v, e, True) }"
| "inc_loop W ((rs, poss, i) # parts) v e = do {
     last_entry \<leftarrow> at_index rs i;
     let carry_over = (Suc i = length rs);
     let i' = (if carry_over then 0 else Suc i);
     current \<leftarrow> at_index rs i';
     e1 \<leftarrow> updateEntryKey poss 0 (ue_key current) e;
     check (vo_true W v \<and> vo_true W (ue_value current) \<and> vo_true W (ue_value last_entry));
     check (vo_true W (vo_div W (vo_mult W v (ue_value current)) (ue_value last_entry)));
     let v' = (if vo_bool W then v else vo_div W (vo_mult W v (ue_value current)) (ue_value last_entry));
     check (vo_true W v');
     if \<not> carry_over then do {
       e2 \<leftarrow> foldM part_write parts e1;
       Some ((rs, poss, i') # parts, v', e2, False)
     } else do {
       (parts', v'', e2, carried) \<leftarrow> inc_loop W parts v' e1;
       Some ((rs, poss, i') # parts', v'', e2, carried)
     }
   }"

definition fc_inc :: "'w value_ops \<Rightarrow> 'w full_cartesian \<Rightarrow> 'w user_entry \<Rightarrow> ('w full_cartesian \<times> 'w user_entry) option" where
  "fc_inc W fc e = do {
     (parts, v, e1, carried) \<leftarrow> inc_loop W (fc_parts fc) (fc_value fc) e;
     Some (\<lparr>fc_value = v, fc_parts = parts, fc_ended = carried\<rparr>, e1)
   }"

definition extract_operands :: "subscript \<Rightarrow> nat \<Rightarrow> 'v hypertrie list \<Rightarrow> 'v hypertrie list option" where
  "extract_operands s cart_op_pos operands = do {
     poss \<leftarrow> getOriginalOperandPoss s cart_op_pos;
     option_list (map (\<lambda>p. at_index operands (unat p)) poss)
   }"

fun suboperands_loop ::
  "('v::zero_neq_one, 'w, 'd) einsum_env \<Rightarrow> subscript \<Rightarrow> 'v hypertrie list \<Rightarrow> subscript list \<Rightarrow> nat \<Rightarrow> nat \<Rightarrow> 'd \<Rightarrow> (nat \<times> 'v hypertrie list list) option" where
  "suboperands_loop V s operands [] cart_op_pos iterated_pos max_size = Some (iterated_pos, [])"
| "suboperands_loop V s operands (sub_s # subs) cart_op_pos iterated_pos max_size = do {
     sub_operands \<leftarrow> extract_operands s cart_op_pos operands;
     size \<leftarrow> estimate V sub_operands sub_s;
     let larger = do_less (ee_double V) max_size size;
     (iterated_pos', opss) \<leftarrow> suboperands_loop V s operands subs (Suc cart_op_pos)
       (if larger then cart_op_pos else iterated_pos) (if larger then size else max_size);
     Some (iterated_pos', sub_operands # opss)
   }"

definition extract_suboperands ::
  "('v::zero_neq_one, 'w, 'd) einsum_env \<Rightarrow> subscript \<Rightarrow> 'v hypertrie list \<Rightarrow> (nat \<times> 'v hypertrie list list) option" where
  "extract_suboperands V s operands =
     suboperands_loop V s operands (ca_subs (sc_cart s)) 0 0 (do_of_nat (ee_double V) 0)"

text \<open>The results of one part, collected in a map.\<close>

fun collect_results :: "'w value_ops \<Rightarrow> 'w user_entry list \<Rightarrow> (key_part list \<times> 'w) list \<Rightarrow> (key_part list \<times> 'w) list option" where
  "collect_results W [] m = Some m"
| "collect_results W (y # ys) m = do {
     check (vo_true W (ue_value y));
     collect_results W ys
       (if vo_bool W then AList.update (ue_key y) (vo_one W) m else al_modify (ue_key y) (vo_zero W) (\<lambda>v. vo_add W v (ue_value y)) m)
   }"

definition sub_entry_arg :: "'w value_ops \<Rightarrow> subscript \<Rightarrow> 'w user_entry" where
  "sub_entry_arg W s = entry_make_filled (sc_resultLabelCount s) 0 (vo_one W)"

definition sub_result :: "'w value_ops \<Rightarrow> ('v, 'w) sub_operator \<Rightarrow> subscript \<Rightarrow> 'v hypertrie list \<Rightarrow> (key_part list \<times> 'w) list option" where
  "sub_result W sub s operands =
     (if su_all_result_done (sc_data s) then do {
        (_, e) \<leftarrow> sub True s operands (sub_entry_arg W s);
        Some (if vo_true W (ue_value e) then [(ue_key e, ue_value e)] else [])
      } else do {
        (ys, _) \<leftarrow> sub False s operands (sub_entry_arg W s);
        collect_results W ys []
      })"

text \<open>\<open>get_sub_results\<close>: \<open>Some None\<close> is the empty optional, for a part without results.\<close>

fun sub_results_loop ::
  "'w value_ops \<Rightarrow> ('v, 'w) sub_operator \<Rightarrow> nat \<Rightarrow> nat \<Rightarrow> (subscript \<times> 'v hypertrie list) list \<Rightarrow> (key_part list \<times> 'w) list list option option" where
  "sub_results_loop W sub iterated_pos cart_op_pos [] = Some (Some [])"
| "sub_results_loop W sub iterated_pos cart_op_pos ((s, operands) # parts) =
     (if cart_op_pos = iterated_pos then sub_results_loop W sub iterated_pos (Suc cart_op_pos) parts
      else do {
        r \<leftarrow> sub_result W sub s operands;
        if r = [] then Some None
        else do {
          rest \<leftarrow> sub_results_loop W sub iterated_pos (Suc cart_op_pos) parts;
          Some (map_option (\<lambda>rs. r # rs) rest)
        }
      })"

definition get_sub_results ::
  "'w value_ops \<Rightarrow> ('v, 'w) sub_operator \<Rightarrow> nat \<Rightarrow> subscript list \<Rightarrow> 'v hypertrie list list \<Rightarrow> (key_part list \<times> 'w) list list option option" where
  "get_sub_results W sub iterated_pos subs operandss = sub_results_loop W sub iterated_pos 0 (zip subs operandss)"

text \<open>The loop over the precalculated results for one entry of the iterated part. \<open>value_of\<close> is the value
  that is written to the shared entry.\<close>

partial_function (option) cartesian_rounds ::
  "'w value_ops \<Rightarrow> label_pos list \<Rightarrow> key_part list \<Rightarrow> ('w \<Rightarrow> 'w user_entry \<Rightarrow> 'w user_entry) \<Rightarrow> 'w full_cartesian \<Rightarrow> 'w user_entry \<Rightarrow> 'w run option" where
  "cartesian_rounds W poss key value_of fc e =
     (if fc_ended fc then Some ([], e)
      else do {
        check (vo_true W (fc_value fc));
        e1 \<leftarrow> updateEntryKey poss 0 key e;
        let e2 = value_of (fc_value fc) e1;
        check (vo_true W (ue_value e2));
        (fc', e3) \<leftarrow> fc_inc W fc e2;
        (zs, e4) \<leftarrow> cartesian_rounds W poss key value_of fc' e3;
        Some (e2 # zs, e4)
      })"

text \<open>For the entries of a generator a Boolean value is left as it is; for a single result it is
  written.\<close>

definition generated_value :: "'w value_ops \<Rightarrow> 'w \<Rightarrow> 'w \<Rightarrow> 'w user_entry \<Rightarrow> 'w user_entry" where
  "generated_value W y v e = (if vo_bool W then e else e\<lparr>ue_value := vo_mult W y v\<rparr>)"

definition single_value :: "'w value_ops \<Rightarrow> 'w \<Rightarrow> 'w \<Rightarrow> 'w user_entry \<Rightarrow> 'w user_entry" where
  "single_value W y v e = e\<lparr>ue_value := vo_mult W y v\<rparr>"

fun cartesian_loop ::
  "'w value_ops \<Rightarrow> label_pos list \<Rightarrow> 'w full_cartesian \<Rightarrow> 'w user_entry list \<Rightarrow> 'w user_entry \<Rightarrow> 'w run option" where
  "cartesian_loop W poss fc [] e = Some ([], e)"
| "cartesian_loop W poss fc (y # ys) e = do {
     check (vo_true W (ue_value y));
     (fc1, e1) \<leftarrow> fc_begin W fc e;
     (zs, e2) \<leftarrow> cartesian_rounds W poss (ue_key y) (generated_value W (ue_value y)) fc1 e1;
     (zs', e3) \<leftarrow> cartesian_loop W poss fc ys e2;
     Some (zs @ zs', e3)
   }"

text \<open>What both functions of the operator begin with: the precalculated results and the iterated part.\<close>

definition cartesian_setup ::
  "('v::zero_neq_one, 'w, 'd) einsum_env \<Rightarrow> ('v, 'w) sub_operator \<Rightarrow> subscript \<Rightarrow> 'v hypertrie list \<Rightarrow>
    ('w full_cartesian \<times> subscript \<times> 'v hypertrie list \<times> label_pos list) option option" where
  "cartesian_setup V sub s operands = do {
     (iterated_pos, sub_operandss) \<leftarrow> extract_suboperands V s operands;
     sub_results_opt \<leftarrow> get_sub_results (ee_value V) sub iterated_pos (ca_subs (sc_cart s)) sub_operandss;
     (case sub_results_opt of
        None \<Rightarrow> Some None
      | Some sub_results \<Rightarrow> do {
          fc \<leftarrow> new_full_cartesian (ee_value V) sub_results (ca_result_poss (sc_cart s)) iterated_pos;
          sub_s \<leftarrow> at_index (ca_subs (sc_cart s)) iterated_pos;
          sub_operands \<leftarrow> at_index sub_operandss iterated_pos;
          poss \<leftarrow> at_index (ca_result_poss (sc_cart s)) iterated_pos;
          Some (Some (fc, sub_s, sub_operands, poss))
        })
   }"

definition cartesian_generator ::
  "('v::zero_neq_one, 'w, 'd) einsum_env \<Rightarrow> ('v, 'w) sub_operator \<Rightarrow> subscript \<Rightarrow> 'v hypertrie list \<Rightarrow> 'w user_entry \<Rightarrow> 'w run option" where
  "cartesian_generator V sub s operands e = do {
     e1 \<leftarrow> clear_used_entry_poss s e;
     setup \<leftarrow> cartesian_setup V sub s operands;
     (case setup of
        None \<Rightarrow> Some ([], e1)
      | Some (fc, sub_s, sub_operands, poss) \<Rightarrow>
          if \<not> su_all_result_done (sc_data sub_s) then do {
            (ys, _) \<leftarrow> sub False sub_s sub_operands (sub_entry_arg (ee_value V) sub_s);
            cartesian_loop (ee_value V) poss fc ys e1
          } else do {
            (_, y) \<leftarrow> sub True sub_s sub_operands (sub_entry_arg (ee_value V) sub_s);
            if vo_true (ee_value V) (ue_value y) then do {
              (fc1, e2) \<leftarrow> fc_begin (ee_value V) fc e1;
              cartesian_rounds (ee_value V) poss (ue_key y) (single_value (ee_value V) (ue_value y)) fc1 e2
            } else Some ([], e1)
          })
   }"

definition cartesian_single ::
  "('v::zero_neq_one, 'w, 'd) einsum_env \<Rightarrow> ('v, 'w) sub_operator \<Rightarrow> subscript \<Rightarrow> 'v hypertrie list \<Rightarrow> 'w user_entry \<Rightarrow> 'w run option" where
  "cartesian_single V sub s operands e = do {
     e1 \<leftarrow> clear_used_entry_poss s e;
     setup \<leftarrow> cartesian_setup V sub s operands;
     (case setup of
        None \<Rightarrow> Some ([], e1\<lparr>ue_value := vo_zero (ee_value V)\<rparr>)
      | Some (fc, sub_s, sub_operands, poss) \<Rightarrow> do {
          (_, y) \<leftarrow> sub True sub_s sub_operands (sub_entry_arg (ee_value V) sub_s);
          if vo_bool (ee_value V) then Some ([], e1\<lparr>ue_value := ue_value y\<rparr>)
          else do {
            (fc1, e2) \<leftarrow> fc_begin (ee_value V) fc e1;
            Some ([], e2\<lparr>ue_value := vo_mult (ee_value V) (ue_value y) (fc_value fc1)\<rparr>)
          }
        })
   }"

subsection \<open>Dispatch and the summation\<close>

text \<open>The recursion of the operators, with fuel; every call goes to a subscript with fewer labels.\<close>

fun get_sub_operator :: "nat \<Rightarrow> ('v::zero_neq_one, 'w, 'd) einsum_env \<Rightarrow> ('v, 'w) sub_operator" where
  "get_sub_operator 0 V all_result_done s operands e = None"
| "get_sub_operator (Suc fuel) V all_result_done s operands e =
     (if all_result_done then
        (case su_type (sc_data s) of
           Type_Join \<Rightarrow> join_single V (get_sub_operator fuel V) s operands e
         | Type_Resolve \<Rightarrow> None
         | Type_Count \<Rightarrow> count_single V operands e
         | Type_Cartesian \<Rightarrow> cartesian_single V (get_sub_operator fuel V) s operands e
         | Type_EntryGenerator \<Rightarrow> entry_generator_single (ee_value V) e
         | _ \<Rightarrow> None)
      else
        (case su_type (sc_data s) of
           Type_Join \<Rightarrow> join_generator V (get_sub_operator fuel V) s operands e
         | Type_Resolve \<Rightarrow> resolve_generator V s operands e
         | Type_Cartesian \<Rightarrow> cartesian_generator V (get_sub_operator fuel V) s operands e
         | _ \<Rightarrow> None))"

text \<open>Boolean results are made unique by the hash of the entries.\<close>

fun unique_by_hash :: "('w user_entry \<Rightarrow> 64 word) \<Rightarrow> 64 word list \<Rightarrow> 'w user_entry list \<Rightarrow> 'w user_entry list" where
  "unique_by_hash hsh found [] = []"
| "unique_by_hash hsh found (y # ys) =
     (if hsh y \<in> set found then unique_by_hash hsh found ys else y # unique_by_hash hsh (hsh y # found) ys)"

definition einsum ::
  "('v::zero_neq_one, 'w, 'd) einsum_env \<Rightarrow> ('w user_entry \<Rightarrow> 64 word) \<Rightarrow> subscript \<Rightarrow> 'v hypertrie list \<Rightarrow> 'w user_entry list option" where
  "einsum V hsh s operands = do {
     let fuel = Suc (length (su_operands_labels (sc_data s)));
     let e = entry_make_filled (sc_resultLabelCount s) 0 (vo_one (ee_value V));
     if su_all_result_done (sc_data s) then do {
       (_, e1) \<leftarrow> get_sub_operator fuel V True s operands e;
       if vo_true (ee_value V) (ue_value e1) then do {
         (_, e2) \<leftarrow> get_sub_operator fuel V True s operands e1;
         Some [e2]
       } else Some []
     } else do {
       (ys, _) \<leftarrow> get_sub_operator fuel V False s operands e;
       Some (if vo_bool (ee_value V) then unique_by_hash hsh [] ys else ys)
     }
   }"

end
