(* ===== verification/Einsum_Semantics.thy ===== *)
theory Einsum_Semantics
  imports Einsum_Operators "HOL-Library.FuncSet"
begin

text \<open>
  What an Einstein summation stands for: the solutions are the assignments of key parts to the labels under
  which every operand contains its labels' key parts, and the value of a result key is the number of
  solutions that map the result labels to it. The theory shows how solutions decompose along a label, which is
  what the join operator does, and along the connected components of the labels, which is what the
  Cartesian operator does.
\<close>

subsection \<open>Solutions\<close>

abbreviation keys_in :: "'v entry set \<Rightarrow> raw_key set" where
  "keys_in E \<equiv> fst ` E"

definition solutions :: "operand_sc list \<Rightarrow> 'v entry set list \<Rightarrow> (label \<Rightarrow> key_part) set" where
  "solutions ops Es = {\<alpha>. (\<forall>l. l \<notin> labels_of ops \<longrightarrow> \<alpha> l = 0) \<and> list_all2 (\<lambda>op E. map \<alpha> op \<in> keys_in E) ops Es}"

text \<open>The key \<open>k\<close> that a solution writes over the key \<open>k0\<close>: the labels in \<open>A\<close> are written.\<close>

definition hits :: "label list \<Rightarrow> label set \<Rightarrow> key_part list \<Rightarrow> key_part list \<Rightarrow> (label \<Rightarrow> key_part) \<Rightarrow> bool" where
  "hits R A k0 k \<alpha> \<longleftrightarrow> length k = length R \<and> (\<forall>i < length R. k ! i = (if R ! i \<in> A then \<alpha> (R ! i) else k0 ! i))"

definition same_outside :: "label list \<Rightarrow> label set \<Rightarrow> key_part list \<Rightarrow> key_part list \<Rightarrow> bool" where
  "same_outside R A k0 k \<longleftrightarrow> length k = length R \<and> (\<forall>i < length R. R ! i \<notin> A \<longrightarrow> k ! i = k0 ! i)"

lemma hits_same_outside: "same_outside R A k0 k1 \<Longrightarrow> hits R A k1 k \<alpha> = hits R A k0 k \<alpha>"
  by (auto simp: hits_def same_outside_def)

lemma same_outside_refl: "length k0 = length R \<Longrightarrow> same_outside R A k0 k0"
  and same_outside_trans: "same_outside R A k0 k1 \<Longrightarrow> same_outside R A k1 k2 \<Longrightarrow> same_outside R A k0 k2"
  and same_outside_mono: "same_outside R A k0 k1 \<Longrightarrow> A \<subseteq> B \<Longrightarrow> same_outside R B k0 k1"
  by (auto simp: same_outside_def)

definition bound :: "'v entry set list \<Rightarrow> nat" where
  "bound Es = (\<Prod>E\<leftarrow>Es. card E)"

lemma solutions_bound:
  assumes "\<forall>E \<in> set Es. finite E"
  shows "finite (solutions ops Es)" "card (solutions ops Es) \<le> bound Es"
proof -
  have "finite (listset (map ((`) fst) Es)) \<and> card (listset (map ((`) fst) Es)) \<le> bound Es"
    using assms
  proof (induction Es)
    case Nil
    then show ?case by (simp add: bound_def)
  next
    case (Cons E Es)
    let ?L = "listset (map ((`) fst) Es)"
    have img: "set_Cons (fst ` E) ?L = (\<lambda>(x, xs). x # xs) ` ((fst ` E) \<times> ?L)" by (auto simp: set_Cons_def)
    have fin: "finite ((fst ` E) \<times> ?L)" using Cons by simp
    have "card (set_Cons (fst ` E) ?L) \<le> card ((fst ` E) \<times> ?L)" unfolding img by (rule card_image_le[OF fin])
    also have "\<dots> = card (fst ` E) * card ?L" by (rule card_cartesian_product)
    also have "\<dots> \<le> card E * bound Es" using Cons by (intro mult_le_mono card_image_le) auto
    finally show ?case using fin img by (simp add: bound_def)
  qed
  then have L: "finite (listset (map ((`) fst) Es))" "card (listset (map ((`) fst) Es)) \<le> bound Es" by auto
  let ?F = "\<lambda>\<alpha> :: label \<Rightarrow> key_part. map (map \<alpha>) ops"
  have "list_all2 (\<lambda>op E. map \<alpha> op \<in> keys_in E) ops Es \<Longrightarrow> ?F \<alpha> \<in> listset (map ((`) fst) Es)" for \<alpha>
    by (induction ops Es rule: list_all2_induct) (auto simp: set_Cons_def)
  then have sub: "?F ` solutions ops Es \<subseteq> listset (map ((`) fst) Es)" by (auto simp: solutions_def)
  have inj: "inj_on ?F (solutions ops Es)"
  proof (rule inj_onI, rule ext)
    fix \<alpha> \<beta> l assume ab: "\<alpha> \<in> solutions ops Es" "\<beta> \<in> solutions ops Es" "?F \<alpha> = ?F \<beta>"
    show "\<alpha> l = \<beta> l"
    proof (cases "l \<in> labels_of ops")
      case True
      then obtain op where "op \<in> set ops" "l \<in> set op" by auto
      then show ?thesis using ab(3) by (auto simp: map_eq_conv)
    qed (use ab(1,2) in \<open>simp add: solutions_def\<close>)
  qed
  show "finite (solutions ops Es)" using finite_imageD[OF finite_subset[OF sub L(1)] inj] .
  have "card (solutions ops Es) = card (?F ` solutions ops Es)" by (rule card_image[OF inj, symmetric])
  also have "\<dots> \<le> card (listset (map ((`) fst) Es))" by (rule card_mono[OF L(1) sub])
  finally show "card (solutions ops Es) \<le> bound Es" using L(2) by simp
qed

subsection \<open>Along a label\<close>

abbreviation poss_of :: "label \<Rightarrow> operand_sc \<Rightarrow> nat list" where
  "poss_of l op \<equiv> filter (\<lambda>i. op ! i = l) [0..<length op]"

abbreviation mask_of :: "label \<Rightarrow> operand_sc \<Rightarrow> raw_key_positions" where
  "mask_of l op \<equiv> kp_mask hypertrie_max_depth (poss_of l op)"

abbreviation without :: "label \<Rightarrow> operand_sc \<Rightarrow> operand_sc" where
  "without l op \<equiv> filter (\<lambda>x. x \<noteq> l) op"

lemma poss_of_empty: "poss_of l op = [] \<longleftrightarrow> l \<notin> set op"
  by (auto simp: filter_empty_conv in_set_conv_nth)

lemma length_poss_of: "length (poss_of l op) + length (without l op) = length op"
proof -
  have "filter (\<lambda>x. x = l) (map ((!) op) [0..<length op]) = map ((!) op) (poss_of l op)" by (simp add: filter_map comp_def)
  then have "length (poss_of l op) = length (filter (\<lambda>x. x = l) op)" by (metis length_map map_nth)
  then show ?thesis using sum_length_filter_compl[of "\<lambda>x. x = l" op] by simp
qed

lemma mask_of_set:
  assumes "length op \<le> hypertrie_max_depth"
  shows "kp_set (length op) (mask_of l op) = {p. p < length op \<and> op ! p = l}"
proof -
  have "\<forall>p \<in> set (poss_of l op). p < hypertrie_max_depth" using assms by auto
  then have "kp_set hypertrie_max_depth (mask_of l op) = set (poss_of l op)" by (rule kp_set_make)
  then have "kp_at (mask_of l op) q \<longleftrightarrow> q \<in> set (poss_of l op)" if "q < hypertrie_max_depth" for q
    using that by (auto simp: kp_set_def)
  then show ?thesis using assms by (auto simp: kp_set_def)
qed

lemma free_parts_filter: "free_parts P key = map ((!) key) (filter (\<lambda>i. i \<notin> P) [0..<length key])"
proof -
  have "concat (map (\<lambda>i. if i \<notin> P then [key ! i] else []) is) = map ((!) key) (filter (\<lambda>i. i \<notin> P) is)" for "is"
    by (induction "is") auto
  then show ?thesis by (simp add: free_parts_def)
qed

lemma free_parts_map: "free_parts {p. p < length op \<and> op ! p = l} (map \<alpha> op) = map \<alpha> (without l op)"
proof -
  have "map \<alpha> (without l op) = map \<alpha> (without l (map ((!) op) [0..<length op]))" by (simp add: map_nth)
  also have "\<dots> = map (\<lambda>i. \<alpha> (op ! i)) (filter (\<lambda>i. op ! i \<noteq> l) [0..<length op])"
    by (simp add: filter_map comp_def)
  also have "\<dots> = free_parts {p. p < length op \<and> op ! p = l} (map \<alpha> op)"
    unfolding free_parts_filter by (auto intro!: map_cong filter_cong)
  finally show ?thesis by simp
qed

lemma diag_entries_keys:
  assumes E: "all_depth d E"
  shows "key' \<in> keys_in (diag_entries d m kp E) \<longleftrightarrow>
    (\<exists>key \<in> keys_in E. (\<forall>p \<in> kp_set d m. key ! p = kp) \<and> key' = free_parts (kp_set d m) key)"
proof -
  have slice: "kp_slice (card (kp_set d m)) m key kp = Some key' \<longleftrightarrow>
      (\<forall>p \<in> kp_set d m. key ! p = kp) \<and> key' = free_parts (kp_set d m) key" if "(key, v) \<in> E" for key v
  proof -
    have "length key = d" using E that by (force simp: all_depth_def)
    then show ?thesis using kp_slice_closed[of key m "card (kp_set d m)" kp] by auto
  qed
  have "key' \<in> keys_in (diag_entries d m kp E) \<longleftrightarrow>
      (\<exists>key v. (key, v) \<in> E \<and> kp_slice (card (kp_set d m)) m key kp = Some key')"
    by (force simp: diag_entries_def)
  also have "\<dots> \<longleftrightarrow> (\<exists>key v. (key, v) \<in> E \<and> (\<forall>p \<in> kp_set d m. key ! p = kp) \<and> key' = free_parts (kp_set d m) key)"
    using slice by blast
  also have "\<dots> \<longleftrightarrow> (\<exists>key \<in> keys_in E. (\<forall>p \<in> kp_set d m. key ! p = kp) \<and> key' = free_parts (kp_set d m) key)"
    by force
  finally show ?thesis .
qed

text \<open>An operand that has the label contains an assignment exactly when its diagonal for the key part of the
  label contains the rest.\<close>

lemma operand_along_label:
  assumes E: "all_depth (length op) E" and len: "length op \<le> hypertrie_max_depth"
  shows "map \<alpha> op \<in> keys_in E \<longleftrightarrow> map \<alpha> (without l op) \<in> keys_in (diag_entries (length op) (mask_of l op) (\<alpha> l) E)"
proof -
  let ?P = "{p. p < length op \<and> op ! p = l}"
  note m = mask_of_set[OF len, of l]
  have key: "map \<alpha> op = key" if k: "key \<in> keys_in E" "\<forall>p \<in> ?P. key ! p = \<alpha> l" "map \<alpha> (without l op) = free_parts ?P key" for key
  proof -
    have len: "length key = length op" using E k(1) by (auto simp: all_depth_def)
    have free: "map (\<lambda>i. \<alpha> (op ! i)) (filter (\<lambda>i. i \<notin> ?P) [0..<length op]) = map ((!) key) (filter (\<lambda>i. i \<notin> ?P) [0..<length op])"
      using k(3) free_parts_map[of op l \<alpha>] len by (simp add: free_parts_filter)
    have "\<alpha> (op ! i) = key ! i" if "i < length op" for i
    proof (cases "op ! i = l")
      case False
      then have "i \<in> set (filter (\<lambda>i. i \<notin> ?P) [0..<length op])" using that by simp
      then show ?thesis using free by (auto simp: map_eq_conv)
    qed (use that k(2) in simp)
    then show ?thesis using len by (auto intro: nth_equalityI)
  qed
  show ?thesis
  proof
    assume "map \<alpha> op \<in> keys_in E"
    then show "map \<alpha> (without l op) \<in> keys_in (diag_entries (length op) (mask_of l op) (\<alpha> l) E)"
      unfolding diag_entries_keys[OF E] m using free_parts_map[of op l \<alpha>] by (intro bexI[of _ "map \<alpha> op"]) auto
  next
    assume "map \<alpha> (without l op) \<in> keys_in (diag_entries (length op) (mask_of l op) (\<alpha> l) E)"
    then have "\<exists>key \<in> keys_in E. (\<forall>p \<in> ?P. key ! p = \<alpha> l) \<and> map \<alpha> (without l op) = free_parts ?P key"
      unfolding diag_entries_keys[OF E] m .
    then obtain k where k: "k \<in> keys_in E" "\<forall>p \<in> ?P. k ! p = \<alpha> l" "map \<alpha> (without l op) = free_parts ?P k" by blast
    then show "map \<alpha> op \<in> keys_in E" using key[OF k] by simp
  qed
qed

text \<open>The operands of the join for a label, and what it leaves for a key part.\<close>

definition join_operands :: "label \<Rightarrow> operand_sc list \<Rightarrow> 'v entry set list \<Rightarrow> 'v join_operand list" where
  "join_operands l ops Es = map (\<lambda>(op, E). ((length op, E), poss_of l op)) (zip ops Es)"

definition sliced :: "label \<Rightarrow> operand_sc list \<Rightarrow> 'v entry set list \<Rightarrow> key_part \<Rightarrow> 'v entry set list" where
  "sliced l ops Es kp = map snd (join_outputs kp (join_operands l ops Es))"

definition label_keys :: "label \<Rightarrow> operand_sc list \<Rightarrow> 'v entry set list \<Rightarrow> key_part set" where
  "label_keys l ops Es = join_keys (join_operands l ops Es)"

definition entries_fit :: "operand_sc list \<Rightarrow> 'v entry set list \<Rightarrow> bool" where
  "entries_fit ops Es \<longleftrightarrow> list_all2 (\<lambda>op E. all_depth (length op) E \<and> op \<noteq> [] \<and> length op \<le> hypertrie_max_depth) ops Es"

lemma remaining_operands_Cons:
  "remaining_operands l (op # ops) = (if without l op = [] then [] else [without l op]) @ remaining_operands l ops"
  by (simp add: remaining_operands_def)

lemma sliced_Cons:
  assumes "op \<noteq> []"
  shows "sliced l (op # ops) (E # Es) kp =
    (if l \<notin> set op then [E] else if without l op = [] then [] else [diag_entries (length op) (mask_of l op) kp E]) @ sliced l ops Es kp"
proof -
  have "length (poss_of l op) < length op \<longleftrightarrow> without l op \<noteq> []" using length_poss_of[where l = l and op = op] by (metis less_add_same_cancel1 length_greater_0_conv nat_less_le add.right_neutral list.size(3))
  then show ?thesis by (simp add: sliced_def join_operands_def poss_of_empty)
qed

lemma label_keys_Cons:
  "label_keys l (op # ops) (E # Es) =
    {kp. l \<in> set op \<longrightarrow> (\<exists>e \<in> E. \<forall>p \<in> {p. p < length op \<and> op ! p = l}. fst e ! p = kp)} \<inter> label_keys l ops Es"
  using poss_of_empty[where l = l and op = op] by (auto simp: label_keys_def join_keys_def join_operands_def)

lemma along_label_list:
  assumes "entries_fit ops Es"
  shows "list_all2 (\<lambda>op E. map \<alpha> op \<in> keys_in E) ops Es \<longleftrightarrow>
    \<alpha> l \<in> label_keys l ops Es \<and> list_all2 (\<lambda>op E. map \<alpha> op \<in> keys_in E) (remaining_operands l ops) (sliced l ops Es (\<alpha> l))"
  using assms unfolding entries_fit_def
proof (induction ops Es rule: list_all2_induct)
  case Nil
  then show ?case by (simp add: remaining_operands_def sliced_def join_operands_def label_keys_def join_keys_def)
next
  case (Cons op ops E Es)
  have E: "all_depth (length op) E" "op \<noteq> []" "length op \<le> hypertrie_max_depth" using Cons.hyps(1) by auto
  let ?P = "{p. p < length op \<and> op ! p = l}"
  have on: "\<exists>e \<in> E. \<forall>p \<in> ?P. fst e ! p = \<alpha> l" if "map \<alpha> op \<in> keys_in E"
  proof -
    from that obtain e where "e \<in> E" "fst e = map \<alpha> op" by force
    then show ?thesis by (intro bexI[of _ e]) auto
  qed
  have full: "map \<alpha> op \<in> keys_in E \<longleftrightarrow> (\<exists>e \<in> E. \<forall>p \<in> ?P. fst e ! p = \<alpha> l)" if "without l op = []"
  proof
    assume "\<exists>e \<in> E. \<forall>p \<in> ?P. fst e ! p = \<alpha> l"
    then obtain e where e: "e \<in> E" "\<forall>p \<in> ?P. fst e ! p = \<alpha> l" by blast
    have all: "op ! p = l" if "p < length op" for p
      using \<open>without l op = []\<close> that by (auto simp: filter_empty_conv)
    have "length (fst e) = length op" using E(1) e(1) by (simp add: all_depth_def)
    then have "fst e = map \<alpha> op" using e(2) all by (auto intro: nth_equalityI)
    then show "map \<alpha> op \<in> keys_in E" using e(1) by (metis imageI)
  qed (rule on)
  have along: "map \<alpha> op \<in> keys_in E \<longleftrightarrow> map \<alpha> (without l op) \<in> keys_in (diag_entries (length op) (mask_of l op) (\<alpha> l) E)"
    by (rule operand_along_label[OF E(1,3)])
  have keep: "without l op = op" if "l \<notin> set op" using that by (auto simp: filter_id_conv)
  consider "l \<notin> set op" | "l \<in> set op" "without l op = []" | "l \<in> set op" "without l op \<noteq> []" by blast
  then show ?case
  proof cases
    case 1
    then show ?thesis using Cons.IH keep E(2) by (auto simp: remaining_operands_Cons sliced_Cons label_keys_Cons)
  next
    case 2
    then show ?thesis using Cons.IH full E(2) by (simp add: remaining_operands_Cons sliced_Cons label_keys_Cons)
  next
    case 3
    then show ?thesis using Cons.IH along on E(2) by (simp add: remaining_operands_Cons sliced_Cons label_keys_Cons) blast
  qed
qed

lemma map_update_fresh: "l \<notin> set op \<Longrightarrow> map (\<alpha>(l := x)) op = map \<alpha> op"
  by auto

text \<open>The solutions split into those of the remaining operands for the key parts of the label.\<close>

lemma solutions_along_label:
  assumes fit: "entries_fit ops Es" and l: "l \<in> labels_of ops"
  shows "solutions ops Es = (\<Union>kp \<in> label_keys l ops Es. (\<lambda>\<beta>. \<beta>(l := kp)) ` solutions (remaining_operands l ops) (sliced l ops Es kp))"
    (is "_ = ?R")
proof (rule set_eqI)
  fix \<alpha> :: "label \<Rightarrow> key_part"
  have fresh: "l \<notin> set op" if "op \<in> set (remaining_operands l ops)" for op
    using that remaining_operands_labels[of l ops] by blast
  have upd: "list_all2 (\<lambda>op E. map (\<beta>(l := x)) op \<in> keys_in E) (remaining_operands l ops) Fs \<longleftrightarrow>
      list_all2 (\<lambda>op E. map \<beta> op \<in> keys_in E) (remaining_operands l ops) Fs" for \<beta> x and Fs :: "'a entry set list"
    by (intro list.rel_cong refl) (use fresh map_update_fresh in metis)
  show "\<alpha> \<in> solutions ops Es \<longleftrightarrow> \<alpha> \<in> ?R"
  proof
    assume a: "\<alpha> \<in> solutions ops Es"
    let ?\<beta> = "\<alpha>(l := 0)"
    have k: "\<alpha> l \<in> label_keys l ops Es"
      "list_all2 (\<lambda>op E. map \<alpha> op \<in> keys_in E) (remaining_operands l ops) (sliced l ops Es (\<alpha> l))"
      using a along_label_list[OF fit, of \<alpha> l] by (auto simp: solutions_def)
    then have "?\<beta> \<in> solutions (remaining_operands l ops) (sliced l ops Es (\<alpha> l))"
      using a upd[of \<alpha> 0] remaining_operands_labels[of l ops] by (auto simp: solutions_def)
    moreover have "\<alpha> = ?\<beta>(l := \<alpha> l)" by simp
    ultimately show "\<alpha> \<in> ?R" using k(1) by blast
  next
    assume "\<alpha> \<in> ?R"
    then obtain kp \<beta> where b: "kp \<in> label_keys l ops Es" "\<beta> \<in> solutions (remaining_operands l ops) (sliced l ops Es kp)"
      "\<alpha> = \<beta>(l := kp)" by blast
    have "list_all2 (\<lambda>op E. map \<alpha> op \<in> keys_in E) (remaining_operands l ops) (sliced l ops Es (\<alpha> l))"
      using b(2,3) upd[of \<beta> kp] by (simp add: solutions_def)
    then have "list_all2 (\<lambda>op E. map \<alpha> op \<in> keys_in E) ops Es" using along_label_list[OF fit, of \<alpha> l] b(1,3) by simp
    moreover have "\<alpha> x = 0" if "x \<notin> labels_of ops" for x
      using that b(2,3) l remaining_operands_labels[of l ops] by (auto simp: solutions_def)
    ultimately show "\<alpha> \<in> solutions ops Es" by (simp add: solutions_def)
  qed
qed

lemma diag_entries_card:
  assumes "all_depth d E" "finite E"
  shows "finite (diag_entries d m kp E)" "card (diag_entries d m kp E) \<le> card E"
proof -
  let ?f = "\<lambda>(key, v). (free_parts (kp_set d m) key, v)"
  have sub: "diag_entries d m kp E \<subseteq> ?f ` E"
  proof
    fix x assume "x \<in> diag_entries d m kp E"
    then obtain key key' v where x: "x = (key', v)" "(key, v) \<in> E" "kp_slice (card (kp_set d m)) m key kp = Some key'"
      by (auto simp: diag_entries_def)
    have "length key = d" using assms(1) x(2) by (force simp: all_depth_def)
    then have "key' = free_parts (kp_set d m) key" using x(3) kp_slice_closed[of key m "card (kp_set d m)" kp] by (auto split: if_splits)
    then show "x \<in> ?f ` E" using x(1,2) by force
  qed
  show "finite (diag_entries d m kp E)" by (rule finite_subset[OF sub]) (use assms(2) in simp)
  have "card (diag_entries d m kp E) \<le> card (?f ` E)" by (rule card_mono[OF _ sub]) (use assms(2) in simp)
  also have "\<dots> \<le> card E" by (rule card_image_le[OF assms(2)])
  finally show "card (diag_entries d m kp E) \<le> card E" .
qed

lemma sliced_bound:
  assumes "entries_fit ops Es" "\<forall>E \<in> set Es. finite E \<and> E \<noteq> {}"
  shows "bound (sliced l ops Es kp) \<le> bound Es"
  using assms unfolding entries_fit_def
proof (induction ops Es rule: list_all2_induct)
  case Nil
  then show ?case by (simp add: sliced_def join_operands_def)
next
  case (Cons op ops E Es)
  have E: "all_depth (length op) E" "op \<noteq> []" "finite E" "E \<noteq> {}" using Cons by auto
  have one: "1 \<le> card E" using E(3,4) by (simp add: Suc_le_eq card_gt_0_iff)
  have ih: "bound (sliced l ops Es kp) \<le> bound Es" using Cons by simp
  have cons: "bound (F # Fs) = card F * bound Fs" for F and Fs :: "'a entry set list" by (simp add: bound_def)
  show ?case
    unfolding sliced_Cons[OF E(2)] using ih mult_le_mono[OF one ih] mult_le_mono[OF diag_entries_card(2)[OF E(1,3)] ih]
    by (simp add: cons)
qed

subsection \<open>Along the components\<close>

definition component_idx :: "label list \<Rightarrow> operand_sc list \<Rightarrow> nat list" where
  "component_idx c ops = filter (\<lambda>i. filter (\<lambda>l. l \<in> set c) (ops ! i) \<noteq> []) [0..<length ops]"

definition component_operands :: "label list \<Rightarrow> operand_sc list \<Rightarrow> operand_sc list" where
  "component_operands c ops = filter (\<lambda>op. op \<noteq> []) (map (filter (\<lambda>l. l \<in> set c)) ops)"

definition component_entries :: "label list \<Rightarrow> operand_sc list \<Rightarrow> 'v entry set list \<Rightarrow> 'v entry set list" where
  "component_entries c ops Es = map ((!) Es) (component_idx c ops)"

definition result_idx :: "label list \<Rightarrow> label list \<Rightarrow> nat list" where
  "result_idx c R = filter (\<lambda>i. R ! i \<in> set c) [0..<length R]"

definition restrict_to :: "label list \<Rightarrow> (label \<Rightarrow> key_part) \<Rightarrow> label \<Rightarrow> key_part" where
  "restrict_to c \<alpha> = (\<lambda>l. if l \<in> set c then \<alpha> l else 0)"

lemma filter_as_nth: "filter P xs = map ((!) xs) (filter (\<lambda>i. P (xs ! i)) [0..<length xs])"
proof -
  have "filter P (map ((!) xs) [0..<length xs]) = map ((!) xs) (filter (\<lambda>i. P (xs ! i)) [0..<length xs])"
    by (simp add: filter_map comp_def)
  then show ?thesis by (simp add: map_nth)
qed

lemma result_idx_nth: "filter (\<lambda>l. l \<in> set c) R = map ((!) R) (result_idx c R)"
  unfolding result_idx_def by (rule filter_as_nth)

lemma component_idx_set:
  assumes "components_of (label_rel ops) (labels_of ops) cs" "c \<in> set cs"
  shows "i \<in> set (component_idx c ops) \<longleftrightarrow> i < length ops \<and> ops ! i \<noteq> [] \<and> set (ops ! i) \<subseteq> set c"
proof
  assume "i \<in> set (component_idx c ops)"
  then obtain l where l: "i < length ops" "l \<in> set (ops ! i)" "l \<in> set c" by (auto simp: component_idx_def filter_empty_conv)
  then have "set (ops ! i) \<subseteq> set c" using component_operand[OF assms, of "ops ! i" l] by simp
  then show "i < length ops \<and> ops ! i \<noteq> [] \<and> set (ops ! i) \<subseteq> set c" using l by auto
next
  assume "i < length ops \<and> ops ! i \<noteq> [] \<and> set (ops ! i) \<subseteq> set c"
  then show "i \<in> set (component_idx c ops)" by (cases "ops ! i") (auto simp: component_idx_def)
qed

lemma component_operands_nth:
  assumes "components_of (label_rel ops) (labels_of ops) cs" "c \<in> set cs"
  shows "component_operands c ops = map ((!) ops) (component_idx c ops)"
proof -
  have "component_operands c ops = map (\<lambda>i. filter (\<lambda>l. l \<in> set c) (ops ! i)) (component_idx c ops)"
    unfolding component_operands_def component_idx_def
    using filter_as_nth[of "\<lambda>op. op \<noteq> []" "map (filter (\<lambda>l. l \<in> set c)) ops"]
    by (auto intro!: map_cong filter_cong)
  also have "\<dots> = map ((!) ops) (component_idx c ops)"
    using component_idx_set[OF assms] by (intro map_cong refl) (auto simp: filter_id_conv)
  finally show ?thesis .
qed

lemma component_operands_labels:
  assumes "set c \<subseteq> labels_of ops"
  shows "labels_of (component_operands c ops) = set c"
proof -
  have "labels_of (filter (\<lambda>op. op \<noteq> []) opss) = labels_of opss" for opss :: "operand_sc list" by auto
  moreover have "labels_of (map (filter (\<lambda>l. l \<in> set c)) opss) = labels_of opss \<inter> set c" for opss by auto
  ultimately show ?thesis unfolding component_operands_def using assms by (simp only: Int_absorb1)
qed

lemma list_all2_map_same: "list_all2 P (map f is) (map g is) \<longleftrightarrow> (\<forall>i \<in> set is. P (f i) (g i))"
  by (induction "is") auto

lemma map_restrict: "set op \<subseteq> set c \<Longrightarrow> map (restrict_to c \<alpha>) op = map \<alpha> op"
  by (auto simp: restrict_to_def)

lemma solutions_components:
  assumes comps: "components_of (label_rel ops) (labels_of ops) cs" and len: "length Es = length ops"
    and ne: "\<forall>op \<in> set ops. op \<noteq> []"
  shows "\<alpha> \<in> solutions ops Es \<longleftrightarrow> (\<forall>l. l \<notin> labels_of ops \<longrightarrow> \<alpha> l = 0) \<and>
    (\<forall>c \<in> set cs. restrict_to c \<alpha> \<in> solutions (component_operands c ops) (component_entries c ops Es))"
proof -
  have sub: "set c \<subseteq> labels_of ops" if "c \<in> set cs" for c using comps that by (auto simp: components_of_def)
  have part: "restrict_to c \<alpha> \<in> solutions (component_operands c ops) (component_entries c ops Es) \<longleftrightarrow>
      (\<forall>i < length ops. set (ops ! i) \<subseteq> set c \<longrightarrow> map \<alpha> (ops ! i) \<in> keys_in (Es ! i))" if c: "c \<in> set cs" for c
  proof -
    have "restrict_to c \<alpha> \<in> solutions (component_operands c ops) (component_entries c ops Es) \<longleftrightarrow>
        (\<forall>i \<in> set (component_idx c ops). map (restrict_to c \<alpha>) (ops ! i) \<in> keys_in (Es ! i))"
      using component_operands_labels[OF sub[OF c]]
      by (simp add: solutions_def component_operands_nth[OF comps c] component_entries_def list_all2_map_same restrict_to_def)
    also have "\<dots> \<longleftrightarrow> (\<forall>i < length ops. set (ops ! i) \<subseteq> set c \<longrightarrow> map \<alpha> (ops ! i) \<in> keys_in (Es ! i))"
      using component_idx_set[OF comps c] map_restrict[of _ c \<alpha>] ne by (metis nth_mem)
    finally show ?thesis .
  qed
  have ex: "\<exists>c \<in> set cs. set (ops ! i) \<subseteq> set c" if "i < length ops" for i
  proof -
    have "ops ! i \<noteq> []" using ne that by simp
    then obtain l where l: "l \<in> set (ops ! i)" by (cases "ops ! i") auto
    then have "l \<in> labels_of ops" using that by auto
    then have "l \<in> \<Union> (set ` set cs)" using comps by (simp add: components_of_def)
    then obtain c where "c \<in> set cs" "l \<in> set c" by blast
    then show ?thesis using component_operand[OF comps, of c "ops ! i" l] l that by auto
  qed
  have "list_all2 (\<lambda>op E. map \<alpha> op \<in> keys_in E) ops Es \<longleftrightarrow> (\<forall>i < length ops. map \<alpha> (ops ! i) \<in> keys_in (Es ! i))"
    using len by (simp add: list_all2_conv_all_nth)
  also have "\<dots> \<longleftrightarrow> (\<forall>c \<in> set cs. restrict_to c \<alpha> \<in> solutions (component_operands c ops) (component_entries c ops Es))"
    using part ex by blast
  finally show ?thesis by (simp add: solutions_def)
qed

text \<open>The number of solutions for a result key is the product over the components.\<close>

lemma count_components:
  assumes comps: "components_of (label_rel ops) (labels_of ops) cs" and len: "length Es = length ops"
    and ne: "\<forall>op \<in> set ops. op \<noteq> []" and k: "same_outside R (labels_of ops) k0 k"
  shows "card {\<alpha> \<in> solutions ops Es. hits R (labels_of ops) k0 k \<alpha>} =
    (\<Prod>c\<leftarrow>cs. card {\<beta> \<in> solutions (component_operands c ops) (component_entries c ops Es).
      map \<beta> (filter (\<lambda>l. l \<in> set c) R) = map ((!) k) (result_idx c R)})"
proof -
  let ?A = "labels_of ops" and ?n = "length cs"
  define S where "S c = {\<beta> \<in> solutions (component_operands c ops) (component_entries c ops Es).
      map \<beta> (filter (\<lambda>l. l \<in> set c) R) = map ((!) k) (result_idx c R)}" for c
  define H where "H = {\<alpha> \<in> solutions ops Es. hits R ?A k0 k \<alpha>}"
  have union: "\<Union> (set ` set cs) = ?A" using comps by (simp add: components_of_def)
  have hit: "hits R ?A k0 k \<alpha> \<longleftrightarrow> (\<forall>c \<in> set cs. map \<alpha> (filter (\<lambda>l. l \<in> set c) R) = map ((!) k) (result_idx c R))" for \<alpha>
  proof -
    have "hits R ?A k0 k \<alpha> \<longleftrightarrow> (\<forall>i < length R. R ! i \<in> ?A \<longrightarrow> k ! i = \<alpha> (R ! i))"
      using k by (auto simp: hits_def same_outside_def)
    also have "\<dots> \<longleftrightarrow> (\<forall>c \<in> set cs. \<forall>i \<in> set (result_idx c R). k ! i = \<alpha> (R ! i))"
      using union by (auto simp: result_idx_def)
    also have "\<dots> \<longleftrightarrow> (\<forall>c \<in> set cs. map \<alpha> (filter (\<lambda>l. l \<in> set c) R) = map ((!) k) (result_idx c R))"
      by (auto simp: result_idx_nth)
    finally show ?thesis .
  qed
  have res: "map (restrict_to c \<alpha>) (filter (\<lambda>l. l \<in> set c) R) = map \<alpha> (filter (\<lambda>l. l \<in> set c) R)" for c \<alpha>
    by (rule map_restrict) auto
  have H: "\<alpha> \<in> H \<longleftrightarrow> (\<forall>l. l \<notin> ?A \<longrightarrow> \<alpha> l = 0) \<and> (\<forall>c \<in> set cs. restrict_to c \<alpha> \<in> S c)" for \<alpha>
    unfolding H_def S_def mem_Collect_eq solutions_components[OF comps len ne] hit res by blast
  let ?F = "\<lambda>\<alpha>. \<lambda>j \<in> {..<?n}. restrict_to (cs ! j) \<alpha>"
  have "bij_betw ?F H (PiE {..<?n} (\<lambda>j. S (cs ! j)))"
  proof (rule bij_betw_imageI)
    have vals: "\<alpha> l = ?F \<alpha> j l" if "j < ?n" "l \<in> set (cs ! j)" for \<alpha> j l using that by (simp add: restrict_to_def)
    show "inj_on ?F H"
    proof (rule inj_onI, rule ext)
      fix \<alpha> \<beta> l assume ab: "\<alpha> \<in> H" "\<beta> \<in> H" "?F \<alpha> = ?F \<beta>"
      show "\<alpha> l = \<beta> l"
      proof (cases "l \<in> ?A")
        case True
        then have "\<exists>j < ?n. l \<in> set (cs ! j)" using union by (metis UN_E in_set_conv_nth)
        then obtain j where "j < ?n" "l \<in> set (cs ! j)" by blast
        then show ?thesis using vals[of j l \<alpha>] vals[of j l \<beta>] ab(3) by metis
      qed (use ab(1,2) H in simp)
    qed
    show "?F ` H = PiE {..<?n} (\<lambda>j. S (cs ! j))"
    proof
      show "?F ` H \<subseteq> PiE {..<?n} (\<lambda>j. S (cs ! j))" using H by auto
      show "PiE {..<?n} (\<lambda>j. S (cs ! j)) \<subseteq> ?F ` H"
      proof
        fix f assume f: "f \<in> PiE {..<?n} (\<lambda>j. S (cs ! j))"
        have "\<forall>l \<in> ?A. \<exists>j < ?n. l \<in> set (cs ! j)" using union by (metis UN_E in_set_conv_nth)
        then obtain J where J: "\<forall>l \<in> ?A. J l < ?n \<and> l \<in> set (cs ! J l)" by metis
        define \<alpha> where "\<alpha> l = (if l \<in> ?A then f (J l) l else 0)" for l
        have fj: "restrict_to (cs ! j) \<alpha> = f j" if j: "j < ?n" for j
        proof
          fix l
          have fS: "f j \<in> S (cs ! j)" using f j by auto
          have csj: "cs ! j \<in> set cs" using j by simp
          then have sub: "set (cs ! j) \<subseteq> ?A" using union by blast
          show "restrict_to (cs ! j) \<alpha> l = f j l"
          proof (cases "l \<in> set (cs ! j)")
            case True
            then have "l \<in> ?A" using sub by blast
            then have "J l = j" using components_disjoint[OF comps _ j, of "J l"] J True by blast
            then show ?thesis using True \<open>l \<in> ?A\<close> by (simp add: restrict_to_def \<alpha>_def)
          next
            case False
            then show ?thesis using fS component_operands_labels[OF sub] by (simp add: restrict_to_def S_def solutions_def)
          qed
        qed
        have "\<alpha> \<in> H" unfolding H
        proof (intro conjI ballI allI impI)
          fix c assume "c \<in> set cs"
          then obtain j where "j < ?n" "c = cs ! j" by (auto simp: in_set_conv_nth)
          then show "restrict_to c \<alpha> \<in> S c" using fj f by auto
        qed (simp add: \<alpha>_def)
        moreover have "?F \<alpha> = f" using f fj by (auto simp: PiE_def extensional_def restrict_def)
        ultimately show "f \<in> ?F ` H" by blast
      qed
    qed
  qed
  then have "card H = card (PiE {..<?n} (\<lambda>j. S (cs ! j)))" by (rule bij_betw_same_card)
  also have "\<dots> = (\<Prod>j<?n. card (S (cs ! j)))" by (simp add: card_PiE)
  also have "\<dots> = (\<Prod>c\<leftarrow>cs. card (S c))" by (simp add: prod.list_conv_set_nth atLeast0LessThan)
  finally show ?thesis by (simp add: H_def S_def)
qed

lemma card_solutions_components:
  assumes comps: "components_of (label_rel ops) (labels_of ops) cs" and len: "length Es = length ops"
    and ne: "\<forall>op \<in> set ops. op \<noteq> []"
  shows "card (solutions ops Es) = (\<Prod>c\<leftarrow>cs. card (solutions (component_operands c ops) (component_entries c ops Es)))"
  using count_components[OF comps len ne, of "[]" "[]" "[]"] by (simp add: same_outside_def hits_def result_idx_def)

lemma component_bound:
  assumes "length Es = length ops" "\<forall>E \<in> set Es. finite E \<and> E \<noteq> {}"
  shows "bound (component_entries c ops Es) \<le> bound Es"
proof -
  let ?I = "component_idx c ops"
  have I: "set ?I \<subseteq> {..<length Es}" "distinct ?I" using assms(1) by (auto simp: component_idx_def)
  have "bound (component_entries c ops Es) = (\<Prod>i\<leftarrow>?I. card (Es ! i))" by (simp add: bound_def component_entries_def comp_def)
  also have "\<dots> = (\<Prod>i \<in> set ?I. card (Es ! i))" using I(2) by (simp add: prod.distinct_set_conv_list)
  also have "\<dots> \<le> (\<Prod>i<length Es. card (Es ! i))"
  proof -
    let ?B = "{..<length Es} - set ?I"
    have "(\<Prod>i<length Es. card (Es ! i)) = (\<Prod>i\<in>?B. card (Es ! i)) * (\<Prod>i \<in> set ?I. card (Es ! i))"
      by (rule prod.subset_diff[OF I(1)]) simp
    moreover have "0 < (\<Prod>i\<in>?B. card (Es ! i))" using assms(2) by (intro prod_pos) (auto simp: card_gt_0_iff)
    ultimately show ?thesis by (metis One_nat_def Suc_leI mult_le_mono1 nat_mult_1)
  qed
  also have "\<dots> = bound Es" by (simp add: bound_def prod.list_conv_set_nth atLeast0LessThan)
  finally show ?thesis .
qed

end
