(* ===== verification/Einsum_Values.thy ===== *)
theory Einsum_Values
  imports Einsum_Semantics
begin

text \<open>
  The value types of an Einstein summation: \<open>size_t\<close>, which counts solutions as long as they fit into 64
  bits, and \<open>bool\<close>, which tells whether there is a solution. The locale \<open>value_type\<close> states what the operators
  rely on; \<open>counts v n\<close> says that the value \<open>v\<close> stands for \<open>n\<close> solutions. The theory also states what
  the runs of the operators promise in these terms.
\<close>

subsection \<open>The interface of the values\<close>

locale value_type =
  fixes W :: "'w value_ops" and counts :: "'w \<Rightarrow> nat \<Rightarrow> bool" and small :: "nat \<Rightarrow> bool"
  assumes true_iff: "counts v n \<Longrightarrow> vo_true W v \<longleftrightarrow> 0 < n"
    and zero: "counts (vo_zero W) 0"
    and one: "counts (vo_one W) 1"
    and add: "counts v m \<Longrightarrow> counts w n \<Longrightarrow> small (m + n) \<Longrightarrow> counts (vo_add W v w) (m + n)"
    and mult: "counts v m \<Longrightarrow> counts w n \<Longrightarrow> small (m * n) \<Longrightarrow> counts (vo_mult W v w) (m * n)"
    and div_exact: "counts v (m * n) \<Longrightarrow> counts w n \<Longrightarrow> 0 < n \<Longrightarrow> counts (vo_div W v w) m"
    and of_size: "small n \<Longrightarrow> counts (vo_of_size W n) n"
    and bool_true: "vo_bool W \<Longrightarrow> vo_true W v \<Longrightarrow> 0 < n \<Longrightarrow> counts v n"
    and small_le: "small n \<Longrightarrow> m \<le> n \<Longrightarrow> small m"
begin

lemma bool_any: "vo_bool W \<Longrightarrow> counts v m \<Longrightarrow> 0 < m \<Longrightarrow> 0 < n \<Longrightarrow> counts v n"
  by (rule bool_true) (simp_all add: true_iff)

end

definition size_t_ops :: "64 word value_ops" where
  "size_t_ops = \<lparr>vo_bool = False, vo_zero = 0, vo_one = 1, vo_true = (\<lambda>v. v \<noteq> 0), vo_add = (+), vo_mult = (*),
     vo_div = (div), vo_of_size = of_nat\<rparr>"

definition bool_ops :: "bool value_ops" where
  "bool_ops = \<lparr>vo_bool = True, vo_zero = False, vo_one = True, vo_true = (\<lambda>v. v), vo_add = (\<or>), vo_mult = (\<and>),
     vo_div = (\<lambda>v w. v), vo_of_size = (\<lambda>n. 0 < n)\<rparr>"

definition size_t_counts :: "64 word \<Rightarrow> nat \<Rightarrow> bool" where
  "size_t_counts v n \<longleftrightarrow> unat v = n"

definition bool_counts :: "bool \<Rightarrow> nat \<Rightarrow> bool" where
  "bool_counts v n \<longleftrightarrow> (v \<longleftrightarrow> 0 < n)"

definition fits_size_t :: "nat \<Rightarrow> bool" where
  "fits_size_t n \<longleftrightarrow> n < 2 ^ 64"

definition any_size :: "nat \<Rightarrow> bool" where
  "any_size n \<longleftrightarrow> True"

interpretation size_t: value_type size_t_ops size_t_counts fits_size_t
proof
  fix v w :: "64 word" and m n :: nat
  show "size_t_counts v n \<Longrightarrow> vo_true size_t_ops v \<longleftrightarrow> 0 < n"
    by (auto simp: size_t_counts_def size_t_ops_def unat_gt_0)
  show "size_t_counts v m \<Longrightarrow> size_t_counts w n \<Longrightarrow> fits_size_t (m + n) \<Longrightarrow> size_t_counts (vo_add size_t_ops v w) (m + n)"
    by (auto simp: size_t_counts_def size_t_ops_def fits_size_t_def unat_word_ariths)
  show "size_t_counts v m \<Longrightarrow> size_t_counts w n \<Longrightarrow> fits_size_t (m * n) \<Longrightarrow> size_t_counts (vo_mult size_t_ops v w) (m * n)"
    by (auto simp: size_t_counts_def size_t_ops_def fits_size_t_def unat_word_ariths)
  show "size_t_counts v (m * n) \<Longrightarrow> size_t_counts w n \<Longrightarrow> 0 < n \<Longrightarrow> size_t_counts (vo_div size_t_ops v w) m"
    by (auto simp: size_t_counts_def size_t_ops_def unat_div_distrib)
  show "fits_size_t n \<Longrightarrow> size_t_counts (vo_of_size size_t_ops n) n"
    by (simp add: size_t_counts_def size_t_ops_def fits_size_t_def unat_of_nat take_bit_eq_mod)
qed (auto simp: size_t_counts_def size_t_ops_def fits_size_t_def)

interpretation boolean: value_type bool_ops bool_counts any_size
  by unfold_locales (auto simp: bool_counts_def bool_ops_def any_size_def)

text \<open>The product is formed before the division that makes it small again, so it can wrap although the result fits.\<close>

lemma product_wraps: "vo_div size_t_ops (vo_mult size_t_ops (2 ^ 63) 3) 4 = 2 ^ 61" "(2 ^ 63 div 4) * 3 < (2 ^ 64 :: nat)"
  by (simp_all add: size_t_ops_def)

subsection \<open>Weighted entries\<close>

text \<open>How many solutions the entries with a key stand for.\<close>

definition weight :: "('w user_entry \<times> nat) list \<Rightarrow> key_part list \<Rightarrow> nat" where
  "weight zs k = (\<Sum>(y, n)\<leftarrow>zs. if ue_key y = k then n else 0)"

lemma weight_simps [simp]:
  "weight [] k = 0" "weight ((y, n) # zs) k = (if ue_key y = k then n else 0) + weight zs k"
  "weight (zs @ zs') k = weight zs k + weight zs' k"
  by (simp_all add: weight_def)

text \<open>The yielded entries stand for \<open>f k\<close> solutions of each key \<open>k\<close>.\<close>

definition yields_count :: "('w \<Rightarrow> nat \<Rightarrow> bool) \<Rightarrow> (key_part list \<Rightarrow> nat) \<Rightarrow> 'w user_entry list \<Rightarrow> bool" where
  "yields_count counts f ys \<longleftrightarrow>
     (\<exists>ns. list_all2 (\<lambda>y n. counts (ue_value y) n \<and> 0 < n) ys ns \<and> (\<forall>k. weight (zip ys ns) k = f k))"

lemma yields_count_Nil: "yields_count counts (\<lambda>k. 0) []"
  by (simp add: yields_count_def)

lemma yields_count_append:
  assumes "yields_count counts f ys" "yields_count counts g zs"
  shows "yields_count counts (\<lambda>k. f k + g k) (ys @ zs)"
proof -
  obtain ns ms where n: "list_all2 (\<lambda>y n. counts (ue_value y) n \<and> 0 < n) ys ns" "\<forall>k. weight (zip ys ns) k = f k"
    and m: "list_all2 (\<lambda>y n. counts (ue_value y) n \<and> 0 < n) zs ms" "\<forall>k. weight (zip zs ms) k = g k"
    using assms unfolding yields_count_def by blast
  have "weight (zip (ys @ zs) (ns @ ms)) k = f k + g k" for k
    using n m list_all2_lengthD[OF n(1)] by simp
  then show ?thesis unfolding yields_count_def using n(1) m(1) by (intro exI[of _ "ns @ ms"]) (simp add: list_all2_appendI)
qed

lemma yields_count_one: "counts (ue_value y) n \<Longrightarrow> 0 < n \<Longrightarrow> yields_count counts (\<lambda>k. if ue_key y = k then n else 0) [y]"
  unfolding yields_count_def by (intro exI[of _ "[n]"]) simp

lemma yields_count_cong: "yields_count counts f ys \<Longrightarrow> (\<And>k. f k = g k) \<Longrightarrow> yields_count counts g ys"
  by (simp add: yields_count_def)

subsection \<open>What the operators promise\<close>

text \<open>A run that yields the solutions, and one that returns their number. \<open>keep\<close> says that the value of the
  shared entry is true at the end.\<close>

definition run_ok ::
  "'w value_ops \<Rightarrow> ('w \<Rightarrow> nat \<Rightarrow> bool) \<Rightarrow> bool \<Rightarrow> label list \<Rightarrow> operand_sc list \<Rightarrow> 'v entry set list \<Rightarrow> 'w user_entry \<Rightarrow> 'w run option \<Rightarrow> bool" where
  "run_ok W counts keep R ops Es e r \<longleftrightarrow> (\<exists>ys e'. r = Some (ys, e') \<and>
     yields_count counts (\<lambda>k. card {\<alpha> \<in> solutions ops Es. hits R (labels_of ops) (ue_key e) k \<alpha>}) ys \<and>
     same_outside R (labels_of ops) (ue_key e) (ue_key e') \<and> (keep \<longrightarrow> vo_true W (ue_value e')))"

definition single_ok ::
  "('w \<Rightarrow> nat \<Rightarrow> bool) \<Rightarrow> label list \<Rightarrow> operand_sc list \<Rightarrow> 'v entry set list \<Rightarrow> 'w user_entry \<Rightarrow> 'w run option \<Rightarrow> bool" where
  "single_ok counts R ops Es e r \<longleftrightarrow> (\<exists>ys e'. r = Some (ys, e') \<and> counts (ue_value e') (card (solutions ops Es)) \<and>
     same_outside R (labels_of ops) (ue_key e) (ue_key e'))"

text \<open>The operands of a summation: non-empty hypertries, one for each operand of the subscript.\<close>

definition inputs_ok ::
  "'v::zero_neq_one htt \<Rightarrow> 'v entry set set \<Rightarrow> 'v node_storage \<Rightarrow> operand_sc list \<Rightarrow> 'v entry set list \<Rightarrow> 'v hypertrie list \<Rightarrow> bool" where
  "inputs_ok T U \<sigma> ops Es hs \<longleftrightarrow> length Es = length ops \<and> length hs = length ops \<and>
     (\<forall>i < length ops. handle_denotes T U \<sigma> (length (ops ! i)) (Es ! i) (hs ! i) \<and> Es ! i \<noteq> {} \<and>
        below_ok T U \<sigma> (Suc (length (ops ! i))) \<and> length (ops ! i) \<le> hypertrie_max_depth)"

definition subscript_wf :: "raw_subscript \<Rightarrow> bool" where
  "subscript_wf rs \<longleftrightarrow> distinct (rs_result rs) \<and> length (rs_result rs) \<le> 256 \<and> length (rs_operands rs) \<le> 256 \<and> [] \<notin> set (rs_operands rs)"

text \<open>Boolean summations either keep all labels in the result or only ask whether there is a solution. For
  others the code relies on the value of the shared entry, which an earlier call may have made false.\<close>

definition summation_ok :: "'w value_ops \<Rightarrow> raw_subscript \<Rightarrow> bool" where
  "summation_ok W rs \<longleftrightarrow> subscript_wf rs \<and>
     (vo_bool W \<longrightarrow> labels_of (rs_operands rs) \<subseteq> set (rs_result rs) \<or> labels_of (rs_operands rs) \<inter> set (rs_result rs) = {})"

text \<open>A sub operator that is correct for a subscript, and for all subscripts with fewer than \<open>N\<close> labels.\<close>

definition operator_ok ::
  "('w \<Rightarrow> nat \<Rightarrow> bool) \<Rightarrow> (nat \<Rightarrow> bool) \<Rightarrow> 'v entry set set \<Rightarrow> ('v::zero_neq_one, 'w, 'd) einsum_env \<Rightarrow> ('v, 'w) sub_operator \<Rightarrow>
    raw_subscript \<Rightarrow> subscript \<Rightarrow> bool" where
  "operator_ok counts small U V sub rs s \<longleftrightarrow>
     (\<forall>Es hs e. inputs_ok (ee_htt V) U (ee_storage V) (rs_operands rs) Es hs \<longrightarrow> small (bound Es * bound Es) \<longrightarrow>
       length (ue_key e) = length (rs_result rs) \<longrightarrow>
       (if su_all_result_done (sc_data s) then single_ok counts (rs_result rs) (rs_operands rs) Es e (sub True s hs e)
        else (vo_bool (ee_value V) \<longrightarrow> vo_true (ee_value V) (ue_value e)) \<longrightarrow>
          run_ok (ee_value V) counts (vo_bool (ee_value V)) (rs_result rs) (rs_operands rs) Es e (sub False s hs e)))"

definition operators_ok ::
  "('w \<Rightarrow> nat \<Rightarrow> bool) \<Rightarrow> (nat \<Rightarrow> bool) \<Rightarrow> 'v entry set set \<Rightarrow> ('v::zero_neq_one, 'w, 'd) einsum_env \<Rightarrow> ('v, 'w) sub_operator \<Rightarrow> nat \<Rightarrow> bool" where
  "operators_ok counts small U V sub N \<longleftrightarrow> (\<forall>rs s. card (labels_of (rs_operands rs)) < N \<longrightarrow> summation_ok (ee_value V) rs \<longrightarrow>
     new_subscript (ee_lib V) rs Type_None = Some s \<longrightarrow> operator_ok counts small U V sub rs s)"

lemma inputs_okD:
  assumes "inputs_ok T U \<sigma> ops Es hs" "i < length ops"
  shows "handle_denotes T U \<sigma> (length (ops ! i)) (Es ! i) (hs ! i)" "Es ! i \<noteq> {}"
    "below_ok T U \<sigma> (Suc (length (ops ! i)))" "length (ops ! i) \<le> hypertrie_max_depth" "ops ! i \<noteq> []"
  using assms handle_denotesD(2)[of T U \<sigma> "length (ops ! i)" "Es ! i" "hs ! i"] by (auto simp: inputs_ok_def)

lemma inputs_ok_lengths:
  assumes "inputs_ok T U \<sigma> ops Es hs"
  shows "length Es = length ops" "length hs = length ops"
  using assms by (simp_all add: inputs_ok_def)

lemma inputs_ok_sets:
  assumes "inputs_ok T U \<sigma> ops Es hs"
  shows "\<forall>E \<in> set Es. finite E \<and> E \<noteq> {}" "\<forall>op \<in> set ops. op \<noteq> []" "entries_fit ops Es"
proof -
  note len = inputs_ok_lengths[OF assms]
  have fin: "finite (Es ! i) \<and> all_depth (length (ops ! i)) (Es ! i)" if "i < length ops" for i
    using handle_denotesD(3)[OF inputs_okD(1)[OF assms that]] by (simp add: entries_ok_def)
  show "\<forall>E \<in> set Es. finite E \<and> E \<noteq> {}" using fin inputs_okD(2)[OF assms] len by (auto simp: in_set_conv_nth)
  show "\<forall>op \<in> set ops. op \<noteq> []" using inputs_okD(5)[OF assms] by (auto simp: in_set_conv_nth)
  show "entries_fit ops Es" using fin inputs_okD(4,5)[OF assms] len by (simp add: entries_fit_def list_all2_conv_all_nth)
qed

lemma inputs_bound:
  assumes "inputs_ok T U \<sigma> ops Es hs"
  shows "finite (solutions ops Es)" "card (solutions ops Es) \<le> bound Es" "0 < bound Es" "bound Es \<le> bound Es * bound Es"
proof -
  note fin = inputs_ok_sets(1)[OF assms]
  show "finite (solutions ops Es)" "card (solutions ops Es) \<le> bound Es" using solutions_bound[of Es ops] fin by auto
  have "\<forall>E \<in> set Es. 0 < card E" using fin by (simp add: card_gt_0_iff)
  then show b: "0 < bound Es" unfolding bound_def by (induction Es) auto
  then show "bound Es \<le> bound Es * bound Es" by simp
qed

text \<open>For a subscript whose result has none of the labels left, the key does not change.\<close>

lemma hits_done:
  assumes "A \<inter> set R = {}" "length k0 = length R"
  shows "hits R A k0 k \<alpha> \<longleftrightarrow> k = k0"
proof
  assume h: "hits R A k0 k \<alpha>"
  show "k = k0"
  proof (rule nth_equalityI)
    fix i assume "i < length k"
    then show "k ! i = k0 ! i" using h assms(1) by (auto simp: hits_def)
  qed (use h assms(2) in \<open>simp add: hits_def\<close>)
next
  assume "k = k0"
  then show "hits R A k0 k \<alpha>" using assms by (auto simp: hits_def)
qed

lemma same_outside_done:
  assumes "A \<inter> set R = {}" "length k0 = length R" "same_outside R A k0 k"
  shows "k = k0"
  using assms by (intro nth_equalityI) (auto simp: same_outside_def)

end
