(* ===== verification/Einsum_Estimates.thy ===== *)
theory Einsum_Estimates
  imports Einsum_Values
begin

text \<open>
  The cardinality estimation returns for the operands of a summation, whatever the double arithmetic does, and
  chooses one of the labels of the operands. The join for a label yields the key parts of the label, each with
  operands for the remaining subscript.
\<close>

lemma data_of_built:
  assumes "set_order (sl_order L)" "new_subscript L rs Type_None = Some s"
  shows "data_ok L rs (sc_data s)"
  using new_subscript_built[OF assms] by (simp add: built_from_def)

lemma label_poss_of:
  assumes "inputs_ok T U \<sigma> ops Es hs" "i < length ops"
  shows "map unat (label_poss_loop l (ops ! i) 0) = poss_of l (ops ! i)"
  using inputs_okD(4)[OF assms] by (intro label_poss_unat) (simp add: hypertrie_max_depth_def)

lemma cards_of_operand:
  assumes ok: "inputs_ok T U \<sigma> ops Es hs" and i: "i < length ops" "l \<in> set (ops ! i)"
  shows "\<exists>cs. ht_get_cards T \<sigma> (hs ! i) (map unat (label_poss_loop l (ops ! i) 0)) = Some cs \<and> cs \<noteq> []"
proof -
  let ?ps = "poss_of l (ops ! i)"
  have "length ?ps \<le> length (ops ! i)" using length_poss_of[where l = l and op = "ops ! i"] by linarith
  then have "ht_get_cards T \<sigma> (hs ! i) ?ps = Some (map (dim_card (Es ! i)) ?ps)"
    by (intro ht_get_cards_spec[OF inputs_okD(3,1)[OF ok i(1)]]) auto
  moreover have "?ps \<noteq> []" using i(2) poss_of_empty[where l = l and op = "ops ! i"] by blast
  ultimately show ?thesis using label_poss_of[OF ok i(1)] by simp
qed

lemma calcCard_total:
  assumes ok: "inputs_ok (ee_htt V) U (ee_storage V) (rs_operands rs) Es hs" and d: "data_ok L rs (sc_data s)"
    and wf: "subscript_wf rs" and l: "l \<in> labels_of (rs_operands rs)"
  shows "\<exists>c. calcCard V hs l s = Some c"
proof -
  let ?ops = "rs_operands rs"
  obtain ps where ps: "getPossOfOperandsWithLabel s l = Some ps" "set ps \<subseteq> operand_pos_set ?ops l"
    using operand_poss_found[where ops = ?ops and l = l] l d by (auto simp: getPossOfOperandsWithLabel_def data_ok_def)
  have poss: "sc_labelPossInOperands s l [] = Some (rs_labelPossInOperands rs l, al_emplace l (rs_labelPossInOperands rs l) [])"
    using d l by (simp add: sc_labelPossInOperands_def data_ok_def Let_def)
  let ?f = "\<lambda>(min_dim_card, sizes, cards) op_pos. do {
         operand \<leftarrow> at_index hs (unat op_pos);
         poss \<leftarrow> at_index (rs_labelPossInOperands rs l) (unat op_pos);
         op_dim_cards \<leftarrow> ht_get_cards (ee_htt V) (ee_storage V) operand (map unat poss);
         check (op_dim_cards \<noteq> []);
         let min_op = min_from (tl op_dim_cards) (hd op_dim_cards);
         let max_op = max_from (tl op_dim_cards) (hd op_dim_cards);
         Some (if min_op < min_dim_card then min_op else min_dim_card, fold List.insert op_dim_cards sizes,
           cards @ [do_of_nat (ee_double V) max_op])
       }"
  have "\<exists>r. foldM ?f ps (size_max, [], []) = Some r \<and> True"
  proof (rule foldM_rule[where P = "\<lambda>_ _. True"])
    fix as p bs r assume "ps = as @ p # bs"
    then have "p \<in> operand_pos_set ?ops l" using ps(2) by auto
    then obtain i where i: "p = of_nat i" "i < length ?ops" "l \<in> set (?ops ! i)" by (auto simp: operand_pos_set_def)
    have p: "unat p = i" using i(1,2) wf by (simp add: subscript_wf_def unat_pos)
    obtain cs where cs: "ht_get_cards (ee_htt V) (ee_storage V) (hs ! i) (map unat (label_poss_loop l (?ops ! i) 0)) = Some cs" "cs \<noteq> []"
      using cards_of_operand[OF ok i(2,3)] by blast
    have "at_index hs (unat p) = Some (hs ! i)" "at_index (rs_labelPossInOperands rs l) (unat p) = Some (label_poss_loop l (?ops ! i) 0)"
      using p i(2) inputs_ok_lengths[OF ok] by (simp_all add: at_index_def rs_labelPossInOperands_def)
    then show "\<exists>r'. ?f r p = Some r' \<and> True" using cs by (cases r) (simp add: Let_def)
  qed simp
  then obtain m ss cs where "foldM ?f ps (size_max, [], []) = Some (m, ss, cs)" by (metis prod_cases3)
  then show ?thesis using ps(1) poss by (simp add: calcCard_def)
qed

lemma getMinCardLabel_total:
  fixes V :: "('v::zero_neq_one, 'w, 'd) einsum_env"
  assumes L: "set_order (sl_order (ee_lib V))" and ok: "inputs_ok (ee_htt V) U (ee_storage V) (rs_operands rs) Es hs"
    and d: "data_ok (ee_lib V) rs (sc_data s)" and wf: "subscript_wf rs" and ne: "labels_of (rs_operands rs) \<noteq> {}"
  shows "\<exists>l \<in> labels_of (rs_operands rs). getMinCardLabel V hs s = Some l"
proof -
  let ?ls = "sl_order (ee_lib V) (su_operands_labels (sc_data s))"
  have ls: "set ?ls = labels_of (rs_operands rs)" using d L by (simp add: data_ok_def)
  then have nonempty: "?ls \<noteq> []" using ne by force
  have hd: "hd ?ls \<in> labels_of (rs_operands rs)" using ls hd_in_set[OF nonempty] by simp
  show ?thesis
  proof (cases "length ?ls = 1")
    case True
    then show ?thesis using hd nonempty by (auto simp: getMinCardLabel_def Let_def)
  next
    case False
    let ?f = "\<lambda>(min_label, min_card) l. if l \<in> set (su_lonely (sc_data s)) then Some (min_label, min_card)
         else map_option (\<lambda>c. if do_less (ee_double V) c min_card then (l, c) else (min_label, min_card)) (calcCard V hs l s)"
    have "\<exists>r. foldM ?f ?ls (hd ?ls, do_infinity (ee_double V)) = Some r \<and> fst r \<in> labels_of (rs_operands rs)"
    proof (rule foldM_rule[where P = "\<lambda>_ r. fst r \<in> labels_of (rs_operands rs)"])
      fix as l bs and r :: "label \<times> 'd"
      assume "?ls = as @ l # bs" and r: "fst r \<in> labels_of (rs_operands rs)"
      then have l: "l \<in> labels_of (rs_operands rs)" using ls by (metis in_set_conv_decomp)
      from calcCard_total[OF ok d wf l] obtain c where c: "calcCard V hs l s = Some c" by blast
      show "\<exists>r'. ?f r l = Some r' \<and> fst r' \<in> labels_of (rs_operands rs)"
        using c r l by (cases r) (simp split: if_splits)
    qed (use hd in simp)
    then show ?thesis using False nonempty by (auto simp: getMinCardLabel_def Let_def)
  qed
qed

lemma estimate_total:
  assumes L: "set_order (sl_order (ee_lib V))" and ok: "inputs_ok (ee_htt V) U (ee_storage V) (rs_operands rs) Es hs"
    and d: "data_ok (ee_lib V) rs (sc_data s)" and wf: "subscript_wf rs"
  shows "\<exists>c. estimate V hs s = Some c"
proof -
  have "\<exists>n. ht_size (ee_htt V) (ee_storage V) h = Some n" if "h \<in> set hs" for h
    using that inputs_okD(1,3)[OF ok] ht_size_spec inputs_ok_lengths[OF ok] by (fastforce simp: in_set_conv_nth)
  then obtain ns where ns: "option_list (map (ht_size (ee_htt V) (ee_storage V)) hs) = Some ns"
    using option_list_defined[of "map (ht_size (ee_htt V) (ee_storage V)) hs"] by auto
  have "\<exists>c. calcCard V hs l s = Some c" if "l \<in> set (sl_order (ee_lib V) (su_operands_labels (sc_data s)))" for l
    using that d L by (intro calcCard_total[OF ok d wf]) (simp add: data_ok_def)
  then obtain fs where "label_factors V hs s = Some fs"
    using option_list_defined[of "map (\<lambda>l. calcCard V hs l s)
      (filter (\<lambda>l. l \<notin> set (su_lonely (sc_data s))) (sl_order (ee_lib V) (su_operands_labels (sc_data s))))"]
    by (auto simp: label_factors_def)
  then show ?thesis using ns by (simp add: estimate_def Let_def split: prod.split)
qed

subsection \<open>The join for a label\<close>

lemma sliced_nonempty:
  assumes "entries_fit ops Es" "\<forall>E \<in> set Es. E \<noteq> {}" "kp \<in> label_keys l ops Es"
  shows "\<forall>E \<in> set (sliced l ops Es kp). E \<noteq> {}"
  using assms unfolding entries_fit_def
proof (induction ops Es rule: list_all2_induct)
  case Nil
  then show ?case by (simp add: sliced_def join_operands_def)
next
  case (Cons op ops E Es)
  have E: "all_depth (length op) E" "op \<noteq> []" "length op \<le> hypertrie_max_depth" "E \<noteq> {}" using Cons by auto
  have keys: "kp \<in> label_keys l ops Es" "l \<in> set op \<longrightarrow> (\<exists>e \<in> E. \<forall>p \<in> {p. p < length op \<and> op ! p = l}. fst e ! p = kp)"
    using Cons.prems(2) by (auto simp: label_keys_Cons)
  have "diag_entries (length op) (mask_of l op) kp E \<noteq> {}" if "l \<in> set op"
    using on_diagonal_entries[OF E(1), of "mask_of l op" kp] keys(2) that mask_of_set[OF E(3), of l] by (simp add: on_diagonal_def)
  then show ?case using Cons.IH keys(1) Cons.prems(1) E(4) by (auto simp: sliced_Cons[OF E(2)])
qed

lemma sliced_lengths:
  assumes "entries_fit ops Es"
  shows "map fst (join_outputs kp (join_operands l ops Es)) = map length (remaining_operands l ops)"
  using assms unfolding entries_fit_def
proof (induction ops Es rule: list_all2_induct)
  case Nil
  then show ?case by (simp add: join_operands_def remaining_operands_def)
next
  case (Cons op ops E Es)
  have "op \<noteq> []" using Cons.hyps(1) by simp
  have len: "length (poss_of l op) + length (without l op) = length op" by (rule length_poss_of)
  then have part: "length (poss_of l op) < length op \<longleftrightarrow> without l op \<noteq> []" by (metis length_greater_0_conv less_add_same_cancel1)
  have keep: "without l op = op" if "l \<notin> set op" using that by (auto simp: filter_id_conv)
  show ?case
  proof (cases "l \<in> set op")
    case False
    then show ?thesis using Cons.IH keep \<open>op \<noteq> []\<close> poss_of_empty[where l = l and op = op]
      by (simp add: join_operands_def remaining_operands_Cons)
  next
    case True
    then have "poss_of l op \<noteq> []" using poss_of_empty[where l = l and op = op] by blast
    moreover have "length op - length (poss_of l op) = length (without l op)" using len by simp
    ultimately show ?thesis using Cons.IH part by (simp add: join_operands_def remaining_operands_Cons)
  qed
qed

lemma join_items_spec:
  assumes ok: "inputs_ok (ee_htt V) U (ee_storage V) (rs_operands rs) Es hs" and l: "l \<in> labels_of (rs_operands rs)"
    and few: "length (rs_operands rs) \<le> 256"
  shows "\<exists>items. join_items V hs (rs_labelPossInOperands rs l) = Some items \<and> distinct (map fst items) \<and>
    fst ` set items = label_keys l (rs_operands rs) Es \<and>
    (\<forall>(kp, hs') \<in> set items. inputs_ok (ee_htt V) U (ee_storage V) (remaining_operands l (rs_operands rs)) (sliced l (rs_operands rs) Es kp) hs')"
proof -
  let ?T = "ee_htt V" and ?\<sigma> = "ee_storage V" and ?ops = "rs_operands rs"
  let ?xs = "join_operands l ?ops Es" and ?ys = "zip hs (map (map unat) (rs_labelPossInOperands rs l))"
  note len = inputs_ok_lengths[OF ok] and sets = inputs_ok_sets[OF ok]
  have xs: "length ?xs = length ?ops" "\<And>i. i < length ?ops \<Longrightarrow> ?xs ! i = ((length (?ops ! i), Es ! i), poss_of l (?ops ! i))"
    using len by (simp_all add: join_operands_def)
  have ys: "length ?ys = length ?ops" "\<And>i. i < length ?ops \<Longrightarrow> ?ys ! i = (hs ! i, poss_of l (?ops ! i))"
    using len label_poss_of[OF ok] by (simp_all add: rs_labelPossInOperands_def)
  have all: "list_all2 (operand_ok ?T U ?\<sigma>) ?xs ?ys"
    unfolding list_all2_conv_all_nth
  proof (intro conjI allI impI)
    fix i assume "i < length ?xs"
    then have i: "i < length ?ops" using xs(1) by simp
    show "operand_ok ?T U ?\<sigma> (?xs ! i) (?ys ! i)"
      using inputs_okD[OF ok i] by (auto simp: xs(2)[OF i] ys(2)[OF i] operand_ok_def)
  qed (simp only: xs(1) ys(1))
  obtain i where i: "i < length ?ops" "l \<in> set (?ops ! i)" using l by (metis UN_E in_set_conv_nth)
  then have "poss_of l (?ops ! i) \<noteq> []" using poss_of_empty[where l = l and op = "?ops ! i"] by blast
  then have some: "\<exists>x \<in> set ?xs. snd x \<noteq> []" using xs i(1) by (metis nth_mem snd_conv)
  have "length ?xs \<le> 256" using few xs(1) by simp
  from hash_join_spec[OF all some this] obtain it fuel zs where z: "join_begin ?T ?\<sigma> ?ys = Some it"
      "run_cursor ji_ended join_deref (join_inc ?T ?\<sigma>) fuel it = Some zs" "distinct (map fst zs)" "fst ` set zs = join_keys ?xs"
      "\<forall>(kp, hs') \<in> set zs. list_all2 (\<lambda>(d, E) h. handle_denotes ?T U ?\<sigma> d E h) (join_outputs kp ?xs) hs'" by blast
  have items: "join_items V hs (rs_labelPossInOperands rs l) = Some zs"
    using z(1) drain_run[OF z(2)] len by (simp add: join_items_def rs_labelPossInOperands_def)
  have "inputs_ok ?T U ?\<sigma> (remaining_operands l ?ops) (sliced l ?ops Es kp) hs'" if zi: "(kp, hs') \<in> set zs" for kp hs'
  proof -
    let ?outs = "join_outputs kp ?xs"
    have den: "list_all2 (\<lambda>(d, E) h. handle_denotes ?T U ?\<sigma> d E h) ?outs hs'" using z(5) zi by auto
    have kp: "kp \<in> label_keys l ?ops Es" using z(4) zi by (force simp: label_keys_def)
    note lens = sliced_lengths[OF sets(3), of kp l]
    have n: "length ?outs = length (remaining_operands l ?ops)" by (metis lens length_map)
    have ops': "\<exists>op' \<in> set ?ops. length op \<le> length op'" if "op \<in> set (remaining_operands l ?ops)" for op
    proof -
      from that obtain op' where "op' \<in> set ?ops" "op = without l op'" by (auto simp: remaining_operands_def)
      then show ?thesis by (intro bexI[of _ op']) simp_all
    qed
    show ?thesis
      unfolding inputs_ok_def
    proof (intro conjI allI impI)
      fix j assume j: "j < length (remaining_operands l ?ops)"
      let ?op = "remaining_operands l ?ops ! j"
      have fst: "fst (?outs ! j) = length ?op" using lens j n by (metis nth_map)
      have snd: "snd (?outs ! j) = sliced l ?ops Es kp ! j" using j n by (simp add: sliced_def)
      show "handle_denotes ?T U ?\<sigma> (length ?op) (sliced l ?ops Es kp ! j) (hs' ! j)"
        using list_all2_nthD[OF den, of j] j n fst snd by (simp add: case_prod_beta)
      show "sliced l ?ops Es kp ! j \<noteq> {}"
        using sliced_nonempty[OF sets(3) _ kp] sets(1) j n by (simp add: sliced_def)
      obtain i where i: "i < length ?ops" "length ?op \<le> length (?ops ! i)"
        using ops'[of ?op] j by (metis in_set_conv_nth nth_mem)
      show "length ?op \<le> hypertrie_max_depth" using i inputs_okD(4)[OF ok i(1)] by simp
      show "below_ok ?T U ?\<sigma> (Suc (length ?op))"
        by (rule below_okD(3)[OF inputs_okD(3)[OF ok i(1)]]) (use i(2) in simp)
    qed (use n den in \<open>simp_all add: sliced_def list_all2_lengthD\<close>)
  qed
  then show ?thesis using items z(3,4) by (auto simp: label_keys_def)
qed

end
