(* ===== verification/Einsum_Join.thy ===== *)
theory Einsum_Join
  imports Einsum_Estimates
begin

text \<open>
  The join operator and the base operators are correct: if the operators they call count the solutions of the
  smaller subscripts, they count the solutions of theirs.
\<close>

subsection \<open>Counting along a label\<close>

lemma count_along_label:
  assumes fit: "entries_fit ops Es" and l: "l \<in> labels_of ops" and fin: "finite (label_keys l ops Es)"
    and finS: "\<And>kp. kp \<in> label_keys l ops Es \<Longrightarrow> finite (solutions (remaining_operands l ops) (sliced l ops Es kp))"
  shows "card {\<alpha> \<in> solutions ops Es. P \<alpha>} =
    (\<Sum>kp \<in> label_keys l ops Es. card {\<beta> \<in> solutions (remaining_operands l ops) (sliced l ops Es kp). P (\<beta>(l := kp))})"
proof -
  let ?S = "\<lambda>kp. {\<beta> \<in> solutions (remaining_operands l ops) (sliced l ops Es kp). P (\<beta>(l := kp))}"
  have l0: "\<beta> l = 0" if "\<beta> \<in> ?S kp" for \<beta> kp
    using that remaining_operands_labels[of l ops] by (auto simp: solutions_def)
  have inj: "inj_on (\<lambda>\<beta>. \<beta>(l := kp)) (?S kp)" for kp
  proof (rule inj_onI, rule ext)
    fix \<beta> \<gamma> x assume "\<beta> \<in> ?S kp" "\<gamma> \<in> ?S kp" "\<beta>(l := kp) = \<gamma>(l := kp)"
    then show "\<beta> x = \<gamma> x" using l0[of \<beta> kp] l0[of \<gamma> kp] by (cases "x = l") (auto dest: fun_cong[of _ _ x])
  qed
  have "{\<alpha> \<in> solutions ops Es. P \<alpha>} = (\<Union>kp \<in> label_keys l ops Es. (\<lambda>\<beta>. \<beta>(l := kp)) ` ?S kp)"
    unfolding solutions_along_label[OF fit l] by blast
  moreover have "card (\<Union>kp \<in> label_keys l ops Es. (\<lambda>\<beta>. \<beta>(l := kp)) ` ?S kp) =
      (\<Sum>kp \<in> label_keys l ops Es. card ((\<lambda>\<beta>. \<beta>(l := kp)) ` ?S kp))"
  proof (rule card_UN_disjoint[OF fin])
    show "\<forall>kp \<in> label_keys l ops Es. finite ((\<lambda>\<beta>. \<beta>(l := kp)) ` ?S kp)" using finS by simp
    show "\<forall>kp \<in> label_keys l ops Es. \<forall>kp' \<in> label_keys l ops Es. kp \<noteq> kp' \<longrightarrow>
        (\<lambda>\<beta>. \<beta>(l := kp)) ` ?S kp \<inter> (\<lambda>\<beta>. \<beta>(l := kp')) ` ?S kp' = {}"
    proof (intro ballI impI)
      fix kp kp' :: key_part assume "kp \<noteq> kp'"
      then have "\<beta>(l := kp) \<noteq> \<gamma>(l := kp')" for \<beta> \<gamma> :: "label \<Rightarrow> key_part" by (metis fun_upd_same)
      then show "(\<lambda>\<beta>. \<beta>(l := kp)) ` ?S kp \<inter> (\<lambda>\<beta>. \<beta>(l := kp')) ` ?S kp' = {}" by blast
    qed
  qed
  ultimately show ?thesis using card_image[OF inj] by simp
qed

lemma sum_items:
  fixes f :: "key_part \<Rightarrow> nat"
  assumes "distinct (map fst items)" "fst ` set items = K"
  shows "(\<Sum>(kp, hs)\<leftarrow>items. f kp) = (\<Sum>kp \<in> K. f kp)"
proof -
  have "(\<Sum>(kp, hs)\<leftarrow>items. f kp) = sum_list (map f (map fst items))" by (simp add: comp_def case_prod_beta')
  also have "\<dots> = (\<Sum>kp \<in> set (map fst items). f kp)" by (rule sum_list_distinct_conv_sum_set[OF assms(1)])
  finally show ?thesis using assms(2) by simp
qed

subsection \<open>The shared entry\<close>

lemma same_outside_write:
  assumes "same_outside R A k0 k" "R ! p \<in> A"
  shows "same_outside R A k0 (k[p := kp])"
  using assms unfolding same_outside_def by (metis length_list_update nth_list_update_neq)

lemma used_poss_unat:
  assumes "data_ok L rs d" "subscript_wf rs" "p \<in> set (su_used_result_poss d)"
  shows "unat p < length (rs_result rs)" "rs_result rs ! unat p \<in> labels_of (rs_operands rs)"
  using assms by (auto simp: data_ok_def used_result_poss_def rs_resultLabelCount_def subscript_wf_def unat_pos)

lemma clear_used_spec:
  fixes e :: "'w user_entry"
  assumes d: "data_ok L rs (sc_data s)" and wf: "subscript_wf rs" and len: "length (ue_key e) = length (rs_result rs)"
  shows "\<exists>e1. clear_used_entry_poss s e = Some e1 \<and> ue_value e1 = ue_value e \<and>
    same_outside (rs_result rs) (labels_of (rs_operands rs)) (ue_key e) (ue_key e1)"
  unfolding clear_used_entry_poss_def getUsedResultPoss_def
proof (rule foldM_rule)
  fix as p bs and e1 :: "'w user_entry"
  assume p: "su_used_result_poss (sc_data s) = as @ p # bs"
    and e1: "ue_value e1 = ue_value e \<and> same_outside (rs_result rs) (labels_of (rs_operands rs)) (ue_key e) (ue_key e1)"
  have "p \<in> set (su_used_result_poss (sc_data s))" using p by simp
  note used = used_poss_unat[OF d wf this]
  have "length (ue_key e1) = length (rs_result rs)" using e1 by (simp add: same_outside_def)
  then have "entry_write e1 (unat p) 0 = Some (e1\<lparr>ue_key := (ue_key e1)[unat p := 0]\<rparr>)" using used(1) by (simp add: entry_write_def)
  then show "\<exists>e2. entry_write e1 (unat p) 0 = Some e2 \<and> ue_value e2 = ue_value e \<and>
      same_outside (rs_result rs) (labels_of (rs_operands rs)) (ue_key e) (ue_key e2)"
    using e1 same_outside_write[OF _ used(2)] by auto
qed (use len in \<open>simp add: same_outside_refl\<close>)

text \<open>The key that one item of a join stands for.\<close>

lemma hits_along_label:
  assumes R: "distinct R" and l: "l \<notin> B" and so: "same_outside R (insert l B) k0 k1"
    and pos: "case pos of Some p \<Rightarrow> unat p < length R \<and> R ! unat p = l \<and> k2 = k1[unat p := kp] | None \<Rightarrow> l \<notin> set R \<and> k2 = k1"
  shows "hits R B k2 k \<beta> \<longleftrightarrow> hits R (insert l B) k0 k (\<beta>(l := kp))" "same_outside R (insert l B) k0 k2"
proof -
  have at: "k2 ! i = (if R ! i = l then kp else k1 ! i)" if "i < length R" for i
  proof (cases pos)
    case (Some p)
    then have p: "unat p < length R" "R ! unat p = l" "k2 = k1[unat p := kp]" using pos by auto
    have "R ! i = l \<longleftrightarrow> i = unat p" using p(1,2) that R nth_eq_iff_index_eq by metis
    then show ?thesis using p that so by (auto simp: same_outside_def nth_list_update)
  next
    case None
    then show ?thesis using pos that nth_mem by fastforce
  qed
  have len: "length k2 = length R" using pos so by (auto simp: same_outside_def split: option.splits)
  have out: "k1 ! i = k0 ! i" if "i < length R" "R ! i \<notin> insert l B" for i using so that by (auto simp: same_outside_def)
  show "hits R B k2 k \<beta> \<longleftrightarrow> hits R (insert l B) k0 k (\<beta>(l := kp))"
    unfolding hits_def using at out l by (metis fun_upd_other fun_upd_same insert_iff)
  show "same_outside R (insert l B) k0 k2" using at out len by (auto simp: same_outside_def)
qed

subsection \<open>The loops of the join\<close>

text \<open>What the operator called for an item promises.\<close>

definition item_ok :: "'w value_ops \<Rightarrow> ('w \<Rightarrow> nat \<Rightarrow> bool) \<Rightarrow> bool \<Rightarrow> label list \<Rightarrow> operand_sc list \<Rightarrow> (key_part \<Rightarrow> 'v entry set list) \<Rightarrow>
    ('v, 'w) sub_operator \<Rightarrow> subscript \<Rightarrow> key_part \<times> 'v hypertrie list \<Rightarrow> bool" where
  "item_ok W counts keep R ops F sub s item \<longleftrightarrow> (case item of (kp, hs) \<Rightarrow> finite (solutions ops (F kp)) \<and>
     (\<forall>e. length (ue_key e) = length R \<longrightarrow>
       (if su_all_result_done (sc_data s) then single_ok counts R ops (F kp) e (sub True s hs e)
        else (keep \<longrightarrow> vo_true W (ue_value e)) \<longrightarrow> run_ok W counts keep R ops (F kp) e (sub False s hs e))))"

context value_type
begin

lemma join_generator_loop_spec:
  assumes R: "distinct R" and l: "l \<notin> labels_of ops" and items: "\<forall>item \<in> set items. item_ok W counts keep R ops F sub s item"
    and done_s: "su_all_result_done (sc_data s) \<longleftrightarrow> labels_of ops \<inter> set R = {}" 
    "su_all_result_done (sc_data s) \<and> keep \<longrightarrow> (\<forall>(kp, hs) \<in> set items. 0 < card (solutions ops (F kp)))"
    and pos: "case pos of Some p \<Rightarrow> unat p < length R \<and> R ! unat p = l | None \<Rightarrow> l \<notin> set R"
    and so: "same_outside R (insert l (labels_of ops)) k0 (ue_key e)" and e: "keep \<longrightarrow> vo_true W (ue_value e)"
  shows "\<exists>ys e'. join_generator_loop W sub pos s items e = Some (ys, e') \<and>
    yields_count counts (\<lambda>k. \<Sum>(kp, hs)\<leftarrow>items. card {\<beta> \<in> solutions ops (F kp). hits R (insert l (labels_of ops)) k0 k (\<beta>(l := kp))}) ys \<and>
    same_outside R (insert l (labels_of ops)) k0 (ue_key e') \<and> (keep \<longrightarrow> vo_true W (ue_value e'))"
  using items done_s(2) so e
proof (induction items arbitrary: e)
  case Nil
  then show ?case by (simp add: yields_count_Nil)
next
  case (Cons item items)
  note prem_so = Cons.prems(3) and prem_e = Cons.prems(4)
  obtain kp hs where item: "item = (kp, hs)" by (cases item)
  let ?A = "labels_of ops" and ?B = "insert l (labels_of ops)"
  have len: "length (ue_key e) = length R" using prem_so by (simp add: same_outside_def)
  define e1 where "e1 = (case pos of Some p \<Rightarrow> e\<lparr>ue_key := (ue_key e)[unat p := kp]\<rparr> | None \<Rightarrow> e)"
  have w: "(case pos of Some p \<Rightarrow> entry_write e (unat p) kp | None \<Rightarrow> Some e) = Some e1"
    using pos len by (auto simp: e1_def entry_write_def split: option.splits)
  have v1: "ue_value e1 = ue_value e" by (simp add: e1_def split: option.split)
  have "case pos of Some p \<Rightarrow> unat p < length R \<and> R ! unat p = l \<and> ue_key e1 = (ue_key e)[unat p := kp] | None \<Rightarrow> l \<notin> set R \<and> ue_key e1 = ue_key e"
    using pos by (auto simp: e1_def split: option.splits)
  note step = hits_along_label[OF R l prem_so this]
  have len1: "length (ue_key e1) = length R" using step(2) by (simp add: same_outside_def)
  have it: "finite (solutions ops (F kp))" using Cons.prems(1) item by (simp add: item_ok_def)
  let ?f = "\<lambda>k. card {\<beta> \<in> solutions ops (F kp). hits R ?B k0 k (\<beta>(l := kp))}"
  have "\<exists>ys e2. (if su_all_result_done (sc_data s)
       then map_option (\<lambda>(_, e2). (if vo_true W (ue_value e2) then [e2] else [], e2)) (sub True s hs e1)
       else sub False s hs e1) = Some (ys, e2) \<and> yields_count counts ?f ys \<and>
      same_outside R ?A (ue_key e1) (ue_key e2) \<and> (keep \<longrightarrow> vo_true W (ue_value e2))"
  proof (cases "su_all_result_done (sc_data s)")
    case True
    then have dis: "?A \<inter> set R = {}" using done_s(1) by simp
    from Cons.prems(1) item True len1 have "single_ok counts R ops (F kp) e1 (sub True s hs e1)" by (simp add: item_ok_def)
    then obtain ys e2 where r: "sub True s hs e1 = Some (ys, e2)" "counts (ue_value e2) (card (solutions ops (F kp)))"
      "same_outside R ?A (ue_key e1) (ue_key e2)" by (auto simp: single_ok_def)
    have key: "ue_key e2 = ue_key e1" by (rule same_outside_done[OF dis len1 r(3)])
    have f: "?f k = (if ue_key e2 = k then card (solutions ops (F kp)) else 0)" for k
      using hits_done[OF dis len1, of k] by (auto simp: step(1)[symmetric] key)
    have "yields_count counts ?f (if vo_true W (ue_value e2) then [e2] else [])"
    proof (cases "card (solutions ops (F kp)) = 0")
      case True
      then have "\<not> vo_true W (ue_value e2)" "\<And>k. ?f k = 0" using true_iff[OF r(2)] f by simp_all
      then show ?thesis using yields_count_cong[OF yields_count_Nil, of ?f counts] by simp
    next
      case False
      then show ?thesis using true_iff[OF r(2)] yields_count_cong[OF yields_count_one[of counts e2, OF r(2)], of ?f] f by simp
    qed
    moreover have "vo_true W (ue_value e2)" if keep
      using Cons.prems(2) True that item true_iff[OF r(2)] by simp
    ultimately show ?thesis using True r by auto
  next
    case False
    then have "run_ok W counts keep R ops (F kp) e1 (sub False s hs e1)"
      using Cons.prems(1) prem_e item len1 v1 by (simp add: item_ok_def)
    then show ?thesis using False step(1) by (auto simp: run_ok_def)
  qed
  then obtain ys e2 where r: "(if su_all_result_done (sc_data s)
       then map_option (\<lambda>(_, e2). (if vo_true W (ue_value e2) then [e2] else [], e2)) (sub True s hs e1)
       else sub False s hs e1) = Some (ys, e2)" "yields_count counts ?f ys"
      "same_outside R ?A (ue_key e1) (ue_key e2)" "keep \<longrightarrow> vo_true W (ue_value e2)" by blast
  have so2: "same_outside R ?B k0 (ue_key e2)" using same_outside_trans[OF step(2) same_outside_mono[OF r(3)]] by blast
  have "\<forall>item \<in> set items. item_ok W counts keep R ops F sub s item" using Cons.prems(1) by simp
  moreover have "su_all_result_done (sc_data s) \<and> keep \<longrightarrow> (\<forall>(kp, hs) \<in> set items. 0 < card (solutions ops (F kp)))"
    using Cons.prems(2) by simp
  ultimately obtain zs e3 where z: "join_generator_loop W sub pos s items e2 = Some (zs, e3)"
    "yields_count counts (\<lambda>k. \<Sum>(kp, hs)\<leftarrow>items. card {\<beta> \<in> solutions ops (F kp). hits R ?B k0 k (\<beta>(l := kp))}) zs"
    "same_outside R ?B k0 (ue_key e3)" "keep \<longrightarrow> vo_true W (ue_value e3)" using Cons.IH[OF _ _ so2 r(4)] by blast
  have "join_generator_loop W sub pos s (item # items) e = Some (ys @ zs, e3)"
    unfolding item join_generator_loop.simps w r(1) bind.bind_lunit prod.case z(1) by simp
  moreover have "yields_count counts (\<lambda>k. \<Sum>(kp, hs)\<leftarrow>item # items. card {\<beta> \<in> solutions ops (F kp). hits R ?B k0 k (\<beta>(l := kp))}) (ys @ zs)"
    by (rule yields_count_cong[OF yields_count_append[OF r(2) z(2)]]) (simp add: item)
  ultimately show ?case using z(3,4) by blast
qed

lemma join_single_loop_spec:
  assumes items: "\<forall>item \<in> set items. item_ok W counts keep R ops F sub s item" and done_s: "su_all_result_done (sc_data s)"
    and v: "counts v m" "vo_bool W \<longrightarrow> m = 0" "small (m + (\<Sum>(kp, hs)\<leftarrow>items. card (solutions ops (F kp))))"
    and so: "same_outside R A k0 (ue_key e)" "labels_of ops \<subseteq> A"
  shows "\<exists>e'. join_single_loop W sub s items v e = Some e' \<and>
    counts (ue_value e') (m + (\<Sum>(kp, hs)\<leftarrow>items. card (solutions ops (F kp)))) \<and> same_outside R A k0 (ue_key e')"
  using items v so(1)
proof (induction items arbitrary: e v m)
  case Nil
  then show ?case by simp
next
  case (Cons item items)
  obtain kp hs where item: "item = (kp, hs)" by (cases item)
  let ?n = "card (solutions ops (F kp))" and ?rest = "\<Sum>(kp, hs)\<leftarrow>items. card (solutions ops (F kp))"
  have "length (ue_key e) = length R" using Cons.prems(5) by (simp add: same_outside_def)
  then have "single_ok counts R ops (F kp) e (sub True s hs e)" using Cons.prems(1) item done_s by (simp add: item_ok_def)
  then obtain ys e1 where r: "sub True s hs e = Some (ys, e1)" "counts (ue_value e1) ?n"
    "same_outside R (labels_of ops) (ue_key e) (ue_key e1)" by (auto simp: single_ok_def)
  have so1: "same_outside R A k0 (ue_key e1)"
    using same_outside_trans[OF Cons.prems(5) same_outside_mono[OF r(3) so(2)]] .
  have ih: "\<exists>e'. join_single_loop W sub s items v' e1 = Some e' \<and> counts (ue_value e') (m' + ?rest) \<and> same_outside R A k0 (ue_key e')"
    if "counts v' m'" "vo_bool W \<longrightarrow> m' = 0" "small (m' + ?rest)" for v' m'
    using Cons.IH[OF _ that so1] Cons.prems(1) by simp
  show ?case
  proof (cases "0 < ?n")
    case False
    then have "\<not> vo_true W (ue_value e1)" using true_iff[OF r(2)] by simp
    then show ?thesis using ih[OF Cons.prems(2,3)] Cons.prems(4) False r(1) item by simp
  next
    case pos: True
    then have t: "vo_true W (ue_value e1)" using true_iff[OF r(2)] by simp
    show ?thesis
    proof (cases "vo_bool W")
      case True
      then have "counts (ue_value e1) (m + (?n + ?rest))" using bool_any[OF True r(2) pos] pos by simp
      then show ?thesis using True t r(1) item so1 by simp
    next
      case False
      have sm: "small (m + ?n)" "small (m + ?n + ?rest)"
        using small_le[OF Cons.prems(4), of "m + ?n"] Cons.prems(4) item by (simp_all add: add.assoc)
      from ih[OF add[OF Cons.prems(2) r(2) sm(1)] _ sm(2)] False show ?thesis using t r(1) item by (simp add: add.assoc)
    qed
  qed
qed

end

end
