(* ===== verification/Einsum_Bases.thy ===== *)
theory Einsum_Bases
  imports Einsum_Join
begin

text \<open>
  The join operator with its subscripts, and the base operators: resolve writes the entries of its only operand,
  count returns its size, and without operands there is one solution.
\<close>

subsection \<open>The next subscript\<close>

lemma remaining_wf:
  assumes "summation_ok W rs"
  shows "summation_ok W (new_raw_subscript L (remaining_operands l (rs_operands rs)) (rs_result rs))"
proof -
  have "length (remaining_operands l (rs_operands rs)) \<le> length (rs_operands rs)"
    unfolding remaining_operands_def by (rule order_trans[OF length_filter_le]) simp
  moreover have "labels_of (remaining_operands l (rs_operands rs)) \<subseteq> labels_of (rs_operands rs)"
    using remaining_operands_labels[of l "rs_operands rs"] by blast
  moreover have "[] \<notin> set (remaining_operands l (rs_operands rs))" by (simp add: remaining_operands_def)
  ultimately show ?thesis using assms unfolding summation_ok_def subscript_wf_def
    by (auto simp: new_raw_subscript_def dest: subsetD)
qed

lemma remaining_card: "l \<in> labels_of ops \<Longrightarrow> card (labels_of (remaining_operands l ops)) < card (labels_of ops)"
  unfolding remaining_operands_labels by (rule card_Diff1_less) auto

lemma no_operands_solutions: "solutions [] [] = {\<lambda>l. 0}"
  by (auto simp: solutions_def)

context value_type
begin

text \<open>The label, the next subscript and the items of a join, with what the sub operator promises of each.\<close>

lemma operator_setup_spec:
  fixes V :: "('v::zero_neq_one, 'w, 'd) einsum_env"
  assumes W: "ee_value V = W" and L: "set_order (sl_order (ee_lib V))"
    and s: "new_subscript (ee_lib V) rs Type_None = Some s" and wf: "summation_ok W rs"
    and ok: "inputs_ok (ee_htt V) U (ee_storage V) (rs_operands rs) Es hs" and sm: "small (bound Es * bound Es)"
    and sub: "operators_ok counts small U V sub (card (labels_of (rs_operands rs)))" and ne: "labels_of (rs_operands rs) \<noteq> {}"
  shows "\<exists>l s' items. l \<in> labels_of (rs_operands rs) \<and> join_setup_operator V s hs = Some (l, s', items) \<and>
    distinct (map fst items) \<and> fst ` set items = label_keys l (rs_operands rs) Es \<and>
    (su_all_result_done (sc_data s') \<longleftrightarrow> labels_of (remaining_operands l (rs_operands rs)) \<inter> set (rs_result rs) = {}) \<and>
    (\<forall>item \<in> set items. item_ok W counts (vo_bool W) (rs_result rs) (remaining_operands l (rs_operands rs))
      (sliced l (rs_operands rs) Es) sub s' item) \<and>
    (\<forall>(kp, hs') \<in> set items. inputs_ok (ee_htt V) U (ee_storage V) (remaining_operands l (rs_operands rs)) (sliced l (rs_operands rs) Es kp) hs')"
proof -
  let ?ops = "rs_operands rs" and ?R = "rs_result rs"
  have d: "data_ok (ee_lib V) rs (sc_data s)" by (rule data_of_built[OF L s])
  have wf': "subscript_wf rs" using wf by (simp add: summation_ok_def)
  from getMinCardLabel_total[OF L ok d wf' ne] obtain l where l: "l \<in> labels_of ?ops" "getMinCardLabel V hs s = Some l" by blast
  let ?ops' = "remaining_operands l ?ops"
  define rs' where "rs' = new_raw_subscript (ee_lib V) ?ops' ?R"
  have rs': "rs_operands rs' = ?ops'" "rs_result rs' = ?R" by (simp_all add: rs'_def new_raw_subscript_def)
  from new_subscript_total[OF L, of rs'] obtain s' where s': "new_subscript (ee_lib V) rs' Type_None = Some s'" "built_from (ee_lib V) rs' s'" by blast
  have raw: "sc_raw s = rs" "su_operands_labels (sc_data s) = rs_operandsLabelSet rs" using d by (simp_all add: data_ok_def)
  have rem: "sc_removeLabel (ee_lib V) s l [] = Some (s', al_emplace l s' [])"
    using l(1) s'(1) raw by (simp add: sc_removeLabel_def rs_removeLabel_def rs'_def)
  have poss: "sc_labelPossInOperands s l [] = Some (rs_labelPossInOperands rs l, al_emplace l (rs_labelPossInOperands rs l) [])"
    using l(1) raw by (simp add: sc_labelPossInOperands_def Let_def)
  from join_items_spec[OF ok l(1)] wf'[unfolded subscript_wf_def] obtain items where items: "join_items V hs (rs_labelPossInOperands rs l) = Some items"
    "distinct (map fst items)" "fst ` set items = label_keys l ?ops Es"
    "\<forall>(kp, hs') \<in> set items. inputs_ok (ee_htt V) U (ee_storage V) ?ops' (sliced l ?ops Es kp) hs'" by blast
  have "operator_ok counts small U V sub rs' s'"
    using sub remaining_card[OF l(1)] remaining_wf[OF wf, of "ee_lib V" l] s'(1) W rs' by (simp add: operators_ok_def rs'_def)
  note sub' = this[unfolded operator_ok_def rs' W]
  have "item_ok W counts (vo_bool W) ?R ?ops' (sliced l ?ops Es) sub s' (kp, hs')" if "(kp, hs') \<in> set items" for kp hs'
  proof -
    have ok': "inputs_ok (ee_htt V) U (ee_storage V) ?ops' (sliced l ?ops Es kp) hs'" using items(4) that by auto
    have "bound (sliced l ?ops Es kp) \<le> bound Es" by (rule sliced_bound[OF inputs_ok_sets(3,1)[OF ok]])
    then have "small (bound (sliced l ?ops Es kp) * bound (sliced l ?ops Es kp))" using small_le[OF sm] by (simp add: mult_le_mono)
    then show ?thesis using sub' ok' inputs_bound(1)[OF ok'] unfolding item_ok_def by auto
  qed
  moreover have "su_all_result_done (sc_data s') \<longleftrightarrow> labels_of ?ops' \<inter> set ?R = {}"
    using s'(2) rs' by (simp add: built_from_def data_ok_def)
  moreover have "join_setup_operator V s hs = Some (l, s', items)" using l(2) rem poss items(1) by (simp add: join_setup_operator_def)
  ultimately show ?thesis using l(1) items(2-4) by (intro exI[of _ l] exI[of _ s'] exI[of _ items]) auto
qed

lemma join_generator_ok:
  fixes V :: "('v::zero_neq_one, 'w, 'd) einsum_env"
  assumes W: "ee_value V = W" and L: "set_order (sl_order (ee_lib V))"
    and s: "new_subscript (ee_lib V) rs Type_None = Some s" and wf: "summation_ok W rs" and type: "su_type (sc_data s) = Type_Join"
    and ok: "inputs_ok (ee_htt V) U (ee_storage V) (rs_operands rs) Es hs" and sm: "small (bound Es * bound Es)"
    and sub: "operators_ok counts small U V sub (card (labels_of (rs_operands rs)))"
    and some: "labels_of (rs_operands rs) \<inter> set (rs_result rs) \<noteq> {}"
    and e: "length (ue_key e) = length (rs_result rs)" "vo_bool W \<longrightarrow> vo_true W (ue_value e)"
  shows "run_ok W counts (vo_bool W) (rs_result rs) (rs_operands rs) Es e (join_generator V sub s hs e)"
proof -
  let ?ops = "rs_operands rs" and ?R = "rs_result rs" and ?A = "labels_of (rs_operands rs)"
  have d: "data_ok (ee_lib V) rs (sc_data s)" by (rule data_of_built[OF L s])
  have wf': "subscript_wf rs" and R: "distinct ?R" "length ?R \<le> 256" using wf by (auto simp: summation_ok_def subscript_wf_def)
  from clear_used_spec[OF d wf' e(1)] obtain e1 where e1: "clear_used_entry_poss s e = Some e1" "ue_value e1 = ue_value e"
    "same_outside ?R ?A (ue_key e) (ue_key e1)" by blast
  have "?A \<noteq> {}" using some by blast
  from operator_setup_spec[OF W L s wf ok sm sub this] obtain l s' items where
    l: "l \<in> ?A" "join_setup_operator V s hs = Some (l, s', items)"
    and items: "distinct (map fst items)" "fst ` set items = label_keys l ?ops Es"
    and s': "su_all_result_done (sc_data s') \<longleftrightarrow> labels_of (remaining_operands l ?ops) \<inter> set ?R = {}"
    and each: "\<forall>item \<in> set items. item_ok W counts (vo_bool W) ?R (remaining_operands l ?ops) (sliced l ?ops Es) sub s' item"
    and ins: "\<forall>(kp, hs') \<in> set items. inputs_ok (ee_htt V) U (ee_storage V) (remaining_operands l ?ops) (sliced l ?ops Es kp) hs'" by (elim exE conjE) (rule that, assumption+)
  let ?ops' = "remaining_operands l ?ops"
  have B: "insert l (labels_of ?ops') = ?A" "l \<notin> labels_of ?ops'" using remaining_operands_labels[of l ?ops] l(1) by auto
  define pos where "pos = map_of (rs_labelPossInResult rs) l"
  have reslab: "isResultLabel s l \<longleftrightarrow> l \<in> set ?R" using d by (simp add: isResultLabel_def data_ok_def)
  have posr: "(if isResultLabel s l then map_option Some (getLabelPosInResult s l) else Some None) = Some pos"
    using d type reslab by (auto simp: getLabelPosInResult_def data_ok_def labelPossInResult_find pos_def)
  have pos: "case pos of Some p \<Rightarrow> unat p < length ?R \<and> ?R ! unat p = l | None \<Rightarrow> l \<notin> set ?R"
  proof (cases pos)
    case (Some p)
    then show ?thesis using result_pos_unat[of rs l p] R(2) by (simp add: pos_def)
  qed (auto simp: pos_def labelPossInResult_find split: if_splits)
  have one: "\<forall>(kp, hs') \<in> set items. 0 < card (solutions ?ops' (sliced l ?ops Es kp))" if "su_all_result_done (sc_data s')" "vo_bool W"
  proof -
    have "?A \<subseteq> set ?R" using wf that(2) some by (auto simp: summation_ok_def)
    then have "labels_of ?ops' \<subseteq> set ?R" using B(1) by (metis subset_insertI subset_trans)
    then have "labels_of ?ops' = {}" using iffD1[OF s' that(1)] by (metis inf.absorb1)
    moreover have "[] \<notin> set ?ops'" by (simp add: remaining_operands_def)
    ultimately have "?ops' = []" by (cases ?ops') auto
    have "0 < card (solutions ?ops' (sliced l ?ops Es kp))" if "(kp, hs') \<in> set items" for kp hs'
    proof -
      have "inputs_ok (ee_htt V) U (ee_storage V) ?ops' (sliced l ?ops Es kp) hs'" using ins that by auto
      from inputs_ok_lengths(1)[OF this] have "sliced l ?ops Es kp = []" unfolding \<open>?ops' = []\<close> by simp
      then show ?thesis unfolding \<open>?ops' = []\<close> by (simp add: no_operands_solutions)
    qed
    then show ?thesis by blast
  qed
  have done2: "su_all_result_done (sc_data s') \<and> vo_bool W \<longrightarrow> (\<forall>(kp, hs') \<in> set items. 0 < card (solutions ?ops' (sliced l ?ops Es kp)))"
    using one by blast
  have so1: "same_outside ?R (insert l (labels_of ?ops')) (ue_key e) (ue_key e1)" unfolding B(1) by (rule e1(3))
  have v1: "vo_bool W \<longrightarrow> vo_true W (ue_value e1)" using e(2) e1(2) by simp
  from join_generator_loop_spec[OF R(1) B(2) each s' done2 pos so1 v1, unfolded B(1)] obtain ys e2 where r:
    "join_generator_loop W sub pos s' items e1 = Some (ys, e2)"
    "yields_count counts (\<lambda>k. \<Sum>(kp, hs)\<leftarrow>items. card {\<beta> \<in> solutions ?ops' (sliced l ?ops Es kp). hits ?R ?A (ue_key e) k (\<beta>(l := kp))}) ys"
    "same_outside ?R ?A (ue_key e) (ue_key e2)" "vo_bool W \<longrightarrow> vo_true W (ue_value e2)" by blast
  have finS: "finite (solutions ?ops' (sliced l ?ops Es kp))" if "kp \<in> label_keys l ?ops Es" for kp
    using that items(2) each by (force simp: item_ok_def)
  have fin: "finite (label_keys l ?ops Es)" using items(2)[symmetric] by simp
  note fit = inputs_ok_sets(3)[OF ok]
  have "yields_count counts (\<lambda>k. card {\<alpha> \<in> solutions ?ops Es. hits ?R ?A (ue_key e) k \<alpha>}) ys"
    by (rule yields_count_cong[OF r(2)])
      (simp add: sum_items[OF items] count_along_label[OF fit l(1) fin finS])
  then show ?thesis using e1(1) l(2) posr r by (simp add: join_generator_def W run_ok_def)
qed

lemma join_single_ok:
  fixes V :: "('v::zero_neq_one, 'w, 'd) einsum_env"
  assumes W: "ee_value V = W" and L: "set_order (sl_order (ee_lib V))"
    and s: "new_subscript (ee_lib V) rs Type_None = Some s" and wf: "summation_ok W rs"
    and ok: "inputs_ok (ee_htt V) U (ee_storage V) (rs_operands rs) Es hs" and sm: "small (bound Es * bound Es)"
    and sub: "operators_ok counts small U V sub (card (labels_of (rs_operands rs)))"
    and none: "labels_of (rs_operands rs) \<inter> set (rs_result rs) = {}" and ne: "labels_of (rs_operands rs) \<noteq> {}"
    and e: "length (ue_key e) = length (rs_result rs)"
  shows "single_ok counts (rs_result rs) (rs_operands rs) Es e (join_single V sub s hs e)"
proof -
  let ?ops = "rs_operands rs" and ?R = "rs_result rs" and ?A = "labels_of (rs_operands rs)"
  have d: "data_ok (ee_lib V) rs (sc_data s)" by (rule data_of_built[OF L s])
  have wf': "subscript_wf rs" using wf by (simp add: summation_ok_def)
  from clear_used_spec[OF d wf' e(1)] obtain e1 where e1: "clear_used_entry_poss s e = Some e1" "ue_value e1 = ue_value e"
    "same_outside ?R ?A (ue_key e) (ue_key e1)" by blast
  from operator_setup_spec[OF W L s wf ok sm sub ne] obtain l s' items where
    l: "l \<in> ?A" "join_setup_operator V s hs = Some (l, s', items)"
    and items: "distinct (map fst items)" "fst ` set items = label_keys l ?ops Es"
    and s': "su_all_result_done (sc_data s') \<longleftrightarrow> labels_of (remaining_operands l ?ops) \<inter> set ?R = {}"
    and each: "\<forall>item \<in> set items. item_ok W counts (vo_bool W) ?R (remaining_operands l ?ops) (sliced l ?ops Es) sub s' item" by (elim exE conjE) (rule that, assumption+)
  let ?ops' = "remaining_operands l ?ops"
  have B: "labels_of ?ops' \<subseteq> ?A" using remaining_operands_labels[of l ?ops] by blast
  then have done_s: "su_all_result_done (sc_data s')" using s' none by blast
  have finS: "finite (solutions ?ops' (sliced l ?ops Es kp))" if "kp \<in> label_keys l ?ops Es" for kp
    using that items(2) each by (force simp: item_ok_def)
  have fin: "finite (label_keys l ?ops Es)" using items(2)[symmetric] by simp
  have "card {\<alpha> \<in> solutions ?ops Es. True} = (\<Sum>kp \<in> label_keys l ?ops Es. card {\<beta> \<in> solutions ?ops' (sliced l ?ops Es kp). True})"
    by (rule count_along_label[OF inputs_ok_sets(3)[OF ok] l(1) fin finS])
  then have sum: "(\<Sum>(kp, hs)\<leftarrow>items. card (solutions ?ops' (sliced l ?ops Es kp))) = card (solutions ?ops Es)"
    by (simp add: sum_items[OF items])
  have sm': "small (card (solutions ?ops Es))"
    using small_le[OF sm] inputs_bound(2,4)[OF ok] by (meson order_trans)
  have small0: "small (0 + (\<Sum>(kp, hs)\<leftarrow>items. card (solutions ?ops' (sliced l ?ops Es kp))))" unfolding sum using sm' by simp
  have bool0: "vo_bool W \<longrightarrow> (0::nat) = 0" by simp
  note loop = join_single_loop_spec[OF each done_s zero bool0 small0 e1(3) B, unfolded sum]
  from loop obtain e' where "join_single_loop W sub s' items (vo_zero W) e1 = Some e'" "counts (ue_value e') (card (solutions ?ops Es))"
      "same_outside ?R ?A (ue_key e) (ue_key e')" by auto
  then show ?thesis using e1(1) l(2) W by (auto simp: join_single_def single_ok_def)
qed

subsection \<open>The base operators\<close>

lemma only_operand_ok:
  assumes ok: "inputs_ok (ee_htt V) U (ee_storage V) [op] [E] hs"
  shows "\<exists>h. hs = [h] \<and> only_operand V hs = Some h \<and> handle_denotes (ee_htt V) U (ee_storage V) (length op) E h \<and>
    below_ok (ee_htt V) U (ee_storage V) (Suc (length op)) \<and> length op \<le> hypertrie_max_depth"
proof -
  obtain h where h: "hs = [h]" using inputs_ok_lengths(2)[OF ok] by (auto simp: length_Suc_conv)
  note i = inputs_okD[OF ok, of 0, simplified]
  have hd: "handle_denotes (ee_htt V) U (ee_storage V) (length op) E h" using i(1) h by simp
  have "universe_ok (ee_htt V) U"
    using level_okD(1)[OF below_okD(1)[OF i(3) handle_denotesD(2)[OF hd]]] by simp
  then have "\<not> ht_empty (ee_htt V) h"
    using handle_denotesD(4)[OF hd] i(2) ident_nonzero[OF _ handle_denotesD(3)[OF hd]] by (simp add: ht_empty_def id_empty_def)
  then show ?thesis using h hd i(3,4) by (simp add: only_operand_def)
qed

lemma single_operand_solutions:
  assumes op: "distinct op" and E: "all_depth (length op) E"
  shows "\<exists>\<phi>. bij_betw \<phi> (keys_in E) (solutions [op] [E]) \<and> (\<forall>key \<in> keys_in E. map (\<phi> key) op = key)"
proof -
  define \<phi> where "\<phi> key l = (case map_of (zip op key) l of None \<Rightarrow> 0 | Some kp \<Rightarrow> kp)" for key :: "key_part list" and l :: label
  have len: "length key = length op" if "key \<in> keys_in E" for key using E that by (auto simp: all_depth_def)
  have map\<phi>: "map (\<phi> key) op = key" if "key \<in> keys_in E" for key
  proof (rule nth_equalityI)
    fix i assume i: "i < length (map (\<phi> key) op)"
    then have "map_of (zip op key) (op ! i) = Some (key ! i)" using op len[OF that] by (intro map_of_zip_nth) auto
    then show "map (\<phi> key) op ! i = key ! i" using i by (simp add: \<phi>_def)
  qed (simp add: len[OF that])
  have out: "\<phi> key l = 0" if "key \<in> keys_in E" "l \<notin> set op" for key l
    using that len[OF that(1)] by (auto simp: \<phi>_def split: option.split dest!: map_of_SomeD set_zip_leftD)
  have "bij_betw \<phi> (keys_in E) (solutions [op] [E])"
  proof (rule bij_betw_imageI)
    show "inj_on \<phi> (keys_in E)" by (rule inj_onI) (metis map\<phi>)
    show "\<phi> ` keys_in E = solutions [op] [E]"
    proof
      show "\<phi> ` keys_in E \<subseteq> solutions [op] [E]" using map\<phi> out by (auto simp: solutions_def simp del: map_eq_conv)
      show "solutions [op] [E] \<subseteq> \<phi> ` keys_in E"
      proof
        fix \<alpha> assume "\<alpha> \<in> solutions [op] [E]"
        then have a: "map \<alpha> op \<in> keys_in E" "\<forall>l. l \<notin> set op \<longrightarrow> \<alpha> l = 0" by (auto simp: solutions_def)
        have "\<phi> (map \<alpha> op) l = \<alpha> l" for l
          using map\<phi>[OF a(1)] out[OF a(1), of l] a(2) by (cases "l \<in> set op") (auto simp: map_eq_conv)
        then have "\<phi> (map \<alpha> op) = \<alpha>" by (rule ext)
        then show "\<alpha> \<in> \<phi> ` keys_in E" using a(1) by (metis imageI)
      qed
    qed
  qed
  then show ?thesis using map\<phi> by blast
qed

lemma count_single_ok:
  fixes V :: "('v::zero_neq_one, 'w, 'd) einsum_env"
  assumes W: "ee_value V = W" and op: "rs_operands rs = [op]" "distinct op"
    and ok: "inputs_ok (ee_htt V) U (ee_storage V) (rs_operands rs) Es hs" and sm: "small (bound Es * bound Es)"
    and e: "length (ue_key e) = length (rs_result rs)"
  shows "single_ok counts (rs_result rs) (rs_operands rs) Es e (count_single V hs e)"
proof -
  obtain E where E: "Es = [E]" using inputs_ok_lengths(1)[OF ok] op(1) by (auto simp: length_Suc_conv)
  note ok' = ok[unfolded op(1) E]
  from only_operand_ok[OF ok'] obtain h where h: "only_operand V hs = Some h"
    "handle_denotes (ee_htt V) U (ee_storage V) (length op) E h" "below_ok (ee_htt V) U (ee_storage V) (Suc (length op))" by blast
  note n = ht_size_spec[OF h(3,2)] and ents = handle_denotesD(3)[OF h(2)]
  have "all_depth (length op) E" using ents by (simp add: entries_ok_def)
  from single_operand_solutions[OF op(2) this] have "card (keys_in E) = card (solutions [op] [E])" by (metis bij_betw_same_card)
  then have card: "card (solutions [op] [E]) = card E" using card_image[OF entries_okD(4)[OF ents]] by simp
  have "E \<noteq> {}" "finite E" using inputs_ok_sets(1)[OF ok'] by auto
  then have pos: "0 < card E" by (simp add: card_gt_0_iff)
  have "small (card E)" using small_le[OF sm] inputs_bound(4)[OF ok] by (simp add: E bound_def)
  then have "counts (vo_of_size W (card E)) (card E)" by (rule of_size)
  moreover have "vo_bool W \<Longrightarrow> counts (vo_one W) (card E)" using bool_any[OF _ one _ pos] by simp
  ultimately show ?thesis using h(1) n W e card by (auto simp: count_single_def single_ok_def op(1) E same_outside_refl)
qed

lemma entry_generator_ok:
  assumes op: "rs_operands rs = []" and ok: "inputs_ok T U \<sigma> (rs_operands rs) Es hs" and e: "length (ue_key e) = length (rs_result rs)"
  shows "single_ok counts (rs_result rs) (rs_operands rs) Es e (entry_generator_single W e)"
  using inputs_ok_lengths(1)[OF ok] op e one
  by (simp add: entry_generator_single_def single_ok_def no_operands_solutions same_outside_refl)

end

end
