(* ===== verification/Einsum_Entries.thy ===== *)
theory Einsum_Entries
  imports Einsum_Bases
begin

text \<open>
  How the operators write keys into the shared entry, and the resolve operator, which yields the entries of its
  only operand at the positions of the result.
\<close>

subsection \<open>Writing a key to positions\<close>

definition overwrite :: "label_pos list \<Rightarrow> key_part list \<Rightarrow> key_part list \<Rightarrow> key_part list" where
  "overwrite ps kps k = fold (\<lambda>(p, kp) k. k[unat p := kp]) (zip ps kps) k"

lemma overwrite_simps [simp]:
  "overwrite [] kps k = k" "overwrite ps [] k = k" "overwrite (p # ps) (kp # kps) k = overwrite ps kps (k[unat p := kp])"
  by (simp_all add: overwrite_def)

lemma length_overwrite [simp]: "length (overwrite ps kps k) = length k"
  by (induction ps kps arbitrary: k rule: list_induct2') simp_all

lemma write_parts_overwrite:
  "length ps = n + length kps \<Longrightarrow> \<forall>p \<in> set ps. unat p < length (ue_key e) \<Longrightarrow>
    write_parts ps n kps e = Some (e\<lparr>ue_key := overwrite (drop n ps) kps (ue_key e)\<rparr>)"
proof (induction kps arbitrary: n e)
  case (Cons kp kps)
  have "drop n ps = ps ! n # drop (Suc n) ps" using Cons.prems(1) by (simp add: Cons_nth_drop_Suc)
  then show ?case using Cons by (simp add: at_index_def entry_write_def)
qed simp

lemma updateEntryKey_overwrite:
  "length kps = n + length ps \<Longrightarrow> \<forall>p \<in> set ps. unat p < length (ue_key e) \<Longrightarrow>
    updateEntryKey ps n kps e = Some (e\<lparr>ue_key := overwrite ps (drop n kps) (ue_key e)\<rparr>)"
proof (induction ps arbitrary: n e)
  case (Cons p ps)
  have "drop n kps = kps ! n # drop (Suc n) kps" using Cons.prems(1) by (simp add: Cons_nth_drop_Suc)
  then show ?case using Cons by (simp add: at_index_def entry_write_def)
qed simp

lemma overwrite_outside: "i \<notin> unat ` set ps \<Longrightarrow> overwrite ps kps k ! i = k ! i"
  by (induction ps kps arbitrary: k rule: list_induct2') simp_all

lemma overwrite_at:
  assumes "distinct ps" "\<forall>p \<in> set ps. unat p < length k" "length kps = length ps" "j < length ps"
  shows "overwrite ps kps k ! unat (ps ! j) = kps ! j"
  using assms(3,1,2,4)
proof (induction kps ps arbitrary: k j rule: list_induct2)
  case (Cons kp kps p ps)
  show ?case
  proof (cases j)
    case 0
    have "unat p \<notin> unat ` set ps" using Cons.prems(1) by (auto simp: word_unat_eq_iff[symmetric])
    then show ?thesis using 0 Cons.prems(2) by (simp add: overwrite_outside)
  next
    case (Suc i)
    then show ?thesis using Cons by simp
  qed
qed simp

lemma overwrite_reads:
  assumes "distinct ps" "\<forall>p \<in> set ps. unat p < length k" "length kps = length ps"
  shows "map (\<lambda>p. overwrite ps kps k ! unat p) ps = kps"
  using overwrite_at[OF assms] assms(3) by (intro nth_equalityI) simp_all

lemma overwrite_same_outside:
  assumes "same_outside R A k0 k" "\<forall>p \<in> set ps. R ! unat p \<in> A"
  shows "same_outside R A k0 (overwrite ps kps k)"
proof -
  have "i \<notin> unat ` set ps" if "R ! i \<notin> A" for i using assms(2) that by auto
  then show ?thesis using assms(1) unfolding same_outside_def by (simp add: overwrite_outside)
qed

text \<open>One entry for every solution.\<close>

lemma yields_each:
  assumes each: "list_all2 (\<lambda>y \<alpha>. counts (ue_value y) 1 \<and> hits R A k0 (ue_key y) \<alpha>) ys \<alpha>s" and \<alpha>s: "distinct \<alpha>s" "set \<alpha>s = S"
  shows "yields_count counts (\<lambda>k. card {\<alpha> \<in> S. hits R A k0 k \<alpha>}) ys"
proof -
  have key: "hits R A k0 k \<alpha> \<longleftrightarrow> k' = k" if "hits R A k0 k' \<alpha>" for k k' \<alpha>
    using that by (auto simp: hits_def intro: nth_equalityI)
  have "weight (zip ys (map (\<lambda>_. 1) ys)) k = length (filter (hits R A k0 k) \<alpha>s)" for k
    using each by (induction rule: list_all2_induct) (auto simp: key)
  moreover have "length (filter (hits R A k0 k) \<alpha>s) = card {\<alpha> \<in> S. hits R A k0 k \<alpha>}" for k
    using distinct_card[OF distinct_filter[OF \<alpha>s(1)], of "hits R A k0 k"] \<alpha>s(2) by simp
  moreover have "list_all2 (\<lambda>y n. counts (ue_value y) n \<and> 0 < n) ys (map (\<lambda>_. 1) ys)"
    using each by (induction rule: list_all2_induct) simp_all
  ultimately show ?thesis unfolding yields_count_def by (intro exI[of _ "map (\<lambda>_. 1) ys"]) simp
qed

subsection \<open>The resolve operator\<close>

lemma result_overwrite_hits:
  assumes R: "distinct R" and op: "distinct op" and ps: "length ps = length op" "\<forall>j < length op. unat (ps ! j) < length R \<and> R ! unat (ps ! j) = op ! j"
    and so: "same_outside R (set op) k0 k" and key: "map \<alpha> op = key"
  shows "hits R (set op) k0 (overwrite ps key k) \<alpha>"
proof -
  have len: "length k = length R" using so by (simp add: same_outside_def)
  have "inj_on (\<lambda>j. ps ! j) {..<length ps}"
  proof (rule inj_onI)
    fix i j assume ij: "i \<in> {..<length ps}" "j \<in> {..<length ps}" "ps ! i = ps ! j"
    then have "op ! i = op ! j" using ps by (metis lessThan_iff)
    then show "i = j" using op ij(1,2) ps(1) by (simp add: nth_eq_iff_index_eq)
  qed
  then have dist: "distinct ps" by (simp add: distinct_conv_nth inj_on_def) blast
  have range: "\<forall>p \<in> set ps. unat p < length k" using ps len by (metis in_set_conv_nth)
  have "overwrite ps key k ! i = (if R ! i \<in> set op then \<alpha> (R ! i) else k0 ! i)" if i: "i < length R" for i
  proof (cases "R ! i \<in> set op")
    case True
    then obtain j where j: "j < length op" "op ! j = R ! i" by (metis in_set_conv_nth)
    then have "unat (ps ! j) < length R" "R ! unat (ps ! j) = R ! i" using ps(2) by auto
    then have "unat (ps ! j) = i" using R i nth_eq_iff_index_eq by blast
    moreover have "overwrite ps key k ! unat (ps ! j) = key ! j"
      by (rule overwrite_at[OF dist range]) (use key ps(1) j(1) in auto)
    ultimately show ?thesis using j True key by auto
  next
    case False
    have "R ! unat p \<in> set op" if "p \<in> set ps" for p using that ps by (auto simp: in_set_conv_nth)
    then have "i \<notin> unat ` set ps" using False by auto
    then show ?thesis using False so i by (simp add: overwrite_outside same_outside_def)
  qed
  then show ?thesis using len by (simp add: hits_def)
qed

lemma hits_same: "hits R A k0 k \<alpha> \<Longrightarrow> same_outside R A k0 k"
  by (simp add: hits_def same_outside_def)

context value_type
begin

lemma resolve_loop_spec:
  assumes R: "distinct R" and op: "distinct op" and ps: "length ps = length op" "\<forall>j < length op. unat (ps ! j) < length R \<and> R ! unat (ps ! j) = op ! j"
    and \<phi>: "\<forall>(key, v) \<in> set es. map (\<phi> key) op = key"
    and so: "same_outside R (set op) k0 (ue_key e)" and e: "keep \<longrightarrow> vo_true W (ue_value e)"
  shows "\<exists>ys e'. resolve_loop W ps es e = Some (ys, e') \<and>
    list_all2 (\<lambda>y \<alpha>. counts (ue_value y) 1 \<and> hits R (set op) k0 (ue_key y) \<alpha>) ys (map (\<phi> \<circ> fst) es) \<and>
    same_outside R (set op) k0 (ue_key e') \<and> (keep \<longrightarrow> vo_true W (ue_value e'))"
  using \<phi> so e
proof (induction es arbitrary: e)
  case (Cons x es)
  obtain key v where x: "x = (key, v)" by (cases x)
  let ?e = "e\<lparr>ue_key := overwrite ps key (ue_key e), ue_value := vo_one W\<rparr>"
  have key: "map (\<phi> key) op = key" using Cons.prems(1) x by simp
  then have "length key = length op" by (metis length_map)
  then have len: "length ps = 0 + length key" using ps(1) by simp
  have "length (ue_key e) = length R" using Cons.prems(2) by (simp add: same_outside_def)
  then have "\<forall>p \<in> set ps. unat p < length (ue_key e)" using ps by (metis in_set_conv_nth)
  from write_parts_overwrite[OF len this] have w: "write_parts ps 0 key e = Some (e\<lparr>ue_key := overwrite ps key (ue_key e)\<rparr>)" by simp
  have h: "hits R (set op) k0 (ue_key ?e) (\<phi> key)"
    using result_overwrite_hits[OF R op ps Cons.prems(2) key] by simp
  have t: "keep \<longrightarrow> vo_true W (ue_value ?e)" using true_iff[OF one] by simp
  have "\<forall>(key, v) \<in> set es. map (\<phi> key) op = key" using Cons.prems(1) by simp
  from Cons.IH[OF this hits_same[OF h] t] obtain ys e' where r: "resolve_loop W ps es ?e = Some (ys, e')"
    "list_all2 (\<lambda>y \<alpha>. counts (ue_value y) 1 \<and> hits R (set op) k0 (ue_key y) \<alpha>) ys (map (\<phi> \<circ> fst) es)"
    "same_outside R (set op) k0 (ue_key e')" "keep \<longrightarrow> vo_true W (ue_value e')" by blast
  have "resolve_loop W ps (x # es) e = Some (?e # ys, e')" using x w r(1) by simp
  moreover have "list_all2 (\<lambda>y \<alpha>. counts (ue_value y) 1 \<and> hits R (set op) k0 (ue_key y) \<alpha>) (?e # ys) (map (\<phi> \<circ> fst) (x # es))"
    using r(2) h one x by simp
  ultimately show ?case using r(3,4) by blast
qed simp

lemma resolve_generator_ok:
  fixes V :: "('v::zero_neq_one, 'w, 'd) einsum_env"
  assumes W: "ee_value V = W" and d: "data_ok (ee_lib V) rs (sc_data s)" and wf: "subscript_wf rs"
    and type: "su_type (sc_data s) = Type_Resolve" and op: "rs_operands rs = [op]" "distinct op" "set op \<subseteq> set (rs_result rs)"
    and ok: "inputs_ok (ee_htt V) U (ee_storage V) (rs_operands rs) Es hs"
    and e: "length (ue_key e) = length (rs_result rs)" "keep \<longrightarrow> vo_true W (ue_value e)"
  shows "run_ok W counts keep (rs_result rs) (rs_operands rs) Es e (resolve_generator V s hs e)"
proof -
  let ?R = "rs_result rs"
  have R: "distinct ?R" "length ?R \<le> 256" using wf by (simp_all add: subscript_wf_def)
  obtain E where E: "Es = [E]" using inputs_ok_lengths(1)[OF ok] op(1) by (auto simp: length_Suc_conv)
  note ok' = ok[unfolded op(1) E]
  from only_operand_ok[OF ok'] obtain h where h: "only_operand V hs = Some h"
    "handle_denotes (ee_htt V) U (ee_storage V) (length op) E h" "below_ok (ee_htt V) U (ee_storage V) (Suc (length op))"
    "length op \<le> hypertrie_max_depth" by blast
  from ht_iterate_spec[OF h(3,2,4)] obtain es where es: "ht_iterate (ee_htt V) (ee_storage V) h = Some es" "set es = E" "distinct es" by blast
  note ents = handle_denotesD(3)[OF h(2)]
  have E_depth: "all_depth (length op) E" using ents by (simp add: entries_ok_def)
  obtain \<phi> where \<phi>: "bij_betw \<phi> (keys_in E) (solutions [op] [E])" "\<forall>key \<in> keys_in E. map (\<phi> key) op = key"
    using single_operand_solutions[OF op(2) E_depth] by blast
  obtain ps where ps: "operand2result rs (rs_labelPossInResult rs) = Some ps" "length ps = length op"
    "\<forall>i < length op. map_of (rs_labelPossInResult rs) (op ! i) = Some (ps ! i)" using operand2result_spec[OF op(1,3)] by blast
  have pos: "\<forall>j < length op. unat (ps ! j) < length ?R \<and> ?R ! unat (ps ! j) = op ! j"
    using ps(3) result_pos_unat[OF _ R(2)] by blast
  have mapping: "operand2resultMapping_ResolveType s = Some ps"
    using d type ps(1) by (auto simp: operand2resultMapping_ResolveType_def data_ok_def)
  from clear_used_spec[OF d wf e(1)] obtain e1 where e1: "clear_used_entry_poss s e = Some e1" "ue_value e1 = ue_value e"
    "same_outside ?R (labels_of (rs_operands rs)) (ue_key e) (ue_key e1)" by blast
  have so: "same_outside ?R (set op) (ue_key e) (ue_key e1)" using e1(3) op(1) by simp
  have keys: "\<forall>(key, v) \<in> set es. map (\<phi> key) op = key" using \<phi>(2) es(2) by force
  have e1_true: "keep \<longrightarrow> vo_true W (ue_value e1)" using e(2) e1(2) by simp
  from resolve_loop_spec[OF R(1) op(2) ps(2) pos keys so e1_true] obtain ys e' where r: "resolve_loop W ps es e1 = Some (ys, e')"
    "list_all2 (\<lambda>y \<alpha>. counts (ue_value y) 1 \<and> hits ?R (set op) (ue_key e) (ue_key y) \<alpha>) ys (map (\<phi> \<circ> fst) es)"
    "same_outside ?R (set op) (ue_key e) (ue_key e')" "keep \<longrightarrow> vo_true W (ue_value e')" by blast
  have "distinct (map (\<phi> \<circ> fst) es)"
    unfolding distinct_map using es(2,3) entries_okD(4)[OF ents] \<phi>(1) by (auto simp: bij_betw_def intro: comp_inj_on)
  moreover have "set (map (\<phi> \<circ> fst) es) = solutions [op] [E]" using \<phi>(1) es(2) by (simp add: bij_betw_def image_image)
  ultimately have "yields_count counts (\<lambda>k. card {\<alpha> \<in> solutions [op] [E]. hits ?R (set op) (ue_key e) k \<alpha>}) ys"
    by (rule yields_each[where counts = counts and R = ?R and A = "set op" and ?k0.0 = "ue_key e", OF r(2)])
  then show ?thesis using r h(1) e1(1) mapping es(1) by (simp add: resolve_generator_def run_ok_def op(1) E W)
qed

end

end
