(* ===== verification/Einsum_Odometer.thy ===== *)
theory Einsum_Odometer
  imports Einsum_Entries
begin

text \<open>
  The results of the parts of a Cartesian product that are computed in advance (\<open>FullCartesianResult\<close> in
  CartesianOperator.hpp): it runs over all combinations, the first part fastest, writes their keys into
  the shared entry, and keeps the product of their values.
\<close>

subsection \<open>Combinations\<close>

text \<open>The combinations that are left, the current one first.\<close>

fun combos :: "'w part list \<Rightarrow> 'w user_entry list list" where
  "combos [] = [[]]"
| "combos ((rs, poss, i) # parts) = (case combos parts of
     [] \<Rightarrow> []
   | c # cs \<Rightarrow> map (\<lambda>r. r # c) (drop i rs) @ concat (map (\<lambda>c. map (\<lambda>r. r # c) rs) cs))"

fun advance :: "'w part list \<Rightarrow> 'w part list \<times> bool" where
  "advance [] = ([], True)"
| "advance ((rs, poss, i) # parts) =
     (if Suc i = length rs then ((rs, poss, 0) # fst (advance parts), snd (advance parts)) else ((rs, poss, Suc i) # parts, False))"

abbreviation current :: "'w part list \<Rightarrow> 'w user_entry list" where
  "current parts \<equiv> map (\<lambda>(rs, poss, i). rs ! i) parts"

abbreviation restarted :: "'w part list \<Rightarrow> 'w part list" where
  "restarted parts \<equiv> map (\<lambda>(rs, poss, i). (rs, poss, 0)) parts"

abbreviation in_range :: "'w part list \<Rightarrow> bool" where
  "in_range parts \<equiv> \<forall>(rs, poss, i) \<in> set parts. i < length rs"

lemma combos_current: "in_range parts \<Longrightarrow> \<exists>cs. combos parts = current parts # cs"
proof (induction parts)
  case (Cons part parts)
  obtain rs poss i where part: "part = (rs, poss, i)" by (cases part)
  from Cons obtain cs where cs: "combos parts = current parts # cs" by auto
  have "drop i rs = rs ! i # drop (Suc i) rs" using Cons.prems part by (simp add: Cons_nth_drop_Suc)
  then show ?case by (simp add: part cs)
qed simp

lemma advance_combos:
  assumes "in_range parts"
  shows "in_range (fst (advance parts))" "snd (advance parts) \<longleftrightarrow> tl (combos parts) = []"
    "\<not> snd (advance parts) \<Longrightarrow> combos (fst (advance parts)) = tl (combos parts)"
proof -
  have "in_range (fst (advance parts)) \<and> (snd (advance parts) \<longleftrightarrow> tl (combos parts) = []) \<and>
    (\<not> snd (advance parts) \<longrightarrow> combos (fst (advance parts)) = tl (combos parts))"
    using assms
  proof (induction parts)
    case (Cons part parts)
    obtain rs poss i where part: "part = (rs, poss, i)" by (cases part)
    have i: "i < length rs" using Cons.prems part by simp
    have range: "in_range parts" using Cons.prems by simp
    from combos_current[OF range] obtain cs where cs: "combos parts = current parts # cs" by blast
    have ih: "in_range (fst (advance parts))" "snd (advance parts) \<longleftrightarrow> cs = []"
      "\<not> snd (advance parts) \<longrightarrow> combos (fst (advance parts)) = cs" using Cons.IH[OF range] cs by auto
    have d: "drop i rs = rs ! i # drop (Suc i) rs" using i by (simp add: Cons_nth_drop_Suc)
    have rs: "rs \<noteq> []" using i by auto
    show ?case
    proof (cases "Suc i = length rs")
      case True
      have "concat (map (\<lambda>c. map (\<lambda>r. r # c) rs) cs) = [] \<longleftrightarrow> cs = []" using rs by (cases cs) auto
      then show ?thesis using True ih d rs by (auto simp: part cs split: list.split)
    next
      case False
      then have "Suc i < length rs" using i by simp
      then show ?thesis using False range d by (auto simp: part cs)
    qed
  qed simp
  then show "in_range (fst (advance parts))" "snd (advance parts) \<longleftrightarrow> tl (combos parts) = []"
    "\<not> snd (advance parts) \<Longrightarrow> combos (fst (advance parts)) = tl (combos parts)" by auto
qed

lemma sum_combos:
  fixes F :: "('w user_entry \<Rightarrow> nat) list"
  assumes "length F = length parts"
  shows "(\<Sum>c\<leftarrow>combos (restarted parts). prod_list (map2 (\<lambda>f r. f r) F c)) = (\<Prod>(f, rs, poss, i)\<leftarrow>zip F parts. \<Sum>r\<leftarrow>rs. f r)"
  using assms
proof (induction F parts rule: list_induct2)
  case (Cons f F part parts)
  obtain rs poss i where part: "part = (rs, poss, i)" by (cases part)
  let ?P = "\<lambda>c. prod_list (map2 (\<lambda>f r. f r) F c)"
  have "combos (restarted (part # parts)) = concat (map (\<lambda>c. map (\<lambda>r. r # c) rs) (combos (restarted parts)))"
    by (simp add: part split: list.split)
  moreover have "(\<Sum>c\<leftarrow>concat (map (\<lambda>c. map (\<lambda>r. r # c) rs) cs). prod_list (map2 (\<lambda>f r. f r) (f # F) c)) =
      (\<Sum>r\<leftarrow>rs. f r) * (\<Sum>c\<leftarrow>cs. ?P c)" for cs
  proof (induction cs)
    case (Cons c cs)
    have "(\<Sum>r\<leftarrow>rs. f r * ?P c) = (\<Sum>r\<leftarrow>rs. f r) * ?P c" by (rule sum_list_mult_const)
    then show ?case using Cons by (simp add: comp_def add_mult_distrib2)
  qed simp
  ultimately show ?case using Cons.IH by (simp add: part)
qed simp

subsection \<open>Writing the current combination\<close>

definition written :: "'w part list \<Rightarrow> key_part list \<Rightarrow> key_part list" where
  "written parts k = fold (\<lambda>(rs, poss, i) k. overwrite poss (ue_key (rs ! i)) k) parts k"

abbreviation reads :: "key_part list \<Rightarrow> label_pos list \<Rightarrow> key_part list" where
  "reads k ps \<equiv> map (\<lambda>p. k ! unat p) ps"

abbreviation part_poss :: "'w part \<Rightarrow> label_pos list" where
  "part_poss part \<equiv> fst (snd part)"

lemma written_simps [simp]: "written [] k = k" "written ((rs, poss, i) # parts) k = written parts (overwrite poss (ue_key (rs ! i)) k)"
  by (simp_all add: written_def)

lemma length_written [simp]: "length (written parts k) = length k"
proof (induction parts arbitrary: k)
  case (Cons part parts)
  then show ?case by (cases part) simp
qed simp

lemma written_outside: "i \<notin> unat ` set (concat (map part_poss parts)) \<Longrightarrow> written parts k ! i = k ! i"
proof (induction parts arbitrary: k)
  case (Cons part parts)
  then show ?case by (cases part) (simp add: overwrite_outside image_Un)
qed simp

lemma reads_cong: "(\<And>p. p \<in> set ps \<Longrightarrow> k ! unat p = k' ! unat p) \<Longrightarrow> reads k ps = reads k' ps"
  by simp

lemma unat_notin: "p \<notin> set ps \<Longrightarrow> unat p \<notin> unat ` set ps" for p :: label_pos
  by (auto simp: word_unat_eq_iff[symmetric])

lemma written_reads:
  assumes "distinct (concat (map part_poss parts))" "\<forall>p \<in> set (concat (map part_poss parts)). unat p < length k"
    "\<forall>(rs, poss, i) \<in> set parts. length (ue_key (rs ! i)) = length poss"
  shows "map (reads (written parts k)) (map part_poss parts) = map ue_key (current parts)"
  using assms
proof (induction parts arbitrary: k)
  case (Cons part parts)
  obtain rs poss i where part: "part = (rs, poss, i)" by (cases part)
  let ?k = "overwrite poss (ue_key (rs ! i)) k"
  have "reads (written parts ?k) poss = reads ?k poss"
  proof (rule reads_cong)
    fix p assume "p \<in> set poss"
    then have "p \<notin> set (concat (map part_poss parts))" using Cons.prems(1) by (auto simp: part)
    then show "written parts ?k ! unat p = ?k ! unat p" by (intro written_outside unat_notin)
  qed
  also have "\<dots> = ue_key (rs ! i)" using Cons.prems by (intro overwrite_reads) (auto simp: part)
  finally show ?case using Cons.IH[of ?k] Cons.prems by (simp add: part)
qed simp

lemma same_outside_written:
  assumes "same_outside R A k0 k" "\<forall>p \<in> set (concat (map part_poss parts)). R ! unat p \<in> A"
  shows "same_outside R A k0 (written parts k)"
  using assms
proof (induction parts arbitrary: k)
  case (Cons part parts)
  obtain rs poss i where part: "part = (rs, poss, i)" by (cases part)
  have "\<forall>p \<in> set poss. R ! unat p \<in> A" using Cons.prems(2) by (simp add: part)
  from overwrite_same_outside[OF Cons.prems(1) this] show ?case using Cons.IH Cons.prems(2) by (simp add: part)
qed simp

lemma part_writes:
  assumes "\<forall>p \<in> set (concat (map part_poss parts)). unat p < length (ue_key e)"
    "\<forall>(rs, poss, i) \<in> set parts. i < length rs \<and> length (ue_key (rs ! i)) = length poss"
  shows "foldM part_write parts e = Some (e\<lparr>ue_key := written parts (ue_key e)\<rparr>)"
  using assms
proof (induction parts arbitrary: e)
  case (Cons part parts)
  obtain rs poss i where part: "part = (rs, poss, i)" by (cases part)
  let ?e = "e\<lparr>ue_key := overwrite poss (ue_key (rs ! i)) (ue_key e)\<rparr>"
  have "part_write e part = Some ?e"
    using updateEntryKey_overwrite[of "ue_key (rs ! i)" 0 poss e] Cons.prems by (simp add: part part_write_def at_index_def)
  moreover have "foldM part_write parts ?e = Some (?e\<lparr>ue_key := written parts (ue_key ?e)\<rparr>)"
    using Cons.prems by (intro Cons.IH) auto
  ultimately show ?case by (simp add: part)
qed simp

subsection \<open>The value of the current combination\<close>

text \<open>For every part the number of solutions that a key of its results stands for, and a bound for it.\<close>

type_synonym part_count = "(key_part list \<Rightarrow> nat) \<times> nat"

abbreviation count_of :: "part_count list \<Rightarrow> 'w user_entry list \<Rightarrow> nat" where
  "count_of fs c \<equiv> prod_list (map2 (\<lambda>(f, M) r. f (ue_key r)) fs c)"

abbreviation bound_of :: "part_count list \<Rightarrow> nat" where
  "bound_of fs \<equiv> prod_list (map snd fs)"

definition part_ok :: "('w \<Rightarrow> nat \<Rightarrow> bool) \<Rightarrow> 'w part \<Rightarrow> part_count \<Rightarrow> bool" where
  "part_ok counts part fM \<longleftrightarrow> (case (part, fM) of ((rs, poss, i), f, M) \<Rightarrow> i < length rs \<and>
     (\<forall>r \<in> set rs. counts (ue_value r) (f (ue_key r)) \<and> 0 < f (ue_key r) \<and> f (ue_key r) \<le> M \<and> length (ue_key r) = length poss))"

lemma part_okD:
  assumes "part_ok counts (rs, poss, i) (f, M)"
  shows "i < length rs" "j < length rs \<Longrightarrow> counts (ue_value (rs ! j)) (f (ue_key (rs ! j)))" "j < length rs \<Longrightarrow> 0 < f (ue_key (rs ! j))"
    "j < length rs \<Longrightarrow> f (ue_key (rs ! j)) \<le> M" "j < length rs \<Longrightarrow> length (ue_key (rs ! j)) = length poss"
    "j < length rs \<Longrightarrow> part_ok counts (rs, poss, j) (f, M)"
  using assms by (auto simp: part_ok_def)

lemma parts_ok_facts:
  assumes "list_all2 (part_ok counts) parts fs"
  shows "in_range parts" "\<forall>(rs, poss, i) \<in> set parts. i < length rs \<and> length (ue_key (rs ! i)) = length poss"
    "0 < count_of fs (current parts)" "count_of fs (current parts) \<le> bound_of fs"
    "list_all2 (part_ok counts) (restarted parts) fs" "list_all2 (part_ok counts) (fst (advance parts)) fs"
proof -
  have "in_range parts \<and> (\<forall>(rs, poss, i) \<in> set parts. i < length rs \<and> length (ue_key (rs ! i)) = length poss) \<and>
      0 < count_of fs (current parts) \<and> count_of fs (current parts) \<le> bound_of fs \<and>
      list_all2 (part_ok counts) (restarted parts) fs \<and> list_all2 (part_ok counts) (fst (advance parts)) fs"
    using assms
  proof (induction rule: list_all2_induct)
    case (Cons part parts fM fs)
    obtain rs poss i f M where p: "part = (rs, poss, i)" "fM = (f, M)" by (cases part, cases fM)
    note ok = part_okD[OF Cons.hyps(1)[unfolded p]]
    have "0 < length rs" using ok(1) by auto
    then show ?case using Cons.IH Cons.hyps(2) ok(1,3,4,5,6)
      by (auto simp: p intro!: mult_le_mono)
  qed simp
  then show "in_range parts" "\<forall>(rs, poss, i) \<in> set parts. i < length rs \<and> length (ue_key (rs ! i)) = length poss"
    "0 < count_of fs (current parts)" "count_of fs (current parts) \<le> bound_of fs"
    "list_all2 (part_ok counts) (restarted parts) fs" "list_all2 (part_ok counts) (fst (advance parts)) fs" by auto
qed

lemma advance_poss: "map part_poss (fst (advance parts)) = map part_poss parts"
  by (induction parts rule: advance.induct) simp_all

context value_type
begin

lemma restart_loop_spec:
  assumes "list_all2 (part_ok counts) parts fs" "counts v p" "0 < p" "p * bound_of fs \<le> B" "small B"
    "\<forall>x \<in> set (concat (map part_poss parts)). unat x < length (ue_key e)"
  shows "\<exists>v' e'. restart_loop W parts v e = Some (v', e') \<and> counts v' (p * count_of fs (current (restarted parts))) \<and>
    e' = e\<lparr>ue_key := written (restarted parts) (ue_key e)\<rparr>"
  using assms
proof (induction arbitrary: v p e rule: list_all2_induct)
  case (Cons part parts fM fs)
  obtain rs poss i f M where p: "part = (rs, poss, i)" "fM = (f, M)" by (cases part, cases fM)
  note ok = part_okD[OF Cons.hyps(1)[unfolded p]]
  have rs: "0 < length rs" using ok(1) by auto
  let ?e = "e\<lparr>ue_key := overwrite poss (ue_key (rs ! 0)) (ue_key e)\<rparr>" and ?n = "f (ue_key (rs ! 0))"
  have w: "updateEntryKey poss 0 (ue_key (rs ! 0)) e = Some ?e"
    using updateEntryKey_overwrite[of "ue_key (rs ! 0)" 0 poss e] ok(5)[OF rs] Cons.prems(5) by (simp add: p)
  have bound: "p * ?n * bound_of fs \<le> B"
  proof -
    have "p * ?n * bound_of fs \<le> p * M * bound_of fs" using ok(4)[OF rs] by simp
    then show ?thesis by (rule order_trans) (use Cons.prems(3) in \<open>simp add: p mult.assoc\<close>)
  qed
  have "0 < bound_of fs" using parts_ok_facts(3,4)[OF Cons.hyps(2)] by linarith
  then have "p * ?n \<le> p * ?n * bound_of fs" by simp
  then have "small (p * ?n)" using bound small_le[OF Cons.prems(4)] by (meson order_trans)
  from mult[OF Cons.prems(1) ok(2)[OF rs] this] bool_any[OF _ Cons.prems(1,2), of "p * ?n"] ok(3)[OF rs] Cons.prems(2)
  have c: "counts (if vo_bool W then v else vo_mult W v (ue_value (rs ! 0))) (p * ?n)" by simp
  have pos: "0 < p * ?n" using Cons.prems(2) ok(3)[OF rs] by simp
  have "\<forall>x \<in> set (concat (map part_poss parts)). unat x < length (ue_key ?e)" using Cons.prems(5) by (simp add: p)
  from Cons.IH[OF c pos bound Cons.prems(4) this] show ?case
    using w true_iff[OF Cons.prems(1)] Cons.prems(2) rs by (auto simp: p at_index_def mult.assoc)
qed simp

lemma inc_loop_spec:
  assumes "list_all2 (part_ok counts) parts fs" "counts v (p * count_of fs (current parts))" "0 < p" "p * bound_of fs \<le> B" "small (B * B)"
    "\<forall>x \<in> set (concat (map part_poss parts)). unat x < length (ue_key e)"
  shows "\<exists>v'. inc_loop W parts v e =
      Some (fst (advance parts), v', e\<lparr>ue_key := written (fst (advance parts)) (ue_key e)\<rparr>, snd (advance parts)) \<and>
    counts v' (p * count_of fs (current (fst (advance parts))))"
  using assms
proof (induction arbitrary: v p e rule: list_all2_induct)
  case Nil
  then show ?case using true_iff[OF Nil.prems(1)] by simp
next
  case (Cons part parts fM fs)
  obtain rs poss i f M where p: "part = (rs, poss, i)" "fM = (f, M)" by (cases part, cases fM)
  note ok = part_okD[OF Cons.hyps(1)[unfolded p]] and rest = parts_ok_facts[OF Cons.hyps(2)]
  define j where "j = (if Suc i = length rs then 0 else Suc i)"
  have j: "j < length rs" using ok(1) by (auto simp: j_def)
  let ?e = "e\<lparr>ue_key := overwrite poss (ue_key (rs ! j)) (ue_key e)\<rparr>"
  let ?a = "f (ue_key (rs ! i))" and ?b = "f (ue_key (rs ! j))" and ?q = "count_of fs (current parts)"
  have pos: "0 < ?a" "0 < ?b" "0 < ?q" "0 < bound_of fs" using ok(3)[OF ok(1)] ok(3)[OF j] rest(3,4) by linarith+
  have w: "updateEntryKey poss 0 (ue_key (rs ! j)) e = Some ?e"
    using updateEntryKey_overwrite[of "ue_key (rs ! j)" 0 poss e] ok(5)[OF j] Cons.prems(5) by (simp add: p)
  have v: "counts v (p * ?a * ?q)" using Cons.prems(1) by (simp add: p mult.assoc)
  have B: "p * M * bound_of fs \<le> B" using Cons.prems(3) by (simp add: p mult.assoc)
  have bound: "p * ?b * bound_of fs \<le> B"
    using ok(4)[OF j] by (intro order_trans[OF _ B]) simp
  have "p * ?a * ?q \<le> p * M * bound_of fs" using ok(4)[OF ok(1)] rest(4) by (intro mult_le_mono) auto
  then have full: "p * ?a * ?q \<le> B" using B by (rule order_trans)
  have "?b \<le> p * ?b * bound_of fs" using Cons.prems(2) pos(4) by simp
  then have "?b \<le> B" using bound by (rule order_trans)
  then have sm: "small (p * ?a * ?q * ?b)" using full by (intro small_le[OF Cons.prems(4)] mult_le_mono)
  note cur = ok(2)[OF j] and last = ok(2)[OF ok(1)]
  have product: "p * ?a * ?q * ?b = (p * ?b * ?q) * ?a" by (simp add: ac_simps)
  note d = div_exact[OF mult[OF v cur sm, unfolded product] last pos(1)]
  have new_pos: "0 < p * ?b * ?q" using Cons.prems(2) pos by simp
  have old_pos: "0 < p * ?a * ?q" using Cons.prems(2) pos by simp
  define v' where "v' = (if vo_bool W then v else vo_div W (vo_mult W v (ue_value (rs ! j))) (ue_value (rs ! i)))"
  have v': "counts v' (p * ?b * ?q)" using d bool_any[OF _ v old_pos new_pos] by (simp add: v'_def)
  have checks: "vo_true W v" "vo_true W (ue_value (rs ! j))" "vo_true W (ue_value (rs ! i))" "vo_true W v'"
    "vo_true W (vo_div W (vo_mult W v (ue_value (rs ! j))) (ue_value (rs ! i)))"
    using true_iff[OF v] true_iff[OF cur] true_iff[OF last] true_iff[OF v'] true_iff[OF d] pos new_pos old_pos by auto
  have range: "\<forall>x \<in> set (concat (map part_poss parts)). unat x < length (ue_key ?e)" using Cons.prems(5) by (simp add: p)
  have "inc_loop W ((rs, poss, i) # parts) v e =
      (if Suc i \<noteq> length rs then do { e2 \<leftarrow> foldM part_write parts ?e; Some ((rs, poss, j) # parts, v', e2, False) }
       else do { (parts', v'', e2, carried) \<leftarrow> inc_loop W parts v' ?e; Some ((rs, poss, j) # parts', v'', e2, carried) })"
    unfolding inc_loop.simps Let_def j_def[symmetric] using w j ok(1) checks by (simp add: at_index_def v'_def[symmetric])
  note step = this
  show ?case
  proof (cases "Suc i = length rs")
    case False
    have "foldM part_write parts ?e = Some (?e\<lparr>ue_key := written parts (ue_key ?e)\<rparr>)" by (rule part_writes[OF range rest(2)])
    then show ?thesis using False v' unfolding p(1) step by (simp add: p j_def mult.assoc)
  next
    case True
    have b0: "0 < p * ?b" using Cons.prems(2) pos by simp
    from Cons.IH[OF v' b0 bound Cons.prems(4) range] show ?thesis
      using True unfolding p(1) step by (auto simp: p j_def mult.assoc)
  qed
qed

end

end
