(* ===== verification/Einsum_Rounds.thy ===== *)
theory Einsum_Rounds
  imports Einsum_Odometer
begin

text \<open>
  The loops of the Cartesian operator (CartesianOperator.hpp): for every entry of the iterated part they yield one entry for every
  combination of the results of the other parts, with the product of the values. The yielded entries stand for
  the products of the solutions of the parts.
\<close>

subsection \<open>The positions of the parts\<close>

text \<open>The positions of the parts cover the result labels of the summation, each once.\<close>

definition layout_ok :: "label list \<Rightarrow> label set \<Rightarrow> label_pos list list \<Rightarrow> bool" where
  "layout_ok R A pss \<longleftrightarrow> distinct (concat pss) \<and> (\<forall>p \<in> set (concat pss). unat p < length R \<and> R ! unat p \<in> A) \<and>
     (\<forall>i < length R. R ! i \<in> A \<longrightarrow> i \<in> unat ` set (concat pss))"

definition shown :: "label list \<Rightarrow> label set \<Rightarrow> key_part list \<Rightarrow> label_pos list list \<Rightarrow> key_part list list \<Rightarrow> key_part list \<Rightarrow> bool" where
  "shown R A k0 pss keys k \<longleftrightarrow> same_outside R A k0 k \<and> map (reads k) pss = keys"

lemma shown_unique:
  assumes "layout_ok R A pss" "shown R A k0 pss keys k"
  shows "shown R A k0 pss keys k' \<longleftrightarrow> k' = k"
proof
  assume k': "shown R A k0 pss keys k'"
  have len: "length k' = length R" "length k = length R" using k' assms(2) by (simp_all add: shown_def same_outside_def)
  show "k' = k"
  proof (rule nth_equalityI)
    fix i assume "i < length k'"
    then have i: "i < length R" using len by simp
    show "k' ! i = k ! i"
    proof (cases "R ! i \<in> A")
      case True
      then obtain ps p where p: "ps \<in> set pss" "p \<in> set ps" "unat p = i" using assms(1) i by (auto simp: layout_ok_def)
      have "map (reads k') pss = map (reads k) pss" using k' assms(2) by (simp add: shown_def)
      then have "reads k' ps = reads k ps" using p(1) by auto
      then show ?thesis using p(2,3) by auto
    qed (use k' assms(2) i in \<open>simp add: shown_def same_outside_def\<close>)
  qed (use len in simp)
qed (use assms(2) in simp)

lemma overwrite_keeps_reads:
  assumes "distinct (poss @ concat pss)"
  shows "map (reads (overwrite poss key k)) pss = map (reads k) pss"
proof (intro map_cong refl)
  fix ps p assume "ps \<in> set pss" "p \<in> set ps"
  then have "p \<notin> set poss" using assms by auto
  then show "overwrite poss key k ! unat p = k ! unat p" by (intro overwrite_outside unat_notin)
qed

text \<open>For Boolean values a generator does not write the value of the shared entry: when an earlier call has left it
  false, the assertion on it fails.\<close>

lemma updateEntryKey_value: "updateEntryKey ps i k e = Some e' \<Longrightarrow> ue_value e' = ue_value e"
proof (induction ps arbitrary: i e)
  case (Cons p ps)
  then obtain kp e1 where e1: "entry_write e (unat p) kp = Some e1" "updateEntryKey ps (Suc i) k e1 = Some e'"
    by (auto split: Option.bind_splits)
  then have "ue_value e1 = ue_value e" by (auto simp: entry_write_def split: if_splits)
  then show ?case using Cons.IH[OF e1(2)] by simp
qed simp

lemma false_entry_fails:
  assumes "vo_bool W" "\<not> vo_true W (ue_value e)" "\<not> fc_ended fc"
  shows "cartesian_rounds W poss key (generated_value W y) fc e = None"
proof (cases "updateEntryKey poss 0 key e")
  case (Some e1)
  then have "\<not> vo_true W (ue_value e1)" using updateEntryKey_value[OF Some] assms(2) by simp
  then show ?thesis using assms Some by (subst cartesian_rounds.simps) (simp add: generated_value_def Let_def)
qed (use assms in \<open>subst cartesian_rounds.simps, simp\<close>)

subsection \<open>The combinations for one entry\<close>

context value_type
begin

lemma fc_begin_spec:
  assumes parts: "list_all2 (part_ok counts) (fc_parts fc) fs" and pss: "map part_poss (fc_parts fc) = pss"
    and lay: "layout_ok R A (poss # pss)" and B: "bound_of fs \<le> B" "small (B * B)" and so: "same_outside R A k0 (ue_key e)"
  shows "\<exists>fc1 e1. fc_begin W fc e = Some (fc1, e1) \<and> fc_parts fc1 = restarted (fc_parts fc) \<and> \<not> fc_ended fc1 \<and>
    counts (fc_value fc1) (count_of fs (current (fc_parts fc1))) \<and> same_outside R A k0 (ue_key e1) \<and> ue_value e1 = ue_value e \<and>
    map (reads (ue_key e1)) pss = map ue_key (current (fc_parts fc1))"
proof -
  have len: "length (ue_key e) = length R" using so by (simp add: same_outside_def)
  have range: "\<forall>x \<in> set (concat (map part_poss (fc_parts fc))). unat x < length (ue_key e)" using lay len unfolding pss layout_ok_def by simp
  have "B \<le> B * B" by (cases B) auto
  then have sm: "small B" by (rule small_le[OF B(2)])
  have B1: "1 * bound_of fs \<le> B" using B(1) by simp
  have z: "0 < (1 :: nat)" by simp
  from restart_loop_spec[OF parts one z B1 sm range] obtain v where v: "restart_loop W (fc_parts fc) (vo_one W) e =
      Some (v, e\<lparr>ue_key := written (restarted (fc_parts fc)) (ue_key e)\<rparr>)" "counts v (count_of fs (current (restarted (fc_parts fc))))"
    by auto
  have same: "map part_poss (restarted (fc_parts fc)) = pss" using pss by (simp add: comp_def case_prod_beta')
  have "map (reads (written (restarted (fc_parts fc)) (ue_key e))) (map part_poss (restarted (fc_parts fc))) =
      map ue_key (current (restarted (fc_parts fc)))"
  proof (rule written_reads)
    show "distinct (concat (map part_poss (restarted (fc_parts fc))))" "\<forall>p \<in> set (concat (map part_poss (restarted (fc_parts fc)))). unat p < length (ue_key e)"
      unfolding same using lay len by (auto simp: layout_ok_def)
    show "\<forall>(rs, poss, i) \<in> set (restarted (fc_parts fc)). length (ue_key (rs ! i)) = length poss"
      using parts_ok_facts(2)[OF parts_ok_facts(5)[OF parts]] by auto
  qed
  moreover have "same_outside R A k0 (written (restarted (fc_parts fc)) (ue_key e))"
    by (rule same_outside_written[OF so]) (unfold same, use lay in \<open>auto simp: layout_ok_def\<close>)
  ultimately show ?thesis using v unfolding same by (simp add: fc_begin_def)
qed

lemma fc_inc_spec:
  assumes parts: "list_all2 (part_ok counts) (fc_parts fc) fs" and pss: "map part_poss (fc_parts fc) = pss"
    and lay: "layout_ok R A (poss # pss)" and B: "bound_of fs \<le> B" "small (B * B)" and so: "same_outside R A k0 (ue_key e)"
    and v: "counts (fc_value fc) (count_of fs (current (fc_parts fc)))"
  shows "\<exists>fc1 e1. fc_inc W fc e = Some (fc1, e1) \<and> fc_parts fc1 = fst (advance (fc_parts fc)) \<and> fc_ended fc1 = snd (advance (fc_parts fc)) \<and>
    counts (fc_value fc1) (count_of fs (current (fc_parts fc1))) \<and> same_outside R A k0 (ue_key e1) \<and> ue_value e1 = ue_value e \<and>
    map (reads (ue_key e1)) pss = map ue_key (current (fc_parts fc1))"
proof -
  let ?new = "fst (advance (fc_parts fc))"
  have len: "length (ue_key e) = length R" using so by (simp add: same_outside_def)
  have range: "\<forall>x \<in> set (concat (map part_poss (fc_parts fc))). unat x < length (ue_key e)" using lay len unfolding pss layout_ok_def by simp
  have B1: "1 * bound_of fs \<le> B" and v1: "counts (fc_value fc) (1 * count_of fs (current (fc_parts fc)))" using B(1) v by simp_all
  have z: "0 < (1 :: nat)" by simp
  from inc_loop_spec[OF parts v1 z B1 B(2) range] obtain v where v: "inc_loop W (fc_parts fc) (fc_value fc) e =
      Some (?new, v, e\<lparr>ue_key := written ?new (ue_key e)\<rparr>, snd (advance (fc_parts fc)))" "counts v (count_of fs (current ?new))"
    by auto
  have same: "map part_poss ?new = pss" using pss by (simp add: advance_poss)
  have "map (reads (written ?new (ue_key e))) (map part_poss ?new) = map ue_key (current ?new)"
  proof (rule written_reads)
    show "distinct (concat (map part_poss ?new))" "\<forall>p \<in> set (concat (map part_poss ?new)). unat p < length (ue_key e)"
      unfolding same using lay len by (auto simp: layout_ok_def)
    show "\<forall>(rs, poss, i) \<in> set ?new. length (ue_key (rs ! i)) = length poss"
      using parts_ok_facts(2)[OF parts_ok_facts(6)[OF parts]] by auto
  qed
  moreover have "same_outside R A k0 (written ?new (ue_key e))"
    by (rule same_outside_written[OF so]) (unfold same, use lay in \<open>auto simp: layout_ok_def\<close>)
  ultimately show ?thesis using v unfolding same by (simp add: fc_inc_def)
qed

text \<open>What the value written for a combination has to stand for.\<close>

definition value_ok :: "('w \<Rightarrow> 'w user_entry \<Rightarrow> 'w user_entry) \<Rightarrow> nat \<Rightarrow> nat \<Rightarrow> bool" where
  "value_ok value_of n M \<longleftrightarrow> (\<forall>w m e. counts w m \<longrightarrow> 0 < m \<longrightarrow> m \<le> M \<longrightarrow> (vo_bool W \<longrightarrow> vo_true W (ue_value e)) \<longrightarrow>
     ue_key (value_of w e) = ue_key e \<and> counts (ue_value (value_of w e)) (n * m))"

lemma values_ok:
  assumes "counts v n" "0 < n" "n * M \<le> B" "small (B * B)"
  shows "value_ok (generated_value W v) n M" "value_ok (single_value W v) n M"
proof -
  have "small (n * m)" if "m \<le> M" for m
  proof -
    have "n * m \<le> n * M" using that by simp
    also have "\<dots> \<le> B" by (rule assms(3))
    also have "\<dots> \<le> B * B" by (cases B) auto
    finally show ?thesis by (rule small_le[OF assms(4)])
  qed
  then have m: "counts (vo_mult W v w) (n * m)" if "counts w m" "m \<le> M" for w m using mult[OF assms(1) that(1)] that(2) by simp
  show "value_ok (generated_value W v) n M" "value_ok (single_value W v) n M"
    unfolding value_ok_def using m bool_true assms(2) by (auto simp: generated_value_def single_value_def)
qed

lemma rounds_spec:
  assumes lay: "layout_ok R A (poss # pss)" and B: "bound_of fs \<le> B" "small (B * B)" and key: "length key = length poss"
    and val: "value_ok value_of n (bound_of fs)" and n: "0 < n"
    and parts: "list_all2 (part_ok counts) (fc_parts fc) fs" "map part_poss (fc_parts fc) = pss"
    and v: "counts (fc_value fc) (count_of fs (current (fc_parts fc)))" and ended: "\<not> fc_ended fc"
    and so: "same_outside R A k0 (ue_key e)" and at: "map (reads (ue_key e)) pss = map ue_key (current (fc_parts fc))"
    and e: "vo_bool W \<longrightarrow> vo_true W (ue_value e)"
  shows "\<exists>ys e'. cartesian_rounds W poss key value_of fc e = Some (ys, e') \<and>
    list_all2 (\<lambda>y c. counts (ue_value y) (n * count_of fs c) \<and> 0 < count_of fs c \<and> shown R A k0 (poss # pss) (key # map ue_key c) (ue_key y))
      ys (combos (fc_parts fc)) \<and>
    same_outside R A k0 (ue_key e') \<and> vo_true W (ue_value e')"
  using parts v ended so at e
proof (induction "combos (fc_parts fc)" arbitrary: fc e)
  case Nil
  then show ?case using combos_current[OF parts_ok_facts(1)[OF Nil.prems(1)]] by simp
next
  case (Cons c cs)
  note parts = Cons.prems(1,2) and v = Cons.prems(3) and so = Cons.prems(5)
  note facts = parts_ok_facts[OF parts(1)]
  from combos_current[OF facts(1)] Cons.hyps(2) have c: "c = current (fc_parts fc)" by auto
  let ?k = "overwrite poss key (ue_key e)"
  let ?e1 = "e\<lparr>ue_key := ?k\<rparr>"
  define e2 where "e2 = value_of (fc_value fc) ?e1"
  have len: "length (ue_key e) = length R" using so by (simp add: same_outside_def)
  have range: "\<forall>p \<in> set poss. unat p < length (ue_key e)" and dist: "distinct poss" "distinct (poss @ concat pss)"
    using lay len by (auto simp: layout_ok_def)
  have w: "updateEntryKey poss 0 key e = Some ?e1" using updateEntryKey_overwrite[OF _ range, of key 0] key by simp
  have m: "0 < count_of fs c" "count_of fs c \<le> bound_of fs" using facts(3,4) c by simp_all
  have "vo_bool W \<longrightarrow> vo_true W (ue_value ?e1)" using Cons.prems(7) by simp
  then have e2: "ue_key e2 = ?k" "counts (ue_value e2) (n * count_of fs c)"
    using val[unfolded value_ok_def, rule_format, of "fc_value fc" "count_of fs c" ?e1] v c m by (simp_all add: e2_def)
  have so1: "same_outside R A k0 (ue_key e2)" unfolding e2(1)
    by (rule overwrite_same_outside[OF so]) (use lay in \<open>simp add: layout_ok_def\<close>)
  have "reads ?k poss = key" by (rule overwrite_reads[OF dist(1) range key])
  moreover have "map (reads ?k) pss = map ue_key c"
    using overwrite_keeps_reads[OF dist(2), of key "ue_key e"] Cons.prems(6) c by simp
  ultimately have shown: "shown R A k0 (poss # pss) (key # map ue_key c) (ue_key e2)" using so1 by (simp add: shown_def e2(1))
  have true: "vo_true W (fc_value fc)" "vo_true W (ue_value e2)" using true_iff[OF v] true_iff[OF e2(2)] m(1) n c by simp_all
  from fc_inc_spec[OF parts lay B so1 v] obtain fc1 e3 where inc: "fc_inc W fc e2 = Some (fc1, e3)"
    "fc_parts fc1 = fst (advance (fc_parts fc))" "fc_ended fc1 = snd (advance (fc_parts fc))"
    "counts (fc_value fc1) (count_of fs (current (fc_parts fc1)))" "same_outside R A k0 (ue_key e3)" "ue_value e3 = ue_value e2"
    "map (reads (ue_key e3)) pss = map ue_key (current (fc_parts fc1))" by blast
  have "\<exists>ys e'. cartesian_rounds W poss key value_of fc1 e3 = Some (ys, e') \<and>
    list_all2 (\<lambda>y c. counts (ue_value y) (n * count_of fs c) \<and> 0 < count_of fs c \<and> shown R A k0 (poss # pss) (key # map ue_key c) (ue_key y)) ys cs \<and>
    same_outside R A k0 (ue_key e') \<and> vo_true W (ue_value e')"
  proof (cases "fc_ended fc1")
    case True
    then have "cs = []" using inc(3) advance_combos(2)[OF facts(1)] Cons.hyps(2) by (metis list.sel(3))
    then show ?thesis using True inc(5,6) true(2) by (subst cartesian_rounds.simps) simp
  next
    case False
    then have "\<not> snd (advance (fc_parts fc))" using inc(3) by simp
    then have "cs = combos (fc_parts fc1)" unfolding inc(2) using advance_combos(3)[OF facts(1)] Cons.hyps(2) by (metis list.sel(3))
    moreover have "list_all2 (part_ok counts) (fc_parts fc1) fs" "map part_poss (fc_parts fc1) = pss"
      unfolding inc(2) using facts(6) parts(2) by (simp_all add: advance_poss)
    ultimately show ?thesis using Cons.hyps(1)[OF _ _ _ inc(4) False inc(5,7)] inc(6) true(2) by simp
  qed
  then obtain ys e' where r: "cartesian_rounds W poss key value_of fc1 e3 = Some (ys, e')"
    "list_all2 (\<lambda>y c. counts (ue_value y) (n * count_of fs c) \<and> 0 < count_of fs c \<and> shown R A k0 (poss # pss) (key # map ue_key c) (ue_key y)) ys cs"
    "same_outside R A k0 (ue_key e')" "vo_true W (ue_value e')" by blast
  have "cartesian_rounds W poss key value_of fc e = Some (e2 # ys, e')"
    by (subst cartesian_rounds.simps) (simp add: Cons.prems(4) w true(1) e2_def[symmetric] true(2) inc(1) r(1) Let_def)
  then show ?case using r(2-4) shown e2(2) m(1) Cons.hyps(2)[symmetric] by simp
qed

end

subsection \<open>The solutions the combinations stand for\<close>

text \<open>The results of a part are complete: every key that has solutions is there, once.\<close>

definition part_complete :: "'w part \<Rightarrow> part_count \<Rightarrow> bool" where
  "part_complete part fM \<longleftrightarrow> distinct (map ue_key (fst part)) \<and> (\<forall>k. 0 < fst fM k \<longrightarrow> k \<in> ue_key ` set (fst part))"

lemma part_complete_sum:
  assumes "distinct (map ue_key rs)" "0 < f k \<Longrightarrow> k \<in> ue_key ` set rs"
  shows "(\<Sum>r\<leftarrow>rs. if k = ue_key r then f (ue_key r) else 0) = (f k :: nat)"
proof -
  have "(\<Sum>r\<leftarrow>rs. if k = ue_key r then f (ue_key r) else 0) = (\<Sum>k'\<leftarrow>map ue_key rs. if k = k' then f k' else 0)" by (simp add: comp_def)
  also have "\<dots> = (\<Sum>k' \<in> set (map ue_key rs). if k = k' then f k' else 0)" by (rule sum_list_distinct_conv_sum_set[OF assms(1)])
  also have "\<dots> = (if k \<in> set (map ue_key rs) then f k else 0)" by simp
  finally show ?thesis using assms(2) by auto
qed

abbreviation counts_at :: "part_count list \<Rightarrow> label_pos list list \<Rightarrow> key_part list \<Rightarrow> nat" where
  "counts_at fs pss k \<equiv> prod_list (map2 (\<lambda>(f, M) ps. f (reads k ps)) fs pss)"

lemma matching_combos:
  assumes "list_all2 part_complete parts fs" "map part_poss parts = pss"
  shows "(\<Sum>c\<leftarrow>combos (restarted parts). if map (reads k) pss = map ue_key c then count_of fs c else 0) = counts_at fs pss k"
proof -
  let ?F = "map2 (\<lambda>(f, M) ps r. if reads k ps = ue_key r then f (ue_key r) else 0) fs pss"
  have len: "length fs = length parts" "length pss = length parts" using assms by (auto simp: list_all2_lengthD)
  have combo_len: "length c = length parts" if "c \<in> set (combos parts)" for c and parts :: "'a part list"
  proof -
    have "\<forall>c \<in> set (combos parts). length c = length parts"
    proof (induction parts rule: combos.induct)
      case (2 rs poss i parts)
      then show ?case by (cases "combos parts") auto
    qed simp
    then show ?thesis using that by blast
  qed
  have "(if map (reads k) pss = map ue_key c then count_of fs c else 0) = prod_list (map2 (\<lambda>f r. f r) ?F c)"
    if "length c = length parts" for c :: "'a user_entry list"
  proof -
    have l: "length c = length pss" "length fs = length pss" using that len by simp_all
    show ?thesis using l
    proof (induction c pss arbitrary: fs rule: list_induct2)
      case (Cons r c ps pss)
      then obtain f M fs' where "fs = (f, M) # fs'" by (cases fs) auto
      then show ?case using Cons.IH[of fs'] Cons.prems by auto
    qed simp
  qed
  then have "(\<Sum>c\<leftarrow>combos (restarted parts). if map (reads k) pss = map ue_key c then count_of fs c else 0) =
      (\<Sum>c\<leftarrow>combos (restarted parts). prod_list (map2 (\<lambda>f r. f r) ?F c))"
    using combo_len[of _ "restarted parts"] by (intro arg_cong[of _ _ sum_list] map_cong refl) simp
  also have "\<dots> = (\<Prod>(f, rs, poss, i)\<leftarrow>zip ?F parts. \<Sum>r\<leftarrow>rs. f r)" by (rule sum_combos) (simp add: len)
  also have "\<dots> = counts_at fs pss k"
    unfolding assms(2)[symmetric] using assms(1)
  proof (induction rule: list_all2_induct)
    case (Cons part parts fM fs)
    obtain rs poss i f M where p: "part = (rs, poss, i)" "fM = (f, M)" by (cases part, cases fM)
    have "(\<Sum>r\<leftarrow>rs. if reads k poss = ue_key r then f (ue_key r) else 0) = f (reads k poss)"
      by (rule part_complete_sum) (use Cons.hyps(1) in \<open>auto simp: p part_complete_def\<close>)
    then show ?case using Cons.IH by (simp add: p)
  qed simp
  finally show ?thesis .
qed

lemma rounds_weight:
  assumes lay: "layout_ok R A (poss # pss)" and ys: "list_all2 (\<lambda>y c. shown R A k0 (poss # pss) (key # map ue_key c) (ue_key y)) ys cs"
  shows "weight (zip ys (map (\<lambda>c. n * count_of fs c) cs)) k =
    (if same_outside R A k0 k \<and> reads k poss = key then n * (\<Sum>c\<leftarrow>cs. if map (reads k) pss = map ue_key c then count_of fs c else 0) else 0)"
  using ys
proof (induction rule: list_all2_induct)
  case (Cons y ys c cs)
  have "ue_key y = k \<longleftrightarrow> shown R A k0 (poss # pss) (key # map ue_key c) k" using shown_unique[OF lay Cons.hyps(1)] by auto
  also have "\<dots> \<longleftrightarrow> same_outside R A k0 k \<and> reads k poss = key \<and> map (reads k) pss = map ue_key c" by (auto simp: shown_def)
  finally show ?case using Cons.IH by (simp add: add_mult_distrib2)
qed simp

context value_type
begin

text \<open>The combinations for one entry of the iterated part.\<close>

lemma rounds_from_begin:
  assumes lay: "layout_ok R A (poss # pss)" and B: "bound_of fs \<le> B" "small (B * B)" and key: "length key = length poss"
    and val: "value_ok value_of n (bound_of fs)" and n: "0 < n"
    and parts: "list_all2 (part_ok counts) (fc_parts fc) fs" "list_all2 part_complete (fc_parts fc) fs" "map part_poss (fc_parts fc) = pss"
    and so: "same_outside R A k0 (ue_key e)" and e: "vo_bool W \<longrightarrow> vo_true W (ue_value e)"
  shows "\<exists>fc1 e1 ys e'. fc_begin W fc e = Some (fc1, e1) \<and> cartesian_rounds W poss key value_of fc1 e1 = Some (ys, e') \<and>
    yields_count counts (\<lambda>k. if same_outside R A k0 k \<and> reads k poss = key then n * counts_at fs pss k else 0) ys \<and>
    same_outside R A k0 (ue_key e') \<and> vo_true W (ue_value e')"
proof -
  from fc_begin_spec[OF parts(1,3) lay B so] obtain fc1 e1 where b: "fc_begin W fc e = Some (fc1, e1)" "fc_parts fc1 = restarted (fc_parts fc)"
    "\<not> fc_ended fc1" "counts (fc_value fc1) (count_of fs (current (fc_parts fc1)))" "same_outside R A k0 (ue_key e1)"
    "ue_value e1 = ue_value e" "map (reads (ue_key e1)) pss = map ue_key (current (fc_parts fc1))" by blast
  have restart: "list_all2 (part_ok counts) (fc_parts fc1) fs" unfolding b(2) by (rule parts_ok_facts(5)[OF parts(1)])
  have pss: "map part_poss (fc_parts fc1) = pss" using parts(3) unfolding b(2) by (simp add: comp_def case_prod_beta')
  have e1: "vo_bool W \<longrightarrow> vo_true W (ue_value e1)" using e b(6) by simp
  from rounds_spec[OF lay B key val n restart pss b(4,3,5,7) e1] obtain ys e' where r:
    "cartesian_rounds W poss key value_of fc1 e1 = Some (ys, e')"
    "list_all2 (\<lambda>y c. counts (ue_value y) (n * count_of fs c) \<and> 0 < count_of fs c \<and> shown R A k0 (poss # pss) (key # map ue_key c) (ue_key y))
      ys (combos (fc_parts fc1))" "same_outside R A k0 (ue_key e')" "vo_true W (ue_value e')" by blast
  let ?cs = "combos (fc_parts fc1)"
  have "list_all2 (\<lambda>y m. counts (ue_value y) m \<and> 0 < m) ys (map (\<lambda>c. n * count_of fs c) ?cs)"
    using r(2) n by (auto simp: list_all2_map2 elim!: list_all2_mono)
  moreover have "weight (zip ys (map (\<lambda>c. n * count_of fs c) ?cs)) k =
      (if same_outside R A k0 k \<and> reads k poss = key then n * counts_at fs pss k else 0)" for k
  proof -
    have "list_all2 (\<lambda>y c. shown R A k0 (poss # pss) (key # map ue_key c) (ue_key y)) ys ?cs" using r(2) by (rule list_all2_mono) simp
    note rounds_weight[OF lay this, of n fs k]
    then show ?thesis unfolding b(2) matching_combos[OF parts(2,3)] .
  qed
  ultimately have "yields_count counts (\<lambda>k. if same_outside R A k0 k \<and> reads k poss = key then n * counts_at fs pss k else 0) ys"
    unfolding yields_count_def by blast
  then show ?thesis using b(1) r(1,3,4) by blast
qed

lemma cartesian_loop_spec:
  assumes lay: "layout_ok R A (poss # pss)" and B: "bound_of fs \<le> B" "small (B * B)"
    and parts: "list_all2 (part_ok counts) (fc_parts fc) fs" "list_all2 part_complete (fc_parts fc) fs" "map part_poss (fc_parts fc) = pss"
    and ys: "list_all2 (\<lambda>y n. counts (ue_value y) n \<and> 0 < n \<and> length (ue_key y) = length poss \<and> n * bound_of fs \<le> B) ys ns"
    and so: "same_outside R A k0 (ue_key e)" and e: "vo_bool W \<longrightarrow> vo_true W (ue_value e)"
  shows "\<exists>zs e'. cartesian_loop W poss fc ys e = Some (zs, e') \<and>
    yields_count counts (\<lambda>k. if same_outside R A k0 k then weight (zip ys ns) (reads k poss) * counts_at fs pss k else 0) zs \<and>
    same_outside R A k0 (ue_key e') \<and> (vo_bool W \<longrightarrow> vo_true W (ue_value e'))"
  using ys so e
proof (induction arbitrary: e rule: list_all2_induct)
  case Nil
  then show ?case by (simp add: yields_count_Nil cong: if_cong)
next
  case (Cons y ys n ns)
  have y: "counts (ue_value y) n" "0 < n" "length (ue_key y) = length poss" "n * bound_of fs \<le> B" using Cons.hyps(1) by auto
  from rounds_from_begin[OF lay B y(3) values_ok(1)[OF y(1,2,4) B(2)] y(2) parts Cons.prems] obtain fc1 e1 us e2 where u:
    "fc_begin W fc e = Some (fc1, e1)" "cartesian_rounds W poss (ue_key y) (generated_value W (ue_value y)) fc1 e1 = Some (us, e2)"
    "yields_count counts (\<lambda>k. if same_outside R A k0 k \<and> reads k poss = ue_key y then n * counts_at fs pss k else 0) us"
    "same_outside R A k0 (ue_key e2)" "vo_true W (ue_value e2)" by blast
  from Cons.IH[OF u(4)] u(5) obtain zs e' where z: "cartesian_loop W poss fc ys e2 = Some (zs, e')"
    "yields_count counts (\<lambda>k. if same_outside R A k0 k then weight (zip ys ns) (reads k poss) * counts_at fs pss k else 0) zs"
    "same_outside R A k0 (ue_key e')" "vo_bool W \<longrightarrow> vo_true W (ue_value e')" by blast
  have "cartesian_loop W poss fc (y # ys) e = Some (us @ zs, e')" using u(1,2) z(1) true_iff[OF y(1)] y(2) by simp
  moreover have "yields_count counts (\<lambda>k. if same_outside R A k0 k then weight (zip (y # ys) (n # ns)) (reads k poss) * counts_at fs pss k else 0) (us @ zs)"
    by (rule yields_count_cong[OF yields_count_append[OF u(3) z(2)]]) (auto simp: add_mult_distrib)
  ultimately show ?case using z(3,4) by blast
qed

end

end
