(* ===== verification/Einsum_Parts.thy ===== *)
theory Einsum_Parts
  imports Einsum_Rounds
begin

text \<open>
  The parts of a Cartesian product: the subscripts of the connected components with their operands and their
  positions in the result, and the results computed for them in advance.
\<close>

subsection \<open>The subscript of a component\<close>

abbreviation sub_raw :: "sc_library \<Rightarrow> raw_subscript \<Rightarrow> label list \<Rightarrow> raw_subscript" where
  "sub_raw L rs c \<equiv> fst (extractCartesianSubSubscript L rs c)"

abbreviation part_result :: "raw_subscript \<Rightarrow> label list \<Rightarrow> label list" where
  "part_result rs c \<equiv> filter (\<lambda>l. l \<in> set c) (rs_result rs)"

definition result_poss_of :: "raw_subscript \<Rightarrow> label list \<Rightarrow> label_pos list" where
  "result_poss_of rs c = map of_nat (result_idx c (rs_result rs))"

lemma sub_raw_fields:
  "rs_operands (sub_raw L rs c) = component_operands c (rs_operands rs)"
  "rs_result (sub_raw L rs c) = part_result rs c"
  "fst (snd (extractCartesianSubSubscript L rs c)) = map of_nat (component_idx c (rs_operands rs))"
  "snd (snd (extractCartesianSubSubscript L rs c)) = result_poss_of rs c"
  by (simp_all add: extractCartesianSubSubscript_def extract_operands_conv extract_result_conv new_raw_subscript_def
      component_operands_def component_idx_def result_poss_of_def result_idx_def comp_def)

lemma sub_raw_ok:
  assumes "summation_ok W rs" "components_of (label_rel (rs_operands rs)) (labels_of (rs_operands rs)) cs" "c \<in> set cs"
  shows "summation_ok W (sub_raw L rs c)" "labels_of (rs_operands (sub_raw L rs c)) = set c"
proof -
  have sub: "set c \<subseteq> labels_of (rs_operands rs)" using assms(2,3) by (auto simp: components_of_def)
  show labels: "labels_of (rs_operands (sub_raw L rs c)) = set c" unfolding sub_raw_fields by (rule component_operands_labels[OF sub])
  have "length (component_operands c (rs_operands rs)) \<le> length (rs_operands rs)"
    unfolding component_operands_def by (rule order_trans[OF length_filter_le]) simp
  moreover have "length (part_result rs c) \<le> 256"
    by (rule order_trans[OF length_filter_le]) (use assms(1) in \<open>simp add: summation_ok_def subscript_wf_def\<close>)
  moreover have "[] \<notin> set (component_operands c (rs_operands rs))" by (simp add: component_operands_def)
  ultimately have wf: "subscript_wf (sub_raw L rs c)" using assms(1) by (simp add: summation_ok_def subscript_wf_def sub_raw_fields)
  have "set c \<subseteq> set (part_result rs c) \<or> set c \<inter> set (part_result rs c) = {}"
    if "labels_of (rs_operands rs) \<subseteq> set (rs_result rs) \<or> labels_of (rs_operands rs) \<inter> set (rs_result rs) = {}"
    using that sub by auto
  then show "summation_ok W (sub_raw L rs c)" using wf assms(1) unfolding summation_ok_def labels unfolding sub_raw_fields by blast
qed

lemma component_inputs:
  assumes ok: "inputs_ok T U \<sigma> ops Es hs" and comps: "components_of (label_rel ops) (labels_of ops) cs" "c \<in> set cs"
  shows "inputs_ok T U \<sigma> (component_operands c ops) (component_entries c ops Es) (map ((!) hs) (component_idx c ops))"
proof -
  have idx: "component_idx c ops ! j < length ops" if "j < length (component_idx c ops)" for j
    using nth_mem[OF that] component_idx_set[OF comps] by blast
  show ?thesis
    unfolding inputs_ok_def component_operands_nth[OF comps] component_entries_def
    using inputs_okD(1-4)[OF ok idx] by simp
qed

text \<open>The number of solutions of a component for a key of its result.\<close>

definition part_solutions :: "operand_sc list \<Rightarrow> 'v entry set list \<Rightarrow> label list \<Rightarrow> (label \<Rightarrow> key_part) set" where
  "part_solutions ops Es c = solutions (component_operands c ops) (component_entries c ops Es)"

definition part_counts :: "raw_subscript \<Rightarrow> 'v entry set list \<Rightarrow> label list \<Rightarrow> key_part list \<Rightarrow> nat" where
  "part_counts rs Es c k = card {\<beta> \<in> part_solutions (rs_operands rs) Es c. map \<beta> (part_result rs c) = k}"

lemma part_counts_le:
  assumes "finite (part_solutions (rs_operands rs) Es c)"
  shows "part_counts rs Es c k \<le> card (part_solutions (rs_operands rs) Es c)"
    "0 < part_counts rs Es c k \<Longrightarrow> length k = length (part_result rs c)"
proof -
  show "part_counts rs Es c k \<le> card (part_solutions (rs_operands rs) Es c)"
    unfolding part_counts_def by (rule card_mono[OF assms]) blast
  assume "0 < part_counts rs Es c k"
  then have "{\<beta> \<in> part_solutions (rs_operands rs) Es c. map \<beta> (part_result rs c) = k} \<noteq> {}"
    unfolding part_counts_def by (metis card.empty less_nat_zero_code)
  then show "length k = length (part_result rs c)" by (metis (mono_tags, lifting) empty_Collect_eq length_map)
qed

lemma part_counts_done: "part_result rs c = [] \<Longrightarrow> part_counts rs Es c [] = card (part_solutions (rs_operands rs) Es c)"
  by (simp add: part_counts_def)

lemma reads_result_poss:
  assumes "length (rs_result rs) \<le> 256"
  shows "reads k (result_poss_of rs c) = map ((!) k) (result_idx c (rs_result rs))"
  using assms by (auto simp: result_poss_of_def result_idx_def unat_pos)

text \<open>The solutions of a subscript are the products over its components.\<close>

lemma solutions_of_parts:
  assumes comps: "components_of (label_rel (rs_operands rs)) (labels_of (rs_operands rs)) cs" and len: "length Es = length (rs_operands rs)"
    and ne: "\<forall>op \<in> set (rs_operands rs). op \<noteq> []" and R: "length (rs_result rs) \<le> 256"
  shows "card {\<alpha> \<in> solutions (rs_operands rs) Es. hits (rs_result rs) (labels_of (rs_operands rs)) k0 k \<alpha>} =
    (if same_outside (rs_result rs) (labels_of (rs_operands rs)) k0 k then (\<Prod>c\<leftarrow>cs. part_counts rs Es c (reads k (result_poss_of rs c))) else 0)"
proof (cases "same_outside (rs_result rs) (labels_of (rs_operands rs)) k0 k")
  case True
  then show ?thesis
    unfolding count_components[OF comps len ne True] part_counts_def part_solutions_def reads_result_poss[OF R] by simp
next
  case False
  then have "{\<alpha> \<in> solutions (rs_operands rs) Es. hits (rs_result rs) (labels_of (rs_operands rs)) k0 k \<alpha>} = {}"
    using hits_same by blast
  then show ?thesis using False by simp
qed

subsection \<open>Bounds\<close>

lemma component_idx_distinct:
  assumes comps: "components_of (label_rel ops) (labels_of ops) cs"
  shows "distinct (concat (map (\<lambda>c. component_idx c ops) cs))"
proof -
  have "distinct (concat (map (\<lambda>c. component_idx c ops) cs'))"
    if "set cs' \<subseteq> set cs" "distinct (concat cs')" for cs'
    using that
  proof (induction cs')
    case (Cons c cs')
    have "set (component_idx c ops) \<inter> set (component_idx c' ops) = {}" if "c' \<in> set cs'" for c'
    proof (rule ccontr)
      assume "set (component_idx c ops) \<inter> set (component_idx c' ops) \<noteq> {}"
      then obtain i where i: "i \<in> set (component_idx c ops)" "i \<in> set (component_idx c' ops)" by blast
      have cc: "c \<in> set cs" "c' \<in> set cs" using Cons.prems(1) that by auto
      have "ops ! i \<noteq> []" "set (ops ! i) \<subseteq> set c" "set (ops ! i) \<subseteq> set c'"
        using i component_idx_set[OF comps cc(1)] component_idx_set[OF comps cc(2)] by auto
      then have "set c \<inter> set c' \<noteq> {}" by (cases "ops ! i") auto
      then show False using Cons.prems(2) that by auto
    qed
    then show ?case using Cons by (auto simp: component_idx_def)
  qed simp
  then show ?thesis using comps by (simp add: components_of_def)
qed

lemma bound_of_components:
  assumes comps: "components_of (label_rel ops) (labels_of ops) cs" and Es: "length Es = length ops" "\<forall>E \<in> set Es. finite E \<and> E \<noteq> {}"
  shows "(\<Prod>c\<leftarrow>cs. bound (component_entries c ops Es)) \<le> bound Es" "c \<in> set cs \<Longrightarrow> 0 < bound (component_entries c ops Es)"
proof -
  let ?I = "concat (map (\<lambda>c. component_idx c ops) cs)"
  have sub: "set ?I \<subseteq> {..<length Es}" using Es(1) by (auto simp: component_idx_def)
  have card: "0 < card (Es ! i)" if "i < length Es" for i using Es(2) that by (simp add: card_gt_0_iff)
  have "(\<Prod>c\<leftarrow>cs'. bound (component_entries c ops Es)) = prod_list (map (\<lambda>i. card (Es ! i)) (concat (map (\<lambda>c. component_idx c ops) cs')))" for cs'
    by (induction cs') (simp_all add: bound_def component_entries_def comp_def)
  then have "(\<Prod>c\<leftarrow>cs. bound (component_entries c ops Es)) = (\<Prod>i \<in> set ?I. card (Es ! i))"
    using prod.distinct_set_conv_list[OF component_idx_distinct[OF comps], of "\<lambda>i. card (Es ! i)"] by simp
  also have "\<dots> \<le> (\<Prod>i<length Es. card (Es ! i))"
    by (rule dvd_imp_le[OF prod_dvd_prod_subset[OF _ sub]]) (use card in \<open>auto intro!: prod_pos\<close>)
  also have "\<dots> = bound Es" by (simp add: bound_def prod.list_conv_set_nth atLeast0LessThan)
  finally show "(\<Prod>c\<leftarrow>cs. bound (component_entries c ops Es)) \<le> bound Es" .
  have pos: "0 < prod_list (map card Fs)" if "\<forall>F \<in> set Fs. 0 < card F" for Fs :: "'a entry set list" using that by (induction Fs) auto
  show "0 < bound (component_entries c ops Es)"
    unfolding bound_def by (rule pos) (use card Es(1) in \<open>auto simp: component_entries_def component_idx_def\<close>)
qed

subsection \<open>The positions of the parts\<close>

abbreviation all_but :: "nat \<Rightarrow> 'a list \<Rightarrow> 'a list" where
  "all_but i xs \<equiv> take i xs @ drop (Suc i) xs"

lemma set_all_but: "set (all_but i xs) \<subseteq> set xs"
  using set_take_subset[of i xs] set_drop_subset[of "Suc i" xs] by auto

lemma prod_all_but:
  fixes g :: "'a \<Rightarrow> nat"
  assumes "i < length xs"
  shows "(\<Prod>x\<leftarrow>xs. g x) = g (xs ! i) * (\<Prod>x\<leftarrow>all_but i xs. g x)"
proof -
  have "(\<Prod>x\<leftarrow>xs. g x) = (\<Prod>x\<leftarrow>take i xs @ xs ! i # drop (Suc i) xs. g x)" using id_take_nth_drop[OF assms] by simp
  then show ?thesis by simp
qed

lemma layout_of_parts:
  assumes comps: "distinct (concat cs)" "\<Union> (set ` set cs) = A" and R: "length (rs_result rs) \<le> 256"
    and i: "i < length cs"
  shows "layout_ok (rs_result rs) A (result_poss_of rs (cs ! i) # map (result_poss_of rs) (all_but i cs))"
proof -
  let ?R = "rs_result rs" and ?I = "\<lambda>cs. concat (map (\<lambda>c. result_idx c (rs_result rs)) cs)"
  have "distinct (?I cs)" if "distinct (concat cs)" for cs
    using that by (induction cs) (auto simp: result_idx_def)
  then have dist: "distinct (?I cs)" using comps(1) by blast
  have less: "\<forall>j \<in> set (?I cs). j < 256" using R by (auto simp: result_idx_def)
  have concat: "concat (map (result_poss_of rs) cs) = map of_nat (?I cs)" for cs
    by (induction cs) (simp_all add: result_poss_of_def)
  have "inj_on (of_nat :: nat \<Rightarrow> label_pos) (set (?I cs))"
    using less by (intro inj_onI) (metis unat_pos)
  then have d: "distinct (concat (map (result_poss_of rs) cs))" unfolding concat distinct_map using dist by blast
  have u: "unat ` set (concat (map (result_poss_of rs) cs)) = set (?I cs)"
  proof -
    have "unat ` set (concat (map (result_poss_of rs) cs)) = (\<lambda>j. unat (of_nat j :: label_pos)) ` set (?I cs)"
      unfolding concat set_map by (rule image_image)
    also have "\<dots> = (\<lambda>j. j) ` set (?I cs)" by (rule image_cong[OF refl]) (use less in \<open>metis unat_pos\<close>)
    finally show ?thesis by simp
  qed
  have I: "set (?I cs) = {j. j < length ?R \<and> ?R ! j \<in> A}" using comps(2) by (auto simp: result_idx_def)
  have "cs = take i cs @ cs ! i # drop (Suc i) cs" using id_take_nth_drop[OF i] .
  then have split: "concat (map (result_poss_of rs) cs) = concat (map (result_poss_of rs) (take i cs)) @ result_poss_of rs (cs ! i) @
      concat (map (result_poss_of rs) (drop (Suc i) cs))" by (metis append.assoc concat.simps(2) concat_append list.simps(9) map_append)
  let ?all = "result_poss_of rs (cs ! i) # map (result_poss_of rs) (all_but i cs)"
  have "set (concat ?all) = set (concat (map (result_poss_of rs) cs))" unfolding split by auto
  moreover have "distinct (concat ?all)" using d unfolding split by auto
  ultimately show ?thesis
    using u I unfolding layout_ok_def by (metis (mono_tags, lifting) imageI mem_Collect_eq)
qed

end
