(* ===== verification/Einsum_Cartesian.thy ===== *)
theory Einsum_Cartesian
  imports Einsum_Parts
begin

text \<open>
  The Cartesian operator is correct: if the operators it calls count the solutions of the parts, it counts the
  solutions of the subscript.
\<close>

subsection \<open>The operands of the parts\<close>

abbreviation part_operands :: "raw_subscript \<Rightarrow> 'v hypertrie list \<Rightarrow> label list \<Rightarrow> 'v hypertrie list" where
  "part_operands rs hs c \<equiv> map ((!) hs) (component_idx c (rs_operands rs))"

lemma parts_okD:
  assumes "parts_ok L rs d ca" "i < length (su_components d)"
  shows "length (ca_subs ca) = length (su_components d)" "new_subscript L (sub_raw L rs (su_components d ! i)) Type_None = Some (ca_subs ca ! i)"
    "ca_operand_poss ca = map (\<lambda>c. map of_nat (component_idx c (rs_operands rs))) (su_components d)"
    "ca_result_poss ca = map (result_poss_of rs) (su_components d)"
  using assms by (auto simp: parts_ok_def sub_raw_fields list_all2_conv_all_nth)

lemma extract_operands_spec:
  assumes "parts_ok L rs (sc_data s) (sc_cart s)" "i < length (su_components (sc_data s))" "length hs = length (rs_operands rs)"
    "length (rs_operands rs) \<le> 256"
  shows "extract_operands s i hs = Some (part_operands rs hs (su_components (sc_data s) ! i))"
proof -
  let ?c = "su_components (sc_data s) ! i"
  have "at_index hs (unat (of_nat j :: label_pos)) = Some (hs ! j)" if "j \<in> set (component_idx ?c (rs_operands rs))" for j
    using that assms(3,4) by (auto simp: component_idx_def at_index_def unat_pos)
  then have "option_list (map (\<lambda>j. at_index hs (unat (of_nat j :: label_pos))) (component_idx ?c (rs_operands rs))) =
      Some (part_operands rs hs ?c)" by (rule option_list_map)
  then show ?thesis using parts_okD(3)[OF assms(1,2)] assms(2)
    by (simp add: extract_operands_def getOriginalOperandPoss_def at_index_def comp_def)
qed

text \<open>The iterated part is one of the parts, whatever the estimates are.\<close>

lemma suboperands_loop_spec:
  assumes each: "\<And>i. i < length subs \<Longrightarrow> extract_operands s (n + i) hs = Some (opss ! i)"
    "\<And>i. i < length subs \<Longrightarrow> \<exists>size. estimate V (opss ! i) (subs ! i) = Some size" and len: "length opss = length subs"
  shows "\<exists>it'. suboperands_loop V s hs subs n it mx = Some (it', opss) \<and> (it' = it \<or> n \<le> it' \<and> it' < n + length subs)"
  using each len
proof (induction subs arbitrary: n it mx opss)
  case (Cons sub subs)
  obtain ops opss' where opss: "opss = ops # opss'" using Cons.prems(3) by (cases opss) auto
  have x: "extract_operands s n hs = Some ops" using Cons.prems(1)[of 0] opss by simp
  obtain sz where sz: "estimate V ops sub = Some sz" using Cons.prems(2)[of 0] opss by auto
  have "\<exists>it'. suboperands_loop V s hs subs (Suc n) it mx = Some (it', opss') \<and> (it' = it \<or> Suc n \<le> it' \<and> it' < Suc n + length subs)" for it mx
    using Cons.prems(1)[of "Suc _"] Cons.prems(2)[of "Suc _"] Cons.prems(3) opss by (intro Cons.IH) auto
  from this[of "if do_less (ee_double V) mx sz then n else it" "if do_less (ee_double V) mx sz then sz else mx"]
  obtain it' where "suboperands_loop V s hs subs (Suc n) (if do_less (ee_double V) mx sz then n else it)
      (if do_less (ee_double V) mx sz then sz else mx) = Some (it', opss')"
    "it' = (if do_less (ee_double V) mx sz then n else it) \<or> Suc n \<le> it' \<and> it' < Suc n + length subs" by blast
  then show ?case using x sz opss by (intro exI[of _ it']) (auto simp: Let_def split: if_splits)
qed simp

subsection \<open>The results of a part\<close>

text \<open>A map with the number of solutions for every key that has solutions.\<close>

definition results_count :: "('w \<Rightarrow> nat \<Rightarrow> bool) \<Rightarrow> (key_part list \<Rightarrow> nat) \<Rightarrow> (key_part list \<times> 'w) list \<Rightarrow> bool" where
  "results_count counts f m \<longleftrightarrow> distinct (map fst m) \<and> (\<forall>k. case map_of m k of Some v \<Rightarrow> counts v (f k) \<and> 0 < f k | None \<Rightarrow> f k = 0)"

lemma results_countD:
  assumes "results_count counts f m"
  shows "(k, v) \<in> set m \<Longrightarrow> counts v (f k) \<and> 0 < f k" "m = [] \<Longrightarrow> f k = 0" "0 < f k \<Longrightarrow> k \<in> fst ` set m"
proof -
  have at: "case map_of m k of Some v \<Rightarrow> counts v (f k) \<and> 0 < f k | None \<Rightarrow> f k = 0" and d: "distinct (map fst m)"
    using assms by (auto simp: results_count_def)
  show "(k, v) \<in> set m \<Longrightarrow> counts v (f k) \<and> 0 < f k" using at map_of_is_SomeI[OF d] by auto
  show "m = [] \<Longrightarrow> f k = 0" using at by simp
  show "0 < f k \<Longrightarrow> k \<in> fst ` set m" using at by (cases "map_of m k") (auto dest: map_of_SomeD intro: rev_image_eqI)
qed

context value_type
begin

lemma collect_results_spec:
  assumes "list_all2 (\<lambda>y n. counts (ue_value y) n \<and> 0 < n) ys ns" "results_count counts f m" "\<forall>k. small (f k + weight (zip ys ns) k)"
  shows "\<exists>m'. collect_results W ys m = Some m' \<and> results_count counts (\<lambda>k. f k + weight (zip ys ns) k) m'"
  using assms
proof (induction arbitrary: f m rule: list_all2_induct)
  case (Cons y ys n ns)
  have y: "counts (ue_value y) n" "0 < n" using Cons.hyps(1) by auto
  define g where "g k = f k + (if ue_key y = k then n else 0)" for k
  define m1 where "m1 = (if vo_bool W then AList.update (ue_key y) (vo_one W) m else al_modify (ue_key y) (vo_zero W) (\<lambda>v. vo_add W v (ue_value y)) m)"
  have sm: "small (f (ue_key y) + n)" using small_le[OF spec[OF Cons.prems(2), of "ue_key y"]] by simp
  have at: "case map_of m k of Some v \<Rightarrow> counts v (f k) \<and> 0 < f k | None \<Rightarrow> f k = 0" for k using Cons.prems(1) by (simp add: results_count_def)
  have new: "counts (vo_add W (case map_of m (ue_key y) of None \<Rightarrow> vo_zero W | Some v \<Rightarrow> v) (ue_value y)) (f (ue_key y) + n)"
    using at[of "ue_key y"] zero y(1) sm by (intro add) (auto split: option.splits)
  have "distinct (map fst m1)" using Cons.prems(1) by (simp add: m1_def results_count_def al_modify_def distinct_update)
  moreover have "case map_of m1 k of Some v \<Rightarrow> counts v (g k) \<and> 0 < g k | None \<Rightarrow> g k = 0" for k
  proof (cases "k = ue_key y")
    case True
    have "vo_bool W \<Longrightarrow> counts (vo_one W) (f (ue_key y) + n)" using bool_any[OF _ one] y(2) by simp
    then show ?thesis using True new y(2) by (simp add: m1_def g_def update_conv' al_modify_def)
  next
    case False
    then have "ue_key y \<noteq> k" by simp
    then show ?thesis using False at[of k] by (auto simp: m1_def g_def update_conv' al_modify_def split: option.splits)
  qed
  ultimately have m1: "results_count counts g m1" by (simp add: results_count_def)
  have "\<forall>k. small (g k + weight (zip ys ns) k)" using Cons.prems(2) by (simp add: g_def add.assoc)
  from Cons.IH[OF m1 this] obtain m' where "collect_results W ys m1 = Some m'" "results_count counts (\<lambda>k. g k + weight (zip ys ns) k) m'" by blast
  moreover have "(\<lambda>k. g k + weight (zip ys ns) k) = (\<lambda>k. f k + weight (zip (y # ys) (n # ns)) k)" by (rule ext) (simp add: g_def)
  moreover have "collect_results W (y # ys) m = collect_results W ys m1" using true_iff[OF y(1)] y(2) by (simp add: m1_def)
  ultimately show ?case by simp
qed simp

text \<open>What the operator for a part returns.\<close>

lemma part_sub:
  fixes V :: "('v::zero_neq_one, 'w, 'd) einsum_env"
  assumes W: "ee_value V = W" and L: "set_order (sl_order (ee_lib V))" and wf: "summation_ok W rs"
    and ok: "inputs_ok (ee_htt V) U (ee_storage V) (rs_operands rs) Es hs" and sm: "small (bound Es * bound Es)"
    and sub: "operators_ok counts small U V sub (card (labels_of (rs_operands rs)))"
    and comps: "components_of (label_rel (rs_operands rs)) (labels_of (rs_operands rs)) cs" "1 < length cs" "c \<in> set cs"
    and s: "new_subscript (ee_lib V) (sub_raw (ee_lib V) rs c) Type_None = Some sc"
  shows "su_all_result_done (sc_data sc) \<longleftrightarrow> part_result rs c = []"
    "\<exists>size. estimate V (part_operands rs hs c) sc = Some size"
    "finite (part_solutions (rs_operands rs) Es c)" "card (part_solutions (rs_operands rs) Es c) \<le> bound (component_entries c (rs_operands rs) Es)"
    "part_result rs c = [] \<Longrightarrow> \<exists>ys e'. sub True sc (part_operands rs hs c) (sub_entry_arg W sc) = Some (ys, e') \<and>
       counts (ue_value e') (card (part_solutions (rs_operands rs) Es c)) \<and> ue_key e' = []"
    "part_result rs c \<noteq> [] \<Longrightarrow> \<exists>ys e' ns. sub False sc (part_operands rs hs c) (sub_entry_arg W sc) = Some (ys, e') \<and>
       list_all2 (\<lambda>y n. counts (ue_value y) n \<and> 0 < n) ys ns \<and> (\<forall>k. weight (zip ys ns) k = part_counts rs Es c k)"
proof -
  let ?rs = "sub_raw (ee_lib V) rs c" and ?Es = "component_entries c (rs_operands rs) Es" and ?hs = "part_operands rs hs c"
  let ?e = "sub_entry_arg W sc"
  note rs' = sub_raw_ok[OF wf comps(1,3), of "ee_lib V"]
  have d: "data_ok (ee_lib V) ?rs (sc_data sc)" by (rule data_of_built[OF L s])
  have ok': "inputs_ok (ee_htt V) U (ee_storage V) (rs_operands ?rs) ?Es ?hs"
    unfolding sub_raw_fields by (rule component_inputs[OF ok comps(1,3)])
  have "su_all_result_done (sc_data sc) \<longleftrightarrow> set c \<inter> set (part_result rs c) = {}"
    using d rs'(2) by (simp add: data_ok_def sub_raw_fields)
  also have "\<dots> \<longleftrightarrow> part_result rs c = []" by (auto simp: filter_empty_conv)
  finally show done_c: "su_all_result_done (sc_data sc) \<longleftrightarrow> part_result rs c = []" .
  have wf': "subscript_wf ?rs" using rs'(1) by (simp add: summation_ok_def)
  show "\<exists>size. estimate V (part_operands rs hs c) sc = Some size" by (rule estimate_total[OF L ok' d wf'])
  have "bound ?Es \<le> bound Es" by (rule component_bound[OF inputs_ok_lengths(1)[OF ok] inputs_ok_sets(1)[OF ok]])
  then have sm': "small (bound ?Es * bound ?Es)" using small_le[OF sm] by (simp add: mult_le_mono)
  have "card (labels_of (rs_operands ?rs)) < card (labels_of (rs_operands rs))"
    unfolding rs'(2) by (rule component_smaller[OF comps]) simp
  then have op: "operator_ok counts small U V sub ?rs sc" using sub rs'(1) s W by (simp add: operators_ok_def)
  have len: "length (ue_key ?e) = length (rs_result ?rs)" using d by (simp add: sub_entry_arg_def entry_make_filled_def sc_resultLabelCount_def rs_resultLabelCount_def data_ok_def)
  note promise = op[unfolded operator_ok_def, rule_format, OF ok' sm' len]
  have sols: "solutions (rs_operands ?rs) ?Es = part_solutions (rs_operands rs) Es c" by (simp add: part_solutions_def sub_raw_fields)
  show "finite (part_solutions (rs_operands rs) Es c)" "card (part_solutions (rs_operands rs) Es c) \<le> bound ?Es"
    using inputs_bound(1,2)[OF ok'] unfolding sols by auto
  {
    assume r: "part_result rs c = []"
    then have "single_ok counts (rs_result ?rs) (rs_operands ?rs) ?Es ?e (sub True sc ?hs ?e)" using promise done_c by simp
    then show "\<exists>ys e'. sub True sc (part_operands rs hs c) (sub_entry_arg W sc) = Some (ys, e') \<and>
        counts (ue_value e') (card (part_solutions (rs_operands rs) Es c)) \<and> ue_key e' = []"
      unfolding single_ok_def sols by (auto simp: same_outside_def sub_raw_fields r)
  next
    assume r: "part_result rs c \<noteq> []"
    have "vo_true W (ue_value ?e)" using true_iff[OF one] by (simp add: sub_entry_arg_def entry_make_filled_def)
    then have "run_ok W counts (vo_bool W) (rs_result ?rs) (rs_operands ?rs) ?Es ?e (sub False sc ?hs ?e)" using promise done_c r W by simp
    then obtain ys e' where y: "sub False sc ?hs ?e = Some (ys, e')"
      "yields_count counts (\<lambda>k. card {\<alpha> \<in> solutions (rs_operands ?rs) ?Es. hits (rs_result ?rs) (labels_of (rs_operands ?rs)) (ue_key ?e) k \<alpha>}) ys"
      unfolding run_ok_def by blast
    have "hits (rs_result ?rs) (set c) k0 k \<beta> \<longleftrightarrow> map \<beta> (part_result rs c) = k" for k0 k \<beta>
    proof -
      have "part_result rs c ! i \<in> set c" if "i < length (part_result rs c)" for i using nth_mem[OF that] by simp
      then show ?thesis unfolding hits_def sub_raw_fields by (auto intro: nth_equalityI)
    qed
    then have "yields_count counts (part_counts rs Es c) ys" using y(2) unfolding rs'(2) sols part_counts_def by simp
    then show "\<exists>ys e' ns. sub False sc (part_operands rs hs c) (sub_entry_arg W sc) = Some (ys, e') \<and>
       list_all2 (\<lambda>y n. counts (ue_value y) n \<and> 0 < n) ys ns \<and> (\<forall>k. weight (zip ys ns) k = part_counts rs Es c k)"
      using y(1) unfolding yields_count_def by blast
  }
qed

lemma sub_result_spec:
  fixes V :: "('v::zero_neq_one, 'w, 'd) einsum_env"
  assumes W: "ee_value V = W" and L: "set_order (sl_order (ee_lib V))" and wf: "summation_ok W rs"
    and ok: "inputs_ok (ee_htt V) U (ee_storage V) (rs_operands rs) Es hs" and sm: "small (bound Es * bound Es)"
    and sub: "operators_ok counts small U V sub (card (labels_of (rs_operands rs)))"
    and comps: "components_of (label_rel (rs_operands rs)) (labels_of (rs_operands rs)) cs" "1 < length cs" "c \<in> set cs"
    and s: "new_subscript (ee_lib V) (sub_raw (ee_lib V) rs c) Type_None = Some sc"
  shows "\<exists>m. sub_result W sub sc (part_operands rs hs c) = Some m \<and> results_count counts (part_counts rs Es c) m"
proof -
  note part = part_sub[OF assms]
  note le = part_counts_le[OF part(3)]
  have small_part: "small (part_counts rs Es c k)" for k
  proof -
    have "part_counts rs Es c k \<le> bound Es"
      using le(1)[of k] part(4) component_bound[OF inputs_ok_lengths(1)[OF ok] inputs_ok_sets(1)[OF ok], of c] by linarith
    then show ?thesis using small_le[OF sm] inputs_bound(4)[OF ok] by (meson order_trans)
  qed
  show ?thesis
  proof (cases "part_result rs c = []")
    case True
    from part(5)[OF True] obtain ys e' where r: "sub True sc (part_operands rs hs c) (sub_entry_arg W sc) = Some (ys, e')"
      "counts (ue_value e') (card (part_solutions (rs_operands rs) Es c))" "ue_key e' = []" by blast
    have "part_counts rs Es c k = (if k = [] then card (part_solutions (rs_operands rs) Es c) else 0)" for k
      using le(2)[of k] True part_counts_done[OF True, of Es] by (cases "part_counts rs Es c k") auto
    then have "results_count counts (part_counts rs Es c) (if vo_true W (ue_value e') then [(ue_key e', ue_value e')] else [])"
      using r(2,3) true_iff[OF r(2)] by (auto simp: results_count_def)
    then show ?thesis using r(1) part(1) True by (simp add: sub_result_def)
  next
    case False
    from part(6)[OF False] obtain ys e' ns where r: "sub False sc (part_operands rs hs c) (sub_entry_arg W sc) = Some (ys, e')"
      "list_all2 (\<lambda>y n. counts (ue_value y) n \<and> 0 < n) ys ns" "\<forall>k. weight (zip ys ns) k = part_counts rs Es c k" by blast
    have "results_count counts (\<lambda>k. 0) []" "\<forall>k. small (0 + weight (zip ys ns) k)" using small_part r(3) by (simp_all add: results_count_def)
    from collect_results_spec[OF r(2) this] obtain m where "collect_results W ys [] = Some m"
      "results_count counts (\<lambda>k. 0 + weight (zip ys ns) k) m" by blast
    then show ?thesis using r(1,3) part(1) False by (simp add: sub_result_def)
  qed
qed

lemma sub_results_loop_spec:
  assumes "list_all2 (\<lambda>(s, hs) m. sub_result W sub s hs = Some m) parts ms"
  shows "sub_results_loop W sub it n parts =
    Some (if [] \<in> set (if n \<le> it then all_but (it - n) ms else ms) then None else Some (if n \<le> it then all_but (it - n) ms else ms))"
  using assms
proof (induction arbitrary: n rule: list_all2_induct)
  case (Cons part parts m ms)
  obtain s hs where part: "part = (s, hs)" by (cases part)
  have r: "sub_result W sub s hs = Some m" using Cons.hyps(1) part by simp
  consider "n = it" | "n < it" | "it < n" by linarith
  then show ?case
  proof cases
    case 2
    then have "it - n = Suc (it - Suc n)" by simp
    then show ?thesis using 2 Cons.IH[of "Suc n"] r by (auto simp: part)
  qed (use Cons.IH[of "Suc n"] r in \<open>auto simp: part\<close>)
qed simp

end

subsection \<open>The call\<close>

text \<open>An operator is called with a subscript, the operands for it, and operators for smaller subscripts.\<close>

definition call_ok ::
  "('w \<Rightarrow> nat \<Rightarrow> bool) \<Rightarrow> (nat \<Rightarrow> bool) \<Rightarrow> 'v entry set set \<Rightarrow> ('v::zero_neq_one, 'w, 'd) einsum_env \<Rightarrow> ('v, 'w) sub_operator \<Rightarrow>
    raw_subscript \<Rightarrow> subscript \<Rightarrow> 'v entry set list \<Rightarrow> 'v hypertrie list \<Rightarrow> bool" where
  "call_ok counts small U V sub rs s Es hs \<longleftrightarrow> set_order (sl_order (ee_lib V)) \<and> summation_ok (ee_value V) rs \<and>
     new_subscript (ee_lib V) rs Type_None = Some s \<and> inputs_ok (ee_htt V) U (ee_storage V) (rs_operands rs) Es hs \<and>
     small (bound Es * bound Es) \<and> operators_ok counts small U V sub (card (labels_of (rs_operands rs)))"

lemma call_okD:
  assumes "call_ok counts small U V sub rs s Es hs"
  shows "set_order (sl_order (ee_lib V))" "summation_ok (ee_value V) rs" "new_subscript (ee_lib V) rs Type_None = Some s"
    "inputs_ok (ee_htt V) U (ee_storage V) (rs_operands rs) Es hs" "small (bound Es * bound Es)"
    "operators_ok counts small U V sub (card (labels_of (rs_operands rs)))" "data_ok (ee_lib V) rs (sc_data s)" "subscript_wf rs"
    "length (rs_result rs) \<le> 256" "length (rs_operands rs) \<le> 256"
    "components_of (label_rel (rs_operands rs)) (labels_of (rs_operands rs)) (su_components (sc_data s))"
proof -
  show call: "set_order (sl_order (ee_lib V))" "summation_ok (ee_value V) rs" "new_subscript (ee_lib V) rs Type_None = Some s"
    "inputs_ok (ee_htt V) U (ee_storage V) (rs_operands rs) Es hs" "small (bound Es * bound Es)"
    "operators_ok counts small U V sub (card (labels_of (rs_operands rs)))" using assms unfolding call_ok_def by blast+
  show d: "data_ok (ee_lib V) rs (sc_data s)" by (rule data_of_built[OF call(1,3)])
  show "components_of (label_rel (rs_operands rs)) (labels_of (rs_operands rs)) (su_components (sc_data s))"
    using d unfolding data_ok_def by blast
qed (use assms in \<open>simp_all add: call_ok_def summation_ok_def subscript_wf_def\<close>)

lemma cartesian_components:
  assumes "call_ok counts small U V sub rs s Es hs" "su_type (sc_data s) = Type_Cartesian"
  shows "1 < length (su_components (sc_data s))" "parts_ok (ee_lib V) rs (sc_data s) (sc_cart s)"
proof -
  note call = call_okD[OF assms(1)]
  have "calcState (ee_lib V) rs (rs_operandsLabelSet rs) (rs_resultLabelSet rs) (su_components (sc_data s)) = Type_Cartesian"
    using call(7) assms(2) by (simp add: data_ok_def)
  then show "1 < length (su_components (sc_data s))" using calcState_cases(4)[OF call(1) label_sets(1,2)] by simp
  show "parts_ok (ee_lib V) rs (sc_data s) (sc_cart s)"
    using new_subscript_built[OF call(1,3)] assms(2) by (simp add: built_from_def)
qed

context value_type
begin

lemma cartesian_setup_spec:
  fixes V :: "('v::zero_neq_one, 'w, 'd) einsum_env"
  assumes W: "ee_value V = W" and call: "call_ok counts small U V sub rs s Es hs" and type: "su_type (sc_data s) = Type_Cartesian"
  shows "\<exists>it ms. it < length (su_components (sc_data s)) \<and> list_all2 (\<lambda>c m. results_count counts (part_counts rs Es c) m) (su_components (sc_data s)) ms \<and>
    ([] \<in> set (all_but it ms) \<longrightarrow> cartesian_setup V sub s hs = Some None) \<and>
    ([] \<notin> set (all_but it ms) \<longrightarrow> (\<exists>fc. cartesian_setup V sub s hs = Some (Some (fc, ca_subs (sc_cart s) ! it,
        part_operands rs hs (su_components (sc_data s) ! it), result_poss_of rs (su_components (sc_data s) ! it))) \<and>
      fc_parts fc = map2 (\<lambda>m c. (map (\<lambda>(key, v). \<lparr>ue_key = key, ue_value = v\<rparr>) m, result_poss_of rs c, 0))
        (all_but it ms) (all_but it (su_components (sc_data s)))))"
proof -
  let ?cs = "su_components (sc_data s)" and ?subs = "ca_subs (sc_cart s)"
  note c = call_okD[OF call] and comps = cartesian_components[OF call type]
  note parts = parts_okD[OF comps(2)]
  have W': "summation_ok W rs" using c(2) W by simp
  have cs0: "0 < length ?cs" using comps(1) by linarith
  note parts0 = parts[OF this]
  have len: "length ?subs = length ?cs" by (rule parts0(1))
  have at: "?cs ! i \<in> set ?cs" "new_subscript (ee_lib V) (sub_raw (ee_lib V) rs (?cs ! i)) Type_None = Some (?subs ! i)" if "i < length ?cs" for i
    using that parts(2) by simp_all
  note part = part_sub[OF W c(1) W' c(4,5,6,11) comps(1) at] and res = sub_result_spec[OF W c(1) W' c(4,5,6,11) comps(1) at]
  let ?opss = "map (part_operands rs hs) ?cs"
  have "\<exists>it. suboperands_loop V s hs ?subs 0 0 (do_of_nat (ee_double V) 0) = Some (it, ?opss) \<and> (it = 0 \<or> 0 \<le> it \<and> it < 0 + length ?subs)"
    using extract_operands_spec[OF comps(2) _ inputs_ok_lengths(2)[OF c(4)] c(10)] part(2) len by (intro suboperands_loop_spec) auto
  then obtain it where it: "extract_suboperands V s hs = Some (it, ?opss)" "it < length ?cs"
    using len cs0 by (auto simp: extract_suboperands_def)
  have "\<forall>i < length ?cs. \<exists>m. sub_result W sub (?subs ! i) (part_operands rs hs (?cs ! i)) = Some m \<and> results_count counts (part_counts rs Es (?cs ! i)) m"
    using res by blast
  then obtain M where M: "\<forall>i < length ?cs. sub_result W sub (?subs ! i) (part_operands rs hs (?cs ! i)) = Some (M i) \<and>
      results_count counts (part_counts rs Es (?cs ! i)) (M i)" by metis
  define ms where "ms = map M [0..<length ?cs]"
  have all: "list_all2 (\<lambda>c m. results_count counts (part_counts rs Es c) m) ?cs ms"
    "list_all2 (\<lambda>(s, hs) m. sub_result W sub s hs = Some m) (zip ?subs ?opss) ms"
    using M len by (simp_all add: ms_def list_all2_conv_all_nth)
  note results = sub_results_loop_spec[OF all(2), of it 0]
  have lens: "length ms = length ?cs" by (simp add: ms_def)
  let ?vecs = "map (map (\<lambda>(key, v). \<lparr>ue_key = key, ue_value = v\<rparr>))"
  have pss: "ca_result_poss (sc_cart s) = map (result_poss_of rs) ?cs" by (rule parts0(4))
  show ?thesis
  proof (intro exI[of _ it] exI[of _ ms] conjI impI)
    assume none: "[] \<in> set (all_but it ms)"
    then show "cartesian_setup V sub s hs = Some None"
      using it results by (simp add: cartesian_setup_def get_sub_results_def W)
  next
    assume some: "[] \<notin> set (all_but it ms)"
    define fc where "fc = \<lparr>fc_value = vo_one W, fc_parts = map (\<lambda>(rs, ps). (rs, ps, 0)) (zip (?vecs (all_but it ms)) (map (result_poss_of rs) (all_but it ?cs))),
        fc_ended = True\<rparr>"
    have "list_all (\<lambda>r. r \<noteq> []) (all_but it ms)" using some by (auto simp: list_all_iff)
    then have "new_full_cartesian W (all_but it ms) (ca_result_poss (sc_cart s)) it = Some fc"
      unfolding pss by (simp add: new_full_cartesian_def fc_def take_map drop_map Let_def)
    then have "cartesian_setup V sub s hs = Some (Some (fc, ?subs ! it, part_operands rs hs (?cs ! it), result_poss_of rs (?cs ! it)))"
      using it results some len by (simp add: cartesian_setup_def get_sub_results_def W at_index_def pss)
    moreover have "fc_parts fc = map2 (\<lambda>m c. (map (\<lambda>(key, v). \<lparr>ue_key = key, ue_value = v\<rparr>) m, result_poss_of rs c, 0)) (all_but it ms) (all_but it ?cs)"
      unfolding fc_def by (simp only: full_cartesian.simps zip_map_map map_map) (simp add: comp_def case_prod_beta')
    ultimately show "\<exists>fc. cartesian_setup V sub s hs = Some (Some (fc, ?subs ! it, part_operands rs hs (?cs ! it), result_poss_of rs (?cs ! it))) \<and>
      fc_parts fc = map2 (\<lambda>m c. (map (\<lambda>(key, v). \<lparr>ue_key = key, ue_value = v\<rparr>) m, result_poss_of rs c, 0)) (all_but it ms) (all_but it ?cs)" by blast
  qed (use it all in simp_all)
qed

end

end
