(* ===== verification/Einsum_Products.thy ===== *)
theory Einsum_Products
  imports Einsum_Cartesian
begin

text \<open>
  Both functions of the Cartesian operator count the solutions of their subscript as products of the solutions of
  its components.
\<close>

subsection \<open>The precalculated parts\<close>

abbreviation precalculated :: "raw_subscript \<Rightarrow> (key_part list \<times> 'w) list list \<Rightarrow> label list list \<Rightarrow> 'w part list" where
  "precalculated rs ms cs \<equiv> map2 (\<lambda>m c. (map (\<lambda>(key, v). \<lparr>ue_key = key, ue_value = v\<rparr>) m, result_poss_of rs c, 0)) ms cs"

abbreviation counts_of_parts :: "raw_subscript \<Rightarrow> 'v entry set list \<Rightarrow> label list list \<Rightarrow> part_count list" where
  "counts_of_parts rs Es cs \<equiv> map (\<lambda>c. (part_counts rs Es c, card (part_solutions (rs_operands rs) Es c))) cs"

lemma length_result_poss_of: "length (result_poss_of rs c) = length (part_result rs c)"
  by (simp add: result_poss_of_def result_idx_nth)

lemma precalculated_ok:
  assumes "list_all2 (\<lambda>c m. results_count counts (part_counts rs Es c) m) cs ms" "[] \<notin> set ms"
    "\<forall>c \<in> set cs. finite (part_solutions (rs_operands rs) Es c)"
  shows "list_all2 (part_ok counts) (precalculated rs ms cs) (counts_of_parts rs Es cs)"
    "list_all2 part_complete (precalculated rs ms cs) (counts_of_parts rs Es cs)"
    "map part_poss (precalculated rs ms cs) = map (result_poss_of rs) cs"
proof -
  have "list_all2 (part_ok counts) (precalculated rs ms cs) (counts_of_parts rs Es cs) \<and>
      list_all2 part_complete (precalculated rs ms cs) (counts_of_parts rs Es cs) \<and>
      map part_poss (precalculated rs ms cs) = map (result_poss_of rs) cs"
    using assms
  proof (induction rule: list_all2_induct)
    case (Cons c cs m ms)
    note le = part_counts_le[of rs Es c] and res = results_countD[OF Cons.hyps(1)]
    have fin: "finite (part_solutions (rs_operands rs) Es c)" using Cons.prems(2) by simp
    let ?part = "(map (\<lambda>(key, v). \<lparr>ue_key = key, ue_value = v\<rparr>) m, result_poss_of rs c, 0 :: nat)"
    have "part_ok counts ?part (part_counts rs Es c, card (part_solutions (rs_operands rs) Es c))"
      using Cons.prems(1) res(1) le[OF fin] by (auto simp: part_ok_def length_result_poss_of)
    moreover have "part_complete ?part (part_counts rs Es c, card (part_solutions (rs_operands rs) Es c))"
      unfolding part_complete_def using res(3) Cons.hyps(1)
      by (force simp: results_count_def comp_def case_prod_beta' image_image)
    ultimately show ?case using Cons.IH Cons.prems by simp
  qed simp
  then show "list_all2 (part_ok counts) (precalculated rs ms cs) (counts_of_parts rs Es cs)"
    "list_all2 part_complete (precalculated rs ms cs) (counts_of_parts rs Es cs)"
    "map part_poss (precalculated rs ms cs) = map (result_poss_of rs) cs" by auto
qed

lemma counts_at_parts:
  "counts_at (counts_of_parts rs Es cs) (map (result_poss_of rs) cs) k = (\<Prod>c\<leftarrow>cs. part_counts rs Es c (reads k (result_poss_of rs c)))"
  by (induction cs) simp_all

lemma bound_of_parts: "bound_of (counts_of_parts rs Es cs) = (\<Prod>c\<leftarrow>cs. card (part_solutions (rs_operands rs) Es c))"
  by (induction cs) simp_all

lemma list_all2_all_but: "list_all2 P xs ys \<Longrightarrow> list_all2 P (all_but i xs) (all_but i ys)"
  by (intro list_all2_appendI list_all2_takeI list_all2_dropI)

lemma list_all2_member: "list_all2 P xs ys \<Longrightarrow> y \<in> set ys \<Longrightarrow> \<exists>x \<in> set xs. P x y"
  by (induction rule: list_all2_induct) auto

lemma prod_zero_member: "x \<in> set xs \<Longrightarrow> f x = 0 \<Longrightarrow> (\<Prod>x\<leftarrow>xs. f x) = 0" for f :: "'a \<Rightarrow> nat"
  by (induction xs) auto

lemma prod_list_le: "(\<And>x. x \<in> set xs \<Longrightarrow> f x \<le> g x) \<Longrightarrow> (\<Prod>x\<leftarrow>xs. f x) \<le> (\<Prod>x\<leftarrow>xs. g x)" for f g :: "'a \<Rightarrow> nat"
  by (induction xs) (auto intro: mult_le_mono)

lemma weight_member: "list_all2 (\<lambda>y n. P y n \<and> 0 < n) ys ns \<Longrightarrow> list_all2 (\<lambda>y n. P y n \<and> 0 < n \<and> n \<le> weight (zip ys ns) (ue_key y)) ys ns"
proof (induction rule: list_all2_induct)
  case (Cons y ys n ns)
  have "list_all2 (\<lambda>y' n'. P y' n' \<and> 0 < n' \<and> n' \<le> weight (zip (y # ys) (n # ns)) (ue_key y')) ys ns"
    using Cons.IH by (rule list_all2_mono) auto
  then show ?case using Cons.hyps(1) by simp
qed simp

text \<open>Without result labels the only key is the empty one.\<close>

lemma count_of_done:
  assumes "list_all2 (part_ok counts) parts (counts_of_parts rs Es cs)" "\<forall>c \<in> set cs. part_result rs c = []"
    "\<forall>c \<in> set cs. finite (part_solutions (rs_operands rs) Es c)"
  shows "count_of (counts_of_parts rs Es cs) (current (restarted parts)) = bound_of (counts_of_parts rs Es cs)"
  using assms
proof (induction cs arbitrary: parts)
  case (Cons c cs)
  obtain rs' poss i parts' where p: "parts = (rs', poss, i) # parts'" using Cons.prems(1) by (cases parts) auto
  note ok = part_okD[of counts rs' poss i "part_counts rs Es c" "card (part_solutions (rs_operands rs) Es c)"]
  have h: "part_ok counts (rs', poss, i) (part_counts rs Es c, card (part_solutions (rs_operands rs) Es c))" using Cons.prems(1) p by simp
  have "0 < length rs'" using ok(1)[OF h] by auto
  then have "0 < part_counts rs Es c (ue_key (rs' ! 0))" by (rule ok(3)[OF h])
  then have "ue_key (rs' ! 0) = []" using part_counts_le(2)[of rs Es c] Cons.prems(2,3) by simp
  then have "part_counts rs Es c (ue_key (rs' ! 0)) = card (part_solutions (rs_operands rs) Es c)"
    using part_counts_done[of c rs Es] Cons.prems(2) by simp
  then show ?case using Cons.IH[of parts'] Cons.prems p by simp
qed simp

subsection \<open>The bounds of a call\<close>

context value_type
begin

lemma parts_bounds:
  fixes V :: "('v::zero_neq_one, 'w, 'd) einsum_env"
  assumes W: "ee_value V = W" and call: "call_ok counts small U V sub rs s Es hs" and type: "su_type (sc_data s) = Type_Cartesian"
    and it: "it < length (su_components (sc_data s))"
  shows "\<forall>c \<in> set (su_components (sc_data s)). finite (part_solutions (rs_operands rs) Es c)"
    "bound_of (counts_of_parts rs Es (all_but it (su_components (sc_data s)))) \<le> bound Es"
    "n \<le> card (part_solutions (rs_operands rs) Es (su_components (sc_data s) ! it)) \<Longrightarrow>
       n * bound_of (counts_of_parts rs Es (all_but it (su_components (sc_data s)))) \<le> bound Es"
    "card (part_solutions (rs_operands rs) Es (su_components (sc_data s) ! it)) *
       bound_of (counts_of_parts rs Es (all_but it (su_components (sc_data s)))) = card (solutions (rs_operands rs) Es)"
proof -
  let ?cs = "su_components (sc_data s)" and ?ops = "rs_operands rs"
  note c = call_okD[OF call] and comps = cartesian_components[OF call type]
  note sets = inputs_ok_sets[OF c(4)] and len = inputs_ok_lengths(1)[OF c(4)]
  have part: "finite (part_solutions ?ops Es c') \<and> card (part_solutions ?ops Es c') \<le> bound (component_entries c' ?ops Es)" if c': "c' \<in> set ?cs" for c'
  proof -
    note ok' = component_inputs[OF c(4,11) c']
    show ?thesis unfolding part_solutions_def using inputs_bound(1,2)[OF ok'] by blast
  qed
  show "\<forall>c \<in> set ?cs. finite (part_solutions ?ops Es c)" using part by blast
  let ?others = "\<Prod>c\<leftarrow>all_but it ?cs. card (part_solutions ?ops Es c)"
  have all: "(\<Prod>c\<leftarrow>?cs. card (part_solutions ?ops Es c)) = card (solutions ?ops Es)"
    using card_solutions_components[OF c(11) len sets(2)] by (simp add: part_solutions_def)
  then show sol: "card (part_solutions ?ops Es (?cs ! it)) * bound_of (counts_of_parts rs Es (all_but it ?cs)) = card (solutions ?ops Es)"
    unfolding bound_of_parts using prod_all_but[OF it, of "\<lambda>c. card (part_solutions ?ops Es c)"] by simp
  have "?others \<le> (\<Prod>c\<leftarrow>all_but it ?cs. bound (component_entries c ?ops Es))"
    using part set_all_but[of it ?cs] by (intro prod_list_le) blast
  also have "\<dots> \<le> bound (component_entries (?cs ! it) ?ops Es) * (\<Prod>c\<leftarrow>all_but it ?cs. bound (component_entries c ?ops Es))"
    using bound_of_components(2)[OF c(11) len sets(1), of "?cs ! it"] it by simp
  also have "\<dots> \<le> bound Es"
    unfolding prod_all_but[OF it, of "\<lambda>c. bound (component_entries c ?ops Es)", symmetric] by (rule bound_of_components(1)[OF c(11) len sets(1)])
  finally show "bound_of (counts_of_parts rs Es (all_but it ?cs)) \<le> bound Es" unfolding bound_of_parts .
  assume "n \<le> card (part_solutions ?ops Es (?cs ! it))"
  then have "n * bound_of (counts_of_parts rs Es (all_but it ?cs)) \<le> card (solutions ?ops Es)"
    unfolding sol[symmetric] by (rule mult_le_mono1)
  then show "n * bound_of (counts_of_parts rs Es (all_but it ?cs)) \<le> bound Es"
    using inputs_bound(2)[OF c(4)] by (rule order_trans)
qed

lemma counts_of_call:
  fixes V :: "('v::zero_neq_one, 'w, 'd) einsum_env"
  assumes W: "ee_value V = W" and call: "call_ok counts small U V sub rs s Es hs" and it: "it < length (su_components (sc_data s))"
  shows "card {\<alpha> \<in> solutions (rs_operands rs) Es. hits (rs_result rs) (labels_of (rs_operands rs)) k0 k \<alpha>} =
    (if same_outside (rs_result rs) (labels_of (rs_operands rs)) k0 k
     then part_counts rs Es (su_components (sc_data s) ! it) (reads k (result_poss_of rs (su_components (sc_data s) ! it))) *
       counts_at (counts_of_parts rs Es (all_but it (su_components (sc_data s)))) (map (result_poss_of rs) (all_but it (su_components (sc_data s)))) k
     else 0)"
  unfolding counts_at_parts solutions_of_parts[OF call_okD(11)[OF call] inputs_ok_lengths(1)[OF call_okD(4)[OF call]]
      inputs_ok_sets(2)[OF call_okD(4)[OF call]] call_okD(9)[OF call]]
  using prod_all_but[OF it] by simp

subsection \<open>The operator\<close>

lemma cartesian_generator_ok:
  fixes V :: "('v::zero_neq_one, 'w, 'd) einsum_env"
  assumes W: "ee_value V = W" and call: "call_ok counts small U V sub rs s Es hs" and type: "su_type (sc_data s) = Type_Cartesian"
    and e: "length (ue_key e) = length (rs_result rs)" "vo_bool W \<longrightarrow> vo_true W (ue_value e)"
  shows "run_ok W counts (vo_bool W) (rs_result rs) (rs_operands rs) Es e (cartesian_generator V sub s hs e)"
proof -
  let ?cs = "su_components (sc_data s)" and ?R = "rs_result rs" and ?A = "labels_of (rs_operands rs)" and ?k0 = "ue_key e"
  note c = call_okD[OF call] and comps = cartesian_components[OF call type]
  from clear_used_spec[OF c(7,8) e(1)] obtain e1 where e1: "clear_used_entry_poss s e = Some e1" "ue_value e1 = ue_value e"
    "same_outside ?R ?A ?k0 (ue_key e1)" by blast
  have t1: "vo_bool W \<longrightarrow> vo_true W (ue_value e1)" using e(2) e1(2) by simp
  from cartesian_setup_spec[OF W call type] obtain it ms where it: "it < length ?cs"
    and ms: "list_all2 (\<lambda>c m. results_count counts (part_counts rs Es c) m) ?cs ms"
    and none: "[] \<in> set (all_but it ms) \<longrightarrow> cartesian_setup V sub s hs = Some None"
    and some: "[] \<notin> set (all_but it ms) \<longrightarrow> (\<exists>fc. cartesian_setup V sub s hs = Some (Some (fc, ca_subs (sc_cart s) ! it,
        part_operands rs hs (?cs ! it), result_poss_of rs (?cs ! it))) \<and> fc_parts fc = precalculated rs (all_but it ms) (all_but it ?cs))"
    by (elim exE conjE) (rule that, assumption+)
  let ?c = "?cs ! it" and ?poss = "result_poss_of rs (?cs ! it)" and ?pss = "map (result_poss_of rs) (all_but it ?cs)"
  let ?fs = "counts_of_parts rs Es (all_but it ?cs)"
  note bounds = parts_bounds[OF W call type it] and ms' = list_all2_all_but[OF ms, of it]
  define f where "f k = (if same_outside ?R ?A ?k0 k then part_counts rs Es ?c (reads k ?poss) * counts_at ?fs ?pss k else 0)" for k
  have goal: "run_ok W counts (vo_bool W) ?R (rs_operands rs) Es e r"
    if "r = Some (ys, e')" "yields_count counts f ys" "same_outside ?R ?A ?k0 (ue_key e')" "vo_bool W \<longrightarrow> vo_true W (ue_value e')" for r ys e'
    unfolding run_ok_def counts_of_call[OF W call it] using that unfolding f_def by blast
  show ?thesis
  proof (cases "[] \<in> set (all_but it ms)")
    case True
    from list_all2_member[OF ms' this] obtain c' where c': "c' \<in> set (all_but it ?cs)" "results_count counts (part_counts rs Es c') []" by blast
    have "part_counts rs Es c' k = 0" for k by (rule results_countD(2)[OF c'(2) refl])
    then have "counts_at ?fs ?pss k = 0" for k
      unfolding counts_at_parts by (rule prod_zero_member[OF c'(1)])
    then have "f k = 0" for k by (simp only: f_def mult_0_right if_cancel)
    then have "yields_count counts f []" using yields_count_cong[OF yields_count_Nil, of f] by simp
    moreover have "cartesian_setup V sub s hs = Some None" using none True by (rule mp)
    ultimately show ?thesis using e1 t1 by (intro goal[of _ "[]" e1]) (simp_all add: cartesian_generator_def)
  next
    case False
    with some obtain fc where fc: "cartesian_setup V sub s hs = Some (Some (fc, ca_subs (sc_cart s) ! it, part_operands rs hs ?c, ?poss))"
      "fc_parts fc = precalculated rs (all_but it ms) (all_but it ?cs)" by blast
    have fin: "\<forall>c \<in> set (all_but it ?cs). finite (part_solutions (rs_operands rs) Es c)" using bounds(1) set_all_but[of it ?cs] by blast
    note parts = precalculated_ok[OF ms' False fin, folded fc(2)]
    have lay: "layout_ok ?R ?A (?poss # ?pss)" by (rule layout_of_parts[OF _ _ c(9) it]) (use c(11) in \<open>auto simp: components_of_def\<close>)
    have W': "summation_ok W rs" using c(2) W by simp
    have it': "?c \<in> set ?cs" "new_subscript (ee_lib V) (sub_raw (ee_lib V) rs ?c) Type_None = Some (ca_subs (sc_cart s) ! it)"
      using it parts_okD(2)[OF comps(2) it] by simp_all
    note part = part_sub[OF W c(1) W' c(4,5,6,11) comps(1) it'] and le = part_counts_le[of rs Es ?c]
    show ?thesis
    proof (cases "part_result rs ?c = []")
      case True
      from part(5)[OF True] obtain zs y where y: "sub True (ca_subs (sc_cart s) ! it) (part_operands rs hs ?c) (sub_entry_arg W (ca_subs (sc_cart s) ! it)) = Some (zs, y)"
        "counts (ue_value y) (card (part_solutions (rs_operands rs) Es ?c))" "ue_key y = []" by blast
      have poss: "?poss = []" using True length_result_poss_of[of rs ?c] by simp
      let ?n = "card (part_solutions (rs_operands rs) Es ?c)"
      have f: "f k = (if same_outside ?R ?A ?k0 k \<and> reads k ?poss = [] then ?n * counts_at ?fs ?pss k else 0)" for k
        using part_counts_done[OF True, of Es] by (simp add: f_def poss)
      show ?thesis
      proof (cases "?n = 0")
        case True
        then have "f k = 0" for k unfolding f by (simp only: mult_0 if_cancel)
        then have "yields_count counts f []" using yields_count_cong[OF yields_count_Nil, of f] by simp
        moreover have "\<not> vo_true W (ue_value y)" using true_iff[OF y(2)] True by linarith
        ultimately show ?thesis using fc(1) e1 t1 y(1) part(1) \<open>part_result rs ?c = []\<close>
          by (intro goal[of _ "[]" e1]) (simp_all add: cartesian_generator_def W)
      next
        case False
        then have n: "0 < ?n" by linarith
        have val: "value_ok (single_value W (ue_value y)) ?n (bound_of ?fs)" by (rule values_ok(2)[OF y(2) n bounds(3)[OF order_refl] c(5)])
        have len: "length [] = length ?poss" by (simp add: poss)
        from rounds_from_begin[OF lay bounds(2) c(5) len val n parts e1(3) t1] obtain fc1 e2 ys e3 where r: "fc_begin W fc e1 = Some (fc1, e2)"
          "cartesian_rounds W ?poss [] (single_value W (ue_value y)) fc1 e2 = Some (ys, e3)"
          "yields_count counts (\<lambda>k. if same_outside ?R ?A ?k0 k \<and> reads k ?poss = [] then ?n * counts_at ?fs ?pss k else 0) ys"
          "same_outside ?R ?A ?k0 (ue_key e3)" "vo_true W (ue_value e3)" by blast
        have "cartesian_generator V sub s hs e = Some (ys, e3)"
          using fc(1) e1(1) y(1,3) part(1) \<open>part_result rs ?c = []\<close> true_iff[OF y(2)] n r(1,2) by (simp add: cartesian_generator_def W)
        then show ?thesis by (rule goal) (use yields_count_cong[OF r(3)] f r(4,5) in auto)
      qed
    next
      case nd: False
      from part(6)[OF nd] obtain ys e' ns where y: "sub False (ca_subs (sc_cart s) ! it) (part_operands rs hs ?c) (sub_entry_arg W (ca_subs (sc_cart s) ! it)) = Some (ys, e')"
        "list_all2 (\<lambda>y n. counts (ue_value y) n \<and> 0 < n) ys ns" "\<forall>k. weight (zip ys ns) k = part_counts rs Es ?c k" by blast
      have "list_all2 (\<lambda>y n. counts (ue_value y) n \<and> 0 < n \<and> length (ue_key y) = length ?poss \<and> n * bound_of ?fs \<le> bound Es) ys ns"
        using weight_member[OF y(2)]
      proof (rule list_all2_mono)
        fix y n assume "counts (ue_value y) n \<and> 0 < n \<and> n \<le> weight (zip ys ns) (ue_key y)"
        then have n: "counts (ue_value y) n" "0 < n" "n \<le> part_counts rs Es ?c (ue_key y)" using y(3) by auto
        then have "length (ue_key y) = length ?poss" using le(2)[OF part(3)] by (simp add: length_result_poss_of)
        moreover have "n * bound_of ?fs \<le> bound Es" using n(3) le(1)[OF part(3)] by (intro bounds(3)) (rule order_trans)
        ultimately show "counts (ue_value y) n \<and> 0 < n \<and> length (ue_key y) = length ?poss \<and> n * bound_of ?fs \<le> bound Es" using n by blast
      qed
      from cartesian_loop_spec[OF lay bounds(2) c(5) parts this e1(3) t1] obtain zs e2 where r: "cartesian_loop W ?poss fc ys e1 = Some (zs, e2)"
        "yields_count counts (\<lambda>k. if same_outside ?R ?A ?k0 k then weight (zip ys ns) (reads k ?poss) * counts_at ?fs ?pss k else 0) zs"
        "same_outside ?R ?A ?k0 (ue_key e2)" "vo_bool W \<longrightarrow> vo_true W (ue_value e2)" by blast
      have "cartesian_generator V sub s hs e = Some (zs, e2)"
        using fc(1) e1(1) y(1) part(1) nd r(1) by (simp add: cartesian_generator_def W)
      then show ?thesis by (rule goal) (use yields_count_cong[OF r(2)] y(3) r(3,4) f_def in auto)
    qed
  qed
qed

lemma cartesian_single_ok:
  fixes V :: "('v::zero_neq_one, 'w, 'd) einsum_env"
  assumes W: "ee_value V = W" and call: "call_ok counts small U V sub rs s Es hs" and type: "su_type (sc_data s) = Type_Cartesian"
    and e: "length (ue_key e) = length (rs_result rs)" and none_left: "labels_of (rs_operands rs) \<inter> set (rs_result rs) = {}"
  shows "single_ok counts (rs_result rs) (rs_operands rs) Es e (cartesian_single V sub s hs e)"
proof -
  let ?cs = "su_components (sc_data s)" and ?R = "rs_result rs" and ?A = "labels_of (rs_operands rs)" and ?k0 = "ue_key e"
  note c = call_okD[OF call] and comps = cartesian_components[OF call type]
  from clear_used_spec[OF c(7,8) e] obtain e1 where e1: "clear_used_entry_poss s e = Some e1" "ue_value e1 = ue_value e"
    "same_outside ?R ?A ?k0 (ue_key e1)" by blast
  from cartesian_setup_spec[OF W call type] obtain it ms where it: "it < length ?cs"
    and ms: "list_all2 (\<lambda>c m. results_count counts (part_counts rs Es c) m) ?cs ms"
    and none: "[] \<in> set (all_but it ms) \<longrightarrow> cartesian_setup V sub s hs = Some None"
    and some: "[] \<notin> set (all_but it ms) \<longrightarrow> (\<exists>fc. cartesian_setup V sub s hs = Some (Some (fc, ca_subs (sc_cart s) ! it,
        part_operands rs hs (?cs ! it), result_poss_of rs (?cs ! it))) \<and> fc_parts fc = precalculated rs (all_but it ms) (all_but it ?cs))"
    by (elim exE conjE) (rule that, assumption+)
  let ?c = "?cs ! it" and ?poss = "result_poss_of rs (?cs ! it)" and ?pss = "map (result_poss_of rs) (all_but it ?cs)"
  let ?fs = "counts_of_parts rs Es (all_but it ?cs)" and ?sol = "card (solutions (rs_operands rs) Es)"
  let ?n = "card (part_solutions (rs_operands rs) Es (?cs ! it))"
  note bounds = parts_bounds[OF W call type it] and ms' = list_all2_all_but[OF ms, of it]
  have done_c: "part_result rs c = []" if "c \<in> set ?cs" for c
  proof -
    have "set c \<subseteq> ?A" using c(11) that by (auto simp: components_of_def)
    then show ?thesis using none_left by (auto simp: filter_empty_conv)
  qed
  have fin: "\<forall>c \<in> set (all_but it ?cs). finite (part_solutions (rs_operands rs) Es c)"
    and done_others: "\<forall>c \<in> set (all_but it ?cs). part_result rs c = []" using bounds(1) done_c set_all_but[of it ?cs] by blast+
  have goal: "single_ok counts ?R (rs_operands rs) Es e r"
    if "r = Some (ys, e')" "counts (ue_value e') ?sol" "same_outside ?R ?A ?k0 (ue_key e')" for r ys e'
    unfolding single_ok_def using that by blast
  show ?thesis
  proof (cases "[] \<in> set (all_but it ms)")
    case True
    from list_all2_member[OF ms' this] obtain c' where c': "c' \<in> set (all_but it ?cs)" "results_count counts (part_counts rs Es c') []" by blast
    have "part_counts rs Es c' [] = 0" by (rule results_countD(2)[OF c'(2) refl])
    then have "card (part_solutions (rs_operands rs) Es c') = 0" using part_counts_done[of c' rs Es] done_others c'(1) by simp
    then have "bound_of ?fs = 0" unfolding bound_of_parts by (rule prod_zero_member[OF c'(1)])
    then have "?sol = 0" using bounds(4) by (metis mult_0_right)
    moreover have "cartesian_setup V sub s hs = Some None" using none True by (rule mp)
    ultimately show ?thesis using e1 zero by (intro goal[of _ "[]" "e1\<lparr>ue_value := vo_zero W\<rparr>"]) (simp_all add: cartesian_single_def W)
  next
    case False
    with some obtain fc where fc: "cartesian_setup V sub s hs = Some (Some (fc, ca_subs (sc_cart s) ! it, part_operands rs hs ?c, ?poss))"
      "fc_parts fc = precalculated rs (all_but it ms) (all_but it ?cs)" by blast
    note parts = precalculated_ok[OF ms' False fin, folded fc(2)]
    have lay: "layout_ok ?R ?A (?poss # ?pss)" by (rule layout_of_parts[OF _ _ c(9) it]) (use c(11) in \<open>auto simp: components_of_def\<close>)
    have W': "summation_ok W rs" using c(2) W by simp
    have it': "?c \<in> set ?cs" "new_subscript (ee_lib V) (sub_raw (ee_lib V) rs ?c) Type_None = Some (ca_subs (sc_cart s) ! it)"
      using it parts_okD(2)[OF comps(2) it] by simp_all
    note part = part_sub[OF W c(1) W' c(4,5,6,11) comps(1) it']
    from part(5)[OF done_c[OF it'(1)]] obtain zs y where y: "sub True (ca_subs (sc_cart s) ! it) (part_operands rs hs ?c) (sub_entry_arg W (ca_subs (sc_cart s) ! it)) = Some (zs, y)"
      "counts (ue_value y) ?n" "ue_key y = []" by blast
    from fc_begin_spec[OF parts(1,3) lay bounds(2) c(5) e1(3)] obtain fc1 e2 where b: "fc_begin W fc e1 = Some (fc1, e2)"
      "fc_parts fc1 = restarted (fc_parts fc)" "counts (fc_value fc1) (count_of ?fs (current (fc_parts fc1)))"
      "same_outside ?R ?A ?k0 (ue_key e2)" by blast
    have all: "count_of ?fs (current (fc_parts fc1)) = bound_of ?fs" unfolding b(2) by (rule count_of_done[OF parts(1) done_others fin])
    have pos: "0 < bound_of ?fs"
      using parts_ok_facts(3)[OF parts_ok_facts(5)[OF parts(1)]] all b(2) by simp
    show ?thesis
    proof (cases "vo_bool W")
      case True
      have "counts (ue_value y) ?sol"
      proof (cases "?n = 0")
        case True
        then show ?thesis using y(2) bounds(4) by simp
      next
        case False
        then have n: "0 < ?n" by linarith
        then have "0 < ?sol" using pos unfolding bounds(4)[symmetric] by (rule mult_pos_pos)
        then show ?thesis by (rule bool_any[OF True y(2) n])
      qed
      then show ?thesis using True fc(1) e1 y(1) by (intro goal[of _ "[]" "e1\<lparr>ue_value := ue_value y\<rparr>"]) (simp_all add: cartesian_single_def W)
    next
      case False
      have "small (?n * bound_of ?fs)" using small_le[OF c(5), of "?n * bound_of ?fs"] bounds(3)[OF order_refl] inputs_bound(4)[OF c(4)] by linarith
      then have "counts (vo_mult W (ue_value y) (fc_value fc1)) ?sol" using mult[OF y(2) b(3)] unfolding all bounds(4) by simp
      then show ?thesis using False fc(1) e1(1) y(1) b
        by (intro goal[of _ "[]" "e2\<lparr>ue_value := vo_mult W (ue_value y) (fc_value fc1)\<rparr>"]) (simp_all add: cartesian_single_def W)
    qed
  qed
qed

end

end
