(* ===== verification/Einsum_Correct.thy ===== *)
theory Einsum_Correct
  imports Einsum_Products
begin

text \<open>
  The recursion of the operators terminates with the right result: with as much fuel as the subscript has labels,
  the operator chosen for a subscript counts its solutions. The entry point of an Einstein summation yields the number of
  solutions for every key of the result, or, for Boolean values, the keys that have a solution.
\<close>

subsection \<open>The recursion\<close>

context value_type
begin

lemma operators_ok_mono: "operators_ok counts small U V sub N \<Longrightarrow> M \<le> N \<Longrightarrow> operators_ok counts small U V sub M"
  by (auto simp: operators_ok_def)

lemma call_operator_ok:
  fixes V :: "('v::zero_neq_one, 'w, 'd) einsum_env"
  assumes W: "ee_value V = W" and call: "call_ok counts small U V (get_sub_operator fuel V) rs s Es hs"
    and e: "length (ue_key e) = length (rs_result rs)"
  shows "su_all_result_done (sc_data s) \<Longrightarrow>
      single_ok counts (rs_result rs) (rs_operands rs) Es e (get_sub_operator (Suc fuel) V True s hs e)"
    "\<not> su_all_result_done (sc_data s) \<Longrightarrow> vo_bool W \<longrightarrow> vo_true W (ue_value e) \<Longrightarrow>
      run_ok W counts (vo_bool W) (rs_result rs) (rs_operands rs) Es e (get_sub_operator (Suc fuel) V False s hs e)"
proof -
  let ?A = "labels_of (rs_operands rs)" and ?R = "rs_result rs" and ?t = "su_type (sc_data s)"
  note c = call_okD[OF call]
  have W': "summation_ok W rs" using c(2) W by simp
  have t: "?t = calcState (ee_lib V) rs (rs_operandsLabelSet rs) (rs_resultLabelSet rs) (su_components (sc_data s))"
    and done_s: "su_all_result_done (sc_data s) \<longleftrightarrow> ?A \<inter> set ?R = {}" using c(7) by (simp_all add: data_ok_def)
  note type = calcState_cases[OF c(1) label_sets(1,2), where rl = "rs_resultLabelSet rs" and cs = "su_components (sc_data s)" and rs = rs, folded t, unfolded label_sets]
  have ne: "[] \<notin> set (rs_operands rs)" using c(8) by (simp add: subscript_wf_def)
  have no_labels: "?A = {} \<longleftrightarrow> rs_operands rs = []" using ne by (cases "rs_operands rs") auto
  {
    assume d: "su_all_result_done (sc_data s)"
    then have none: "?A \<inter> set ?R = {}" using done_s by simp
    show "single_ok counts ?R (rs_operands rs) Es e (get_sub_operator (Suc fuel) V True s hs e)"
    proof (cases ?t)
      case Type_Join
      then have "?A \<noteq> {}" using type(1) no_labels by simp
      from join_single_ok[OF W c(1,3) W' c(4,5,6) none this e] show ?thesis by (simp add: Type_Join)
    next
      case Type_Resolve
      then obtain op where "rs_operands rs = [op]" "set op \<subseteq> set ?R" using type(2) by blast
      then have "op = []" using none by (cases op) auto
      then show ?thesis using ne \<open>rs_operands rs = [op]\<close> by simp
    next
      case Type_Count
      then obtain op where "rs_operands rs = [op]" "distinct op" using type(3) by blast
      from count_single_ok[OF W this c(4,5) e] show ?thesis by (simp add: Type_Count)
    next
      case Type_Cartesian
      from cartesian_single_ok[OF W call this e none] show ?thesis by (simp add: Type_Cartesian)
    next
      case Type_EntryGenerator
      then have "rs_operands rs = []" using type(1) by blast
      from entry_generator_ok[OF this c(4) e] show ?thesis by (simp add: Type_EntryGenerator W)
    qed (use type(5,6) in simp_all)
  next
    assume d: "\<not> su_all_result_done (sc_data s)" and v: "vo_bool W \<longrightarrow> vo_true W (ue_value e)"
    then have some: "?A \<inter> set ?R \<noteq> {}" using done_s by simp
    show "run_ok W counts (vo_bool W) ?R (rs_operands rs) Es e (get_sub_operator (Suc fuel) V False s hs e)"
    proof (cases ?t)
      case Type_Join
      from join_generator_ok[OF W c(1,3) W' Type_Join c(4,5,6) some e v] show ?thesis by (simp add: Type_Join)
    next
      case Type_Resolve
      then obtain op where "rs_operands rs = [op]" "distinct op" "set op \<subseteq> set ?R" using type(2) by blast
      from resolve_generator_ok[OF W c(7,8) Type_Resolve this c(4) e v] show ?thesis by (simp add: Type_Resolve)
    next
      case Type_Count
      then obtain op where "rs_operands rs = [op]" "set op \<inter> set ?R = {}" using type(3) by blast
      then show ?thesis using some by simp
    next
      case Type_Cartesian
      from cartesian_generator_ok[OF W call this e v] show ?thesis by (simp add: Type_Cartesian)
    next
      case Type_EntryGenerator
      then have "rs_operands rs = []" using type(1) by blast
      then show ?thesis using some by simp
    qed (use type(5,6) in simp_all)
  }
qed

lemma operators_ok_fuel:
  fixes V :: "('v::zero_neq_one, 'w, 'd) einsum_env"
  assumes W: "ee_value V = W" and L: "set_order (sl_order (ee_lib V))"
  shows "operators_ok counts small U V (get_sub_operator fuel V) fuel"
proof (induction fuel)
  case 0
  then show ?case by (simp add: operators_ok_def)
next
  case (Suc fuel)
  show ?case
    unfolding operators_ok_def operator_ok_def
  proof (intro allI impI)
    fix rs s Es hs and e :: "'w user_entry"
    assume less: "card (labels_of (rs_operands rs)) < Suc fuel" and wf: "summation_ok (ee_value V) rs"
      and s: "new_subscript (ee_lib V) rs Type_None = Some s"
      and ok: "inputs_ok (ee_htt V) U (ee_storage V) (rs_operands rs) Es hs" and sm: "small (bound Es * bound Es)"
      and e: "length (ue_key e) = length (rs_result rs)"
    have "operators_ok counts small U V (get_sub_operator fuel V) (card (labels_of (rs_operands rs)))"
      by (rule operators_ok_mono[OF Suc.IH]) (use less in simp)
    then have call: "call_ok counts small U V (get_sub_operator fuel V) rs s Es hs" using L wf s ok sm by (simp add: call_ok_def)
    show "if su_all_result_done (sc_data s)
        then single_ok counts (rs_result rs) (rs_operands rs) Es e (get_sub_operator (Suc fuel) V True s hs e)
        else (vo_bool (ee_value V) \<longrightarrow> vo_true (ee_value V) (ue_value e)) \<longrightarrow>
          run_ok (ee_value V) counts (vo_bool (ee_value V)) (rs_result rs) (rs_operands rs) Es e (get_sub_operator (Suc fuel) V False s hs e)"
      using call_operator_ok[OF W call e] W by (simp del: get_sub_operator.simps)
  qed
qed

text \<open>The entry point of the summation.\<close>

lemma einsum_ok:
  fixes V :: "('v::zero_neq_one, 'w, 'd) einsum_env"
  assumes W: "ee_value V = W" and L: "set_order (sl_order (ee_lib V))" and wf: "summation_ok W rs"
    and s: "new_subscript (ee_lib V) rs Type_None = Some s"
    and ok: "inputs_ok (ee_htt V) U (ee_storage V) (rs_operands rs) Es hs" and sm: "small (bound Es * bound Es)"
  shows "\<exists>ys. einsum V hsh s hs = Some (if vo_bool W \<and> \<not> su_all_result_done (sc_data s) then unique_by_hash hsh [] ys else ys) \<and>
    yields_count counts (\<lambda>k. card {\<alpha> \<in> solutions (rs_operands rs) Es. map \<alpha> (rs_result rs) = k}) ys \<and>
    (su_all_result_done (sc_data s) \<longrightarrow> length ys \<le> 1)"
proof -
  let ?A = "labels_of (rs_operands rs)" and ?R = "rs_result rs" and ?S = "solutions (rs_operands rs) Es"
  have d: "data_ok (ee_lib V) rs (sc_data s)" by (rule data_of_built[OF L s])
  have labels: "set (su_operands_labels (sc_data s)) = ?A" "distinct (su_operands_labels (sc_data s))" using d by (simp_all add: data_ok_def)
  define fuel where "fuel = length (su_operands_labels (sc_data s))"
  have "card ?A = fuel" unfolding fuel_def using labels distinct_card by metis
  then have "operators_ok counts small U V (get_sub_operator fuel V) (card ?A)" using operators_ok_fuel[OF W L, of U fuel] by simp
  then have call: "call_ok counts small U V (get_sub_operator fuel V) rs s Es hs" using L wf s ok sm W by (simp add: call_ok_def)
  let ?e = "entry_make_filled (sc_resultLabelCount s) 0 (vo_one W)"
  have key: "ue_key ?e = replicate (length ?R) 0"
    using d by (simp add: entry_make_filled_def sc_resultLabelCount_def rs_resultLabelCount_def data_ok_def)
  have start: "vo_true W (ue_value ?e)" using true_iff[OF one] by (simp add: entry_make_filled_def)
  have hit: "hits ?R ?A (ue_key ?e) k \<alpha> \<longleftrightarrow> map \<alpha> ?R = k" if "\<alpha> \<in> ?S" for k \<alpha>
  proof -
    have "\<alpha> l = 0" if "l \<notin> ?A" for l using \<open>\<alpha> \<in> ?S\<close> that by (simp add: solutions_def)
    then have "hits ?R ?A (ue_key ?e) k \<alpha> \<longleftrightarrow> length k = length ?R \<and> (\<forall>i < length ?R. k ! i = \<alpha> (?R ! i))"
      unfolding hits_def key by (metis nth_replicate)
    then show ?thesis by (auto intro: nth_equalityI)
  qed
  have sols: "{\<alpha> \<in> ?S. hits ?R ?A (ue_key ?e) k \<alpha>} = {\<alpha> \<in> ?S. map \<alpha> ?R = k}" for k using hit by blast
  show ?thesis
  proof (cases "su_all_result_done (sc_data s)")
    case True
    have none: "?A \<inter> set ?R = {}" using True d by (simp add: data_ok_def)
    have len: "length (ue_key ?e) = length ?R" by (simp add: key)
    from call_operator_ok(1)[OF W call len True] obtain zs e1 where r: "get_sub_operator (Suc fuel) V True s hs ?e = Some (zs, e1)"
      "counts (ue_value e1) (card ?S)" "same_outside ?R ?A (ue_key ?e) (ue_key e1)" unfolding single_ok_def by blast
    note k1 = same_outside_done[OF none len r(3)]
    have len1: "length (ue_key e1) = length ?R" by (simp add: k1 key)
    from call_operator_ok(1)[OF W call len1 True] obtain zs' e2 where r2: "get_sub_operator (Suc fuel) V True s hs e1 = Some (zs', e2)"
      "counts (ue_value e2) (card ?S)" "same_outside ?R ?A (ue_key e1) (ue_key e2)" unfolding single_ok_def by blast
    have k2: "ue_key e2 = ue_key ?e" using same_outside_done[OF none len1 r2(3)] k1 by simp
    have all: "card {\<alpha> \<in> ?S. map \<alpha> ?R = k} = (if ue_key e2 = k then card ?S else 0)" for k
      unfolding sols[symmetric] k2 using hits_done[OF none len, of k] by simp
    have run: "einsum V hsh s hs = Some (if vo_true W (ue_value e1) then [e2] else [])"
      using True r(1) r2(1) unfolding fuel_def by (simp add: einsum_def W Let_def del: get_sub_operator.simps)
    have "yields_count counts (\<lambda>k. card {\<alpha> \<in> ?S. map \<alpha> ?R = k}) (if vo_true W (ue_value e1) then [e2] else [])"
    proof (cases "card ?S = 0")
      case True
      then have "\<not> vo_true W (ue_value e1)" using true_iff[OF r(2)] by linarith
      then show ?thesis unfolding all unfolding True using yields_count_Nil[of counts] by simp
    next
      case False
      then have pos: "0 < card ?S" by linarith
      then have t: "vo_true W (ue_value e1)" using true_iff[OF r(2)] by blast
      show ?thesis unfolding all using t yields_count_one[of counts e2, OF r2(2) pos] by simp
    qed
    then show ?thesis using run True by (intro exI[of _ "if vo_true W (ue_value e1) then [e2] else []"]) simp
  next
    case False
    have len: "length (ue_key ?e) = length ?R" by (simp add: key)
    from call_operator_ok(2)[OF W call len False] start obtain ys e1 where r: "get_sub_operator (Suc fuel) V False s hs ?e = Some (ys, e1)"
      "yields_count counts (\<lambda>k. card {\<alpha> \<in> ?S. hits ?R ?A (ue_key ?e) k \<alpha>}) ys" unfolding run_ok_def by blast
    have "einsum V hsh s hs = Some (if vo_bool W then unique_by_hash hsh [] ys else ys)"
      using False r(1) unfolding fuel_def by (simp add: einsum_def W Let_def del: get_sub_operator.simps)
    then show ?thesis using False r(2) unfolding sols by auto
  qed
qed

end

subsection \<open>The value types\<close>

lemma unique_by_hash_spec:
  assumes "inj_on hsh (set ys)"
  shows "set (unique_by_hash hsh found ys) = {y \<in> set ys. hsh y \<notin> set found}" "distinct (unique_by_hash hsh found ys)"
proof -
  have "set (unique_by_hash hsh found ys) = {y \<in> set ys. hsh y \<notin> set found} \<and> distinct (unique_by_hash hsh found ys)"
    using assms
  proof (induction ys arbitrary: found)
    case (Cons y ys)
    have inj: "inj_on hsh (set ys)" "\<forall>z \<in> set ys. hsh z = hsh y \<longrightarrow> z = y" using Cons.prems by (auto simp: inj_on_def)
    then show ?case using Cons.IH[OF inj(1), of found] Cons.IH[OF inj(1), of "hsh y # found"] by auto
  qed simp
  then show "set (unique_by_hash hsh found ys) = {y \<in> set ys. hsh y \<notin> set found}" "distinct (unique_by_hash hsh found ys)" by auto
qed

lemma size_t_yields:
  assumes "yields_count size_t_counts f ys"
  shows "(\<Sum>y\<leftarrow>ys. if ue_key y = k then unat (ue_value y) else 0) = f k" "\<forall>y \<in> set ys. ue_value y \<noteq> 0"
proof -
  obtain ns where ns: "list_all2 (\<lambda>y n. size_t_counts (ue_value y) n \<and> 0 < n) ys ns" "\<forall>k. weight (zip ys ns) k = f k"
    using assms by (auto simp: yields_count_def)
  have "(\<Sum>y\<leftarrow>ys. if ue_key y = k then unat (ue_value y) else 0) = weight (zip ys ns) k \<and> (\<forall>y \<in> set ys. ue_value y \<noteq> 0)"
    using ns(1) by (induction rule: list_all2_induct) (auto simp: size_t_counts_def)
  then show "(\<Sum>y\<leftarrow>ys. if ue_key y = k then unat (ue_value y) else 0) = f k" "\<forall>y \<in> set ys. ue_value y \<noteq> 0" using ns(2) by auto
qed

lemma bool_yields:
  assumes "yields_count bool_counts f ys"
  shows "k \<in> ue_key ` set ys \<longleftrightarrow> 0 < f k" "\<forall>y \<in> set ys. ue_value y"
proof -
  obtain ns where ns: "list_all2 (\<lambda>y n. bool_counts (ue_value y) n \<and> 0 < n) ys ns" "\<forall>k. weight (zip ys ns) k = f k"
    using assms by (auto simp: yields_count_def)
  have "(k \<in> ue_key ` set ys \<longleftrightarrow> 0 < weight (zip ys ns) k) \<and> (\<forall>y \<in> set ys. ue_value y)"
    using ns(1) by (induction rule: list_all2_induct) (auto simp: bool_counts_def)
  then show "k \<in> ue_key ` set ys \<longleftrightarrow> 0 < f k" "\<forall>y \<in> set ys. ue_value y" using ns(2) by auto
qed

lemma size_t_summation:
  fixes V :: "('v::zero_neq_one, 64 word, 'd) einsum_env"
  assumes W: "ee_value V = size_t_ops" and L: "set_order (sl_order (ee_lib V))" and wf: "subscript_wf rs"
    and s: "new_subscript (ee_lib V) rs Type_None = Some s"
    and ok: "inputs_ok (ee_htt V) U (ee_storage V) (rs_operands rs) Es hs" and sm: "bound Es * bound Es < 2 ^ 64"
  shows "\<exists>ys. einsum V hsh s hs = Some ys \<and> (\<forall>y \<in> set ys. ue_value y \<noteq> 0) \<and>
    (\<forall>k. (\<Sum>y\<leftarrow>ys. if ue_key y = k then unat (ue_value y) else 0) =
      card {\<alpha> \<in> solutions (rs_operands rs) Es. map \<alpha> (rs_result rs) = k})"
proof -
  have "summation_ok size_t_ops rs" "fits_size_t (bound Es * bound Es)"
    using wf sm by (simp_all add: summation_ok_def size_t_ops_def fits_size_t_def)
  from size_t.einsum_ok[OF W L this(1) s ok this(2)] obtain ys where "einsum V hsh s hs = Some ys"
    "yields_count size_t_counts (\<lambda>k. card {\<alpha> \<in> solutions (rs_operands rs) Es. map \<alpha> (rs_result rs) = k}) ys"
    by (auto simp: size_t_ops_def)
  then show ?thesis using size_t_yields by blast
qed

lemma bool_summation:
  fixes V :: "('v::zero_neq_one, bool, 'd) einsum_env"
  assumes W: "ee_value V = bool_ops" and L: "set_order (sl_order (ee_lib V))" and wf: "summation_ok bool_ops rs"
    and s: "new_subscript (ee_lib V) rs Type_None = Some s"
    and ok: "inputs_ok (ee_htt V) U (ee_storage V) (rs_operands rs) Es hs"
    and hsh: "inj_on hsh ((\<lambda>\<alpha>. \<lparr>ue_key = map \<alpha> (rs_result rs), ue_value = True\<rparr>) ` solutions (rs_operands rs) Es)"
  shows "\<exists>ys. einsum V hsh s hs = Some ys \<and> distinct (map ue_key ys) \<and> (\<forall>y \<in> set ys. ue_value y) \<and>
    ue_key ` set ys = (\<lambda>\<alpha>. map \<alpha> (rs_result rs)) ` solutions (rs_operands rs) Es"
proof -
  let ?S = "solutions (rs_operands rs) Es" and ?R = "rs_result rs"
  have "any_size (bound Es * bound Es)" by (simp add: any_size_def)
  from boolean.einsum_ok[OF W L wf s ok this] obtain ys where
    run: "einsum V hsh s hs = Some (if vo_bool bool_ops \<and> \<not> su_all_result_done (sc_data s) then unique_by_hash hsh [] ys else ys)"
    and ys: "yields_count bool_counts (\<lambda>k. card {\<alpha> \<in> ?S. map \<alpha> ?R = k}) ys"
    and one: "su_all_result_done (sc_data s) \<longrightarrow> length ys \<le> 1" by blast
  have fin: "finite ?S" by (rule inputs_bound(1)[OF ok])
  have "k \<in> ue_key ` set ys \<longleftrightarrow> k \<in> (\<lambda>\<alpha>. map \<alpha> ?R) ` ?S" for k
  proof -
    have "0 < card {\<alpha> \<in> ?S. map \<alpha> ?R = k} \<longleftrightarrow> {\<alpha> \<in> ?S. map \<alpha> ?R = k} \<noteq> {}" using fin by (simp add: card_gt_0_iff)
    then show ?thesis unfolding bool_yields(1)[OF ys] by blast
  qed
  then have keys: "ue_key ` set ys = (\<lambda>\<alpha>. map \<alpha> ?R) ` ?S" by blast
  note true = bool_yields(2)[OF ys]
  have entry: "y = \<lparr>ue_key = ue_key y, ue_value = True\<rparr>" if "y \<in> set ys" for y using true that by (cases y) auto
  show ?thesis
  proof (cases "su_all_result_done (sc_data s)")
    case True
    then have "distinct (map ue_key ys)" using one by (cases ys) auto
    then show ?thesis using run True keys true by simp
  next
    case False
    have "set ys \<subseteq> (\<lambda>\<alpha>. \<lparr>ue_key = map \<alpha> ?R, ue_value = True\<rparr>) ` ?S"
    proof
      fix y assume y: "y \<in> set ys"
      then obtain \<alpha> where "\<alpha> \<in> ?S" "ue_key y = map \<alpha> ?R" using keys by blast
      then show "y \<in> (\<lambda>\<alpha>. \<lparr>ue_key = map \<alpha> ?R, ue_value = True\<rparr>) ` ?S" using entry[OF y] by (intro image_eqI[of _ _ \<alpha>]) simp_all
    qed
    then have inj: "inj_on hsh (set ys)" using hsh inj_on_subset by blast
    note u = unique_by_hash_spec[OF inj, of "[]"]
    have set: "set (unique_by_hash hsh [] ys) = set ys" using u(1) by simp
    have "inj_on ue_key (set ys)" by (rule inj_onI) (metis entry)
    then have "distinct (map ue_key (unique_by_hash hsh [] ys))" using u(2) set by (simp add: distinct_map)
    then show ?thesis using run False keys true set by (simp add: bool_ops_def)
  qed
qed

end
