(* ===== verification/Subscript_Text.thy ===== *)
theory Subscript_Text
  imports Raw_Subscript
begin

text \<open>
  The textual form of a subscript: printing (the conversion to a string in RawSubscript.hpp) and the
  parser \<open>Subscript::from_string\<close> (Subscript.hpp), which numbers the labels in the order in which they
  occur. Parsing a printed subscript gives it back up to an injective renaming of the labels.
\<close>

subsection \<open>Printing\<close>

fun print_operands :: "operand_sc list \<Rightarrow> string" where
  "print_operands [] = []"
| "print_operands [op] = op"
| "print_operands (op # ops) = op @ CHR '','' # print_operands ops"

definition rs_to_string :: "raw_subscript \<Rightarrow> string" where
  "rs_to_string rs = print_operands (rs_operands rs) @ ''->'' @ rs_result rs"

subsection \<open>The parser\<close>

text \<open>\<open>next_label++\<close> on a \<open>char\<close>.\<close>

definition succ_label :: "label \<Rightarrow> label" where
  "succ_label l = char_of (of_char l + (1 :: nat))"

definition map_label :: "char \<Rightarrow> (char \<times> label) list \<times> label \<Rightarrow> (char \<times> label) list \<times> label" where
  "map_label c s = (case s of (m, next_label) \<Rightarrow>
     if map_of m c = None then (AList.update c next_label m, succ_label next_label) else (m, next_label))"

text \<open>Reading at the end of the string is undefined.\<close>

fun parse_operand :: "string \<Rightarrow> (char \<times> label) list \<times> label \<Rightarrow> operand_sc \<Rightarrow> (string \<times> ((char \<times> label) list \<times> label) \<times> operand_sc) option" where
  "parse_operand [] s op = None"
| "parse_operand (c # cs) s op =
     (if c = CHR '','' \<or> c = CHR ''-'' then Some (c # cs, s, op)
      else let s' = map_label c s in parse_operand cs s' (op @ [the (map_of (fst s') c)]))"

lemma parse_operand_length: "parse_operand cs s op = Some (rest, s', op') \<Longrightarrow> length rest \<le> length cs"
  by (induction cs s op rule: parse_operand.induct) (auto simp: Let_def split: if_splits)

function parse_operands :: "string \<Rightarrow> (char \<times> label) list \<times> label \<Rightarrow> (operand_sc list \<times> string \<times> (char \<times> label) list \<times> label) option" where
  "parse_operands cs s =
     (if cs = [] then None
      else if hd cs = CHR ''-'' then Some ([], cs, s)
      else case parse_operand cs s [] of
        None \<Rightarrow> None
      | Some (rest, s', op) \<Rightarrow>
          if rest = [] then None
          else if hd rest = CHR ''-'' then Some ([op], rest, s')
          else map_option (\<lambda>(ops, r). (op # ops, r)) (parse_operands (tl rest) s'))"
  by pat_completeness auto
termination
proof (relation "measure (length \<circ> fst)")
  fix cs s x rest y s' op
  assume "parse_operand cs s [] = Some x" "(rest, y) = x" "(s', op) = y" "rest \<noteq> []"
  then have "length rest \<le> length cs" "rest \<noteq> []" using parse_operand_length[of cs s "[]" rest s' op] by auto
  then show "((tl rest, s'), cs, s) \<in> measure (length \<circ> fst)" by (cases rest) auto
qed simp

declare parse_operands.simps [simp del]

fun parse_result :: "string \<Rightarrow> (char \<times> label) list \<Rightarrow> label list option" where
  "parse_result [] m = Some []"
| "parse_result (c # cs) m = do {
     check (map_of m c \<noteq> None);
     ls \<leftarrow> parse_result cs m;
     Some (the (map_of m c) # ls)
   }"

definition from_string :: "string \<Rightarrow> (operand_sc list \<times> label list) option" where
  "from_string str = do {
     (ops, rest, m, next_label) \<leftarrow> parse_operands str ([], CHR ''a'');
     let operands_sc = (if ops = [] then [[]] else ops);
     check (2 \<le> length rest);
     result_sc \<leftarrow> parse_result (drop 2 rest) m;
     Some (operands_sc, result_sc)
   }"

subsection \<open>Parsing what was printed\<close>

text \<open>The labels handed out: the \<open>i\<close>-th new character gets the \<open>i\<close>-th successor of \<open>a\<close>; 254 characters can
  occur, fewer than \<open>char\<close> has values, so no label is handed out twice.\<close>

definition nth_label :: "nat \<Rightarrow> label" where
  "nth_label i = char_of (97 + i)"

definition numbering :: "(char \<times> label) list \<times> label \<Rightarrow> bool" where
  "numbering s \<longleftrightarrow> al_ok (fst s) \<and> CHR '','' \<notin> set (keys_of (fst s)) \<and>
     map snd (fst s) = map nth_label [0..<length (fst s)] \<and> snd s = nth_label (length (fst s))"

lemma succ_nth_label: "succ_label (nth_label i) = nth_label (Suc i)"
  by (simp add: succ_label_def nth_label_def char_of_eq_iff take_bit_eq_mod mod_Suc_eq)

lemma numbering_start: "numbering ([], CHR ''a'')"
  by (simp add: numbering_def nth_label_def char_of_def bit_iff_odd)

lemma update_absent: "map_of m c = None \<Longrightarrow> AList.update c x m = m @ [(c, x)]"
  by (induction m) (auto split: if_splits)

lemma map_label_numbering:
  assumes "numbering s" "c \<noteq> CHR '',''"
  shows "numbering (map_label c s)"
proof (cases "map_of (fst s) c = None")
  case True
  then have "c \<notin> set (keys_of (fst s))" by (simp add: map_of_eq_None_iff)
  then show ?thesis using assms True
    by (cases s) (auto simp: numbering_def map_label_def update_absent succ_nth_label)
qed (use assms in \<open>auto simp: map_label_def split: prod.splits\<close>)

lemma numbering_inj:
  assumes "numbering s"
  shows "inj_on (the \<circ> map_of (fst s)) (set (keys_of (fst s)))"
proof -
  let ?m = "fst s"
  have n: "al_ok ?m" "CHR '','' \<notin> set (keys_of ?m)" "map snd ?m = map nth_label [0..<length ?m]"
    using assms by (auto simp: numbering_def)
  have "set (keys_of ?m) \<subseteq> UNIV - {CHR '',''}" using n(2) by blast
  then have "card (set (keys_of ?m)) \<le> card (UNIV - {CHR '',''})" by (intro card_mono) auto
  then have len: "length ?m < 256" using distinct_card[OF n(1)] by (simp add: card_UNIV_char card_Diff_subset)
  have inj: "i = j" if "nth_label i = nth_label j" "i < length ?m" "j < length ?m" for i j
  proof -
    have "(97 + i) mod 256 = (97 + j) mod 256" using that(1) by (simp add: nth_label_def char_of_eq_iff take_bit_eq_mod)
    then have "256 dvd (97 + i) - (97 + j)" "256 dvd (97 + j) - (97 + i)"
      by (metis mod_eq_dvd_iff_nat nat_le_linear diff_is_0_eq dvd_0_right)+
    moreover have "(97 + i) - (97 + j) < 256" "(97 + j) - (97 + i) < 256" using that(2,3) len by auto
    ultimately show ?thesis using nat_dvd_not_less by fastforce
  qed
  have dist: "distinct (map snd ?m)" unfolding n(3) by (auto simp: distinct_map intro!: inj_onI inj)
  show ?thesis
  proof (rule inj_onI)
    fix a b assume ab: "a \<in> set (keys_of ?m)" "b \<in> set (keys_of ?m)" "(the \<circ> map_of ?m) a = (the \<circ> map_of ?m) b"
    obtain x y where xy: "map_of ?m a = Some x" "map_of ?m b = Some y" using ab(1,2) by (meson al_find_Some_ex)
    then have "x = y" using ab(3) by simp
    moreover have "(a, x) \<in> set ?m" "(b, y) \<in> set ?m" using xy by (auto dest: map_of_SomeD)
    ultimately show "a = b" using dist by (metis distinct_map inj_onD prod.sel(1) snd_conv)
  qed
qed

text \<open>Numbering a sequence of characters.\<close>

definition map_labels :: "string \<Rightarrow> (char \<times> label) list \<times> label \<Rightarrow> (char \<times> label) list \<times> label" where
  "map_labels cs s = fold map_label cs s"

lemma map_label_keeps: "map_of (fst s) a = Some x \<Longrightarrow> map_of (fst (map_label c s)) a = Some x"
  by (auto simp: map_label_def al_simps split: prod.splits)

lemma map_labels_keeps: "map_of (fst s) a = Some x \<Longrightarrow> map_of (fst (map_labels cs s)) a = Some x"
  by (induction cs arbitrary: s) (auto simp: map_labels_def map_label_keeps)

lemma map_label_find: "map_of (fst (map_label c s)) c \<noteq> None"
  by (auto simp: map_label_def al_simps split: prod.splits)

lemma map_labels_find: "a \<in> set cs \<Longrightarrow> map_of (fst (map_labels cs s)) a \<noteq> None"
proof (induction cs arbitrary: s)
  case (Cons c cs)
  show ?case
  proof (cases "a = c")
    case True
    obtain x where "map_of (fst (map_label c s)) c = Some x" using map_label_find by blast
    then show ?thesis using map_labels_keeps True by (fastforce simp: map_labels_def)
  qed (use Cons in \<open>auto simp: map_labels_def\<close>)
qed simp

lemma map_labels_numbering: "numbering s \<Longrightarrow> CHR '','' \<notin> set cs \<Longrightarrow> numbering (map_labels cs s)"
proof (induction cs arbitrary: s)
  case (Cons c cs)
  then have "numbering (map_label c s)" using map_label_numbering[of s c] by auto
  then show ?case using Cons by (simp add: map_labels_def)
qed (simp add: map_labels_def)

lemma map_labels_append: "map_labels (as @ bs) s = map_labels bs (map_labels as s)"
  by (simp add: map_labels_def)

definition no_separator :: "string \<Rightarrow> bool" where
  "no_separator cs \<longleftrightarrow> CHR '','' \<notin> set cs \<and> CHR ''-'' \<notin> set cs"

lemma parse_operand_printed:
  assumes "no_separator ls" "c = CHR '','' \<or> c = CHR ''-''"
  shows "parse_operand (ls @ c # rest) s op =
    Some (c # rest, map_labels ls s, op @ map (the \<circ> map_of (fst (map_labels ls s))) ls)"
  using assms(1)
proof (induction ls arbitrary: s op)
  case Nil
  then show ?case using assms(2) by (auto simp: map_labels_def)
next
  case (Cons l ls)
  obtain x where x: "map_of (fst (map_label l s)) l = Some x" using map_label_find by blast
  then have "map_of (fst (map_labels ls (map_label l s))) l = Some x" by (rule map_labels_keeps)
  then show ?case using Cons x by (auto simp: no_separator_def map_labels_def Let_def)
qed

text \<open>The renaming that the mapping makes of the labels.\<close>

abbreviation renamed :: "(char \<times> label) list \<Rightarrow> label list \<Rightarrow> label list" where
  "renamed m ls \<equiv> map (the \<circ> map_of m) ls"

lemma renamed_keeps:
  assumes "set ls \<subseteq> set (keys_of (fst s))"
  shows "renamed (fst (map_labels cs s)) ls = renamed (fst s) ls"
proof (rule map_cong)
  fix a assume "a \<in> set ls"
  then obtain x where "map_of (fst s) a = Some x" using assms by (meson al_find_Some_ex subsetD)
  then show "(the \<circ> map_of (fst (map_labels cs s))) a = (the \<circ> map_of (fst s)) a" using map_labels_keeps by fastforce
qed simp

lemma parse_operands_printed:
  assumes "\<forall>op \<in> set ops. no_separator op" "ops \<noteq> []" "last ops \<noteq> []"
  shows "parse_operands (print_operands ops @ CHR ''-'' # rest) s =
    Some (map (renamed (fst (map_labels (concat ops) s))) ops, CHR ''-'' # rest, map_labels (concat ops) s)"
  using assms
proof (induction ops arbitrary: s rule: print_operands.induct)
  case (2 op)
  then obtain l ls where op: "op = l # ls" by (cases op) auto
  have "parse_operand (op @ CHR ''-'' # rest) s [] = Some (CHR ''-'' # rest, map_labels op s, renamed (fst (map_labels op s)) op)"
    using parse_operand_printed[of op "CHR ''-''" rest s "[]"] 2 by simp
  then show ?case using 2 op by (subst parse_operands.simps) (auto simp: no_separator_def)
next
  case (3 op op' ops)
  let ?s = "map_labels op s"
  have p: "parse_operand (op @ CHR '','' # print_operands (op' # ops) @ CHR ''-'' # rest) s [] =
      Some (CHR '','' # print_operands (op' # ops) @ CHR ''-'' # rest, ?s, renamed (fst ?s) op)"
    using parse_operand_printed[of op "CHR '',''" _ s "[]"] 3 by simp
  have ih: "parse_operands (print_operands (op' # ops) @ CHR ''-'' # rest) ?s =
      Some (map (renamed (fst (map_labels (concat (op' # ops)) ?s))) (op' # ops), CHR ''-'' # rest, map_labels (concat (op' # ops)) ?s)"
    using 3 by simp
  have "set op \<subseteq> set (keys_of (fst ?s))" using map_labels_find[of _ op s] by (auto simp: map_of_eq_None_iff)
  then have "renamed (fst (map_labels (concat (op' # ops)) ?s)) op = renamed (fst ?s) op" by (rule renamed_keeps)
  moreover have "hd (op @ CHR '','' # print_operands (op' # ops) @ CHR ''-'' # rest) \<noteq> CHR ''-''"
    using 3(2) by (cases op) (auto simp: no_separator_def)
  ultimately show ?case using p ih by (subst parse_operands.simps) (simp add: map_labels_append)
qed simp

lemma parse_result_printed:
  "set ls \<subseteq> set (keys_of m) \<Longrightarrow> parse_result ls m = Some (renamed m ls)"
proof (induction ls)
  case (Cons l ls)
  then obtain x where "map_of m l = Some x" by (meson al_find_Some_ex list.set_intros(1) subsetD)
  then show ?case using Cons by simp
qed simp

lemma from_string_printed:
  assumes "\<forall>op \<in> set ops. no_separator op" "ops \<noteq> []" "last ops \<noteq> [] \<or> length ops = 1" "set res \<subseteq> labels_of ops"
    "rs_operands rs = ops" "rs_result rs = res"
  shows "\<exists>ren. inj_on ren (labels_of ops) \<and> from_string (rs_to_string rs) = Some (map (map ren) ops, map ren res)"
proof -
  define s where "s = map_labels (concat ops) ([], CHR ''a'')"
  have sub: "labels_of ops \<subseteq> set (keys_of (fst s))"
    using map_labels_find[of _ "concat ops" "([], CHR ''a'')"] by (auto simp: s_def map_of_eq_None_iff)
  have "numbering s" unfolding s_def using assms(1) by (intro map_labels_numbering numbering_start) (auto simp: no_separator_def)
  then have inj: "inj_on (the \<circ> map_of (fst s)) (labels_of ops)" using numbering_inj sub by (blast intro: inj_on_subset)
  have res: "parse_result res (fst s) = Some (renamed (fst s) res)" using assms(4) sub by (intro parse_result_printed) auto
  have "from_string (rs_to_string rs) = Some (map (renamed (fst s)) ops, renamed (fst s) res)"
  proof (cases "last ops \<noteq> []")
    case True
    then show ?thesis
      using parse_operands_printed[OF assms(1,2) True, of "CHR ''>'' # res" "([], CHR ''a'')"] res assms(2,5,6)
      by (cases s) (simp add: from_string_def rs_to_string_def s_def[symmetric])
  next
    case False
    then have "ops = [[]]" using assms(2,3) by (cases ops) auto
    then show ?thesis using assms(4-6) by (simp add: from_string_def rs_to_string_def parse_operands.simps)
  qed
  then show ?thesis using inj by (intro exI[of _ "the \<circ> map_of (fst s)"]) simp
qed

end
