(* ===== verification/Spec2Isabelle.thy ===== *)
theory Spec2Isabelle
  imports Sample_Universe Raw_Iterator Bulk_Update Hypertrie_Lifecycle Einsum_Correct Subscript_Text
begin

text \<open>
  A model of dice-hypertrie: a trie that stores tensors of entries (key, value), shares equal
  sub-tries, and answers lookups, slices, diagonals and joins in every position of the key, and of the
  evaluation of Einstein summations over such tries. The sources of the first are under
  src/libs/hypertrie/src/dice/hypertrie/, those of the second under src/libs/einsum/src/dice/einsum/.

  THE PROGRAM. An entry has a key of some depth and a value. The node of a set of entries of depth d
  is identified by a hash of the set (node/Identifier.hpp); a set of one entry is a single-entry node,
  a larger one a full node, which has for each position the edges from key parts to the nodes of the
  remaining entries (node/FullNode.hpp). Nodes of equal sets are shared and reference counted, per
  depth, in the node storage. An update is a bulk of insertions or erasures on one node: requests are
  collected (UpdateRequests.hpp), planned (UpdatePlan.hpp) and applied (ApplyUpdate.hpp) at one depth,
  which causes requests at the depth below. RawHypertrieContext.hpp reads and writes nodes; the raw
  iterator and the raw diagonals run over them. Hypertrie.hpp wraps a node in a handle, HashDiagonal.hpp
  and HashJoin.hpp wrap the diagonals of handles, and the bulk updaters buffer entries. An Einstein
  summation has a subscript, the labels of the operands and of the result (RawSubscript.hpp), from which
  Subscript.hpp chooses an operation: join the operands at the label of the least estimated cardinality,
  split them into the connected components of their labels, or resolve the last operand. The operators
  call each other along the subscripts and share one entry, into which they write the result key
  (internal/operators/*.hpp, EinsumOperator.hpp).

  THE THEORIES, in the order of their imports.
  \<^item> Prelude: check, foldM and association lists, with their rules. Cursor: the interface of iterators.
  \<^item> Keys (Key.hpp, RawKey.hpp, RawDiagonalPositions.hpp): keys, slice keys, masks of positions as bytes.
  \<^item> Identifiers (Identifier.hpp): identifiers as 64-bit words; ident, the identifier of a set;
    universe_ok, the family of sets on which the hash does not collide.
  \<^item> Nodes (node/*.hpp): full nodes, single-entry nodes, the storage. Representation: fn_repr (a full node
    stands for a set), storage_inv (the invariant of the storage for given numbers of handles).
  \<^item> Update_Requests, Request_Contracts, Update_Plan, Apply_Update, Update_Steps, Level_Update,
    Update_Correct: an update, from the requests to insert_entries_into_node and
    erase_entries_from_node; pending is the invariant of a storage that owes the requests of one depth.
  \<^item> Raw_Context, Context_Handles (RawHypertrieContext.hpp): size, get, slice, diagonal_slice; reference
    counts and set. Raw_Iterator, Raw_Diagonal: the raw iterators.
  \<^item> Bulk_Update (SynchronousRawBulkUpdater.hpp, RawBulkUpdater.hpp): the buffered updaters over the
    interface bulk_target; the worker of the asynchronous one is a step relation.
  \<^item> Hypertrie_Handle, Hypertrie_Lifecycle (Hypertrie.hpp): the handles, and programs that create, copy,
    move, assign, write and destroy them.
  \<^item> Hash_Diagonal, Permutation_Sort, Hash_Join (HashDiagonal.hpp, PermutationSort.hpp, HashJoin.hpp).
    Hypertrie_Iterator (Iterator.hpp, get_cards of Hypertrie.hpp).
  \<^item> Label_Graph (UndirectedGraph.hpp): the dependency graph of the labels, its components. Raw_Subscript
    (RawSubscript.hpp), Subscripts, Subscript_Text (Subscript.hpp): subscripts, their constructor, and the
    parser. Subscript_Facts: the constructor returns; data_ok and built_from say what it returns.
  \<^item> Einsum_Operators (CardinalityEstimation.hpp, the operators, EinsumOperator.hpp): the definitions of
    the evaluation. Einsum_Semantics: the solutions of a summation and how they decompose along a label and
    along components, without reference to the program. Einsum_Values: the interface value_type of result
    values with the instances size_t and bool, and what a run of an operator promises.
  \<^item> Einsum_Estimates, Einsum_Join, Einsum_Bases, Einsum_Entries: the estimates return; the join operator
    and the base operators are correct if the operators they call are. Einsum_Odometer, Einsum_Rounds,
    Einsum_Parts, Einsum_Cartesian, Einsum_Products: the same for the Cartesian operator. Einsum_Correct:
    the recursion, and the summations of the two value types.
  \<^item> Sample_Universe: the universe at which the properties are applied. This theory: the properties.

  THE MODEL. A machine word is a 64 word (key parts, identifiers) or a nat where the code counts. The
  trait class is a record: Boolean or other values, entries in place at depth 1, the position of the
  tag bit, and the hash functions of the library dice-hash, which are parameters; the documented xor
  combination is the hypothesis combine_is_xor. That hashes do not collide is the hypothesis
  universe_ok, met by a concrete universe. A failed assertion, a missing node or a null pointer is
  None, so that every property that an operation returns Some also says that no assertion fails.
  A pointer to a stored node is the flag of a container whether it is null; the node is looked up by
  its identifier. Hash maps are association lists in an order the properties do not depend on.

  FUEL AND TERMINATION. The recursions over levels are structural in the depth. Cursors are run with
  fuel that the properties bound by the number of entries. The search of the join, the cycles of
  the in-place permutation, the search for components, the constructor of subscripts and the loop over
  combinations are partial functions, proved to return. The operators recurse with fuel, as much as the subscript
  has labels and one more: every operator calls the others with fewer labels, which operators_ok_fuel uses.

  INTERFACES. cursor and keyed_cursor (Cursor) are interpreted on the raw iterator, both raw diagonals,
  the diagonal of a handle and the join; bulk_target (Bulk_Update) on the raw context; value_type
  (Einsum_Values) on 64-bit counts and on bool.

  A generator is the list of the entries it yields, each as its consumer sees it when it is yielded, with
  the shared entry at the end. The order in which the library runs over a hash set of labels, the double
  arithmetic of the estimates and the hash of result entries are parameters of the summation.

  NOT MODELLED. The allocators, the lock-free queue of the asynchronous updater (a bounded list here),
  the copy and move operations of the type-erased wrappers, string conversions but those of subscripts,
  the join with optional operands, the time-outs of a summation, and the library query on top.
\<close>

subsection \<open>Helpers of the properties and their witnesses\<close>

definition sample_entries :: "bool entry list" where
  "sample_entries = [([1, 2, 3], True), ([1, 2, 2], True), ([3, 2, 2], True)]"

lemma sample_entries_3: "set es \<subseteq> set sample_entries \<Longrightarrow> length es < 100 \<Longrightarrow> entries_ok sample_universe 3 (set es)"
  by (rule sample_entries_ok) (auto simp: sample_entries_def)

lemma empty_handle: "0 < empty_handles d (ident T d {})"
  by (simp add: empty_handles_def)

lemmas sample_empty_inv = storage_inv_empty[OF sample_universe_ok]

lemma sample_distinct: "distinct sample_entries" and sample_not_empty: "sample_entries \<noteq> []"
  by (simp_all add: sample_entries_def)

lemma sample_length: "length sample_entries < 100"
  by (simp add: sample_entries_def)

lemma sample_ok: "entries_ok sample_universe 3 (set sample_entries)"
  by (rule sample_entries_3) (simp_all add: sample_length)

definition sample_handles :: "nat \<Rightarrow> node_id \<Rightarrow> int" where
  "sample_handles = move_handle empty_handles 3 0 (ident sample_htt 3 (set sample_entries))"

lemma sample_handle: "0 < sample_handles 3 (ident sample_htt 3 (set sample_entries))"
  by (simp add: sample_handles_def move_handle_def empty_handles_def)

text \<open>The storage and the container after inserting the sample entries into the empty node.\<close>

definition sample_state :: "bool node_storage \<times> node_container" where
  "sample_state = the (insert_entries_into_node sample_htt 3 empty_storage empty_container sample_entries)"

abbreviation sample_storage :: "bool node_storage" where
  "sample_storage \<equiv> fst sample_state"

abbreviation sample_container :: node_container where
  "sample_container \<equiv> snd sample_state"

lemma sample_ins_ok: "ins_ok sample_universe 3 {} sample_entries"
  using sample_ok entries_ok_empty[OF sample_universe_ok] by (simp add: ins_ok_def)

lemma sample_filled:
  "container_ok sample_htt 3 (set sample_entries) sample_container"
  "storage_inv sample_htt sample_universe 3 sample_handles sample_storage"
  using insert_entries_spec[OF sample_empty_inv[of 3] _ _ sample_ins_ok sample_distinct _ empty_handle container_ok_empty]
  unfolding Un_empty_left ident_empty sample_handles_def[symmetric] sample_state_def by auto

lemma sample_below: "below_ok sample_htt sample_universe sample_storage (Suc 3)"
  by (rule storage_inv_below[OF sample_filled(2)]) simp

lemma sample_present: "present sample_htt sample_storage 3 (ident sample_htt 3 (set sample_entries))"
  by (rule handle_present[OF sample_filled(2) _ _ sample_handle]) simp_all

lemma sample_card: "card (set sample_entries) = 3" and sample_mem: "([1, 2, 2], True) \<in> set sample_entries"
  by (simp_all add: sample_entries_def)

lemma value_at_Un:
  assumes "inj_on fst (E \<union> F)"
  shows "value_at (E \<union> F) key = (if key \<in> fst ` F then value_at F key else value_at E key)"
proof (cases "key \<in> fst ` (E \<union> F)")
  case True
  then obtain v where v: "(key, v) \<in> E \<union> F" by (metis imageE prod.collapse)
  have inj: "inj_on fst E" "inj_on fst F" using assms by (auto intro: inj_on_subset)
  show ?thesis
  proof (cases "key \<in> fst ` F")
    case True
    then obtain w where "(key, w) \<in> F" by auto
    then show ?thesis using value_at_in[OF assms, of key w] value_at_in[OF inj(2), of key w] True by simp
  next
    case False
    then have "(key, v) \<in> E" using v by force
    then show ?thesis using value_at_in[OF assms, of key v] value_at_in[OF inj(1), of key v] False by simp
  qed
qed (auto simp: value_at_def)

lemma distinct_set_single:
  assumes "distinct xs" "set xs = {x}"
  shows "xs = [x]"
  using assms by (cases xs) (auto dest: subset_singletonD)

lemma storage_inv_nothing:
  assumes "universe_ok T U" "\<And>d i. 0 \<le> R d i" "\<And>d i. tracked T d i \<Longrightarrow> R d i = 0"
  shows "storage_inv T U D R empty_storage"
  using assms by (auto simp: storage_inv_def content_ok_def fns_ok_def sens_ok_def refs_ok_def
      ref_of_def find_fn_def find_sen_def)

text \<open>The storage of a bulk updater that starts from the empty node, with the sample entries to come.\<close>

lemma sample_bulk_rep:
  "bulk_rep sample_htt sample_universe 3 3 (\<lambda>_ _. 0) (set sample_entries) (empty_storage, empty_container) {}"
proof -
  have "entries_ok sample_universe 3 X" if "X \<subseteq> set sample_entries" for X
  proof -
    have "set (filter (\<lambda>e. e \<in> X) sample_entries) = X" using that by auto
    moreover have "length (filter (\<lambda>e. e \<in> X) sample_entries) < 100"
      using length_filter_le[of "\<lambda>e. e \<in> X" sample_entries] sample_length by linarith
    ultimately show ?thesis using sample_entries_3[of "filter (\<lambda>e. e \<in> X) sample_entries"] that by simp
  qed
  moreover have "storage_inv sample_htt sample_universe 3 (shift_handle (\<lambda>_ _. 0) 3 (ident sample_htt 3 {}) 1) empty_storage"
    by (rule storage_inv_nothing[OF sample_universe_ok]) (auto simp: shift_handle_def)
  ultimately show ?thesis using container_ok_empty by (simp add: bulk_rep_def sample_htt_def)
qed

subsection \<open>Updating a trie\<close>

text \<open>C9: Inserting new entries into the node of a set of entries returns the node of the union, never
  fails, and leaves a storage whose nodes, edges and reference counts are consistent, with the handle
  moved from the old to the new node.\<close>

lemma insert_entries_correct:
  assumes "storage_inv T U D R \<sigma>" "1 \<le> d" "d \<le> D" "ins_ok U d E es"
    "distinct es" "set es \<inter> E = {}" "0 < R d (ident T d E)" "container_ok T d E c"
  shows "\<exists>\<sigma>' c'. insert_entries_into_node T d \<sigma> c es = Some (\<sigma>', c') \<and> container_ok T d (E \<union> set es) c' \<and>
    storage_inv T U D (move_handle R d (ident T d E) (ident T d (E \<union> set es))) \<sigma>'"
  by (rule insert_entries_spec[OF assms])

lemma insert_entries_correct_witness:
  "\<exists>\<sigma>' c'. insert_entries_into_node sample_htt 3 empty_storage empty_container sample_entries = Some (\<sigma>', c') \<and>
    container_ok sample_htt 3 (set sample_entries) c' \<and>
    storage_inv sample_htt sample_universe 3
      (move_handle empty_handles 3 (ident sample_htt 3 {}) (ident sample_htt 3 (set sample_entries))) \<sigma>'"
proof -
  have "ins_ok sample_universe 3 {} sample_entries"
    using sample_ok entries_ok_empty[OF sample_universe_ok] by (simp add: ins_ok_def)
  from insert_entries_correct[OF sample_empty_inv _ _ this sample_distinct _ empty_handle container_ok_empty]
  show ?thesis by simp
qed

text \<open>C10: Erasing stored entries from the node of a set of entries returns the node of the difference
  (the empty container when nothing is left), never fails, and leaves a consistent storage.\<close>

lemma erase_entries_correct:
  assumes "storage_inv T U D R \<sigma>" "1 \<le> d" "d \<le> D" "del_ok U d E es"
    "distinct es" "set es \<subseteq> E" "0 < R d (ident T d E)" "container_ok T d E c"
  shows "\<exists>\<sigma>' c'. erase_entries_from_node T d \<sigma> c es = Some (\<sigma>', c') \<and> container_ok T d (E - set es) c' \<and>
    storage_inv T U D (move_handle R d (ident T d E) (ident T d (E - set es))) \<sigma>'"
  by (rule erase_entries_spec[OF assms])

lemma erase_entries_correct_witness:
  "\<exists>\<sigma>' c'. erase_entries_from_node sample_htt 3 sample_storage sample_container [([1, 2, 2], True), ([3, 2, 2], True)]
      = Some (\<sigma>', c') \<and>
    container_ok sample_htt 3 {([1, 2, 3], True)} c'"
proof -
  let ?es = "[([1, 2, 2], True), ([3, 2, 2], True)] :: bool entry list"
  have "distinct ?es" "set ?es \<subseteq> set sample_entries" "set sample_entries - set ?es = {([1, 2, 3], True)}"
    by (auto simp: sample_entries_def)
  moreover from this have "del_ok sample_universe 3 (set sample_entries) ?es"
    using sample_ok sample_entries_3[of ?es] sample_entries_3[of "[([1, 2, 3], True)]"]
    by (simp add: del_ok_def) (simp add: sample_entries_def)
  ultimately show ?thesis
    using erase_entries_correct[OF sample_filled(2) _ _ _ _ _ sample_handle sample_filled(1), of ?es] by auto
qed

text \<open>C11: Giving back, one after the other, as many handles as a consistent storage counts never fails, and in the
  end every level holds neither full nodes nor single-entry nodes: reference counting leaks no node.\<close>

lemma release_all_frees_all:
  assumes "storage_inv T U D R \<sigma>" "list_all2 (is_handle T U D) xs hs"
    "\<forall>d i. 1 \<le> d \<and> d \<le> D \<and> tracked T d i \<longrightarrow> R d i = handles_to T xs d i"
  shows "\<exists>\<sigma>'. release_all T hs \<sigma> = Some \<sigma>' \<and> (\<forall>d. 1 \<le> d \<and> d \<le> D \<longrightarrow> fns \<sigma>' d = [] \<and> sens \<sigma>' d = [])"
  by (rule release_all_handles[OF assms])

lemma release_all_frees_all_witness:
  "\<exists>\<sigma>'. release_all sample_htt [(3, sample_container)] sample_storage = Some \<sigma>' \<and> fns \<sigma>' 2 = [] \<and> sens \<sigma>' 2 = []"
proof -
  have "list_all2 (is_handle sample_htt sample_universe 3) [(3, set sample_entries)] [(3, sample_container)]"
    using sample_ok sample_not_empty sample_filled(1) by (simp add: is_handle_def sample_card)
  moreover have "sample_handles d i = handles_to sample_htt [(3, set sample_entries)] d i" if "tracked sample_htt d i" for d i
  proof -
    have "i \<noteq> 0" using that by (auto simp: tracked_def is_fn_def is_sen_def)
    then show ?thesis by (auto simp: sample_handles_def move_handle_def empty_handles_def)
  qed
  ultimately obtain \<sigma>' where "release_all sample_htt [(3, sample_container)] sample_storage = Some \<sigma>'"
      "\<forall>d. 1 \<le> d \<and> d \<le> 3 \<longrightarrow> fns \<sigma>' d = [] \<and> sens \<sigma>' d = []"
    using release_all_frees_all[OF sample_filled(2)] by blast
  then show ?thesis by auto
qed

text \<open>C12: Looking up a key in the node of a set of entries never fails and returns the value stored for the
  key, or zero when the key is not stored: the node implements the finite map of its entries.\<close>

lemma node_get_correct:
  assumes "1 \<le> d" "below_ok T U \<sigma> (Suc d)" "entries_ok U d E" "present T \<sigma> d (ident T d E)"
    "container_ok T d E c" "length key = d"
  shows "node_get T \<sigma> d c key = Some (value_at E key)"
  by (rule node_get_spec[OF assms])

lemma node_get_correct_witness: "node_get sample_htt sample_storage 3 sample_container [1, 2, 2] = Some True"
  using node_get_correct[OF _ sample_below sample_ok sample_present sample_filled(1), of "[1, 2, 2]"]
    value_at_in[OF entries_okD(4)[OF sample_ok] sample_mem] by simp

text \<open>C13: Slicing the node of a set of entries with a well-formed slice key returns the value when every
  position is fixed, and otherwise a container of the entries that match, without the fixed positions.\<close>

lemma node_slice_correct:
  assumes "below_ok T U \<sigma> (Suc d)" "1 \<le> d" "entries_ok U d E" "present T \<sigma> d (ident T d E)"
    "container_ok T d E c" "raw_slice_key_ok d fs"
  shows "case node_slice T \<sigma> d c fs of
      Some (Scalar v) \<Rightarrow> length fs = d \<and> v = value_at E (map snd fs)
    | Some (Slice r) \<Rightarrow> length fs < d \<and> slice_denotes T \<sigma> (d - length fs) (slice_entries fs E) r
    | None \<Rightarrow> False"
proof -
  have "length fs = d \<or> length fs < d" using raw_slice_key_ok_length[OF assms(6)] by auto
  then show ?thesis using node_slice_spec[OF assms] by fastforce
qed

lemma node_slice_correct_witness:
  "case node_slice sample_htt sample_storage 3 sample_container [(1, 2)] of
      Some (Slice r) \<Rightarrow> slice_denotes sample_htt sample_storage 2 (slice_entries [(1, 2)] (set sample_entries)) r
    | _ \<Rightarrow> False"
proof -
  have "raw_slice_key_ok 3 [(1, 2 :: key_part)]" by (simp add: raw_slice_key_ok_def)
  from node_slice_correct[OF sample_below _ sample_ok sample_present sample_filled(1) this]
  show ?thesis by (auto split: option.splits slice_out.splits)
qed

text \<open>C14: Iterating over the node of a set of entries ends, and yields every entry of the set exactly once.\<close>

lemma iterator_correct:
  assumes "1 \<le> d" "below_ok T U \<sigma> (Suc d)" "entries_ok U d E" "present T \<sigma> d (ident T d E)" "container_ok T d E c"
    "card E \<le> fuel"
  shows "\<exists>it es. iterator_begin T \<sigma> d c = Some it \<and> iterate T \<sigma> d fuel it = Some es \<and> set es = E \<and> distinct es"
  by (rule iterator_spec[OF assms])

lemma iterator_correct_witness:
  "\<exists>it es. iterator_begin sample_htt sample_storage 3 sample_container = Some it \<and>
    iterate sample_htt sample_storage 3 3 it = Some es \<and> set es = set sample_entries \<and> distinct es"
  by (rule iterator_correct[OF _ sample_below sample_ok sample_present sample_filled(1)]) (simp_all add: sample_card)

text \<open>C15: Inserting entries and then looking up any key of the right length returns the inserted value when
  the key was among them and the previous value otherwise.\<close>

lemma insert_then_get:
  assumes "storage_inv T U D R \<sigma>" "1 \<le> d" "d \<le> D" "ins_ok U d E es" "distinct es" "set es \<inter> E = {}"
    "0 < R d (ident T d E)" "container_ok T d E c" "length key = d"
  shows "\<exists>\<sigma>' c'. insert_entries_into_node T d \<sigma> c es = Some (\<sigma>', c') \<and>
    node_get T \<sigma>' d c' key = Some (if key \<in> fst ` set es then value_at (set es) key else value_at E key)"
proof -
  obtain \<sigma>' c' where r: "insert_entries_into_node T d \<sigma> c es = Some (\<sigma>', c')" "container_ok T d (E \<union> set es) c'"
      "storage_inv T U D (move_handle R d (ident T d E) (ident T d (E \<union> set es))) \<sigma>'"
    using insert_entries_spec[OF assms(1-8)] by blast
  have h: "0 < move_handle R d (ident T d E) (ident T d (E \<union> set es)) d (ident T d (E \<union> set es))"
    using assms(7) storage_invD(3)[OF assms(1), of d "ident T d (E \<union> set es)"] by (simp add: move_handle_def)
  have "node_get T \<sigma>' d c' key = Some (value_at (E \<union> set es) key)"
    by (rule node_get_spec[OF assms(2) storage_inv_below[OF r(3) assms(3)] ins_okD(1)[OF assms(4)]
        handle_present[OF r(3) assms(2,3) h] r(2) assms(9)])
  then show ?thesis using r(1) value_at_Un[OF entries_okD(4)[OF ins_okD(1)[OF assms(4)]], of key] by simp
qed

lemma insert_then_get_witness:
  "\<exists>\<sigma>' c'. insert_entries_into_node sample_htt 3 empty_storage empty_container sample_entries = Some (\<sigma>', c') \<and>
    node_get sample_htt \<sigma>' 3 c' [2, 2, 2] = Some False"
  using insert_then_get[OF sample_empty_inv[of 3] _ _ sample_ins_ok sample_distinct _ empty_handle container_ok_empty,
      of "[2, 2, 2]"]
  by (simp add: sample_entries_def value_at_def zero_bool_def)

text \<open>C16: Erasing what has just been inserted gives back the identifier of the node before the insertion and
  its handle count, whatever has been shared or moved in between.\<close>

lemma insert_erase_roundtrip:
  assumes "storage_inv T U D R \<sigma>" "1 \<le> d" "d \<le> D" "ins_ok U d E es" "distinct es" "set es \<inter> E = {}"
    "0 < R d (ident T d E)" "container_ok T d E c"
  shows "\<exists>\<sigma>' c' \<sigma>'' c''. insert_entries_into_node T d \<sigma> c es = Some (\<sigma>', c') \<and>
    erase_entries_from_node T d \<sigma>' c' es = Some (\<sigma>'', c'') \<and> nc_id c'' = nc_id c \<and> storage_inv T U D R \<sigma>''"
proof -
  let ?i = "ident T d E" and ?j = "ident T d (E \<union> set es)"
  obtain \<sigma>' c' where r: "insert_entries_into_node T d \<sigma> c es = Some (\<sigma>', c')" "container_ok T d (E \<union> set es) c'"
      "storage_inv T U D (move_handle R d ?i ?j) \<sigma>'"
    using insert_entries_spec[OF assms] by blast
  have h: "0 < move_handle R d ?i ?j d ?j"
    using assms(7) storage_invD(3)[OF assms(1), of d ?j] by (simp add: move_handle_def)
  have "del_ok U d (E \<union> set es) es" "E \<union> set es - set es = E"
    using assms(4,6) by (auto simp: ins_ok_def del_ok_def Un_Diff Diff_triv Int_commute)
  with erase_entries_spec[OF r(3) assms(2,3) _ assms(5) _ h r(2)]
  obtain \<sigma>'' c'' where "erase_entries_from_node T d \<sigma>' c' es = Some (\<sigma>'', c'')" "container_ok T d E c''"
      "storage_inv T U D (move_handle (move_handle R d ?i ?j) d ?j ?i) \<sigma>''" by auto
  then show ?thesis using r(1) container_okD(1)[OF assms(8)] container_okD(1) by (auto simp: move_handle_back)
qed

lemma insert_erase_roundtrip_witness:
  "\<exists>\<sigma>' c' \<sigma>'' c''. insert_entries_into_node sample_htt 3 empty_storage empty_container sample_entries = Some (\<sigma>', c') \<and>
    erase_entries_from_node sample_htt 3 \<sigma>' c' sample_entries = Some (\<sigma>'', c'') \<and> nc_id c'' = 0"
  using insert_erase_roundtrip[OF sample_empty_inv[of 3] _ _ sample_ins_ok sample_distinct _ empty_handle container_ok_empty]
  by (auto simp: empty_container_def)

subsection \<open>Diagonals\<close>

text \<open>C17: A hash diagonal over the node of at least two entries enumerates exactly the key parts for which
  some entry carries that part at all diagonal positions, each once, and pairs each with the slice of the
  entries that do (their value when all positions are diagonal).\<close>

lemma hash_diagonal_correct:
  assumes "diag_node T U \<sigma> d E m c" "card (kp_set d m) = diag" "card E \<le> fuel"
  shows "\<exists>h ys. hd_begin T \<sigma> d diag (new_hash_diagonal d diag c m) = Some h \<and>
    run_cursor (hd_ended d) (hd_deref d) (hd_inc T \<sigma> d diag) fuel h = Some ys \<and>
    distinct (map fst ys) \<and> fst ` set ys = {kp. on_diagonal d m E kp} \<and>
    (\<forall>(kp, out) \<in> set ys. diag_denotes T \<sigma> d m kp E out)"
  by (rule hash_diagonal_spec[OF assms])

lemma sample_diag_node:
  "diag_node sample_htt sample_universe sample_storage 3 (set sample_entries) (kp_mask 3 [1, 2]) sample_container"
  "card (kp_set 3 (kp_mask 3 [1, 2])) = 2"
  using sample_below sample_ok sample_present sample_filled(1) kp_set_make[of "[1, 2]" 3]
  by (simp_all add: diag_node_def sample_card)

lemma hash_diagonal_correct_witness:
  "\<exists>h ys. hd_begin sample_htt sample_storage 3 2 (new_hash_diagonal 3 2 sample_container (kp_mask 3 [1, 2])) = Some h \<and>
    run_cursor (hd_ended 3) (hd_deref 3) (hd_inc sample_htt sample_storage 3 2) 3 h = Some ys \<and>
    map fst ys = [2]"
proof -
  obtain h ys where h: "hd_begin sample_htt sample_storage 3 2 (new_hash_diagonal 3 2 sample_container (kp_mask 3 [1, 2])) = Some h"
      "run_cursor (hd_ended 3) (hd_deref 3) (hd_inc sample_htt sample_storage 3 2) 3 h = Some ys"
      "distinct (map fst ys)" "fst ` set ys = {kp. on_diagonal 3 (kp_mask 3 [1, 2]) (set sample_entries) kp}"
    using hash_diagonal_correct[OF sample_diag_node, of 3] by (auto simp: sample_card)
  have "{kp. on_diagonal 3 (kp_mask 3 [1, 2]) (set sample_entries) kp} = {2}"
    using kp_set_make[of "[1, 2]" 3] by (auto simp: on_diagonal_def sample_entries_def)
  then have "set (map fst ys) = {2}" using h(4) by simp
  then have "map fst ys = [2]" using h(3) distinct_set_single by metis
  then show ?thesis using h(1,2) by (intro exI conjI)
qed

text \<open>C18: Looking a key part up in a hash diagonal answers whether the part is on the diagonal and leaves the
  iterator at the slice for it.\<close>

lemma hash_diagonal_find_correct:
  assumes "diag_node T U \<sigma> d E m (hd_nodec h)" "hd_poss h = m" "card (kp_set d m) = diag"
  shows "\<exists>h'. hd_find T \<sigma> d diag h kp = Some (h', on_diagonal d m E kp) \<and> diag_denotes T \<sigma> d m kp E (hd_value h') \<and>
    hd_nodec h' = hd_nodec h \<and> hd_poss h' = m"
  by (rule hash_diagonal_find_spec[OF assms])

lemma hash_diagonal_find_correct_witness:
  "\<exists>h'. hd_find sample_htt sample_storage 3 2 (new_hash_diagonal 3 2 sample_container (kp_mask 3 [1, 2])) 2 = Some (h', True)"
  using hash_diagonal_find_correct[of sample_htt sample_universe sample_storage 3 "set sample_entries" "kp_mask 3 [1, 2]"
      "new_hash_diagonal 3 2 sample_container (kp_mask 3 [1, 2])" 2 2] sample_diag_node kp_set_make[of "[1, 2]" 3]
  by (auto simp: new_hash_diagonal_def on_diagonal_def sample_entries_def)

text \<open>The diagonal of a single-entry node yields the one key part the entry has at the diagonal
  positions when they agree, and nothing when they do not.\<close>

lemma sen_diagonal_correct:
  assumes "level_ok T U \<sigma> d" "entries_ok U d {e}" "present T \<sigma> d (ident T d {e})"
    "container_ok T d {e} c" "kp_set d m \<noteq> {}" "card (kp_set d m) = diag"
  shows "\<exists>s ys. new_sen_diagonal T \<sigma> d diag c m = Some s \<and>
    run_cursor sd_ended sd_deref (\<lambda>s. Some (sd_inc s)) 1 (sd_begin s) = Some ys \<and>
    distinct (map fst ys) \<and> fst ` set ys = {kp. on_diagonal d m {e} kp} \<and>
    (\<forall>(kp, out) \<in> set ys. diag_denotes T \<sigma> d m kp {e} out)"
  by (rule sen_diagonal_spec[OF assms])

lemma sen_diagonal_correct_witness:
  "\<exists>\<sigma> (c :: node_container) s ys. new_sen_diagonal sample_htt \<sigma> 3 2 c (kp_mask 3 [0, 1]) = Some s \<and>
    run_cursor sd_ended sd_deref (\<lambda>s. Some (sd_inc s)) 1 (sd_begin s) = Some ys \<and>
    fst ` set ys = {kp. on_diagonal 3 (kp_mask 3 [0, 1]) {([1, 2, 2], True)} kp}"
proof -
  let ?e = "([1, 2, 2], True) :: bool entry"
  have ok: "entries_ok sample_universe 3 {?e}" using sample_entries_3[of "[?e]"] by (simp add: sample_entries_def)
  then have "ins_ok sample_universe 3 {} [?e]"
    using entries_ok_empty[OF sample_universe_ok] by (simp add: ins_ok_def)
  from insert_entries_spec[OF sample_empty_inv[of 3] _ _ this _ _ empty_handle container_ok_empty]
  obtain \<sigma> and c :: node_container where s: "container_ok sample_htt 3 {?e} c"
      "storage_inv sample_htt sample_universe 3 (move_handle empty_handles 3 0 (ident sample_htt 3 {?e})) \<sigma>"
    by auto
  have "0 < move_handle empty_handles 3 0 (ident sample_htt 3 {?e}) 3 (ident sample_htt 3 {?e})"
    by (simp add: move_handle_def empty_handles_def)
  from handle_present[OF s(2) _ _ this] have p: "present sample_htt \<sigma> 3 (ident sample_htt 3 {?e})" by simp
  have l: "level_ok sample_htt sample_universe \<sigma> 3"
    using below_okD(1)[OF storage_inv_below[OF s(2)], of 3 3] by simp
  have "kp_set 3 (kp_mask 3 [0, 1]) = {0, 1}" using kp_set_make[of "[0, 1]" 3] by simp
  then obtain s ys where "new_sen_diagonal sample_htt \<sigma> 3 2 c (kp_mask 3 [0, 1]) = Some s"
      "run_cursor sd_ended sd_deref (\<lambda>s. Some (sd_inc s)) 1 (sd_begin s) = Some ys"
      "fst ` set ys = {kp. on_diagonal 3 (kp_mask 3 [0, 1]) {?e} kp}"
    using sen_diagonal_correct[OF l ok p s(1), of "kp_mask 3 [0, 1]" 2] by fastforce
  then show ?thesis by (intro exI conjI)
qed

subsection \<open>Identifiers\<close>

text \<open>C19: Combining the identifiers of two lists of distinct entries gives the identifier of all the entries, for
  in-place, single-entry and full nodes alike; adding one entry to an identifier gives the same, and removing
  it again gives back the identifier before. Removing must not leave a single entry that is stored in place,
  which the code asserts: its identifier is not a hash.\<close>

lemma identifier_operations_correct:
  assumes "universe_ok T U" "distinct (es @ fs)" "entries_ok U d (set es)" "entries_ok U d (set fs)"
    "entries_ok U d (set (es @ fs))"
  shows "id_combine T d (hash_iterable T d es) (hash_iterable T d fs) False = Some (hash_iterable T d (es @ fs)) \<and>
    (\<forall>e. fs = [e] \<longrightarrow> add_entry T d (hash_iterable T d es) e = Some (hash_iterable T d (es @ [e])) \<and>
      (es \<noteq> [] \<and> \<not> (in_place_node T d \<and> length es = 1) \<longrightarrow>
        remove_entry T d (hash_iterable T d (es @ [e])) e (length es = 1) = Some (hash_iterable T d es)))"
proof -
  note T = universe_okD(1)[OF assms(1)]
  have ids: "hash_iterable T d es = ident T d (set es)" "hash_iterable T d fs = ident T d (set fs)"
    "hash_iterable T d (es @ fs) = ident T d (set es \<union> set fs)" "card (set es) = length es"
    using hash_iterable_ident[OF T, of es d] hash_iterable_ident[OF T, of fs d] hash_iterable_ident[OF T, of "es @ fs" d]
      assms(2) by (simp_all add: distinct_card)
  have add: "add_entry T d (ident T d (set es)) e = Some (ident T d (insert e (set es)))"
    "es \<noteq> [] \<and> \<not> (in_place_node T d \<and> length es = 1) \<Longrightarrow>
      remove_entry T d (ident T d (insert e (set es))) e (length es = 1) = Some (ident T d (set es))" if "fs = [e]" for e
    using that add_entry_ident[OF assms(1,3)] remove_entry_ident[OF assms(1,3), of e] assms(2,5) ids(4) by auto
  show ?thesis using combine_disjoint[OF assms(1,3,4)] add ids assms(2,5) by auto
qed

lemma identifier_operations_correct_witness:
  "\<exists>i. add_entry sample_htt 3 (hash_iterable sample_htt 3 [([1, 2, 3], True)]) ([1, 2, 2], True) = Some i \<and>
    i = hash_iterable sample_htt 3 [([1, 2, 3], True), ([1, 2, 2], True)] \<and>
    remove_entry sample_htt 3 i ([1, 2, 2], True) True = Some (hash_iterable sample_htt 3 [([1, 2, 3], True)])"
proof -
  let ?e = "([1, 2, 3], True)" and ?f = "([1, 2, 2], True)"
  have "entries_ok sample_universe 3 {?e}" "entries_ok sample_universe 3 {?f}" "entries_ok sample_universe 3 {?e, ?f}"
    using sample_entries_3[of "[?e]"] sample_entries_3[of "[?f]"] sample_entries_3[of "[?e, ?f]"]
    by (simp_all add: sample_entries_def)
  then show ?thesis
    using identifier_operations_correct[OF sample_universe_ok, of "[?e]" "[?f]" 3] by (simp add: in_place_node_def)
qed

text \<open>The identifier computed from a list of distinct entries, entry after entry, is the identifier of
  their set: it does not depend on their order.\<close>

lemma hash_iterable_correct:
  assumes "htt_ok T" "distinct es"
  shows "hash_iterable T d es = ident T d (set es)"
  by (rule hash_iterable_ident[OF assms])

lemma hash_iterable_correct_witness:
  "hash_iterable sample_htt 3 sample_entries = hash_iterable sample_htt 3 (rev sample_entries)"
  using hash_iterable_correct[OF sample_htt_ok sample_distinct, of 3]
    hash_iterable_correct[OF sample_htt_ok, of "rev sample_entries" 3] sample_distinct by simp

text \<open>Combining two identifiers yields the identifier bits of the symmetric difference of the two sets,
  for in-place, single-entry and full nodes alike.\<close>

lemma id_combine_correct:
  assumes "universe_ok T U" "entries_ok U d A" "A \<noteq> {}" "entries_ok U d B" "B \<noteq> {}"
  shows "id_combine T d (ident T d A) (ident T d B) False = Some (untagged T ((A - B) \<union> (B - A)))"
  by (rule id_combine_sym_diff[OF assms])

lemma id_combine_correct_witness:
  "id_combine sample_htt 3 (ident sample_htt 3 (set sample_entries)) (ident sample_htt 3 (set [([1, 2, 2], True)])) False
    = Some (untagged sample_htt {([1, 2, 3], True), ([3, 2, 2], True)})"
proof -
  have "entries_ok sample_universe 3 (set [([1, 2, 2], True)])"
    by (rule sample_entries_3) (simp_all add: sample_entries_def)
  moreover have "(set sample_entries - set [([1, 2, 2], True)]) \<union> (set [([1, 2, 2], True)] - set sample_entries)
      = {([1, 2, 3], True), ([3, 2, 2], True)}"
    unfolding sample_entries_def by (simp add: insert_Diff_if)
  ultimately show ?thesis
    using id_combine_correct[OF sample_universe_ok sample_ok, of "set [([1, 2, 2], True)]"] sample_not_empty by simp
qed

text \<open>The entry of an in-place node at depth 1 can be read back from the identifier that encodes it.\<close>

lemma in_place_roundtrip:
  assumes "universe_ok T U" "entries_ok U 1 {e}" "in_place_depth1 T"
  shows "get_entry T (encode_single_entry T 1 e) = Some e"
  using get_entry_ident[OF assms] assms(3) by (simp add: ident_def encode_single_entry_def in_place_node_def)

lemma in_place_roundtrip_witness: "get_entry sample_htt (encode_single_entry sample_htt 1 ([3], True)) = Some ([3], True)"
proof -
  have "entries_ok sample_universe 1 (set [([3], True)])" by (rule sample_entries_ok) simp_all
  then show ?thesis by (intro in_place_roundtrip[OF sample_universe_ok]) (simp_all add: sample_htt_def)
qed

subsection \<open>Keys\<close>

text \<open>C20: Slicing a key with a well-formed slice key succeeds exactly when every fixed part matches, and then
  returns the parts at the free positions in their order.\<close>

lemma raw_slice_correct:
  assumes "raw_slice_key_ok (length key) fs"
  shows "raw_slice fs key = (if slice_matches fs key then Some (free_parts (fst ` set fs) key) else None)"
  by (rule raw_slice_closed[OF assms])

lemma raw_slice_correct_witness: "raw_slice [(1, 5)] [4, 5, 6 :: key_part] = Some [4, 6]"
proof -
  have "raw_slice_key_ok (length [4, 5, 6 :: key_part]) [(1, 5 :: key_part)]" by (simp add: raw_slice_key_ok_def)
  from raw_slice_correct[OF this] show ?thesis by (simp add: slice_matches_def free_parts_def)
qed

text \<open>Slicing in two steps is slicing at once: taking out one fixed position from the key and from the
  slice key, as the descent through the levels does, leaves the result unchanged.\<close>

lemma raw_slice_descend:
  assumes "raw_slice_key_ok (length key) fs" "i < length fs" "fs ! i = (p, v)" "key ! p = v"
  shows "raw_slice (raw_subkey_i fs i) (subkey key p) = raw_slice fs key"
  by (rule raw_slice_subkey_i[OF assms])

lemma raw_slice_descend_witness:
  "raw_slice (raw_subkey_i [(0, 4), (2, 6)] 1) (subkey [4, 5, 6 :: key_part] 2) = raw_slice [(0, 4), (2, 6)] [4, 5, 6]"
  by (rule raw_slice_descend) (simp_all add: raw_slice_key_ok_def)

text \<open>C21: Writing a set of positions into the position mask of a key does not fail, and reading the mask gives
  exactly these positions.\<close>

lemma key_positions_roundtrip:
  assumes "\<forall>p \<in> set ps. p < d"
  shows "\<exists>m. kp_make d ps = Some m \<and> {p. p < d \<and> kp_at m p} = set ps"
  using kp_make_eq[OF assms] kp_set_make[OF assms] by (simp add: kp_set_def)

lemma key_positions_roundtrip_witness: "\<exists>m. kp_make 7 [5, 3] = Some m \<and> {p. p < 7 \<and> kp_at m p} = {3, 5}"
  using key_positions_roundtrip[of "[5, 3]" 7] by auto

subsection \<open>The steps of an update\<close>

text \<open>C22: Planning consistent requests never fails and yields a plan in which every new node has exactly one
  recipe, no node is both reused and deleted, and the reference counts to set are those requested.\<close>

lemma make_plan_correct:
  assumes "level_ok T U \<sigma> d" "requests_ok T U \<sigma> d ur"
    "\<And>i. is_fn T i \<Longrightarrow> 0 \<le> ref_of T \<sigma> d i + ur_delta T ur i"
  shows "\<exists>p. make_plan T \<sigma> d ur = Some p \<and> plan_ok T U \<sigma> d ur p"
  by (rule make_plan_spec[OF assms])

lemma make_plan_correct_witness:
  "\<exists>i ur p. add_node sample_htt 3 empty_requests sample_entries 1 = Some (i, ur) \<and>
    make_plan sample_htt empty_storage 3 ur = Some p \<and> plan_ok sample_htt sample_universe empty_storage 3 ur p"
proof -
  have lvl: "level_ok sample_htt sample_universe empty_storage 3"
    using below_okD(1)[OF storage_inv_below[OF sample_empty_inv[of 3]], of 3 3] by simp
  obtain i ur where ur: "add_node sample_htt 3 empty_requests sample_entries 1 = Some (i, ur)"
      "requests_ok sample_htt sample_universe empty_storage 3 ur" "moves_reference sample_htt 3 empty_requests ur i 0 False"
    using add_node_spec[OF lvl requests_ok_empty sample_distinct sample_not_empty sample_ok] by blast
  have "0 \<le> ref_of sample_htt empty_storage 3 j + ur_delta sample_htt ur j" if "is_fn sample_htt j" for j
  proof -
    have "ur_delta sample_htt ur j = of_bool (j = i)"
      using ur(3) that by (simp add: moves_reference_def tracked_def ur_delta_def empty_requests_def)
    then show ?thesis by (simp add: ref_of_def find_fn_def find_sen_def)
  qed
  from make_plan_correct[OF lvl ur(2) this] show ?thesis using ur(1) by blast
qed

text \<open>C23: When all but one of the entries below a full node are to be removed, the search for the remaining
  entry finds it, however many levels it has to descend.\<close>

lemma remaining_entry_correct:
  assumes "below_ok T U \<sigma> (Suc d)" "1 \<le> d" "entries_ok U d E" "find_fn \<sigma> d (ident T d E) = Some fn"
    "distinct R" "set R \<subseteq> E" "E - set R = {e}"
  shows "retrieve_remaining_single_entry T \<sigma> d fn R = Some e"
  by (rule retrieve_remaining_single_entry_rest[OF assms])

lemma remaining_entry_correct_witness:
  "\<exists>fn. find_fn sample_storage 3 (ident sample_htt 3 (set sample_entries)) = Some fn \<and>
    retrieve_remaining_single_entry sample_htt sample_storage 3 fn [([3, 2, 2], True), ([1, 2, 3], True)]
      = Some ([1, 2, 2], True)"
proof -
  obtain fn where fn: "find_fn sample_storage 3 (ident sample_htt 3 (set sample_entries)) = Some fn"
    using present_fn[OF sample_present] is_fn_ident[OF sample_universe_ok sample_ok] sample_card by auto
  have "retrieve_remaining_single_entry sample_htt sample_storage 3 fn [([3, 2, 2], True), ([1, 2, 3], True)]
      = Some ([1, 2, 2], True)"
    by (rule remaining_entry_correct[OF sample_below _ sample_ok fn]) (auto simp: sample_entries_def)
  then show ?thesis using fn by blast
qed

text \<open>C24: Executing consistent requests at a level, with all they cause at the levels below, never fails and
  turns a storage that owes exactly these reference changes into a consistent one.\<close>

lemma execute_requests_correct:
  assumes "Update_Correct.pending T U D R \<sigma> d ur" "1 \<le> d" "d \<le> D"
  shows "\<exists>\<sigma>'. consume_and_execute T d \<sigma> ur = Some \<sigma>' \<and> storage_inv T U D R \<sigma>'"
  by (rule consume_and_execute_spec[OF assms])

lemma execute_requests_correct_witness:
  "\<exists>i ur \<sigma>'. add_node sample_htt 3 empty_requests sample_entries 1 = Some (i, ur) \<and>
    consume_and_execute sample_htt 3 empty_storage ur = Some \<sigma>' \<and>
    storage_inv sample_htt sample_universe 3 (move_handle empty_handles 3 0 i) \<sigma>'"
proof -
  have lvl: "level_ok sample_htt sample_universe empty_storage 3"
    using below_okD(1)[OF storage_inv_below[OF sample_empty_inv[of 3]], of 3 3] by simp
  obtain i ur where ur: "add_node sample_htt 3 empty_requests sample_entries 1 = Some (i, ur)"
      "requests_ok sample_htt sample_universe empty_storage 3 ur" "moves_reference sample_htt 3 empty_requests ur i 0 False"
    using add_node_spec[OF lvl requests_ok_empty sample_distinct sample_not_empty sample_ok] by blast
  have "Update_Correct.pending sample_htt sample_universe 3 (move_handle empty_handles 3 0 i) empty_storage 3 ur"
    by (rule storage_inv_pending[OF sample_empty_inv _ _ ur(2,3)]) (auto simp: empty_handles_def)
  from execute_requests_correct[OF this] show ?thesis using ur(1) by auto
qed

subsection \<open>Reference counts and single values\<close>

text \<open>Taking a reference to a stored node through the context counts one handle more.\<close>

lemma inc_ref_count_correct:
  assumes "storage_inv T U D R \<sigma>" "1 \<le> d" "d \<le> D" "entries_ok U d E" "E \<noteq> {}"
    "present T \<sigma> d (ident T d E)" "container_ok T d E c" "\<not> (in_place_node T d \<and> card E = 1)"
  shows "\<exists>\<sigma>'. inc_ref_count T \<sigma> d c = Some \<sigma>' \<and> storage_inv T U D (shift_handle R d (ident T d E) 1) \<sigma>'"
  by (rule inc_ref_count_spec[OF assms])

lemma inc_ref_count_correct_witness:
  "\<exists>\<sigma>'. inc_ref_count sample_htt sample_storage 3 sample_container = Some \<sigma>' \<and>
    storage_inv sample_htt sample_universe 3 (shift_handle sample_handles 3 (ident sample_htt 3 (set sample_entries)) 1) \<sigma>'"
  by (rule inc_ref_count_correct[OF sample_filled(2) _ _ sample_ok _ sample_present sample_filled(1)])
    (simp_all add: sample_not_empty sample_card)

text \<open>C25: Releasing a reference through the context counts one handle less, and removes the node, and
  transitively every node that only it referred to, when it was the last one.\<close>

lemma decr_ref_count_correct:
  assumes "storage_inv T U D R \<sigma>" "1 \<le> d" "d \<le> D" "entries_ok U d E" "E \<noteq> {}"
    "0 < R d (ident T d E)" "container_ok T d E c" "\<not> (in_place_node T d \<and> card E = 1)"
  shows "\<exists>\<sigma>'. decr_ref_count T \<sigma> d c = Some \<sigma>' \<and> storage_inv T U D (shift_handle R d (ident T d E) (- 1)) \<sigma>'"
  by (rule decr_ref_count_spec[OF assms])

lemma decr_ref_count_correct_witness:
  "\<exists>\<sigma>'. decr_ref_count sample_htt sample_storage 3 sample_container = Some \<sigma>' \<and>
    storage_inv sample_htt sample_universe 3 (shift_handle sample_handles 3 (ident sample_htt 3 (set sample_entries)) (- 1)) \<sigma>'"
  by (rule decr_ref_count_correct[OF sample_filled(2) _ _ sample_ok _ sample_handle sample_filled(1)])
    (simp_all add: sample_not_empty sample_card)

text \<open>C26: Setting the value of one key of a Boolean-valued node returns the previous value and yields the
  node in which only that key has changed, consistently stored; the one exception is the empty node of
  depth 1 with in-place entries.\<close>

lemma node_set_correct:
  assumes "storage_inv T U D R \<sigma>" "1 \<le> d" "d \<le> D" "entries_ok U d E" "0 < R d (ident T d E)"
    "container_ok T d E c" "length key = d" "bool_valued T" "v = 0 \<or> v = 1"
    "entries_ok U d {(key, 1)}" "entries_ok U d (entries_set E key v)" "\<not> (in_place_node T d \<and> E = {})"
  shows "\<exists>\<sigma>' c'. node_set T \<sigma> d c key v = Some (\<sigma>', c', value_at E key) \<and> container_ok T d (entries_set E key v) c' \<and>
    storage_inv T U D (move_handle R d (ident T d E) (ident T d (entries_set E key v))) \<sigma>'"
  by (rule node_set_spec[OF assms])

lemma node_set_correct_witness:
  "\<exists>\<sigma>' c'. node_set sample_htt sample_storage 3 sample_container [2, 2, 2] True = Some (\<sigma>', c', False) \<and>
    container_ok sample_htt 3 (insert ([2, 2, 2], True) (set sample_entries)) c'"
proof -
  have "entries_ok sample_universe 3 (set (([2, 2, 2], True) # sample_entries))"
    by (rule sample_entries_ok) (simp_all add: sample_entries_def)
  moreover have "entries_ok sample_universe 3 (set [([2, 2, 2], True)])" by (rule sample_entries_ok) simp_all
  moreover have "value_at (set sample_entries) [2, 2, 2] = False"
    by (simp add: value_at_def sample_entries_def zero_bool_def)
  ultimately show ?thesis
    using node_set_correct[OF sample_filled(2) _ _ sample_ok sample_handle sample_filled(1), of "[2, 2, 2]" True] sample_not_empty
    by (auto simp: entries_set_def zero_bool_def one_bool_def sample_htt_def)
qed

text \<open>C27: Setting a value in the empty node of depth 1 whose entries are stored in place writes the entry but
  answers that the key held the value 1 before, although it held none.\<close>

lemma node_set_wrong_old_value:
  assumes "storage_inv T U D R \<sigma>" "in_place_node T d" "1 \<le> D" "0 < R d (ident T d {})" "container_ok T d {} c"
    "length key = d" "v = 0 \<or> v = 1" "entries_ok U d {(key, 1)}"
  shows "\<exists>\<sigma>' c'. node_set T \<sigma> d c key v = Some (\<sigma>', c', 1) \<and> container_ok T d (entries_set {} key v) c' \<and>
    storage_inv T U D (move_handle R d (ident T d {}) (ident T d (entries_set {} key v))) \<sigma>'"
  by (rule node_set_in_place_empty[OF assms])

lemma node_set_wrong_old_value_witness:
  "\<exists>\<sigma>' c'. node_set sample_htt empty_storage 1 empty_container [2] True = Some (\<sigma>', c', True)"
proof -
  have "entries_ok sample_universe 1 (set [([2], True)])" by (rule sample_entries_ok) simp_all
  then show ?thesis
    using node_set_wrong_old_value[OF sample_empty_inv[of 3] _ _ _ container_ok_empty, of 1 "[2]" True]
    by (auto simp: in_place_node_def sample_htt_def empty_handles_def one_bool_def)
qed

subsection \<open>Bulk updates\<close>

text \<open>C28: Adding entries one by one to the synchronous inserter and flushing it stores exactly the union, in
  bulks and with duplicates dropped, when the distinct entries fit the deduplication limit.\<close>

lemma sync_insert_correct:
  assumes "bulk_rep T U D d R A (\<sigma>, c) E" "set es \<subseteq> A" "card (set es) < 4 * bulk_size"
  shows "\<exists>s' u'. (case foldM (sync_add (raw_bulk_context T d) Insert_Mode) es ((\<sigma>, c), new_sync_updater bulk_size) of
      None \<Rightarrow> None | Some su \<Rightarrow> sync_flush (raw_bulk_context T d) su) = Some (s', u') \<and>
    bulk_rep T U D d R A s' (E \<union> set es) \<and> su_new u' = []"
  by (rule raw_bulk.sync_insert_stream[OF assms])

lemma sync_insert_correct_witness:
  "\<exists>s' u'. (case foldM (sync_add (raw_bulk_context sample_htt 3) Insert_Mode) (sample_entries @ sample_entries)
        ((empty_storage, empty_container), new_sync_updater 2) of
      None \<Rightarrow> None | Some su \<Rightarrow> sync_flush (raw_bulk_context sample_htt 3) su) = Some (s', u') \<and>
    bulk_rep sample_htt sample_universe 3 3 (\<lambda>_ _. 0) (set sample_entries) s' (set sample_entries)"
  using sync_insert_correct[OF sample_bulk_rep, of "sample_entries @ sample_entries" 2] sample_card by fastforce

text \<open>Adding a stored entry to the synchronous remover inserts it again instead of removing it, because
  the flush of a full bulk always inserts.\<close>

lemma sync_remover_reinserts:
  assumes "bc_get C s e = Some True"
  shows "sync_add C Remove_Mode (s, new_sync_updater 1) e
    = do {
        s' \<leftarrow> bc_insert C s [e];
        n \<leftarrow> bc_size C s';
        Some (s', (new_sync_updater 1)\<lparr>su_dedup := {bc_id C e}, su_stats := [(0, 1, n)]\<rparr>)
      }"
  by (rule sync_remover_inserts[OF assms])

lemma sync_remover_reinserts_witness:
  "\<exists>C :: (nat set, nat) bulk_context. sync_add C Remove_Mode ({7}, new_sync_updater 1) 7
    = Some ({7}, (new_sync_updater 1)\<lparr>su_dedup := {7}, su_stats := [(0, 1, 1)]\<rparr>)"
proof -
  let ?C = "\<lparr>bc_get = \<lambda>s e. Some (e \<in> s), bc_insert = \<lambda>s es. Some (s \<union> set es),
    bc_remove = \<lambda>s es. Some (s - set es), bc_size = \<lambda>s. Some (card s), bc_id = of_nat\<rparr> :: (nat set, nat) bulk_context"
  show ?thesis using sync_remover_reinserts[of ?C "{7}" 7] by (intro exI[of _ ?C]) simp
qed

text \<open>C29: When the worker of the asynchronous inserter has terminated, in any interleaving with writers,
  flushes and the stop request, the storage is consistent and every entry ever written is stored, unless it
  is still in the queue. This holds also when the set for de-duplication is cleared in between, as often as it
  may be, provided that no entry is written again that was first written when as many different entries had
  been written as the set can hold; without the proviso a bulk can hold an entry twice (async_duplicate_bulk in
  Bulk_Update).\<close>

lemma async_insert_correct:
  assumes "async_run (raw_bulk_context T d) Insert_Mode bulk s as st" "bulk_rep T U D d R A s E0"
    "set (writes as) \<subseteq> A" "repeats_early (4 * bulk) (writes as)" "au_pc st = Terminated"
  shows "\<exists>E. bulk_rep T U D d R A (au_store st) E \<and> E0 \<subseteq> E \<and> E \<union> set (au_queue st) = E0 \<union> set (writes as)"
  by (rule raw_bulk.async_terminated[OF assms])

lemma sample_writes: "writes [Worker, Write e, Request_Stop, Worker, Worker] = [e]" "writes [Write e, Request_Stop] = [e]"
  by (simp_all add: writes_def map_filter_def)

lemma async_insert_correct_witness:
  "\<exists>as st E. async_run (raw_bulk_context sample_htt 3) Insert_Mode 2 (empty_storage, empty_container) as st \<and>
    au_pc st = Terminated \<and> set (writes as) = {([1, 2, 2], True)} \<and>
    bulk_rep sample_htt sample_universe 3 3 (\<lambda>_ _. 0) (set sample_entries) (au_store st) E \<and>
    E \<union> set (au_queue st) = {([1, 2, 2], True)}"
proof -
  let ?e = "([1, 2, 2], True) :: bool entry" and ?C = "raw_bulk_context sample_htt 3 :: (bool node_storage \<times> node_container, bool entry) bulk_context"
  let ?as = "[Worker, Write ?e, Request_Stop, Worker, Worker]"
  obtain st where st: "async_run ?C Insert_Mode 2 (empty_storage, empty_container) ?as st" "au_pc st = Terminated"
    using raw_bulk.async_lost_entry[OF sample_bulk_rep, of 2 ?e] by auto
  have w: "writes ?as = [?e]" by (rule sample_writes)
  obtain E where "bulk_rep sample_htt sample_universe 3 3 (\<lambda>_ _. 0) (set sample_entries) (au_store st) E"
      "E \<union> set (au_queue st) = {?e}"
    using async_insert_correct[OF st(1) sample_bulk_rep _ _ st(2)] sample_mem repeats_early_distinct[of "[?e]"] unfolding w by auto
  then show ?thesis using st w by (intro exI[of _ ?as] exI[of _ st] exI[of _ E]) simp
qed

text \<open>C30: Once the stop has been requested, the worker terminates: after boundedly many of its steps, and
  none of them fails. The proviso on repeated entries is that of C29; the set for de-duplication may be cleared.\<close>

lemma async_insert_terminates:
  assumes "async_run (raw_bulk_context T d) Insert_Mode bulk s as st" "bulk_rep T U D d R A s E0"
    "set (writes as) \<subseteq> A" "repeats_early (4 * bulk) (writes as)" "au_stop st" "2 \<le> bulk"
  shows "\<exists>n st'. n \<le> worker_measure bulk st \<and>
    async_run (raw_bulk_context T d) Insert_Mode bulk s (as @ replicate n Worker) st' \<and> au_pc st' = Terminated"
  by (rule raw_bulk.async_terminates[OF assms])

lemma async_insert_terminates_witness:
  "\<exists>as st'. async_run (raw_bulk_context sample_htt 3) Insert_Mode 2 (empty_storage, empty_container)
    (Write ([1, 2, 2], True) # Request_Stop # as) st' \<and> au_pc st' = Terminated"
proof -
  let ?e = "([1, 2, 2], True) :: bool entry" and ?C = "raw_bulk_context sample_htt 3 :: (bool node_storage \<times> node_container, bool entry) bulk_context"
  let ?st = "(new_async_updater (empty_storage, empty_container))\<lparr>au_queue := [?e], au_stop := True\<rparr>"
  have "async_run ?C Insert_Mode 2 (empty_storage, empty_container) ([] @ [Write ?e])
      ((new_async_updater (empty_storage, empty_container))\<lparr>au_queue := [?e]\<rparr>)"
    by (rule async_run.step[OF async_run.start]) (simp add: async_step_def new_async_updater_def)
  then have "async_run ?C Insert_Mode 2 (empty_storage, empty_container) (([] @ [Write ?e]) @ [Request_Stop]) ?st"
    by (rule async_run.step) (simp add: async_step_def new_async_updater_def)
  then have r: "async_run ?C Insert_Mode 2 (empty_storage, empty_container) [Write ?e, Request_Stop] ?st" by simp
  have w: "writes [Write ?e, Request_Stop] = [?e]" by (rule sample_writes)
  obtain n st' where "async_run ?C Insert_Mode 2 (empty_storage, empty_container)
      ([Write ?e, Request_Stop] @ replicate n Worker) st'" "au_pc st' = Terminated"
    using async_insert_terminates[OF r sample_bulk_rep] sample_mem repeats_early_distinct[of "[?e]"] unfolding w by auto
  then show ?thesis by auto
qed

text \<open>C31: The stop can lose an entry: when it is written after the worker has found the queue empty and
  before the worker looks at the stop request, the worker terminates without storing it.\<close>

lemma async_stop_loses_entry:
  assumes "bulk_rep T U D d R A s E" "2 \<le> bulk"
  shows "\<exists>st. async_run (raw_bulk_context T d) Insert_Mode bulk s [Worker, Write e, Request_Stop, Worker, Worker] st \<and>
    au_pc st = Terminated \<and> bulk_rep T U D d R A (au_store st) E"
  by (rule raw_bulk.async_lost_entry[OF assms])

lemma async_stop_loses_entry_witness:
  "\<exists>st. async_run (raw_bulk_context sample_htt 3) Insert_Mode 2 (empty_storage, empty_container)
      [Worker, Write ([1, 2, 2], True), Request_Stop, Worker, Worker] st \<and>
    bulk_rep sample_htt sample_universe 3 3 (\<lambda>_ _. 0) (set sample_entries) (au_store st) {}"
  using async_stop_loses_entry[OF sample_bulk_rep, of 2] by fastforce

text \<open>A flush can return while entries that were written before it are still in the queue and not
  stored.\<close>

lemma async_flush_returns_early:
  assumes "bulk_rep T U D d R A s E" "2 \<le> bulk"
  shows "\<exists>st. async_run (raw_bulk_context T d) Insert_Mode bulk s [Write e, Request_Flush, Worker, Worker] st \<and>
    \<not> au_flush st \<and> au_queue st = [e] \<and> bulk_rep T U D d R A (au_store st) E"
  by (rule raw_bulk.async_flush_early[OF assms])

lemma async_flush_returns_early_witness:
  "\<exists>st. async_run (raw_bulk_context sample_htt 3) Insert_Mode 2 (empty_storage, empty_container)
      [Write ([1, 2, 2], True), Request_Flush, Worker, Worker] st \<and> \<not> au_flush st \<and> au_queue st = [([1, 2, 2], True)]"
  using async_flush_returns_early[OF sample_bulk_rep, of 2] by fastforce

subsection \<open>Hypertrie handles\<close>

text \<open>C32: Two handles, whether managed by a context or not, compare equal exactly when they have the same
  depth and hold the same entries.\<close>

lemma ht_equal_correct:
  assumes "universe_ok T U" "handle_denotes T U \<sigma> d E h" "handle_denotes T U \<sigma> d' E' h'"
  shows "ht_equal T h h' \<longleftrightarrow> d = d' \<and> E = E'"
  by (rule ht_equal_spec[OF assms])

definition sample_hypertrie :: "bool hypertrie" where
  "sample_hypertrie = make_const_hypertrie sample_htt 3 False True (nc_id sample_container) (container_ptr sample_container)"

lemma sample_hypertrie_denotes:
  "handle_denotes sample_htt sample_universe sample_storage 3 (set sample_entries) sample_hypertrie"
proof -
  have "ht_container sample_hypertrie = sample_container"
    by (simp add: sample_hypertrie_def make_const_hypertrie_def ht_container_def container_ptr_def)
  then show ?thesis
    using sample_ok sample_filled(1) sample_present container_okD(1)[OF sample_filled(1)]
    by (simp add: handle_denotes_def sample_hypertrie_def make_const_hypertrie_def)
qed

lemma ht_equal_correct_witness: "\<not> ht_equal sample_htt sample_hypertrie (empty_const_hypertrie 3)"
proof -
  have "handle_denotes sample_htt sample_universe sample_storage 3 {} (empty_const_hypertrie 3)"
    using entries_ok_empty[OF sample_universe_ok]
    by (simp add: handle_denotes_def empty_const_hypertrie_def default_const_hypertrie_def)
  from ht_equal_correct[OF sample_universe_ok sample_hypertrie_denotes this] show ?thesis using sample_not_empty by simp
qed

text \<open>C33: Reading a key through a handle returns the value of the key among the entries of the handle, for
  handles in a context and for handles that own their single entry.\<close>

lemma ht_get_correct:
  assumes "below_ok T U \<sigma> (Suc d)" "handle_denotes T U \<sigma> d E h" "length key = d"
  shows "get_raw_key T \<sigma> h key = Some (value_at E key)"
  by (rule get_raw_key_spec[OF assms])

lemma ht_get_correct_witness: "get_raw_key sample_htt sample_storage sample_hypertrie [1, 2, 2] = Some True"
  using ht_get_correct[OF sample_below sample_hypertrie_denotes, of "[1, 2, 2]"]
    value_at_in[OF entries_okD(4)[OF sample_ok] sample_mem] by simp

text \<open>C34: Slicing through a handle, in a context or not, with some positions left free returns a handle to
  exactly the entries that match the fixed key parts, without these positions.\<close>

lemma ht_slice_correct:
  assumes "below_ok T U \<sigma> (Suc d)" "handle_denotes T U \<sigma> d E h" "length sk = d" "get_fixed_depth sk < d"
  shows "\<exists>h'. ht_slice through T \<sigma> h sk = Some (Sub_Hypertrie h') \<and>
    handle_denotes T U \<sigma> (d - get_fixed_depth sk) (slice_entries (raw_slice_key_of sk) E) h'"
  by (rule ht_slice_denotes[OF assms])

lemma ht_slice_correct_witness:
  "\<exists>h'. ht_slice id sample_htt sample_storage sample_hypertrie [None, Some 2, None] = Some (Sub_Hypertrie h') \<and>
    handle_denotes sample_htt sample_universe sample_storage 2 (slice_entries [(1, 2)] (set sample_entries)) h'"
  using ht_slice_correct[OF sample_below sample_hypertrie_denotes, of "[None, Some 2, None]" id]
  by (simp add: get_fixed_depth_def raw_slice_key_of_def)

subsection \<open>Programs on handles\<close>

text \<open>C36: Programs that create, copy, assign, move, write and destroy handles to Boolean-valued tries have value
  semantics: no step fails, and every variable holds the entries it holds in the program on independent sets, however the
  nodes are shared; references are never under-counted.\<close>

lemma handle_programs_refine:
  assumes "life_inv T U D L as s" "ops_ok U D as cs" "bool_valued T"
  shows "\<exists>s' L'. ht_run T s cs = Some s' \<and> life_inv T U D L' (foldl abs_step as cs) s' \<and> (\<forall>d i. L d i \<le> L' d i)"
  using ht_run_refines[OF assms] by blast

definition sample_program :: "bool ht_op list" where
  "sample_program = [New 3, Set_Value 0 [1, 2, 2] True, Copy 0, Set_Value 1 [1, 2, 3] True]"

lemma sample_singles:
  "entries_ok sample_universe 3 {([1, 2, 2], True)}" "entries_ok sample_universe 3 {([1, 2, 3], True)}"
  "entries_ok sample_universe 3 {([1, 2, 3], True), ([1, 2, 2], True)}"
  using sample_entries_ok[of "[([1, 2, 2], True)]" 3] sample_entries_ok[of "[([1, 2, 3], True)]" 3]
    sample_entries_ok[of "[([1, 2, 3], True), ([1, 2, 2], True)]" 3] by simp_all

lemma sample_program_ok:
  "ops_ok sample_universe 3 [] sample_program"
  "foldl abs_step [] sample_program = [Some (3, {([1, 2, 2], True)}), Some (3, {([1, 2, 3], True), ([1, 2, 2], True)})]"
  using sample_singles
  by (simp_all add: sample_program_def abs_step_def op_ok_def var_def live_def abs_set_def entries_set_def
      zero_bool_def one_bool_def)

lemma sample_bool: "bool_valued sample_htt"
  by (simp add: sample_htt_def)

lemmas sample_run = ht_run_refines[OF life_inv_start[OF sample_universe_ok, where H = empty_heap] sample_program_ok(1) sample_bool,
  unfolded sample_program_ok(2)]

lemma handle_programs_refine_witness:
  "\<exists>w vs L. ht_run sample_htt ((empty_storage, empty_heap), []) sample_program = Some (w, vs) \<and>
    life_inv sample_htt sample_universe 3 L
      [Some (3, {([1, 2, 2], True)}), Some (3, {([1, 2, 3], True), ([1, 2, 2], True)})] (w, vs)"
  using handle_programs_refine[OF life_inv_start[OF sample_universe_ok, where H = empty_heap] sample_program_ok(1) sample_bool,
      unfolded sample_program_ok(2)]
  by auto

text \<open>C37: A program on handles to Boolean-valued tries that uses no assignment frees everything: when it has destroyed all its variables, the
  storage of the context is empty at every level.\<close>

lemma handle_programs_no_leak:
  assumes "universe_ok T U" "ops_ok U D [] cs" "bool_valued T" "list_all no_assign cs"
    "\<forall>x. \<not> live (foldl abs_step [] cs) x"
  shows "\<exists>\<sigma> own vs. ht_run T ((empty_storage, empty_heap), []) cs = Some ((\<sigma>, own), vs) \<and>
    (\<forall>d. 1 \<le> d \<and> d \<le> D \<longrightarrow> fns \<sigma> d = [] \<and> sens \<sigma> d = [])"
  by (rule ht_run_no_leak[OF assms])

lemma ops_ok_append: "ops_ok U D as (cs @ ds) \<longleftrightarrow> ops_ok U D as cs \<and> ops_ok U D (foldl abs_step as cs) ds"
  by (induction cs arbitrary: as) auto

lemma handle_programs_no_leak_witness:
  "\<exists>\<sigma> own vs. ht_run sample_htt ((empty_storage, empty_heap), []) (sample_program @ [Destroy 0, Destroy 1]) = Some ((\<sigma>, own), vs) \<and>
    fns \<sigma> 2 = []"
proof -
  have "ops_ok sample_universe 3 [] (sample_program @ [Destroy 0, Destroy 1])"
    using sample_program_ok by (simp add: ops_ok_append op_ok_def live_def abs_step_def)
  moreover have "list_all no_assign (sample_program @ [Destroy 0, Destroy 1])" by (simp add: sample_program_def no_assign_def)
  moreover have "\<forall>x. \<not> live (foldl abs_step [] (sample_program @ [Destroy 0, Destroy 1])) x"
    using sample_program_ok(2) by (auto simp: abs_step_def live_def nth_Cons split: nat.splits)
  ultimately have "\<exists>\<sigma> own vs. ht_run sample_htt ((empty_storage, empty_heap), []) (sample_program @ [Destroy 0, Destroy 1]) = Some ((\<sigma>, own), vs) \<and>
    (\<forall>d. 1 \<le> d \<and> d \<le> 3 \<longrightarrow> fns \<sigma> d = [] \<and> sens \<sigma> d = [])"
    by (intro handle_programs_no_leak[OF sample_universe_ok]) (simp_all add: sample_htt_def)
  then show ?thesis by fastforce
qed

text \<open>C38: In programs on Boolean-valued tries, assigning to a variable that holds a stored node leaks the node: the assignment operators never
  give the old reference back, so the node is still stored whatever the program does afterwards.\<close>

lemma assignment_leaks_node:
  assumes "life_inv T U D L as s" "ops_ok U D as (c # cs)" "bool_valued T"
    "c = Assign x y \<or> c = Move_Assign x y" "as ! x = Some (d, E)" "1 \<le> d" "d \<le> D" "tracked T d (ident T d E)"
  shows "\<exists>\<sigma> own vs. ht_run T s (c # cs) = Some ((\<sigma>, own), vs) \<and>
    (find_fn \<sigma> d (ident T d E) \<noteq> None \<or> find_sen \<sigma> d (ident T d E) \<noteq> None)"
  by (rule assign_leaks[OF assms])

lemma assignment_leaks_node_witness:
  "\<exists>s \<sigma> own vs. ht_run sample_htt ((empty_storage, empty_heap), []) sample_program = Some s \<and>
    ht_run sample_htt s [Assign 0 1, Destroy 0, Destroy 1] = Some ((\<sigma>, own), vs) \<and>
    (find_fn \<sigma> 3 (ident sample_htt 3 {([1, 2, 2], True)}) \<noteq> None \<or>
     find_sen \<sigma> 3 (ident sample_htt 3 {([1, 2, 2], True)}) \<noteq> None)"
proof -
  let ?as = "[Some (3, {([1, 2, 2], True)}), Some (3, {([1, 2, 3], True), ([1, 2, 2], True)})] :: bool abs_vars"
  obtain s L where s: "ht_run sample_htt ((empty_storage, empty_heap), []) sample_program = Some s"
      "life_inv sample_htt sample_universe 3 L ?as s"
    using sample_run by auto
  have "ops_ok sample_universe 3 ?as [Assign 0 1, Destroy 0, Destroy 1]"
    by (simp add: op_ok_def live_def abs_step_def)
  moreover have "tracked sample_htt 3 (ident sample_htt 3 {([1, 2, 2], True)})"
    using is_sen_ident[OF sample_universe_ok sample_singles(1)] by (simp add: tracked_def in_place_node_def)
  ultimately show ?thesis
    using assignment_leaks_node[OF s(2), of "Assign 0 1" "[Destroy 0, Destroy 1]" 0 1] s(1) sample_bool by simp
qed





subsection \<open>Joins\<close>

text \<open>C35: Joining at most 256 hypertries at chosen positions ends, and yields exactly the key parts on which all join
  positions agree, each once, with handles to the corresponding slices of the operands, in their order.\<close>

lemma hash_join_correct:
  assumes "list_all2 (operand_ok T U \<sigma>) xs ys" "\<exists>x \<in> set xs. snd x \<noteq> []" "length xs \<le> 256"
  shows "\<exists>it fuel zs. join_begin T \<sigma> ys = Some it \<and> run_cursor ji_ended join_deref (join_inc T \<sigma>) fuel it = Some zs \<and>
    distinct (map fst zs) \<and> fst ` set zs = join_keys xs \<and>
    (\<forall>(kp, hs) \<in> set zs. list_all2 (\<lambda>(d, E) h. handle_denotes T U \<sigma> d E h) (join_outputs kp xs) hs)"
  by (rule hash_join_spec[OF assms])

lemma hash_join_correct_witness:
  "\<exists>it fuel zs. join_begin sample_htt sample_storage [(sample_hypertrie, [0]), (sample_hypertrie, [2])] = Some it \<and>
    run_cursor ji_ended join_deref (join_inc sample_htt sample_storage) fuel it = Some zs \<and> map fst zs = [3]"
proof -
  let ?E = "set sample_entries"
  have "operand_ok sample_htt sample_universe sample_storage ((3, ?E), [p]) (sample_hypertrie, [p])" if "p < 3" for p
    using that sample_below sample_hypertrie_denotes sample_not_empty by (simp add: operand_ok_def hypertrie_max_depth_def)
  then have ops: "list_all2 (operand_ok sample_htt sample_universe sample_storage) [((3, ?E), [0]), ((3, ?E), [2])]
      [(sample_hypertrie, [0]), (sample_hypertrie, [2])]" by simp
  obtain it fuel zs where z: "join_begin sample_htt sample_storage [(sample_hypertrie, [0]), (sample_hypertrie, [2])] = Some it"
      "run_cursor ji_ended join_deref (join_inc sample_htt sample_storage) fuel it = Some zs" "distinct (map fst zs)"
      "fst ` set zs = join_keys [((3, ?E), [0]), ((3, ?E), [2])]"
    using hash_join_correct[OF ops] by auto
  have "join_keys [((3, ?E), [0]), ((3, ?E), [2])] = {3}" by (auto simp: join_keys_def sample_entries_def)
  then have "map fst zs = [3]" using z(3,4) distinct_set_single by (metis list.set_map)
  then show ?thesis using z(1,2) by (intro exI conjI)
qed

text \<open>C40: Applying a permutation to a vector in place, cycle by cycle, ends and puts at each position the
  element the permutation names for it.\<close>

lemma apply_permutation_correct:
  assumes "is_permutation (length vec) p"
  shows "apply_permutation vec p = Some (map (nth vec) p)"
  by (rule apply_permutation_spec[OF assms])

lemma apply_permutation_correct_witness: "apply_permutation ''abcd'' [2, 0, 1, 3] = Some ''cabd''"
proof -
  have "is_permutation (length ''abcd'') [2, 0, 1, 3]" by (auto simp: is_permutation_def)
  from apply_permutation_correct[OF this] show ?thesis by simp
qed

subsection \<open>Einstein summations\<close>

definition sample_library :: sc_library where
  "sample_library = \<lparr>sl_order = rev, sl_hash = \<lambda>ops res. 0\<rparr>"

text \<open>Natural numbers stand for the doubles of the estimates.\<close>

definition sample_doubles :: "nat double_ops" where
  "sample_doubles = \<lparr>do_of_nat = id, do_infinity = 1000000, do_mult = (*), do_div = (div), do_less = (<)\<rparr>"

definition sample_env :: "'w value_ops \<Rightarrow> (bool, 'w, nat) einsum_env" where
  "sample_env W = \<lparr>ee_htt = sample_htt, ee_storage = sample_storage, ee_lib = sample_library, ee_double = sample_doubles, ee_value = W\<rparr>"

lemma sample_env_fields [simp]:
  "ee_htt (sample_env W) = sample_htt" "ee_storage (sample_env W) = sample_storage" "ee_lib (sample_env W) = sample_library"
  "ee_value (sample_env W) = W" "set_order (sl_order sample_library)" "rs_operands (new_raw_subscript L ops res) = ops"
  "rs_result (new_raw_subscript L ops res) = res"
  by (simp_all add: sample_env_def sample_library_def set_order_id new_raw_subscript_def)

lemma sample_inputs:
  assumes "\<forall>op \<in> set ops. length op = 3"
  shows "inputs_ok sample_htt sample_universe sample_storage ops (replicate (length ops) (set sample_entries)) (replicate (length ops) sample_hypertrie)"
  using assms sample_below sample_hypertrie_denotes sample_not_empty by (simp add: inputs_ok_def hypertrie_max_depth_def)

text \<open>C1: An Einstein summation over size_t returns, whatever the cardinality estimates are, and the values
  it yields for a key of the result add up to the number of assignments of key parts to the labels under which
  every operand contains its key and the result labels are the key; it yields no zero values. The square of the number
  of combinations of entries has to fit into 64 bits.\<close>

lemma einsum_counts_solutions:
  assumes "ee_value V = size_t_ops" "set_order (sl_order (ee_lib V))" "subscript_wf rs" "new_subscript (ee_lib V) rs Type_None = Some s"
    "inputs_ok (ee_htt V) U (ee_storage V) (rs_operands rs) Es hs" "bound Es * bound Es < 2 ^ 64"
  shows "\<exists>ys. einsum V hsh s hs = Some ys \<and> (\<forall>y \<in> set ys. ue_value y \<noteq> 0) \<and>
    (\<forall>k. (\<Sum>y\<leftarrow>ys. if ue_key y = k then unat (ue_value y) else 0) =
      card {\<alpha> \<in> solutions (rs_operands rs) Es. map \<alpha> (rs_result rs) = k})"
  by (rule size_t_summation[OF assms])

lemma einsum_counts_solutions_witness:
  "\<exists>s ys. new_subscript sample_library (new_raw_subscript sample_library [''abc'', ''dce'', ''fgh''] ''ebf'') Type_None = Some s \<and>
    einsum (sample_env size_t_ops) (\<lambda>_. 0) s [sample_hypertrie, sample_hypertrie, sample_hypertrie] = Some ys \<and>
    (\<forall>k. (\<Sum>y\<leftarrow>ys. if ue_key y = k then unat (ue_value y) else 0) =
      card {\<alpha> \<in> solutions [''abc'', ''dce'', ''fgh''] [set sample_entries, set sample_entries, set sample_entries]. map \<alpha> ''ebf'' = k})"
proof -
  let ?rs = "new_raw_subscript sample_library [''abc'', ''dce'', ''fgh''] ''ebf''"
  obtain s where s: "new_subscript sample_library ?rs Type_None = Some s"
    using new_subscript_total[of sample_library ?rs] by auto
  have wf: "subscript_wf ?rs" by (simp add: subscript_wf_def)
  have ok: "inputs_ok sample_htt sample_universe sample_storage (rs_operands ?rs) [set sample_entries, set sample_entries, set sample_entries]
      [sample_hypertrie, sample_hypertrie, sample_hypertrie]"
    using sample_inputs[of "[''abc'', ''dce'', ''fgh'']"] by (simp add: numeral_2_eq_2)
  from einsum_counts_solutions[of "sample_env size_t_ops" ?rs s sample_universe, OF _ _ wf] s ok show ?thesis
    by (fastforce simp: bound_def sample_card)
qed

text \<open>C2: A Boolean Einstein summation that keeps all labels, or none, returns, and yields exactly the keys of the
  result that have a solution, each once and with the value true, when the hash tells the results apart.\<close>

lemma einsum_bool_solutions:
  assumes "ee_value V = bool_ops" "set_order (sl_order (ee_lib V))" "summation_ok bool_ops rs" "new_subscript (ee_lib V) rs Type_None = Some s"
    "inputs_ok (ee_htt V) U (ee_storage V) (rs_operands rs) Es hs"
    "inj_on hsh ((\<lambda>\<alpha>. \<lparr>ue_key = map \<alpha> (rs_result rs), ue_value = True\<rparr>) ` solutions (rs_operands rs) Es)"
  shows "\<exists>ys. einsum V hsh s hs = Some ys \<and> distinct (map ue_key ys) \<and> (\<forall>y \<in> set ys. ue_value y) \<and>
    ue_key ` set ys = (\<lambda>\<alpha>. map \<alpha> (rs_result rs)) ` solutions (rs_operands rs) Es"
  by (rule bool_summation[OF assms])

lemma einsum_bool_solutions_witness:
  "\<exists>s ys. new_subscript sample_library (new_raw_subscript sample_library [''abc'', ''cba''] ''abc'') Type_None = Some s \<and>
    einsum (sample_env bool_ops) (\<lambda>y. of_nat (key_code (ue_key y))) s [sample_hypertrie, sample_hypertrie] = Some ys \<and>
    ue_key ` set ys = (\<lambda>\<alpha>. map \<alpha> ''abc'') ` solutions [''abc'', ''cba''] [set sample_entries, set sample_entries]"
proof -
  let ?rs = "new_raw_subscript sample_library [''abc'', ''cba''] ''abc''" and ?Es = "[set sample_entries, set sample_entries]"
  obtain s where s: "new_subscript sample_library ?rs Type_None = Some s"
    using new_subscript_total[of sample_library ?rs] by auto
  have wf: "summation_ok bool_ops ?rs" by (auto simp: summation_ok_def subscript_wf_def)
  have ok: "inputs_ok sample_htt sample_universe sample_storage (rs_operands ?rs) ?Es [sample_hypertrie, sample_hypertrie]"
    using sample_inputs[of "[''abc'', ''cba'']"] by (simp add: numeral_2_eq_2)
  have keys: "map \<alpha> ''abc'' \<in> {[1, 2, 3], [1, 2, 2], [3, 2, 2]}" if "\<alpha> \<in> solutions [''abc'', ''cba''] ?Es" for \<alpha>
    using that by (auto simp: solutions_def sample_entries_def)
  have "inj_on (\<lambda>y. of_nat (key_code (ue_key y)) :: 64 word)
      ((\<lambda>\<alpha>. \<lparr>ue_key = map \<alpha> ''abc'', ue_value = True\<rparr>) ` solutions [''abc'', ''cba''] ?Es)"
  proof (rule inj_onI)
    fix x y :: "bool user_entry"
    let ?K = "(\<lambda>k. \<lparr>ue_key = k, ue_value = True\<rparr>) ` {[1, 2, 3], [1, 2, 2], [3, 2, 2]}"
    assume "x \<in> (\<lambda>\<alpha>. \<lparr>ue_key = map \<alpha> ''abc'', ue_value = True\<rparr>) ` solutions [''abc'', ''cba''] ?Es"
      "y \<in> (\<lambda>\<alpha>. \<lparr>ue_key = map \<alpha> ''abc'', ue_value = True\<rparr>) ` solutions [''abc'', ''cba''] ?Es"
    then have "x \<in> ?K" "y \<in> ?K" using keys by blast+
    moreover assume "(of_nat (key_code (ue_key x)) :: 64 word) = of_nat (key_code (ue_key y))"
    ultimately show "x = y" by (auto simp: key_code_def)
  qed
  with einsum_bool_solutions[of "sample_env bool_ops" ?rs s sample_universe ?Es, OF _ _ wf] s ok show ?thesis by fastforce
qed

text \<open>C3: The search for connected components ends, in whatever order it runs over the label sets, and partitions the
  nodes of the graph into the classes of nodes that reach each other.\<close>

lemma connected_components_correct:
  assumes "set_order ord" "graph_ok g"
  shows "\<exists>cs. getConnectedComponents ord g = Some cs \<and> distinct (concat cs) \<and> set (concat cs) = set (ug_nodes g) \<and>
    (\<forall>c \<in> set cs. c \<noteq> [] \<and> (\<forall>a \<in> set c. \<forall>b. (a, b) \<in> (adjacent g)\<^sup>* \<longleftrightarrow> b \<in> set c))"
  using getConnectedComponents_spec[OF assms] by (auto simp: components_of_def)

lemma connected_components_correct_witness:
  "\<exists>cs. getConnectedComponents rev (fold (addCompleteGraph rev) [''ab'', ''cb'', ''d''] empty_graph) = Some cs \<and>
    distinct (concat cs) \<and> set (concat cs) = set ''abcd''"
proof -
  let ?g = "fold (addCompleteGraph rev) [''ab'', ''cb'', ''d''] (empty_graph :: char undirected_graph)"
  note g = fold_complete_graphs(1)[OF set_order_id(2) graph_ok_empty(1), of "[''ab'', ''cb'', ''d'']"]
  have nodes: "set (ug_nodes ?g) = set ''abcd''" unfolding fold_complete_graphs(3)[OF set_order_id(2)] by (auto simp: graph_ok_empty(3))
  from connected_components_correct[OF set_order_id(2) g] show ?thesis unfolding nodes by blast
qed

text \<open>C4: The constructor of a subscript returns for all operands and results; the operation it chooses is the one
  the labels call for, and the parts of a Cartesian product have the labels of its components, fewer than it has.\<close>

lemma subscript_constructed:
  assumes "set_order (sl_order L)"
  shows "\<exists>s. make_subscript L ops res = Some s \<and> sc_raw s = new_raw_subscript L ops res \<and>
    (su_type (sc_data s) = Type_EntryGenerator \<longleftrightarrow> ops = []) \<and>
    (su_type (sc_data s) = Type_Resolve \<longleftrightarrow> (\<exists>op. ops = [op] \<and> distinct op \<and> set op \<subseteq> set res)) \<and>
    (su_type (sc_data s) = Type_Count \<longleftrightarrow> (\<exists>op. ops = [op] \<and> distinct op \<and> op \<noteq> [] \<and> set op \<inter> set res = {})) \<and>
    (su_type (sc_data s) = Type_Cartesian \<longleftrightarrow> 2 \<le> length ops \<and> 2 \<le> length (su_components (sc_data s))) \<and>
    (su_type (sc_data s) = Type_Cartesian \<longrightarrow> list_all2 (\<lambda>c s'. labels_of (rs_operands (sc_raw s')) = set c \<and> card (set c) < card (labels_of ops))
      (su_components (sc_data s)) (ca_subs (sc_cart s)))"
proof -
  let ?rs = "new_raw_subscript L ops res"
  have fields: "rs_operands ?rs = ops" "rs_result ?rs = res" by (simp_all add: new_raw_subscript_def)
  from new_subscript_total[OF assms, of ?rs] obtain s where s: "new_subscript L ?rs Type_None = Some s" "built_from L ?rs s" by blast
  then have d: "data_ok L ?rs (sc_data s)" by (simp add: built_from_def)
  have t: "su_type (sc_data s) = calcState L ?rs (rs_operandsLabelSet ?rs) (rs_resultLabelSet ?rs) (su_components (sc_data s))"
    using d by (simp add: data_ok_def)
  have comps: "components_of (label_rel ops) (labels_of ops) (su_components (sc_data s))" using d by (simp add: data_ok_def fields)
  have "list_all2 (\<lambda>c s'. labels_of (rs_operands (sc_raw s')) = set c \<and> card (set c) < card (labels_of ops))
      (su_components (sc_data s)) (ca_subs (sc_cart s))" if cart: "su_type (sc_data s) = Type_Cartesian"
  proof -
    have two: "1 < length (su_components (sc_data s))"
      using cart unfolding t calcState_cases(4)[OF assms label_sets(1,2)] by simp
    have "list_all2 (\<lambda>c s'. c \<in> set (su_components (sc_data s)) \<and> new_subscript L (fst (extractCartesianSubSubscript L ?rs c)) Type_None = Some s')
        (su_components (sc_data s)) (ca_subs (sc_cart s))"
      using s(2) cart by (auto simp: built_from_def parts_ok_def list_all2_conv_all_nth)
    then show ?thesis
    proof (rule list_all2_mono)
      fix c s' assume c: "c \<in> set (su_components (sc_data s)) \<and> new_subscript L (fst (extractCartesianSubSubscript L ?rs c)) Type_None = Some s'"
      then have "set c \<subseteq> labels_of ops" using comps by (auto simp: components_of_def)
      then have "labels_of (rs_operands (fst (extractCartesianSubSubscript L ?rs c))) = set c" by (intro extracted_labels) (simp add: fields)
      moreover have "sc_raw s' = fst (extractCartesianSubSubscript L ?rs c)"
        using new_subscript_built[OF assms] c by (auto simp: built_from_def data_ok_def)
      moreover have "card (set c) < card (labels_of ops)" by (rule component_smaller[OF comps two]) (use c in simp_all)
      ultimately show "labels_of (rs_operands (sc_raw s')) = set c \<and> card (set c) < card (labels_of ops)" by simp
    qed
  qed
  then show ?thesis
    using s(1) d calcState_cases[OF assms label_sets(1,2), where rs = ?rs and rl = "rs_resultLabelSet ?rs" and cs = "su_components (sc_data s)",
      folded t, unfolded label_sets fields]
    by (intro exI[of _ s]) (simp add: make_subscript_def data_ok_def)
qed

lemma subscript_constructed_witness:
  "\<exists>s. make_subscript sample_library [''ab'', ''bc'', ''d''] ''ad'' = Some s \<and> sc_raw s = new_raw_subscript sample_library [''ab'', ''bc'', ''d''] ''ad'' \<and>
    su_type (sc_data s) \<noteq> Type_EntryGenerator"
  using subscript_constructed[OF sample_env_fields(5), of "[''ab'', ''bc'', ''d'']" "''ad''"] by auto

text \<open>C5: The positions of labels, kept in 8 bits, are the true positions as long as no operand and not the result has more
  than 256 labels.\<close>

lemma label_positions_in_bounds:
  assumes "\<forall>op \<in> set (rs_operands rs). length op \<le> 256" "length (rs_result rs) \<le> 256"
  shows "map (map unat) (rs_labelPossInOperands rs l) = map (\<lambda>op. filter (\<lambda>i. op ! i = l) [0..<length op]) (rs_operands rs) \<and>
    (case map_of (rs_labelPossInResult rs) l of
       Some p \<Rightarrow> unat p < length (rs_result rs) \<and> rs_result rs ! unat p = l
     | None \<Rightarrow> l \<notin> set (rs_result rs))"
proof -
  have "map (map unat) (rs_labelPossInOperands rs l) = map (\<lambda>op. filter (\<lambda>i. op ! i = l) [0..<length op]) (rs_operands rs)"
    using assms(1) by (simp add: rs_labelPossInOperands_def label_poss_unat)
  moreover have "case map_of (rs_labelPossInResult rs) l of
       Some p \<Rightarrow> unat p < length (rs_result rs) \<and> rs_result rs ! unat p = l
     | None \<Rightarrow> l \<notin> set (rs_result rs)"
    using result_pos_unat[OF _ assms(2), of l] labelPossInResult_find[of rs l] by (auto split: option.split if_splits)
  ultimately show ?thesis by blast
qed

lemma label_positions_in_bounds_witness:
  "map (map unat) (rs_labelPossInOperands (new_raw_subscript sample_library [''aba'', ''bc''] ''cb'') CHR ''b'') = [[1], [0]]"
proof -
  let ?rs = "new_raw_subscript sample_library [''aba'', ''bc''] ''cb''"
  have "map (map unat) (rs_labelPossInOperands ?rs CHR ''b'') =
      map (\<lambda>op. filter (\<lambda>i. op ! i = CHR ''b'') [0..<length op]) (rs_operands ?rs)"
    using label_positions_in_bounds[of ?rs "CHR ''b''"] by simp
  then show ?thesis by (simp add: upt_conv_Cons)
qed

text \<open>C6: Parsing the printed form of a subscript gives back its operands and its result, with the labels renamed
  injectively. The labels are not separators of the format, the result has labels of the operands only, and
  the last of several operands has a label.\<close>

lemma subscript_text_roundtrip:
  assumes "\<forall>op \<in> set ops. no_separator op" "ops \<noteq> []" "last ops \<noteq> [] \<or> length ops = 1" "set res \<subseteq> labels_of ops"
    "rs_operands rs = ops" "rs_result rs = res"
  shows "\<exists>ren. inj_on ren (labels_of ops) \<and> from_string (rs_to_string rs) = Some (map (map ren) ops, map ren res)"
  by (rule from_string_printed[OF assms])

lemma subscript_text_roundtrip_witness:
  "\<exists>ren. inj_on ren (set ''xyz'') \<and>
    from_string (rs_to_string (new_raw_subscript sample_library [''xy'', ''yz''] ''zx'')) = Some (map (map ren) [''xy'', ''yz''], map ren ''zx'')"
proof -
  let ?rs = "new_raw_subscript sample_library [''xy'', ''yz''] ''zx''"
  have "labels_of [''xy'', ''yz''] = set ''xyz''" by auto
  then show ?thesis using subscript_text_roundtrip[of "[''xy'', ''yz'']" "''zx''" ?rs] by (simp add: no_separator_def)
qed

text \<open>C7: The estimate of the cardinality of a summation never fails on non-empty operands, whatever the arithmetic of
  doubles is: no assertion, no missing label and no position out of range.\<close>

lemma estimate_returns:
  assumes "set_order (sl_order (ee_lib V))" "inputs_ok (ee_htt V) U (ee_storage V) (rs_operands rs) Es hs"
    "data_ok (ee_lib V) rs (sc_data s)" "subscript_wf rs"
  shows "\<exists>c. estimate V hs s = Some c"
  by (rule estimate_total[OF assms])

lemma estimate_returns_witness:
  "\<exists>s c. make_subscript sample_library [''abc'', ''dcc''] ''d'' = Some s \<and> estimate (sample_env size_t_ops) [sample_hypertrie, sample_hypertrie] s = Some c"
proof -
  let ?rs = "new_raw_subscript sample_library [''abc'', ''dcc''] ''d''"
  obtain s where s: "new_subscript sample_library ?rs Type_None = Some s" "built_from sample_library ?rs s"
    using new_subscript_total[of sample_library ?rs] by auto
  have ok: "inputs_ok sample_htt sample_universe sample_storage (rs_operands ?rs) [set sample_entries, set sample_entries] [sample_hypertrie, sample_hypertrie]"
    using sample_inputs[of "[''abc'', ''dcc'']"] by (simp add: numeral_2_eq_2)
  have "\<exists>c. estimate (sample_env size_t_ops) [sample_hypertrie, sample_hypertrie] s = Some c"
    by (rule estimate_returns[where rs = ?rs and U = sample_universe and Es = "[set sample_entries, set sample_entries]"])
      (use ok s(2) in \<open>simp_all add: built_from_def subscript_wf_def\<close>)
  then show ?thesis using s(1) by (auto simp: make_subscript_def)
qed

text \<open>C8: The cardinalities of a hypertrie at chosen positions are the numbers of different key parts its entries have
  there, for handles with and without a context.\<close>

lemma get_cards_correct:
  assumes "below_ok T U \<sigma> (Suc d)" "handle_denotes T U \<sigma> d E h" "length ps \<le> d" "\<forall>p \<in> set ps. p < d"
  shows "ht_get_cards T \<sigma> h ps = Some (map (\<lambda>p. card ((\<lambda>e. fst e ! p) ` E)) ps)"
  using ht_get_cards_spec[OF assms] by (simp add: dim_card_def)

lemma get_cards_correct_witness: "ht_get_cards sample_htt sample_storage sample_hypertrie [0, 2] = Some [2, 2]"
  using get_cards_correct[OF sample_below sample_hypertrie_denotes, of "[0, 2]"] by (simp add: sample_entries_def)

end
